(* ===== verification/CK_Prelude.thy ===== *)
theory CK_Prelude
  imports Main "HOL-Library.Word"
begin

unbundle bit_operations_syntax

text \<open>
  Shared vocabulary of the development: names for the machine integer types of the C++ code,
  bounded reads and writes on byte arrays, the little-endian image of a 32-bit field, and the
  generic facts on words, masks and lists the components use. An access outside an array has the
  value \<^const>\<open>None\<close>: it stands for undefined behaviour of the C++ program, and the components
  prove that it does not occur.
\<close>

section \<open>Machine integers\<close>

type_synonym u8 = "8 word"
type_synonym u16 = "16 word"
type_synonym u32 = "32 word"
type_synonym u64 = "64 word"

text \<open>\<open>std::size_t\<close> of the 64-bit targets the project builds for.\<close>
type_synonym size_t = "64 word"

text \<open>
  \<open>ck_unat\<close> collects the equations that read a word expression of the code as arithmetic
  on \<^typ>\<open>nat\<close>; \<open>ck_inv\<close> collects the invariant-preservation facts of the components.
\<close>

named_theorems ck_unat "readings of word expressions as natural numbers"
named_theorems ck_inv "preservation of component invariants"

lemmas word_order_nat = word_less_nat_alt word_le_nat_alt word_unat_eq_iff

lemma unat_add_noflow:
  "unat (a :: 'a::len word) + unat b < 2 ^ LENGTH('a) \<Longrightarrow> unat (a + b) = unat a + unat b"
  by (simp add: unat_plus_if')

lemma unat_mult_noflow:
  "unat (a :: 'a::len word) * unat b < 2 ^ LENGTH('a) \<Longrightarrow> unat (a * b) = unat a * unat b"
  by (simp add: unat_mult_lem)

lemma unat_lt_u32 [simp]: "unat (x :: u32) < 4294967296"
  using unsigned_less [of x] by simp

lemma unat_lt_u64 [simp]: "unat (x :: u64) < 18446744073709551616"
  using unsigned_less [of x] by simp

lemma unat_ucast_u32_u64 [simp, ck_unat]: "unat (ucast (x :: u32) :: u64) = unat x"
proof -
  have "unat x mod 2 ^ 64 = unat x"
    by (rule mod_less) (rule less_trans [OF unat_lt_u32], simp)
  then show ?thesis
    by (simp add: unsigned_ucast_eq take_bit_eq_mod flip: take_bit_eq_mask)
qed

text \<open>Narrowing \<open>static_cast<std::uint32_t>\<close> of a \<open>size_t\<close> keeps values that fit.\<close>

lemma unat_ucast_u64_u32 [ck_unat]: "unat (ucast (x :: u64) :: u32) = unat x mod 4294967296"
  by (simp add: unsigned_ucast_eq take_bit_eq_mod)

lemma unat_succ_u64: "unat (i :: u64) + 1 < 2 ^ 64 \<Longrightarrow> unat (i + 1) = unat i + 1"
  by (subst unat_add_noflow) simp_all

lemma unat_succ_below: "unat (i :: u64) < unat (c :: u64) \<Longrightarrow> unat (i + 1) = unat i + 1"
proof -
  assume "unat i < unat c"
  then have "unat i + 1 < 18446744073709551616" using unat_lt_u64 [of c] by linarith
  then show ?thesis by (subst unat_add_noflow) simp_all
qed

section \<open>Masks and powers of two\<close>

lemma unat_and_mask: "unat ((x :: 'a::len word) AND mask k) = unat x mod 2 ^ k"
  by (simp add: take_bit_eq_mask [symmetric] unsigned_take_bit_eq) (simp add: take_bit_eq_mod)

lemma unat_2p: "n < LENGTH('a) \<Longrightarrow> unat (2 ^ n :: 'a::len word) = 2 ^ n"
  using unat_of_nat [of "2 ^ n", where ?'a = 'a] by (simp add: power_strict_increasing)

lemma power_two_minus_one_mask: "(2 :: 'a::len word) ^ k - 1 = mask k"
  by (simp add: mask_eq_exp_minus_1)

lemma mod_dvd_shift: "(d :: nat) dvd R \<Longrightarrow> d dvd n \<Longrightarrow> d dvd n mod R"
  by (simp add: dvd_mod)

text \<open>Distance to the end of a ring of \<open>R\<close> cells, seen from a running index.\<close>

lemma ring_tail_pos: "0 < R \<Longrightarrow> 0 < R - (n :: nat) mod R"
  by simp

lemma ring_tail_wraps: "0 < R \<Longrightarrow> (n + (R - n mod R)) mod R = (0 :: nat)"
proof -
  assume "0 < R"
  then have "n + (R - n mod R) = (n div R) * R + R"
    by (metis add_diff_inverse_nat add.assoc div_mult_mod_eq less_imp_le mod_less_divisor not_less)
  then show ?thesis by simp
qed

lemma mod_distinct:
  assumes "(i :: nat) < j" "j < i + R"
  shows "i mod R \<noteq> j mod R"
proof
  assume "i mod R = j mod R"
  then have "R dvd j - i" using assms(1) mod_eq_dvd_iff_nat [of i j R] by simp
  then have "R \<le> j - i" using assms(1) by (intro dvd_imp_le) simp_all
  with assms show False by simp
qed

lemma ring_slots_distinct:
  assumes "(i :: nat) < C" "j < C" "i \<noteq> j"
  shows "(h + i) mod C \<noteq> (h + j) mod C"
  using assms mod_distinct [of "h + i" "h + j" C] mod_distinct [of "h + j" "h + i" C]
  by (cases "i < j") auto

section \<open>Bounded access to arrays\<close>

definition read_at :: "'a list \<Rightarrow> nat \<Rightarrow> nat \<Rightarrow> 'a list option" where
  "read_at mem off n = (if off + n \<le> length mem then Some (take n (drop off mem)) else None)"

definition write_at :: "'a list \<Rightarrow> nat \<Rightarrow> 'a list \<Rightarrow> 'a list option" where
  "write_at mem off bs =
     (if off + length bs \<le> length mem
      then Some (take off mem @ bs @ drop (off + length bs) mem) else None)"

lemma write_at_Some:
  "off + length bs \<le> length mem \<Longrightarrow>
     write_at mem off bs = Some (take off mem @ bs @ drop (off + length bs) mem)"
  by (simp add: write_at_def)

lemma write_at_length: "write_at mem off bs = Some mem' \<Longrightarrow> length mem' = length mem"
  by (auto simp: write_at_def split: if_splits)

lemma write_at_nth:
  "write_at mem off bs = Some mem' \<Longrightarrow> i < length mem \<Longrightarrow>
     mem' ! i = (if off \<le> i \<and> i < off + length bs then bs ! (i - off) else mem ! i)"
  by (auto simp: write_at_def nth_append min_def split: if_splits)

lemma read_at_Some: "off + n \<le> length mem \<Longrightarrow> read_at mem off n = Some (take n (drop off mem))"
  by (simp add: read_at_def)

lemma read_at_length: "read_at mem off n = Some bs \<Longrightarrow> length bs = n"
  by (auto simp: read_at_def split: if_splits)

lemma read_at_eq_iff:
  "off + n \<le> length mem \<Longrightarrow> length bs = n \<Longrightarrow>
     read_at mem off n = Some bs \<longleftrightarrow> (\<forall>i<n. mem ! (off + i) = bs ! i)"
  by (auto simp: read_at_def list_eq_iff_nth_eq)

lemma read_at_cong:
  "length mem' = length mem \<Longrightarrow> (\<And>i. off \<le> i \<Longrightarrow> i < off + n \<Longrightarrow> mem' ! i = mem ! i) \<Longrightarrow>
     read_at mem' off n = read_at mem off n"
  by (auto simp: read_at_def list_eq_iff_nth_eq)

lemma read_at_split:
  "read_at mem off (m + n) = Some bs \<Longrightarrow>
     read_at mem off m = Some (take m bs) \<and> read_at mem (off + m) n = Some (drop m bs)"
  by (auto simp: read_at_def min_def drop_take add.commute split: if_splits)

lemma read_write_at:
  "write_at mem off bs = Some mem' \<Longrightarrow> read_at mem' off (length bs) = Some bs"
  by (auto simp: write_at_def read_at_def split: if_splits)

lemma write_at_Nil: "off \<le> length mem \<Longrightarrow> write_at mem off [] = Some mem"
  by (simp add: write_at_def)

lemma write_at_append:
  "write_at mem off a = Some mem' \<Longrightarrow> write_at mem' (off + length a) b = write_at mem off (a @ b)"
proof -
  assume "write_at mem off a = Some mem'"
  then have le: "off + length a \<le> length mem"
    and mem': "mem' = take off mem @ a @ drop (off + length a) mem"
    by (auto simp: write_at_def split: if_splits)
  from le have "min (length mem) off = off" by simp
  with le show ?thesis by (simp add: write_at_def mem' ac_simps)
qed

section \<open>The little-endian image of a 32-bit field\<close>

definition le_bytes32 :: "u32 \<Rightarrow> u8 list" where
  "le_bytes32 w = [ucast w, ucast (drop_bit 8 w), ucast (drop_bit 16 w), ucast (drop_bit 24 w)]"

definition of_le_bytes32 :: "u8 list \<Rightarrow> u32" where
  "of_le_bytes32 bs =
     (case bs of [a, b, c, d] \<Rightarrow>
        ucast a OR push_bit 8 (ucast b) OR push_bit 16 (ucast c) OR push_bit 24 (ucast d)
      | _ \<Rightarrow> 0)"

lemma length_le_bytes32 [simp]: "length (le_bytes32 w) = 4"
  by (simp add: le_bytes32_def)

lemma le_bytes32_inverse [simp]: "of_le_bytes32 (le_bytes32 w) = w"
proof (rule bit_word_eqI)
  fix n assume "n < LENGTH(32)"
  then show "bit (of_le_bytes32 (le_bytes32 w)) n = bit w n"
    by (cases "n < 8"; cases "n < 16"; cases "n < 24")
       (auto simp: of_le_bytes32_def le_bytes32_def bit_simps)
qed

section \<open>Lists\<close>

text \<open>Removing one position, as \<open>std::deque::erase\<close> and \<open>std::vector::erase\<close> do.\<close>

definition erase_at :: "nat \<Rightarrow> 'a list \<Rightarrow> 'a list" where
  "erase_at i xs = take i xs @ drop (Suc i) xs"

lemma erase_at_simps [simp]:
  "erase_at i [] = []"
  "erase_at 0 (x # xs) = xs"
  "erase_at (Suc i) (x # xs) = x # erase_at i xs"
  by (simp_all add: erase_at_def)

lemma length_erase_at: "i < length xs \<Longrightarrow> length (erase_at i xs) = length xs - 1"
  by (simp add: erase_at_def)

lemma set_erase_at_subset: "set (erase_at i xs) \<subseteq> set xs"
  by (auto simp: erase_at_def dest: in_set_takeD in_set_dropD)

lemma set_erase_at_insert: "i < length xs \<Longrightarrow> set xs = insert (xs ! i) (set (erase_at i xs))"
proof -
  assume i: "i < length xs"
  then have "xs = take i xs @ xs ! i # drop (Suc i) xs"
    by (simp add: id_take_nth_drop)
  then have "set xs = set (take i xs @ xs ! i # drop (Suc i) xs)"
    by simp
  then show ?thesis by (simp add: erase_at_def)
qed

lemma distinct_erase_at: "distinct xs \<Longrightarrow> distinct (erase_at i xs)"
  by (auto simp: erase_at_def) (metis disjoint_iff lessI set_take_disj_set_drop_if_distinct less_imp_le)

section \<open>Decimal text\<close>

text \<open>What \<open>operator<<\<close> of a C++ stream prints for an unsigned number, and its reading.\<close>

definition digit_char :: "nat \<Rightarrow> char" where
  "digit_char n = ''0123456789'' ! n"

fun dec_string :: "nat \<Rightarrow> string" where
  "dec_string n = (if n < 10 then [digit_char n] else dec_string (n div 10) @ [digit_char (n mod 10)])"

declare dec_string.simps [simp del]

definition is_digit :: "char \<Rightarrow> bool" where
  "is_digit c \<longleftrightarrow> c \<in> set ''0123456789''"

definition digit_val :: "char \<Rightarrow> nat" where
  "digit_val c = of_char c - 48"

definition dec_value :: "string \<Rightarrow> nat" where
  "dec_value ds = foldl (\<lambda>v c. 10 * v + digit_val c) 0 ds"

lemma lt_10_cases: "(n :: nat) < 10 \<Longrightarrow> n \<in> {0, 1, 2, 3, 4, 5, 6, 7, 8, 9}"
  by auto

lemma is_digit_digit_char [simp]: "n < 10 \<Longrightarrow> is_digit (digit_char n)"
  by (drule lt_10_cases) (auto simp: is_digit_def digit_char_def)

lemma digit_val_digit_char [simp]: "n < 10 \<Longrightarrow> digit_val (digit_char n) = n"
  by (drule lt_10_cases) (auto simp: digit_val_def digit_char_def)

lemma dec_string_digits: "c \<in> set (dec_string n) \<Longrightarrow> is_digit c"
proof (induction n rule: dec_string.induct)
  case (1 n)
  then show ?case by (subst (asm) (2) dec_string.simps) (auto split: if_splits)
qed

lemma dec_string_not_Nil [simp]: "dec_string n \<noteq> []"
  by (subst dec_string.simps) simp

lemma dec_value_dec_string [simp]: "dec_value (dec_string n) = n"
proof (induction n rule: dec_string.induct)
  case (1 n)
  then show ?case by (subst dec_string.simps) (auto simp: dec_value_def)
qed

end
