(* ===== verification/CK_Status.thy ===== *)
theory CK_Status
  imports CK_Prelude
begin

text \<open>
  The error model every interface of corekit returns (\<open>include/corekit/api/status.hpp\<close>,
  \<open>src/api/status.cpp\<close>): status codes, error modules, the packed 32-bit error code
  \<open>0xMMSDDDDD\<close>, the error catalogue, \<open>Status\<close> and \<open>Result<T>\<close>. The lemmas show that
  packing loses nothing but the detail bits above 20, that the catalogue has no colliding entry,
  that the textual form of a code determines it, and that \<open>Map\<close> and \<open>AndThen\<close> pass
  errors through unchanged.
\<close>

section \<open>Codes\<close>

datatype StatusCode =
    kOk | kInvalidArgument | kNotInitialized | kAlreadyInitialized | kNotFound
  | kWouldBlock | kBufferTooSmall | kIoError | kInternalError | kUnsupported

text \<open>\<open>static_cast<std::uint8_t>(status_code)\<close>: the enumerators count from 0.\<close>

fun StatusCode_u8 :: "StatusCode \<Rightarrow> u8" where
  "StatusCode_u8 kOk = 0"
| "StatusCode_u8 kInvalidArgument = 1"
| "StatusCode_u8 kNotInitialized = 2"
| "StatusCode_u8 kAlreadyInitialized = 3"
| "StatusCode_u8 kNotFound = 4"
| "StatusCode_u8 kWouldBlock = 5"
| "StatusCode_u8 kBufferTooSmall = 6"
| "StatusCode_u8 kIoError = 7"
| "StatusCode_u8 kInternalError = 8"
| "StatusCode_u8 kUnsupported = 9"

datatype ErrorModule =
  kCore | kApi | kLog | kIpc | kMemory | kConcurrent | kTask | kJson | kXml

fun ErrorModule_u8 :: "ErrorModule \<Rightarrow> u8" where
  "ErrorModule_u8 kCore = 0x00"
| "ErrorModule_u8 kApi = 0x01"
| "ErrorModule_u8 kLog = 0x10"
| "ErrorModule_u8 kIpc = 0x20"
| "ErrorModule_u8 kMemory = 0x30"
| "ErrorModule_u8 kConcurrent = 0x40"
| "ErrorModule_u8 kTask = 0x50"
| "ErrorModule_u8 kJson = 0x60"
| "ErrorModule_u8 kXml = 0x70"

definition PackErrorCode :: "u8 \<Rightarrow> u8 \<Rightarrow> u32 \<Rightarrow> u32" where
  "PackErrorCode module status detail =
     push_bit 24 (ucast module) OR
     push_bit 20 (ucast status AND 0x0F) OR
     (detail AND 0x000FFFFF)"

definition MakeErrorCode :: "ErrorModule \<Rightarrow> StatusCode \<Rightarrow> u32 \<Rightarrow> u32" where
  "MakeErrorCode module status_code detail_id =
     PackErrorCode (ErrorModule_u8 module) (StatusCode_u8 status_code) detail_id"

fun ErrorModuleName :: "ErrorModule \<Rightarrow> string" where
  "ErrorModuleName kCore = ''core''"
| "ErrorModuleName kApi = ''api''"
| "ErrorModuleName kLog = ''log''"
| "ErrorModuleName kIpc = ''ipc''"
| "ErrorModuleName kMemory = ''memory''"
| "ErrorModuleName kConcurrent = ''concurrent''"
| "ErrorModuleName kTask = ''task''"
| "ErrorModuleName kJson = ''json''"
| "ErrorModuleName kXml = ''xml''"

fun StatusCodeName :: "StatusCode \<Rightarrow> string" where
  "StatusCodeName kOk = ''kOk''"
| "StatusCodeName kInvalidArgument = ''kInvalidArgument''"
| "StatusCodeName kNotInitialized = ''kNotInitialized''"
| "StatusCodeName kAlreadyInitialized = ''kAlreadyInitialized''"
| "StatusCodeName kNotFound = ''kNotFound''"
| "StatusCodeName kWouldBlock = ''kWouldBlock''"
| "StatusCodeName kBufferTooSmall = ''kBufferTooSmall''"
| "StatusCodeName kIoError = ''kIoError''"
| "StatusCodeName kInternalError = ''kInternalError''"
| "StatusCodeName kUnsupported = ''kUnsupported''"

section \<open>The error catalogue\<close>

record ErrorCatalogEntry =
  hex_code :: u32
  symbol :: string
  description :: string

abbreviation COREKIT_ECODE :: "ErrorModule \<Rightarrow> StatusCode \<Rightarrow> u32 \<Rightarrow> u32" where
  "COREKIT_ECODE m s d \<equiv> PackErrorCode (ErrorModule_u8 m) (StatusCode_u8 s) d"

definition catalog_entry :: "u32 \<Rightarrow> string \<Rightarrow> string \<Rightarrow> ErrorCatalogEntry" where
  "catalog_entry h s d = \<lparr>hex_code = h, symbol = s, description = d\<rparr>"

definition kErrorCatalog :: "ErrorCatalogEntry list" where
  "kErrorCatalog =
    [catalog_entry (COREKIT_ECODE kCore kOk 0) ''CORE_OK'' ''Operation succeeded'',
     catalog_entry (COREKIT_ECODE kCore kInvalidArgument 0) ''CORE_INVALID_ARGUMENT''
       ''Invalid argument'',
     catalog_entry (COREKIT_ECODE kCore kNotInitialized 0) ''CORE_NOT_INITIALIZED''
       ''Object not initialized'',
     catalog_entry (COREKIT_ECODE kCore kAlreadyInitialized 0) ''CORE_ALREADY_INITIALIZED''
       ''Object already initialized'',
     catalog_entry (COREKIT_ECODE kCore kNotFound 0) ''CORE_NOT_FOUND'' ''Resource not found'',
     catalog_entry (COREKIT_ECODE kCore kWouldBlock 0) ''CORE_WOULD_BLOCK''
       ''Operation would block'',
     catalog_entry (COREKIT_ECODE kCore kBufferTooSmall 0) ''CORE_BUFFER_TOO_SMALL''
       ''Buffer is too small'',
     catalog_entry (COREKIT_ECODE kCore kIoError 0) ''CORE_IO_ERROR'' ''I/O error'',
     catalog_entry (COREKIT_ECODE kCore kInternalError 0) ''CORE_INTERNAL_ERROR''
       ''Internal error'',
     catalog_entry (COREKIT_ECODE kCore kUnsupported 0) ''CORE_UNSUPPORTED''
       ''Operation unsupported'',
     catalog_entry (COREKIT_ECODE kTask kWouldBlock 1) ''TASK_QUEUE_FULL''
       ''Task queue is full'',
     catalog_entry (COREKIT_ECODE kTask kInvalidArgument 1) ''TASK_INVALID_FN''
       ''Task function is null'',
     catalog_entry (COREKIT_ECODE kIpc kWouldBlock 1) ''IPC_QUEUE_FULL''
       ''IPC channel queue is full'',
     catalog_entry (COREKIT_ECODE kIpc kWouldBlock 2) ''IPC_QUEUE_EMPTY''
       ''IPC channel has no message'',
     catalog_entry (COREKIT_ECODE kMemory kInvalidArgument 1) ''MEM_INVALID_ALIGNMENT''
       ''Invalid memory alignment'',
     catalog_entry (COREKIT_ECODE kJson kInvalidArgument 1) ''JSON_PARSE_FAILED''
       ''JSON parse failed'',
     catalog_entry (COREKIT_ECODE kConcurrent kWouldBlock 1) ''QUEUE_FULL''
       ''Concurrent queue is full'',
     catalog_entry (COREKIT_ECODE kConcurrent kWouldBlock 2) ''QUEUE_EMPTY''
       ''Concurrent queue is empty'']"

text \<open>The loop over the array; the pointer result is \<^const>\<open>None\<close> for \<open>NULL\<close>.\<close>

fun find_entry :: "ErrorCatalogEntry list \<Rightarrow> u32 \<Rightarrow> ErrorCatalogEntry option" where
  "find_entry [] h = None"
| "find_entry (e # es) h = (if hex_code e = h then Some e else find_entry es h)"

definition FindErrorCatalogEntry :: "u32 \<Rightarrow> ErrorCatalogEntry option" where
  "FindErrorCatalogEntry h = find_entry kErrorCatalog h"

text \<open>\<open>snprintf(buf, 11, "0x%08X", code)\<close>: eight upper-case hexadecimal digits.\<close>

definition hex_digit :: "nat \<Rightarrow> char" where
  "hex_digit n = ''0123456789ABCDEF'' ! n"

definition FormatErrorCodeHex :: "u32 \<Rightarrow> string" where
  "FormatErrorCodeHex h =
     ''0x'' @ map (\<lambda>i. hex_digit (unat (drop_bit (4 * i) h AND 15))) [7, 6, 5, 4, 3, 2, 1, 0]"

section \<open>Status and Result\<close>

record Status =
  st_code :: StatusCode
  st_message :: string
  st_hex :: u32

definition Status_Ok :: Status where
  "Status_Ok = \<lparr>st_code = kOk, st_message = [], st_hex = MakeErrorCode kCore kOk 0\<rparr>"

definition mkStatus :: "StatusCode \<Rightarrow> string \<Rightarrow> Status" where
  "mkStatus code message =
     \<lparr>st_code = code, st_message = message, st_hex = MakeErrorCode kCore code 0\<rparr>"

definition Status_FromModule :: "StatusCode \<Rightarrow> string \<Rightarrow> ErrorModule \<Rightarrow> u32 \<Rightarrow> Status" where
  "Status_FromModule code message module detail_id =
     \<lparr>st_code = code, st_message = message, st_hex = MakeErrorCode module code detail_id\<rparr>"

definition status_ok :: "Status \<Rightarrow> bool" where
  "status_ok s \<longleftrightarrow> st_code s = kOk"

definition hex_code_string :: "Status \<Rightarrow> string" where
  "hex_code_string s = FormatErrorCodeHex (st_hex s)"

record 'a Result =
  res_status :: Status
  res_has_value :: bool
  res_value :: 'a

text \<open>
  \<open>Result(const Status&)\<close> value-initialises \<open>value_\<close>; the default of the element type
  is the first argument. An \<open>Ok\<close> status passed here gives a result that is \<open>ok()\<close> and
  has no value.
\<close>

definition Result_status :: "'a \<Rightarrow> Status \<Rightarrow> 'a Result" where
  "Result_status dflt st = \<lparr>res_status = st, res_has_value = False, res_value = dflt\<rparr>"

definition Result_value :: "'a \<Rightarrow> 'a Result" where
  "Result_value v = \<lparr>res_status = Status_Ok, res_has_value = True, res_value = v\<rparr>"

definition result_ok :: "'a Result \<Rightarrow> bool" where
  "result_ok r = status_ok (res_status r)"

definition ValueOr :: "'a Result \<Rightarrow> 'a \<Rightarrow> 'a" where
  "ValueOr r fallback = (if res_has_value r then res_value r else fallback)"

definition Result_Map :: "'b \<Rightarrow> ('a \<Rightarrow> 'b) \<Rightarrow> 'a Result \<Rightarrow> 'b Result" where
  "Result_Map dflt fn r =
     (if result_ok r then Result_value (fn (res_value r)) else Result_status dflt (res_status r))"

definition Result_AndThen :: "'b \<Rightarrow> ('a \<Rightarrow> 'b Result) \<Rightarrow> 'a Result \<Rightarrow> 'b Result" where
  "Result_AndThen dflt fn r =
     (if result_ok r then fn (res_value r) else Result_status dflt (res_status r))"

section \<open>Facts\<close>

lemma status_ok_simps [simp]:
  "status_ok Status_Ok"
  "status_ok (mkStatus c m) \<longleftrightarrow> c = kOk"
  "status_ok (Status_FromModule c m md d) \<longleftrightarrow> c = kOk"
  "st_code Status_Ok = kOk"
  "st_code (mkStatus c m) = c"
  "st_code (Status_FromModule c m md d) = c"
  by (simp_all add: status_ok_def Status_Ok_def mkStatus_def Status_FromModule_def)

lemma result_simps [simp]:
  "result_ok (Result_value v)"
  "result_ok (Result_status d st) \<longleftrightarrow> status_ok st"
  "res_status (Result_value v) = Status_Ok"
  "res_status (Result_status d st) = st"
  "res_value (Result_value v) = v"
  "res_has_value (Result_value v)"
  "\<not> res_has_value (Result_status d st)"
  by (simp_all add: result_ok_def Result_value_def Result_status_def)

lemma result_status_value_neq [simp]:
  "Result_status d st \<noteq> Result_value v" "Result_value v \<noteq> Result_status d st"
  by (simp_all add: Result_value_def Result_status_def)

lemma StatusCode_u8_inj [simp]: "StatusCode_u8 a = StatusCode_u8 b \<longleftrightarrow> a = b"
  by (cases a; cases b) simp_all

lemma ErrorModule_u8_inj [simp]: "ErrorModule_u8 a = ErrorModule_u8 b \<longleftrightarrow> a = b"
  by (cases a; cases b) simp_all

lemma StatusCode_u8_nibble: "(ucast (StatusCode_u8 s) :: u32) AND 0x0F = ucast (StatusCode_u8 s)"
  by (cases s) simp_all

text \<open>The three fields can be read back from a packed code.\<close>

definition ecode_module :: "u32 \<Rightarrow> u8" where
  "ecode_module h = ucast (drop_bit 24 h)"

definition ecode_status :: "u32 \<Rightarrow> u8" where
  "ecode_status h = ucast (drop_bit 20 h AND 0x0F)"

definition ecode_detail :: "u32 \<Rightarrow> u32" where
  "ecode_detail h = h AND 0x000FFFFF"

lemma mask_numerals:
  "(0x0F :: 'a::len word) = mask 4" "(0xFF :: 'a::len word) = mask 8"
  "(0x000FFFFF :: 'a::len word) = mask 20"
  by (simp_all add: mask_eq_exp_minus_1)

lemma ecode_module_pack: "ecode_module (PackErrorCode m s d) = m"
  by (rule bit_word_eqI) (auto simp: ecode_module_def PackErrorCode_def mask_numerals bit_simps)

lemma ecode_status_pack: "ecode_status (PackErrorCode m s d) = s AND 0x0F"
  by (rule bit_word_eqI) (auto simp: ecode_status_def PackErrorCode_def mask_numerals bit_simps)

lemma ecode_detail_pack: "ecode_detail (PackErrorCode m s d) = d AND 0x000FFFFF"
  by (rule bit_word_eqI) (auto simp: ecode_detail_def PackErrorCode_def mask_numerals bit_simps)

lemma PackErrorCode_eq_iff:
  "PackErrorCode m s d = PackErrorCode m' s' d' \<longleftrightarrow>
     m = m' \<and> s AND 0x0F = s' AND 0x0F \<and> d AND 0x000FFFFF = d' AND 0x000FFFFF"
  (is "?l = ?r")
proof
  assume ?l
  then show ?r
    using ecode_module_pack ecode_status_pack ecode_detail_pack by metis
next
  assume r: ?r
  then have "(ucast s :: u32) AND 0x0F = ucast s' AND 0x0F"
    by (metis (no_types, lifting) mask_numerals(1) take_bit_eq_mask unsigned_take_bit_eq)
  with r show ?l by (simp add: PackErrorCode_def)
qed

lemma StatusCode_u8_and: "StatusCode_u8 s AND 0x0F = StatusCode_u8 s"
  by (cases s) simp_all

lemma catalog_codes:
  "map hex_code kErrorCatalog =
    [0x00000000, 0x00100000, 0x00200000, 0x00300000, 0x00400000, 0x00500000, 0x00600000,
     0x00700000, 0x00800000, 0x00900000, 0x50500001, 0x50100001, 0x20500001, 0x20500002,
     0x30100001, 0x60100001, 0x40500001, 0x40500002]"
  by (simp add: kErrorCatalog_def catalog_entry_def PackErrorCode_def)

lemma find_entry_Some: "find_entry es h = Some e \<Longrightarrow> e \<in> set es \<and> hex_code e = h"
  by (induction es) (auto split: if_splits)

lemma find_entry_None: "find_entry es h = None \<longleftrightarrow> h \<notin> hex_code ` set es"
  by (induction es) auto

lemma find_entry_distinct:
  "distinct (map hex_code es) \<Longrightarrow> e \<in> set es \<Longrightarrow> find_entry es (hex_code e) = Some e"
  by (induction es) (auto simp: image_iff)

lemma hex_digit_inj: "m < 16 \<Longrightarrow> n < 16 \<Longrightarrow> hex_digit m = hex_digit n \<longleftrightarrow> m = n"
proof -
  have "distinct ''0123456789ABCDEF''" by simp
  then show "m < 16 \<Longrightarrow> n < 16 \<Longrightarrow> hex_digit m = hex_digit n \<longleftrightarrow> m = n"
    by (simp add: hex_digit_def nth_eq_iff_index_eq del: distinct.simps)
qed

lemma nibble_lt: "unat ((x :: u32) AND 15) < 16"
  using unat_and_mask [of x 4] by (simp add: mask_numerals(1))

lemma nibbles_determine:
  fixes a b :: u32
  assumes "\<And>i. i < 8 \<Longrightarrow> drop_bit (4 * i) a AND 15 = drop_bit (4 * i) b AND 15"
  shows "a = b"
proof (rule bit_word_eqI)
  fix n assume n: "n < LENGTH(32)"
  let ?i = "n div 4"
  from n have "?i < 8" by simp
  with assms have "bit (drop_bit (4 * ?i) a AND 15) (n mod 4) = bit (drop_bit (4 * ?i) b AND 15) (n mod 4)"
    by simp
  moreover have "n mod 4 < 32" by (rule less_le_trans [of _ 4]) simp_all
  ultimately show "bit a n = bit b n"
    by (simp add: mask_numerals(1) bit_simps)
qed

lemma Result_error_passes:
  "\<not> result_ok r \<Longrightarrow> res_status (Result_Map d f r) = res_status r"
  "\<not> result_ok r \<Longrightarrow> res_status (Result_AndThen d' g r) = res_status r"
  by (simp_all add: Result_Map_def Result_AndThen_def)

lemma Result_monad_laws:
  "Result_AndThen d g (Result_value v) = g v"
  "result_ok r \<Longrightarrow> res_has_value r \<Longrightarrow> res_status r = Status_Ok \<Longrightarrow> Result_AndThen d Result_value r = r"
  "Result_AndThen d h (Result_AndThen d' g r) = Result_AndThen d (\<lambda>x. Result_AndThen d h (g x)) r"
  by (auto simp: Result_AndThen_def Result_value_def result_ok_def Result_status_def)

section \<open>Properties of the error model\<close>

text \<open>
  The packed code \<open>0xMMSDDDDD\<close> identifies the module, the status family and the low 20
  bits of the detail id: two calls of \<open>MakeErrorCode\<close> agree exactly when these agree.
\<close>

theorem MakeErrorCode_inject:
  "MakeErrorCode m s d = MakeErrorCode m' s' d' \<longleftrightarrow>
     m = m' \<and> s = s' \<and> d AND 0x000FFFFF = d' AND 0x000FFFFF"
  by (simp add: MakeErrorCode_def PackErrorCode_eq_iff StatusCode_u8_and)

text \<open>
  The error catalogue is a function of the code: looking up a code finds an entry exactly
  when some entry has that code, and every entry of the table is the one found under its own
  code, so no entry is shadowed by an earlier one.
\<close>

theorem FindErrorCatalogEntry_correct:
  "FindErrorCatalogEntry h = Some e \<longleftrightarrow> e \<in> set kErrorCatalog \<and> hex_code e = h"
proof -
  have d: "distinct (map hex_code kErrorCatalog)"
    by (simp add: catalog_codes)
  show ?thesis
    using find_entry_Some [of kErrorCatalog h e] find_entry_distinct [OF d]
    by (auto simp: FindErrorCatalogEntry_def)
qed

text \<open>
  C30: The printed form of an error code is ten characters long and determines the code.
\<close>

theorem FormatErrorCodeHex_roundtrip:
  "length (FormatErrorCodeHex a) = 10 \<and> (FormatErrorCodeHex a = FormatErrorCodeHex b \<longleftrightarrow> a = b)"
proof -
  have "a = b" if eq: "FormatErrorCodeHex a = FormatErrorCodeHex b"
  proof (rule nibbles_determine)
    fix i :: nat assume "i < 8"
    then have "i = 7 \<or> i = 6 \<or> i = 5 \<or> i = 4 \<or> i = 3 \<or> i = 2 \<or> i = 1 \<or> i = 0" by arith
    with eq have "hex_digit (unat (drop_bit (4 * i) a AND 15)) = hex_digit (unat (drop_bit (4 * i) b AND 15))"
      by (auto simp: FormatErrorCodeHex_def)
    then show "drop_bit (4 * i) a AND 15 = drop_bit (4 * i) b AND 15"
      by (simp add: hex_digit_inj nibble_lt word_unat_eq_iff)
  qed
  then show ?thesis by (auto simp: FormatErrorCodeHex_def)
qed

end
