(* ===== verification/CK_Channel.thy ===== *)
theory CK_Channel
  imports CK_Status "HOL-Library.Monad_Syntax"
begin

text \<open>
  The shared-memory IPC channel (\<open>src/ipc/shared_memory_channel.cpp\<close> and \<open>.hpp\<close>,
  \<open>include/corekit/ipc/i_channel.hpp\<close>): a byte ring of variable-size frames in memory that two
  processes map, a process-local outbox in front of it, and the non-blocking \<open>TrySend\<close> and
  \<open>TryRecv\<close>. This theory is the model; \<open>CK_Channel_Ring\<close> and \<open>CK_Channel_FIFO\<close> prove it correct.

  A mapped region is the record of the \<open>SharedHeader\<close> fields and the ring bytes. A channel
  object is the record of the class's members; \<open>header_ == NULL\<close> is the flag
  \<open>header\<close>. Operations take the channel and the region and return both. The result
  \<^const>\<open>None\<close> stands for undefined behaviour (an access outside the ring, or outside the
  caller's buffer) or for a loop that does not end. The shared memory backend is the interface
  \<open>IShmBackend\<close>: a record of operations, as the virtual class is. The branch of
  \<open>BuildSharedName\<close> is the one for targets other than Windows.
\<close>

section \<open>Constants and helpers\<close>

definition kChannelMagic :: u32 where "kChannelMagic = 0x4C4B4950"
definition kChannelVersion :: u32 where "kChannelVersion = 2"
definition kFrameData :: u32 where "kFrameData = 0"
definition kFrameWrap :: u32 where "kFrameWrap = 1"

text \<open>\<open>sizeof(FrameHeader)\<close> and \<open>sizeof(SharedHeader)\<close> (four cache lines of 64 bytes).\<close>

definition sizeof_FrameHeader :: size_t where "sizeof_FrameHeader = 8"
definition sizeof_SharedHeader :: size_t where "sizeof_SharedHeader = 256"

definition BuildSharedName :: "string \<Rightarrow> string" where
  "BuildSharedName nm = ''/corekit.'' @ nm"

definition ToString :: "u32 \<Rightarrow> string" where
  "ToString v = dec_string (unat v)"

definition AlignUp :: "size_t \<Rightarrow> size_t \<Rightarrow> size_t" where
  "AlignUp v align = ((v + align - 1) div align) * align"

definition smear :: "nat \<Rightarrow> u32 \<Rightarrow> u32" where
  "smear n v = v OR drop_bit n v"

definition NextPow2 :: "u32 \<Rightarrow> u32" where
  "NextPow2 v =
     (if v \<le> 1 then 1 else smear 16 (smear 8 (smear 4 (smear 2 (smear 1 (v - 1))))) + 1)"

section \<open>State\<close>

record ChannelOptions =
  opt_name :: string
  opt_capacity :: u32
  opt_message_max_bytes :: u32
  opt_drop_when_full :: bool
  opt_timeout_ms :: u32

record ChannelStats =
  stat_send_ok :: u64
  stat_recv_ok :: u64
  stat_dropped_when_full :: u64
  stat_would_block_send :: u64
  stat_would_block_recv :: u64

record SharedHeader =
  magic :: u32
  version :: u32
  hdr_capacity :: u32
  hdr_message_max_bytes :: u32
  ring_bytes :: u32
  ring_mask :: u32
  write_index :: u64
  read_index :: u64
  send_ok :: u64
  recv_ok :: u64
  dropped_when_full :: u64

record Region =
  hdr :: SharedHeader
  ring :: "u8 list"

type_synonym PendingMessage = "u8 list"

record 'b Channel =
  shared_name :: string
  options :: ChannelOptions
  local_would_block_send :: u64
  local_would_block_recv :: u64
  local_pending_drop :: u64
  local_outbox :: "PendingMessage list"
  opened :: bool
  backend :: "'b option"
  header :: bool

definition default_options :: ChannelOptions where
  "default_options = \<lparr>opt_name = [], opt_capacity = 1024, opt_message_max_bytes = 4096,
     opt_drop_when_full = True, opt_timeout_ms = 0\<rparr>"

definition SharedMemoryChannel :: "'b Channel" where
  "SharedMemoryChannel =
     \<lparr>shared_name = [], options = default_options,
      local_would_block_send = 0, local_would_block_recv = 0, local_pending_drop = 0,
      local_outbox = [], opened = False, backend = None, header = False\<rparr>"

text \<open>The backend interface; \<open>be_region\<close> and \<open>be_store\<close> are the memory behind
  \<open>BaseAddress()\<close>.\<close>

record ('b, 'w) IShmBackend =
  be_new :: 'b
  be_create :: "string \<Rightarrow> size_t \<Rightarrow> 'b \<Rightarrow> 'w \<Rightarrow> Status \<times> 'b \<times> 'w"
  be_open :: "string \<Rightarrow> size_t \<Rightarrow> 'b \<Rightarrow> 'w \<Rightarrow> Status \<times> 'b \<times> 'w"
  be_close :: "'b \<Rightarrow> 'w \<Rightarrow> 'b \<times> 'w"
  be_region :: "'b \<Rightarrow> 'w \<Rightarrow> Region option"
  be_store :: "'b \<Rightarrow> Region \<Rightarrow> 'w \<Rightarrow> 'w"

section \<open>Size arithmetic\<close>

definition ValidateOptions :: "ChannelOptions \<Rightarrow> Status" where
  "ValidateOptions o' =
     (if opt_name o' = [] then mkStatus kInvalidArgument ''channel name is empty''
      else if opt_capacity o' = 0 then mkStatus kInvalidArgument ''capacity must be > 0''
      else if opt_message_max_bytes o' = 0
        then mkStatus kInvalidArgument ''message_max_bytes must be > 0''
      else Status_Ok)"

definition FrameBytes :: "u32 \<Rightarrow> size_t" where
  "FrameBytes payload_size = AlignUp (sizeof_FrameHeader + ucast payload_size) 8"

definition RingBytes :: "'b Channel \<Rightarrow> Region \<Rightarrow> size_t" where
  "RingBytes ch reg = (if header ch then ucast (ring_bytes (hdr reg)) else 0)"

definition RingMask :: "'b Channel \<Rightarrow> Region \<Rightarrow> size_t" where
  "RingMask ch reg = (if header ch then ucast (ring_mask (hdr reg)) else 0)"

definition TotalBytes :: "'b Channel \<Rightarrow> size_t" where
  "TotalBytes ch =
     (let stride = FrameBytes (opt_message_max_bytes (options ch));
          target = stride * ucast (opt_capacity (options ch))
      in if target > 0xFFFFFFFF then 0
         else sizeof_SharedHeader + ucast (NextPow2 (ucast target)))"

definition LocalOutboxLimit :: "'b Channel \<Rightarrow> size_t" where
  "LocalOutboxLimit ch = max 4 (ucast (opt_capacity (options ch)) * 2)"

definition ContiguousFrom :: "'b Channel \<Rightarrow> Region \<Rightarrow> u64 \<Rightarrow> size_t" where
  "ContiguousFrom ch reg index = RingBytes ch reg - (index AND RingMask ch reg)"

definition UsedBytes :: "'b Channel \<Rightarrow> Region \<Rightarrow> u64 \<Rightarrow> u64 \<Rightarrow> size_t" where
  "UsedBytes ch reg write read =
     (if write < read then RingBytes ch reg
      else if write - read > RingBytes ch reg then RingBytes ch reg
      else write - read)"

section \<open>Frames\<close>

definition put_frame_header :: "u8 list \<Rightarrow> nat \<Rightarrow> u32 \<Rightarrow> u32 \<Rightarrow> u8 list option" where
  "put_frame_header rg off sz reserved = write_at rg off (le_bytes32 sz @ le_bytes32 reserved)"

definition get_frame_header :: "u8 list \<Rightarrow> nat \<Rightarrow> (u32 \<times> u32) option" where
  "get_frame_header rg off =
     do { bs \<leftarrow> read_at rg off 8; Some (of_le_bytes32 (take 4 bs), of_le_bytes32 (drop 4 bs)) }"

definition set_write_index :: "u64 \<Rightarrow> Region \<Rightarrow> Region" where
  "set_write_index v reg = reg\<lparr>hdr := (hdr reg)\<lparr>write_index := v\<rparr>\<rparr>"

definition set_read_index :: "u64 \<Rightarrow> Region \<Rightarrow> Region" where
  "set_read_index v reg = reg\<lparr>hdr := (hdr reg)\<lparr>read_index := v\<rparr>\<rparr>"

definition count_send :: "'b Channel \<Rightarrow> 'b Channel" where
  "count_send ch = ch\<lparr>local_would_block_send := local_would_block_send ch + 1\<rparr>"

definition count_recv :: "'b Channel \<Rightarrow> 'b Channel" where
  "count_recv ch = ch\<lparr>local_would_block_recv := local_would_block_recv ch + 1\<rparr>"

definition st_full :: Status where
  "st_full = mkStatus kWouldBlock ''channel queue is full''"

definition st_no_message :: Status where
  "st_no_message = mkStatus kWouldBlock ''channel has no message''"

text \<open>The tail of \<open>TryWriteOneToShared\<close>: header, payload, padding, then the release store.\<close>

definition write_frame ::
    "'b Channel \<Rightarrow> Region \<Rightarrow> u64 \<Rightarrow> PendingMessage \<Rightarrow> (Status \<times> 'b Channel \<times> Region) option" where
  "write_frame ch reg write data =
     (let sz = of_nat (length data) :: u32; frame_bytes = FrameBytes sz;
          off = unat (write AND RingMask ch reg);
          pad = frame_bytes - sizeof_FrameHeader - ucast sz
      in do {
        r1 \<leftarrow> put_frame_header (ring reg) off sz kFrameData;
        r2 \<leftarrow> (if sz > 0 then write_at r1 (off + 8) data else Some r1);
        r3 \<leftarrow> (if pad > 0 then write_at r2 (off + 8 + unat sz) (replicate (unat pad) 0) else Some r2);
        Some (Status_Ok, ch,
          reg\<lparr>ring := r3,
              hdr := (hdr reg)\<lparr>write_index := write + frame_bytes, send_ok := send_ok (hdr reg) + 1\<rparr>\<rparr>)
      })"

definition TryWriteOneToShared ::
    "'b Channel \<Rightarrow> Region \<Rightarrow> PendingMessage \<Rightarrow> (Status \<times> 'b Channel \<times> Region) option" where
  "TryWriteOneToShared ch reg data =
     (let frame_bytes = FrameBytes (of_nat (length data)) in
      if frame_bytes > RingBytes ch reg
      then Some (mkStatus kInvalidArgument ''frame exceeds ring size'', ch, reg)
      else
        let write = write_index (hdr reg); read = read_index (hdr reg);
            free_bytes = RingBytes ch reg - UsedBytes ch reg write read;
            contiguous = ContiguousFrom ch reg write
        in
        if contiguous < sizeof_FrameHeader \<or> contiguous < frame_bytes then
          if free_bytes < contiguous + frame_bytes then Some (st_full, count_send ch, reg)
          else do {
            rg \<leftarrow> (if contiguous \<ge> sizeof_FrameHeader
                   then put_frame_header (ring reg) (unat (write AND RingMask ch reg)) 0 kFrameWrap
                   else Some (ring reg));
            let write' = write + contiguous;
            let reg' = set_write_index write' (reg\<lparr>ring := rg\<rparr>);
            let free' = RingBytes ch reg' - UsedBytes ch reg' write' (read_index (hdr reg'));
            if free' < frame_bytes then Some (st_full, count_send ch, reg')
            else write_frame ch reg' write' data
          }
        else if free_bytes < frame_bytes then Some (st_full, count_send ch, reg)
        else write_frame ch reg write data)"

section \<open>The outbox\<close>

fun ProcessIo_loop ::
    "nat \<Rightarrow> PendingMessage list \<Rightarrow> 'b Channel \<Rightarrow> Region \<Rightarrow> ('b Channel \<times> Region) option" where
  "ProcessIo_loop remaining [] ch reg = Some (ch\<lparr>local_outbox := []\<rparr>, reg)"
| "ProcessIo_loop remaining (msg # rest) ch reg =
     (if remaining = 0 then Some (ch\<lparr>local_outbox := msg # rest\<rparr>, reg)
      else case TryWriteOneToShared ch reg msg of
          None \<Rightarrow> None
        | Some (st, ch', reg') \<Rightarrow>
            if \<not> status_ok st then
              if st_code st = kWouldBlock then Some (ch'\<lparr>local_outbox := msg # rest\<rparr>, reg')
              else ProcessIo_loop remaining rest ch' reg'
            else ProcessIo_loop (remaining - 1) rest ch' reg')"

definition ProcessIoOnce :: "size_t \<Rightarrow> 'b Channel \<Rightarrow> Region \<Rightarrow> ('b Channel \<times> Region) option" where
  "ProcessIoOnce write_budget ch reg = ProcessIo_loop (unat write_budget) (local_outbox ch) ch reg"

section \<open>Send and receive\<close>

text \<open>A null data pointer is \<^const>\<open>None\<close>; the caller owns at least \<open>sz\<close> bytes otherwise.\<close>

definition TrySend ::
    "'b Channel \<Rightarrow> Region \<Rightarrow> u8 list option \<Rightarrow> u32 \<Rightarrow> (Status \<times> 'b Channel \<times> Region) option" where
  "TrySend ch reg data sz =
     (if \<not> opened ch \<or> \<not> header ch
      then Some (mkStatus kNotInitialized ''channel is not opened'', ch, reg)
      else if sz > 0 \<and> data = None
      then Some (mkStatus kInvalidArgument ''data is null'', ch, reg)
      else if sz > opt_message_max_bytes (options ch)
      then Some (mkStatus kInvalidArgument ''message exceeds max bytes'', ch, reg)
      else do {
        (ch1, reg1) \<leftarrow> ProcessIoOnce 1 ch reg;
        if unat (LocalOutboxLimit ch1) \<le> length (local_outbox ch1) then
          let ch2 = count_send ch1 in
          if opt_drop_when_full (options ch2)
          then Some (mkStatus kWouldBlock ''local pending queue is full'',
                 ch2\<lparr>local_pending_drop := local_pending_drop ch2 + 1\<rparr>,
                 reg1\<lparr>hdr := (hdr reg1)\<lparr>dropped_when_full := dropped_when_full (hdr reg1) + 1\<rparr>\<rparr>)
          else Some (mkStatus kWouldBlock ''local pending queue is full'', ch2, reg1)
        else do {
          msg \<leftarrow> (if sz > 0 then Option.bind data (\<lambda>bs. read_at bs 0 (unat sz)) else Some []);
          let ch2 = ch1\<lparr>local_outbox := local_outbox ch1 @ [msg]\<rparr>;
          let flush_budget = max 1 (min 8 (LocalOutboxLimit ch2));
          (ch3, reg3) \<leftarrow> ProcessIoOnce flush_budget ch2 reg1;
          Some (Status_Ok, ch3, reg3)
        }
      })"

type_synonym 'b recv_result = "(u32 Result \<times> u8 list option \<times> 'b Channel \<times> Region) option"

definition recv_none :: "Status \<Rightarrow> u8 list option \<Rightarrow> 'b Channel \<Rightarrow> Region \<Rightarrow> 'b recv_result" where
  "recv_none st buf ch reg = Some (Result_status 0 st, buf, ch, reg)"

text \<open>
  The step over a tail too short for a header, at two places of \<open>TryRecv\<close>: \<open>Inl\<close> when the
  reader has caught up, \<open>Inr\<close> with the new read, write and contiguous values otherwise.
\<close>

definition skip_short_tail ::
    "'b Channel \<Rightarrow> Region \<Rightarrow> u64 \<Rightarrow> u64 \<Rightarrow> size_t \<Rightarrow> Region + (u64 \<times> u64 \<times> size_t \<times> Region)" where
  "skip_short_tail ch reg read write contiguous =
     (if contiguous < sizeof_FrameHeader then
        let read' = read + contiguous; reg' = set_read_index read' reg; write' = write_index (hdr reg')
        in if read' \<ge> write' then Inl reg' else Inr (read', write', ContiguousFrom ch reg' read', reg')
      else Inr (read, write, contiguous, reg))"

text \<open>One iteration's data branch (lines after the wrap marker test).\<close>

definition recv_data ::
    "'b Channel \<Rightarrow> Region \<Rightarrow> u64 \<Rightarrow> u64 \<Rightarrow> size_t \<Rightarrow> u32 \<Rightarrow> u32 \<Rightarrow> u8 list option \<Rightarrow> u32 \<Rightarrow> 'b recv_result" where
  "recv_data ch reg read write contiguous required reserved buf buffer_size =
     (if reserved \<noteq> kFrameData
      then recv_none (mkStatus kInternalError ''corrupted frame marker'') buf ch reg
      else if required > opt_message_max_bytes (options ch)
      then recv_none (mkStatus kInternalError ''corrupted frame size'') buf ch reg
      else let frame_bytes = FrameBytes required in
        if frame_bytes > contiguous \<or> read + frame_bytes > write
        then recv_none (mkStatus kWouldBlock ''incomplete frame'') buf (count_recv ch) reg
        else if required > buffer_size
        then recv_none (mkStatus kBufferTooSmall (''buffer too small, required='' @ ToString required)) buf ch reg
        else do {
          buf' \<leftarrow> (if required > 0 then do {
                     bs \<leftarrow> read_at (ring reg) (unat (read AND RingMask ch reg) + 8) (unat required);
                     b \<leftarrow> buf;
                     b' \<leftarrow> write_at b 0 bs;
                     Some (Some b') }
                   else Some buf);
          Some (Result_value required, buf', ch,
            reg\<lparr>hdr := (hdr reg)\<lparr>read_index := read + frame_bytes, recv_ok := recv_ok (hdr reg) + 1\<rparr>\<rparr>)
        })"

partial_function (option) TryRecv_loop ::
    "'b Channel \<Rightarrow> Region \<Rightarrow> u64 \<Rightarrow> u64 \<Rightarrow> size_t \<Rightarrow> u8 list option \<Rightarrow> u32 \<Rightarrow> 'b recv_result" where
  "TryRecv_loop ch reg read write contiguous buf buffer_size =
     Option.bind (get_frame_header (ring reg) (unat (read AND RingMask ch reg))) (\<lambda>(required, reserved).
       if reserved = kFrameWrap then
         (let read' = read + contiguous; reg' = set_read_index read' reg; write' = write_index (hdr reg') in
          if read' \<ge> write' then recv_none st_no_message buf (count_recv ch) reg'
          else (case skip_short_tail ch reg' read' write' (ContiguousFrom ch reg' read') of
                  Inl reg2 \<Rightarrow> recv_none st_no_message buf (count_recv ch) reg2
                | Inr (read2, write2, contiguous2, reg2) \<Rightarrow>
                    TryRecv_loop ch reg2 read2 write2 contiguous2 buf buffer_size))
       else recv_data ch reg read write contiguous required reserved buf buffer_size)"

declare TryRecv_loop.simps [code]

definition TryRecv :: "'b Channel \<Rightarrow> Region \<Rightarrow> u8 list option \<Rightarrow> u32 \<Rightarrow> 'b recv_result" where
  "TryRecv ch reg buf buffer_size =
     (if \<not> opened ch \<or> \<not> header ch
      then recv_none (mkStatus kNotInitialized ''channel is not opened'') buf ch reg
      else if buffer_size > 0 \<and> buf = None
      then recv_none (mkStatus kInvalidArgument ''buffer is null'') buf ch reg
      else do {
        (ch1, reg1) \<leftarrow> ProcessIoOnce 1 ch reg;
        let read = read_index (hdr reg1);
        let write = write_index (hdr reg1);
        if read \<ge> write then recv_none st_no_message buf (count_recv ch1) reg1
        else (case skip_short_tail ch1 reg1 read write (ContiguousFrom ch1 reg1 read) of
                Inl reg2 \<Rightarrow> recv_none st_no_message buf (count_recv ch1) reg2
              | Inr (read2, write2, contiguous2, reg2) \<Rightarrow>
                  TryRecv_loop ch1 reg2 read2 write2 contiguous2 buf buffer_size)
      })"

definition GetStats :: "'b Channel \<Rightarrow> Region \<Rightarrow> ChannelStats" where
  "GetStats ch reg =
     \<lparr>stat_send_ok = (if header ch then send_ok (hdr reg) else 0),
      stat_recv_ok = (if header ch then recv_ok (hdr reg) else 0),
      stat_dropped_when_full = (if header ch then dropped_when_full (hdr reg) else 0),
      stat_would_block_send = local_would_block_send ch,
      stat_would_block_recv = local_would_block_recv ch\<rparr>"

section \<open>Open and close\<close>

definition ensure_backend :: "('b, 'w) IShmBackend \<Rightarrow> 'b Channel \<Rightarrow> 'b" where
  "ensure_backend vt ch = (case backend ch of None \<Rightarrow> be_new vt | Some b \<Rightarrow> b)"

text \<open>The region after \<open>memset\<close> and the initialisation of the header fields; the mapping is
  \<open>total_bytes\<close> long, the ring is what follows the header.\<close>

definition fresh_region :: "ChannelOptions \<Rightarrow> size_t \<Rightarrow> Region" where
  "fresh_region o' total_bytes =
     (let stride = ucast (FrameBytes (opt_message_max_bytes o')) :: u32;
          target = stride * opt_capacity o'; rb = NextPow2 target
      in \<lparr>hdr = \<lparr>magic = kChannelMagic, version = kChannelVersion,
                 hdr_capacity = opt_capacity o', hdr_message_max_bytes = opt_message_max_bytes o',
                 ring_bytes = rb, ring_mask = rb - 1, write_index = 0, read_index = 0,
                 send_ok = 0, recv_ok = 0, dropped_when_full = 0\<rparr>,
          ring = replicate (unat (total_bytes - sizeof_SharedHeader)) 0\<rparr>)"

definition MapAsServer ::
    "('b, 'w) IShmBackend \<Rightarrow> 'b Channel \<Rightarrow> 'w \<Rightarrow> ChannelOptions \<Rightarrow> Status \<times> 'b Channel \<times> 'w" where
  "MapAsServer vt ch w o' =
     (let total_bytes = TotalBytes ch in
      if total_bytes = 0
      then (mkStatus kInvalidArgument ''channel memory size is too large'', ch, w)
      else
        let (st, b, w1) = be_create vt (shared_name ch) total_bytes (ensure_backend vt ch) w;
            ch1 = ch\<lparr>backend := Some b\<rparr>
        in if \<not> status_ok st then (st, ch1, w1)
           else (Status_Ok, ch1\<lparr>header := True, opened := True\<rparr>,
                 be_store vt b (fresh_region o' total_bytes) w1))"

definition MapAsClient ::
    "('b, 'w) IShmBackend \<Rightarrow> 'b Channel \<Rightarrow> 'w \<Rightarrow> (Status \<times> 'b Channel \<times> 'w) option" where
  "MapAsClient vt ch w =
     (let (st, b, w1) = be_open vt (shared_name ch) sizeof_SharedHeader (ensure_backend vt ch) w;
          ch1 = ch\<lparr>backend := Some b\<rparr>
      in if \<not> status_ok st then Some (st, ch1, w1)
         else do {
           reg \<leftarrow> be_region vt b w1;
           let h = hdr reg;
           let (b2, w2) = be_close vt b w1;
           if magic h \<noteq> kChannelMagic \<or> version h \<noteq> kChannelVersion
           then Some (mkStatus kInternalError ''channel header magic/version mismatch'',
                      ch1\<lparr>backend := Some b2\<rparr>, w2)
           else if ring_bytes h = 0 \<or> ring_bytes h AND (ring_bytes h - 1) \<noteq> 0
           then Some (mkStatus kInternalError ''channel ring_bytes is invalid'',
                      ch1\<lparr>backend := Some b2\<rparr>, w2)
           else
             let ch2 = ch1\<lparr>options := (options ch1)\<lparr>opt_capacity := hdr_capacity h,
                              opt_message_max_bytes := hdr_message_max_bytes h\<rparr>\<rparr>;
                 total = sizeof_SharedHeader + ucast (ring_bytes h);
                 (st3, b3, w3) = be_open vt (shared_name ch2) total b2 w2;
                 ch3 = ch2\<lparr>backend := Some b3\<rparr>
             in if \<not> status_ok st3 then Some (st3, ch3, w3)
                else Some (Status_Ok, ch3\<lparr>header := True, opened := True\<rparr>, w3)
         })"

definition OpenServer ::
    "('b, 'w) IShmBackend \<Rightarrow> 'b Channel \<Rightarrow> 'w \<Rightarrow> ChannelOptions \<Rightarrow> Status \<times> 'b Channel \<times> 'w" where
  "OpenServer vt ch w o' =
     (if opened ch then (mkStatus kAlreadyInitialized ''channel already opened'', ch, w)
      else
        let st = ValidateOptions o' in
        if \<not> status_ok st then (st, ch, w)
        else MapAsServer vt
               (ch\<lparr>options := o', shared_name := BuildSharedName (opt_name o'),
                   local_outbox := [], local_pending_drop := 0\<rparr>) w o')"

definition OpenClient ::
    "('b, 'w) IShmBackend \<Rightarrow> 'b Channel \<Rightarrow> 'w \<Rightarrow> ChannelOptions \<Rightarrow> (Status \<times> 'b Channel \<times> 'w) option" where
  "OpenClient vt ch w o' =
     (if opened ch then Some (mkStatus kAlreadyInitialized ''channel already opened'', ch, w)
      else if opt_name o' = [] then Some (mkStatus kInvalidArgument ''channel name is empty'', ch, w)
      else MapAsClient vt
             (ch\<lparr>options := o', shared_name := BuildSharedName (opt_name o'),
                 local_outbox := [], local_pending_drop := 0\<rparr>) w)"

definition Close :: "('b, 'w) IShmBackend \<Rightarrow> 'b Channel \<Rightarrow> 'w \<Rightarrow> Status \<times> 'b Channel \<times> 'w" where
  "Close vt ch w =
     (let (b, w1) = (case backend ch of None \<Rightarrow> (None, w)
                       | Some b \<Rightarrow> (let (b', w') = be_close vt b w in (Some b', w')))
      in (Status_Ok, ch\<lparr>backend := b, local_outbox := [], header := False, opened := False\<rparr>, w1))"

end
