(* ===== verification/CK_Channel_Ring.thy ===== *)
theory CK_Channel_Ring
  imports CK_Channel
begin

text \<open>
  Correctness of the shared-memory channel. The word arithmetic of the code is first read as
  arithmetic on natural numbers; then the bytes of the ring between the read and the write index
  are related to the list of messages they hold, and every operation is shown to act on that list
  as a FIFO queue does.
\<close>

section \<open>Sizes\<close>

text \<open>Bytes of a frame with \<open>n\<close> payload bytes.\<close>

definition FB :: "nat \<Rightarrow> nat" where
  "FB n = (n + 15) div 8 * 8"

lemma FB_bounds: "8 + n \<le> FB n" "FB n < 16 + n" "8 dvd FB n" "8 \<le> FB n" "0 < FB n"
  by (auto simp: FB_def)

lemma FB_mono: "m \<le> n \<Longrightarrow> FB m \<le> FB n"
  by (simp add: FB_def div_le_mono)

lemma unat_AlignUp8:
  assumes "unat v + 7 < 2 ^ 64"
  shows "unat (AlignUp v 8) = (unat v + 7) div 8 * 8"
proof -
  have eq: "v + 8 - 1 = v + 7" by simp
  have q: "unat ((v + 7) div 8) = (unat v + 7) div 8"
    using assms unat_add_noflow [of v 7] by (simp add: unat_div)
  have "(unat v + 7) div 8 * 8 < 2 ^ 64"
    using assms by (rule le_less_trans [rotated]) simp
  then have "unat ((v + 7) div 8 * 8) = unat ((v + 7) div 8) * unat (8 :: u64)"
    by (intro unat_mult_noflow) (simp add: q)
  then show ?thesis
    unfolding AlignUp_def eq by (simp add: q)
qed

lemma unat_FrameBytes [simp, ck_unat]: "unat (FrameBytes s) = FB (unat s)"
proof -
  have lt: "unat s < 4294967296" by simp
  have "unat (8 + ucast s :: u64) = 8 + unat s"
    using less_trans [OF lt, of 18446744073709551608] by (subst unat_add_noflow) simp_all
  then show ?thesis
    using less_trans [OF lt, of 18446744073709551601] unat_AlignUp8 [of "8 + ucast s"]
    by (simp add: FrameBytes_def sizeof_FrameHeader_def FB_def add.commute)
qed

lemma smear_bits:
  assumes "\<And>i. bit x i = (\<exists>j. i \<le> j \<and> j < i + d \<and> bit w j)"
  shows "bit (smear d x) i = (\<exists>j. i \<le> j \<and> j < i + 2 * d \<and> bit (w :: u32) j)"
proof -
  have "bit (smear d x) i \<longleftrightarrow> (\<exists>j. i \<le> j \<and> j < i + d \<and> bit w j) \<or> (\<exists>j. d + i \<le> j \<and> j < d + i + d \<and> bit w j)"
    by (simp add: smear_def bit_or_iff bit_drop_bit_eq assms)
  also have "\<dots> \<longleftrightarrow> (\<exists>j. i \<le> j \<and> j < i + 2 * d \<and> bit w j)"
    by (auto simp: add.commute) (metis add.commute add.left_commute linorder_not_less mult_2 nat_add_left_cancel_less trans_le_add1)+
  finally show ?thesis .
qed


lemma bit_word_nat: "bit (w :: u32) j \<longleftrightarrow> odd (unat w div 2 ^ j)"
proof -
  have "bit w j = bit (unat w) j"
    by (auto simp: bit_unsigned_iff)
  then show ?thesis by (simp only: bit_iff_odd)
qed

lemma smear_chain:
  fixes w :: u32
  assumes "2 ^ k \<le> unat w" "unat w < 2 ^ Suc k"
  shows "smear 16 (smear 8 (smear 4 (smear 2 (smear 1 w)))) = mask (Suc k)" (is "?res = _")
proof (rule bit_word_eqI)
  fix i assume i: "i < LENGTH(32)"
  have "bit w i = (\<exists>j. i \<le> j \<and> j < i + 1 \<and> bit w j)" for i
    by (metis less_add_one linorder_not_less nless_le Suc_eq_plus1 less_Suc_eq_le order_refl)
  note b1 = smear_bits [OF this]
  note b2 = smear_bits [OF b1, simplified]
  note b3 = smear_bits [OF b2, simplified]
  note b4 = smear_bits [OF b3, simplified]
  note b5 = smear_bits [OF b4, simplified]
  have "unat w div 2 ^ k = 1" using assms by (intro div_nat_eqI) simp_all
  then have top: "bit w k" by (simp add: bit_word_nat)
  have above: "\<not> bit w j" if "k < j" for j
  proof -
    have "(2 :: nat) ^ Suc k \<le> 2 ^ j" using that by (intro power_increasing) auto
    with assms(2) have "unat w div 2 ^ j = 0" by simp
    then show ?thesis by (simp add: bit_word_nat)
  qed
  have "k < 32"
    using bit_imp_le_length [OF top] by simp
  then have "bit ?res i \<longleftrightarrow> i \<le> k"
    using top above i b5 [of i] by (auto simp: not_less [symmetric])
  then show "bit ?res i = bit (mask (Suc k) :: u32) i"
    using i by (simp add: bit_mask_iff less_Suc_eq_le)
qed


lemma NextPow2_power:
  assumes "2 \<le> unat v"
  obtains k where "2 ^ k < unat v" "unat v \<le> 2 ^ Suc k" "k < 32" "NextPow2 v = 2 ^ Suc k"
proof -
  from assms have v: "\<not> v \<le> 1" and v0: "v \<noteq> 0" by (auto simp: word_le_nat_alt)
  have w: "unat (v - 1) = unat v - 1" using v0 by (rule unat_minus_one)
  from assms have "1 \<le> unat v - 1" by simp
  then obtain k where k: "2 ^ k \<le> unat v - 1" "unat v - 1 < 2 ^ (k + 1)"
    using ex_power_ivl1 [of 2 "unat v - 1"] by auto
  have "NextPow2 v = mask (Suc k) + 1"
    using v k smear_chain [of k "v - 1"] by (simp add: NextPow2_def w)
  moreover have "(mask (Suc k) + 1 :: u32) = 2 ^ Suc k"
    by (simp add: mask_eq_exp_minus_1)
  moreover have "k < 32"
  proof (rule ccontr)
    assume "\<not> k < 32"
    then have "(4294967296 :: nat) \<le> 2 ^ k" using power_increasing [of 32 k "2 :: nat"] by simp
    with k(1) unat_lt_u32 [of v] show False by linarith
  qed
  ultimately show thesis
    using k assms by (intro that [of k]) auto
qed


section \<open>Well-formed regions\<close>

definition region_wf :: "Region \<Rightarrow> bool" where
  "region_wf reg \<longleftrightarrow>
     (\<exists>k\<in>{3..31}. ring_bytes (hdr reg) = 2 ^ k \<and> ring_mask (hdr reg) = 2 ^ k - 1
        \<and> length (ring reg) = 2 ^ k)"

abbreviation rlen :: "Region \<Rightarrow> nat" where "rlen reg \<equiv> length (ring reg)"
abbreviation widx :: "Region \<Rightarrow> nat" where "widx reg \<equiv> unat (write_index (hdr reg))"
abbreviation ridx :: "Region \<Rightarrow> nat" where "ridx reg \<equiv> unat (read_index (hdr reg))"

lemma region_wf_cong:
  "region_wf reg \<Longrightarrow> length (ring reg') = length (ring reg) \<Longrightarrow>
   ring_bytes (hdr reg') = ring_bytes (hdr reg) \<Longrightarrow> ring_mask (hdr reg') = ring_mask (hdr reg) \<Longrightarrow>
   region_wf reg'"
  by (simp add: region_wf_def)

lemma region_wf_rlen:
  assumes "region_wf reg"
  shows "8 dvd rlen reg" "8 \<le> rlen reg" "0 < rlen reg" "rlen reg \<le> 2147483648"
proof -
  from assms obtain k where k: "3 \<le> k" "k \<le> 31" "rlen reg = 2 ^ k"
    by (auto simp: region_wf_def)
  have "(2 :: nat) ^ 3 dvd 2 ^ k" using k(1) by (rule le_imp_power_dvd)
  then show "8 dvd rlen reg" using k(3) by simp
  show "8 \<le> rlen reg" using power_increasing [OF k(1), of "2 :: nat"] k(3) by simp
  then show "0 < rlen reg" by linarith
  show "rlen reg \<le> 2147483648" using power_increasing [OF k(2), of "2 :: nat"] k(3) by simp
qed

lemma unat_RingBytes [ck_unat]:
  assumes "region_wf reg" "header ch"
  shows "unat (RingBytes ch reg) = rlen reg"
  using assms by (auto simp: region_wf_def RingBytes_def unat_2p)

lemma unat_ring_offset [ck_unat]:
  assumes "region_wf reg" "header ch"
  shows "unat (i AND RingMask ch reg) = unat i mod rlen reg"
proof -
  from assms obtain k where k: "k \<le> 31" "ring_mask (hdr reg) = 2 ^ k - 1" "rlen reg = 2 ^ k"
    by (auto simp: region_wf_def)
  have "RingMask ch reg = mask k"
    using assms(2) k by (simp add: RingMask_def power_two_minus_one_mask ucast_mask_eq min_def)
  then show ?thesis using k by (simp add: unat_and_mask)
qed

lemma unat_ContiguousFrom [ck_unat]:
  assumes "region_wf reg" "header ch"
  shows "unat (ContiguousFrom ch reg i) = rlen reg - unat i mod rlen reg"
proof -
  have "unat i mod rlen reg < rlen reg"
    using region_wf_rlen(3) [OF assms(1)] by simp
  then have "i AND RingMask ch reg \<le> RingBytes ch reg"
    by (simp add: word_le_nat_alt unat_RingBytes [OF assms] unat_ring_offset [OF assms])
  then show ?thesis
    by (simp add: ContiguousFrom_def unat_sub unat_RingBytes [OF assms] unat_ring_offset [OF assms])
qed

lemma unat_UsedBytes [ck_unat]:
  assumes "region_wf reg" "header ch" "unat r \<le> unat w" "unat w - unat r \<le> rlen reg"
  shows "unat (UsedBytes ch reg w r) = unat w - unat r"
  using assms by (auto simp: UsedBytes_def word_order_nat unat_sub unat_RingBytes)

lemma unat_free_bytes [ck_unat]:
  assumes "region_wf reg" "header ch" "unat r \<le> unat w" "unat w - unat r \<le> rlen reg"
  shows "unat (RingBytes ch reg - UsedBytes ch reg w r) = rlen reg - (unat w - unat r)"
  using assms unat_UsedBytes [OF assms] by (subst unat_sub) (simp_all add: word_le_nat_alt unat_RingBytes)

section \<open>The messages a ring holds\<close>

text \<open>A data frame at an offset of the ring: header bytes, then the payload.\<close>

definition frame_image :: "u8 list \<Rightarrow> u8 list" where
  "frame_image m = le_bytes32 (of_nat (length m)) @ le_bytes32 kFrameData @ m"

definition wrap_image :: "u8 list" where
  "wrap_image = le_bytes32 0 @ le_bytes32 kFrameWrap"

text \<open>
  The bytes from \<open>r\<close> to \<open>w\<close> are the frames of \<open>ms\<close>, with wrap markers between them where a frame
  did not fit the tail. A complete sequence (\<open>t\<close> true) does not end in a wrap marker; the open
  form describes the ring between the store of a marker and the store of its frame.
\<close>

inductive ring_holds :: "u8 list \<Rightarrow> bool \<Rightarrow> nat \<Rightarrow> nat \<Rightarrow> u8 list list \<Rightarrow> bool" for rg t where
  rh_nil: "ring_holds rg t r r []"
| rh_wrap: "read_at rg (r mod length rg) 8 = Some wrap_image \<Longrightarrow>
     ring_holds rg t (r + (length rg - r mod length rg)) w ms \<Longrightarrow> (t \<Longrightarrow> ms \<noteq> []) \<Longrightarrow> ring_holds rg t r w ms"
| rh_data: "read_at rg (r mod length rg) (8 + length m) = Some (frame_image m) \<Longrightarrow>
     length m < 4294967296 \<Longrightarrow> r mod length rg + FB (length m) \<le> length rg \<Longrightarrow>
     ring_holds rg t (r + FB (length m)) w ms \<Longrightarrow> ring_holds rg t r w (m # ms)"

lemma length_frame_image [simp]: "length (frame_image m) = 8 + length m"
  by (simp add: frame_image_def)

lemma ring_holds_le: "ring_holds rg t r w ms \<Longrightarrow> r \<le> w"
  by (induction rule: ring_holds.induct) auto

lemma ring_holds_append:
  "ring_holds rg t r w ms \<Longrightarrow> ring_holds rg t' w w' ms' \<Longrightarrow> t' \<longrightarrow> t \<or> ms' \<noteq> [] \<Longrightarrow>
   ring_holds rg t' r w' (ms @ ms')"
  by (induction rule: ring_holds.induct) (auto intro: ring_holds.intros)

lemma mod_window:
  assumes "(n :: nat) mod R + d < R"
  shows "(n + d) mod R = n mod R + d"
  using assms mod_add_left_eq [of n R d] by simp

text \<open>Only the bytes between the two indices matter.\<close>

lemma ring_holds_cong:
  assumes "ring_holds rg t r w ms" "length rg' = length rg" "0 < length rg"
    and "\<And>i. r \<le> i \<Longrightarrow> i < w \<Longrightarrow> rg' ! (i mod length rg) = rg ! (i mod length rg)"
  shows "ring_holds rg' t r w ms"
  using assms
proof (induction rule: ring_holds.induct)
  case (rh_nil r)
  show ?case by (rule ring_holds.rh_nil)
next
  case (rh_wrap r w ms)
  let ?o = "r mod length rg"
  have le: "r + (length rg - ?o) \<le> w" using rh_wrap.hyps(2) by (rule ring_holds_le)
  have fit: "?o + 8 \<le> length rg" using rh_wrap.hyps(1) by (auto simp: read_at_def split: if_splits)
  have "read_at rg' ?o 8 = read_at rg ?o 8"
  proof (rule read_at_cong)
    fix i assume i: "?o \<le> i" "i < ?o + 8"
    then have "(r + (i - ?o)) mod length rg = i" using fit by (subst mod_window) auto
    moreover have "r + (i - ?o) < w" using i fit le by linarith
    ultimately show "rg' ! i = rg ! i" using rh_wrap.prems(3) [of "r + (i - ?o)"] by simp
  qed (rule rh_wrap.prems)
  moreover have "ring_holds rg' t (r + (length rg - ?o)) w ms"
  proof (rule rh_wrap.IH)
    fix i assume "r + (length rg - ?o) \<le> i" "i < w"
    then show "rg' ! (i mod length rg) = rg ! (i mod length rg)"
      by (intro rh_wrap.prems(3)) linarith+
  qed (use rh_wrap.prems in auto)
  ultimately show ?case
    using rh_wrap.hyps(1,3) rh_wrap.prems(1) ring_holds.rh_wrap [of rg' r t w ms] by simp
next
  case (rh_data r m w ms)
  let ?o = "r mod length rg"
  have le: "r + FB (length m) \<le> w" using rh_data.hyps(4) by (rule ring_holds_le)
  have "read_at rg' ?o (8 + length m) = read_at rg ?o (8 + length m)"
  proof (rule read_at_cong)
    fix i assume i: "?o \<le> i" "i < ?o + (8 + length m)"
    have "8 + length m \<le> FB (length m)" by (rule FB_bounds)
    with i rh_data.hyps(3) have "(r + (i - ?o)) mod length rg = i" by (subst mod_window) auto
    moreover have "r + (i - ?o) < w" using i le \<open>8 + length m \<le> FB (length m)\<close> by linarith
    ultimately show "rg' ! i = rg ! i" using rh_data.prems(3) [of "r + (i - ?o)"] by simp
  qed (rule rh_data.prems)
  moreover have "ring_holds rg' t (r + FB (length m)) w ms"
    using rh_data.prems by (intro rh_data.IH) auto
  ultimately show ?case
    using rh_data.hyps(1,2,3) rh_data.prems(1) ring_holds.rh_data [of rg' r m t w ms] by simp
qed

text \<open>A write behind the write index that stays within one ring length of the read index
  leaves the held messages alone.\<close>

lemma ring_holds_write:
  assumes h: "ring_holds rg t r w ms" and wr: "write_at rg (w mod length rg) bs = Some rg'"
    and room: "w + length bs \<le> r + length rg" and pos: "0 < length rg"
  shows "ring_holds rg' t r w ms"
proof (rule ring_holds_cong [OF h write_at_length [OF wr] pos])
  fix i assume i: "r \<le> i" "i < w"
  let ?p = "i mod length rg"
  have "\<not> (w mod length rg \<le> ?p \<and> ?p < w mod length rg + length bs)"
  proof
    assume p: "w mod length rg \<le> ?p \<and> ?p < w mod length rg + length bs"
    let ?j = "w + (?p - w mod length rg)"
    have "w mod length rg + (?p - w mod length rg) < length rg" using p pos by simp
    then have "?j mod length rg = ?p" by (subst mod_window) (use p in auto)
    moreover have "i < ?j" "?j < i + length rg" using i p room by linarith+
    ultimately show False using mod_distinct by metis
  qed
  then show "rg' ! ?p = rg ! ?p" using write_at_nth [OF wr, of ?p] pos by auto
qed


section \<open>Writing one frame\<close>

definition ring_state :: "bool \<Rightarrow> Region \<Rightarrow> u8 list list \<Rightarrow> bool" where
  "ring_state t reg ms \<longleftrightarrow>
     region_wf reg \<and> 8 dvd ridx reg \<and> 8 dvd widx reg \<and> widx reg - ridx reg \<le> rlen reg
     \<and> ring_holds (ring reg) t (ridx reg) (widx reg) ms"

abbreviation ring_inv :: "Region \<Rightarrow> u8 list list \<Rightarrow> bool" where
  "ring_inv \<equiv> ring_state True"

text \<open>The running indices are 64-bit byte counts that the code does not wrap; \<open>headroom\<close> says
  that fewer than \<open>2^63\<close> bytes have passed through the ring.\<close>

definition headroom :: "Region \<Rightarrow> bool" where
  "headroom reg \<longleftrightarrow> widx reg < 9223372036854775808"

text \<open>What the producer leaves alone.\<close>

definition same_geometry :: "Region \<Rightarrow> Region \<Rightarrow> bool" where
  "same_geometry reg reg' \<longleftrightarrow>
     length (ring reg') = length (ring reg) \<and> ring_bytes (hdr reg') = ring_bytes (hdr reg)
     \<and> ring_mask (hdr reg') = ring_mask (hdr reg)
     \<and> magic (hdr reg') = magic (hdr reg) \<and> version (hdr reg') = version (hdr reg)
     \<and> hdr_capacity (hdr reg') = hdr_capacity (hdr reg)
     \<and> hdr_message_max_bytes (hdr reg') = hdr_message_max_bytes (hdr reg)"

lemma same_geometry_refl [simp]: "same_geometry reg reg"
  by (simp add: same_geometry_def)

lemma same_geometry_trans: "same_geometry a b \<Longrightarrow> same_geometry b c \<Longrightarrow> same_geometry a c"
  by (simp add: same_geometry_def)

lemma same_geometry_wf: "same_geometry reg reg' \<Longrightarrow> region_wf reg \<Longrightarrow> region_wf reg'"
  by (rule region_wf_cong) (auto simp: same_geometry_def)

lemma ring_inv_le: "ring_state t reg ms \<Longrightarrow> ridx reg \<le> widx reg"
  by (auto simp: ring_state_def dest: ring_holds_le)

definition padded_frame :: "u8 list \<Rightarrow> u8 list" where
  "padded_frame m = frame_image m @ replicate (FB (length m) - 8 - length m) 0"

lemma length_padded_frame [simp]: "length (padded_frame m) = FB (length m)"
  using FB_bounds(1) [of "length m"] by (simp add: padded_frame_def)

lemma unat_length_u32: "length m < 4294967296 \<Longrightarrow> unat (of_nat (length m) :: u32) = length m"
  by (simp add: unat_of_nat)

lemma unat_pad:
  assumes "length m < 4294967296"
  shows "unat (FrameBytes (of_nat (length m)) - sizeof_FrameHeader - ucast (of_nat (length m) :: u32))
           = FB (length m) - 8 - length m"
proof -
  let ?f = "FrameBytes (of_nat (length m))"
  have f: "unat ?f = FB (length m)" using assms by (simp add: unat_length_u32)
  have a: "unat (?f - 8) = FB (length m) - 8"
    using FB_bounds(4) [of "length m"] f by (subst unat_sub) (simp_all add: word_le_nat_alt)
  have "unat (?f - 8 - ucast (of_nat (length m) :: u32)) = unat (?f - 8) - length m"
    using FB_bounds(1) [of "length m"] a assms
    by (subst unat_sub) (simp_all add: word_le_nat_alt unat_length_u32)
  then show ?thesis by (simp add: a sizeof_FrameHeader_def)
qed

lemma write_frame_eq:
  assumes wf: "region_wf reg" "header ch" and n: "length data < 4294967296"
    and fit: "unat write mod rlen reg + FB (length data) \<le> rlen reg"
  shows "write_frame ch reg write data =
    map_option (\<lambda>rg. (Status_Ok, ch,
        reg\<lparr>ring := rg,
            hdr := (hdr reg)\<lparr>write_index := write + FrameBytes (of_nat (length data)),
                             send_ok := send_ok (hdr reg) + 1\<rparr>\<rparr>))
      (write_at (ring reg) (unat write mod rlen reg) (padded_frame data))"
proof -
  let ?o = "unat write mod rlen reg" and ?h = "le_bytes32 (of_nat (length data)) @ le_bytes32 kFrameData"
  let ?z = "replicate (FB (length data) - 8 - length data) (0 :: u8)"
  note b = FB_bounds(1) [of "length data"]
  have sz: "unat (of_nat (length data) :: u32) = length data" using n by (rule unat_length_u32)
  obtain r1 where r1: "put_frame_header (ring reg) ?o (of_nat (length data)) kFrameData = Some r1"
    using fit b by (simp add: put_frame_header_def write_at_Some)
  then have r1': "write_at (ring reg) ?o ?h = Some r1" by (simp add: put_frame_header_def)
  have l1: "length r1 = rlen reg" using r1' by (rule write_at_length)
  have s2: "(if (0 :: u32) < of_nat (length data) then write_at r1 (?o + 8) data else Some r1)
              = write_at (ring reg) ?o (?h @ data)"
  proof (cases "data = []")
    case True
    then show ?thesis using r1' by simp
  next
    case False
    then have "(0 :: u32) < of_nat (length data)" using sz by (simp add: word_less_nat_alt)
    then show ?thesis using write_at_append [OF r1', of data] by simp
  qed
  obtain r2 where r2: "write_at (ring reg) ?o (?h @ data) = Some r2"
    using fit b by (simp add: write_at_Some)
  have l2: "length r2 = rlen reg" using r2 by (rule write_at_length)
  have s3: "(if 0 < FrameBytes (of_nat (length data)) - sizeof_FrameHeader - ucast (of_nat (length data) :: u32)
      then write_at r2 (?o + 8 + length data)
        (replicate (unat (FrameBytes (of_nat (length data)) - sizeof_FrameHeader - ucast (of_nat (length data) :: u32))) 0)
      else Some r2) = write_at (ring reg) ?o (padded_frame data)"
  proof -
    have "write_at r2 (?o + 8 + length data) ?z = write_at (ring reg) ?o (padded_frame data)"
      using write_at_append [OF r2, of ?z] by (simp add: padded_frame_def frame_image_def add.assoc)
    moreover have "write_at r2 (?o + 8 + length data) [] = Some r2"
      using fit b l2 by (intro write_at_Nil) linarith
    ultimately show ?thesis
      using unat_pad [OF n] by (auto simp: word_less_nat_alt)
  qed
  show ?thesis
    unfolding write_frame_def Let_def unat_ring_offset [OF wf] r1 sz
    using r2 s3 by (simp add: s2 map_conv_bind_option comp_def)
qed


lemma aligned_tail:
  assumes "(8 :: nat) dvd R" "8 dvd n" "0 < R"
  shows "n mod R + 8 \<le> R" "8 dvd R - n mod R"
proof -
  from assms have d: "8 dvd n mod R" and l: "n mod R < R" by (simp_all add: mod_dvd_shift)
  then show "8 dvd R - n mod R" using assms(1) by (simp add: dvd_diff_nat)
  then show "n mod R + 8 \<le> R" using l by (auto dest!: dvd_imp_le)
qed

text \<open>What a producer step leaves as it was.\<close>

definition producer_frame :: "Region \<Rightarrow> Region \<Rightarrow> bool" where
  "producer_frame reg reg' \<longleftrightarrow>
     same_geometry reg reg' \<and> read_index (hdr reg') = read_index (hdr reg)
     \<and> recv_ok (hdr reg') = recv_ok (hdr reg)
     \<and> dropped_when_full (hdr reg') = dropped_when_full (hdr reg)"

lemma producer_frame_refl [simp]: "producer_frame reg reg"
  by (simp add: producer_frame_def)

lemma producer_frame_trans: "producer_frame a b \<Longrightarrow> producer_frame b c \<Longrightarrow> producer_frame a c"
  by (auto simp: producer_frame_def intro: same_geometry_trans)

lemma write_frame_refines:
  assumes inv: "ring_state t reg ms" and hd: "header ch" and n: "length data < 4294967296"
    and fit: "widx reg mod rlen reg + FB (length data) \<le> rlen reg"
    and room: "widx reg + FB (length data) \<le> ridx reg + rlen reg"
    and noflow: "widx reg + FB (length data) < 18446744073709551616"
  obtains reg' where
    "write_frame ch reg (write_index (hdr reg)) data = Some (Status_Ok, ch, reg')"
    "ring_inv reg' (ms @ [data])" "producer_frame reg reg'"
    "widx reg' = widx reg + FB (length data)" "send_ok (hdr reg') = send_ok (hdr reg) + 1"
proof -
  from inv have wf: "region_wf reg" by (simp add: ring_state_def)
  note pos = region_wf_rlen(3) [OF wf]
  let ?o = "widx reg mod rlen reg" and ?n = "length data"
  obtain rg where rg: "write_at (ring reg) ?o (padded_frame data) = Some rg"
    using fit by (simp add: write_at_Some)
  note len = write_at_length [OF rg]
  let ?reg = "reg\<lparr>ring := rg, hdr := (hdr reg)\<lparr>write_index := write_index (hdr reg) + FrameBytes (of_nat ?n),
                send_ok := send_ok (hdr reg) + 1\<rparr>\<rparr>"
  have eq: "write_frame ch reg (write_index (hdr reg)) data = Some (Status_Ok, ch, ?reg)"
    using write_frame_eq [OF wf hd n fit] rg by simp
  have widx: "widx ?reg = widx reg + FB ?n"
    using noflow n by (simp add: unat_add_noflow unat_length_u32)
  have geo: "producer_frame reg ?reg" using len by (simp add: producer_frame_def same_geometry_def)
  have old: "ring_holds rg t (ridx reg) (widx reg) ms"
    using inv room by (intro ring_holds_write [OF _ rg _ pos]) (simp_all add: ring_state_def)
  have "read_at rg ?o (8 + ?n + (FB ?n - 8 - ?n)) = Some (padded_frame data)"
    using read_write_at [OF rg] FB_bounds(1) [of ?n] by simp
  then have "read_at rg ?o (8 + ?n) = Some (frame_image data)"
    using read_at_split [of rg ?o "8 + ?n" "FB ?n - 8 - ?n" "padded_frame data"]
    by (simp add: padded_frame_def)
  then have "ring_holds rg True (widx reg) (widx reg + FB ?n) [data]"
    using n fit len by (intro ring_holds.rh_data ring_holds.rh_nil) simp_all
  then have "ring_holds rg True (ridx reg) (widx reg + FB ?n) (ms @ [data])"
    by (rule ring_holds_append [OF old]) simp
  then have "ring_inv ?reg (ms @ [data])"
    using inv widx geo room FB_bounds(3) [of ?n] len ring_inv_le [OF inv]
    by (auto simp: ring_state_def producer_frame_def intro: same_geometry_wf)
  with eq geo widx show thesis by (intro that [of ?reg]) simp_all
qed

lemma wrap_refines:
  assumes inv: "ring_inv reg ms" and hd: "header ch"
    and room: "widx reg + (rlen reg - widx reg mod rlen reg) \<le> ridx reg + rlen reg"
    and noflow: "widx reg + rlen reg < 18446744073709551616"
  obtains rg where
    "put_frame_header (ring reg) (widx reg mod rlen reg) 0 kFrameWrap = Some rg"
    "ring_state False (set_write_index (write_index (hdr reg) + ContiguousFrom ch reg (write_index (hdr reg))) (reg\<lparr>ring := rg\<rparr>)) ms"
    "length rg = rlen reg"
    "widx (set_write_index (write_index (hdr reg) + ContiguousFrom ch reg (write_index (hdr reg))) (reg\<lparr>ring := rg\<rparr>))
       = widx reg + (rlen reg - widx reg mod rlen reg)"
proof -
  from inv have wf: "region_wf reg" and al: "8 dvd widx reg" by (simp_all add: ring_state_def)
  note len = region_wf_rlen [OF wf]
  let ?o = "widx reg mod rlen reg" let ?c = "rlen reg - ?o"
  note tail = aligned_tail [OF len(1) al len(3)]
  obtain rg where rg: "write_at (ring reg) ?o wrap_image = Some rg"
    using tail(1) by (simp add: wrap_image_def write_at_Some)
  note l = write_at_length [OF rg]
  have old: "ring_holds rg True (ridx reg) (widx reg) ms"
    using inv room tail(1)
    by (intro ring_holds_write [OF _ rg _ len(3)]) (simp_all add: ring_state_def wrap_image_def)
  have "read_at rg ?o 8 = Some wrap_image"
    using read_write_at [OF rg] by (simp add: wrap_image_def)
  then have "ring_holds rg False (widx reg) (widx reg + ?c) []"
    using l ring_holds.rh_wrap [of rg "widx reg" False "widx reg + ?c" "[]"] by (simp add: ring_holds.rh_nil)
  then have holds: "ring_holds rg False (ridx reg) (widx reg + ?c) ms"
    using ring_holds_append [OF old] by fastforce
  let ?reg = "set_write_index (write_index (hdr reg) + ContiguousFrom ch reg (write_index (hdr reg))) (reg\<lparr>ring := rg\<rparr>)"
  have "widx reg + ?c < 18446744073709551616" using noflow by linarith
  then have widx: "widx ?reg = widx reg + ?c"
    by (simp add: set_write_index_def unat_add_noflow unat_ContiguousFrom [OF wf hd])
  have "region_wf ?reg"
    by (rule region_wf_cong [OF wf]) (simp_all add: set_write_index_def l)
  moreover have "ridx ?reg = ridx reg" "ring ?reg = rg" by (simp_all add: set_write_index_def)
  ultimately have "ring_state False ?reg ms"
    using inv holds widx tail(2) room l by (auto simp: ring_state_def)
  with rg l widx show thesis
    by (intro that [of rg]) (simp_all add: put_frame_header_def wrap_image_def)
qed


text \<open>When a frame fits: at the current place, or behind a wrap marker.\<close>

definition tail_room :: "Region \<Rightarrow> nat" where
  "tail_room reg = rlen reg - widx reg mod rlen reg"

definition frame_fits :: "Region \<Rightarrow> nat \<Rightarrow> bool" where
  "frame_fits reg n \<longleftrightarrow>
     (if tail_room reg < FB n then tail_room reg + FB n else FB n) \<le> rlen reg - (widx reg - ridx reg)"

lemma headroom_noflow:
  "headroom reg \<Longrightarrow> region_wf reg \<Longrightarrow> k \<le> rlen reg + rlen reg \<Longrightarrow> widx reg + k < 18446744073709551616"
  using region_wf_rlen(4) [of reg] by (simp add: headroom_def)

lemma unat_wrap_need:
  assumes "region_wf reg" "header ch" "length data < 4294967296" "FB (length data) \<le> rlen reg"
  shows "unat (ContiguousFrom ch reg (write_index (hdr reg)) + FrameBytes (of_nat (length data)))
           = tail_room reg + FB (length data)"
proof -
  have "tail_room reg + FB (length data) < 2 ^ 64"
    using region_wf_rlen(4) [OF assms(1)] assms(4) by (simp add: tail_room_def)
  then show ?thesis
    using assms unat_add_noflow [of "ContiguousFrom ch reg (write_index (hdr reg))"]
    by (simp add: unat_ContiguousFrom unat_length_u32 tail_room_def)
qed

text \<open>The three outcomes of \<open>TryWriteOneToShared\<close>, each under its exact condition.\<close>

definition write_outcome ::
    "'b Channel \<Rightarrow> Region \<Rightarrow> u8 list list \<Rightarrow> u8 list \<Rightarrow> Status \<Rightarrow> 'b Channel \<Rightarrow> Region \<Rightarrow> bool" where
  "write_outcome ch reg ms data st ch' reg' \<longleftrightarrow>
     (if rlen reg < FB (length data)
      then st_code st = kInvalidArgument \<and> ch' = ch \<and> reg' = reg
      else if frame_fits reg (length data)
      then st = Status_Ok \<and> ch' = ch \<and> ring_inv reg' (ms @ [data]) \<and> producer_frame reg reg'
        \<and> send_ok (hdr reg') = send_ok (hdr reg) + 1 \<and> widx reg < widx reg'
        \<and> widx reg' \<le> widx reg + 2 * rlen reg
      else st = st_full \<and> ch' = count_send ch \<and> reg' = reg)"

lemma TryWriteOne_wrap:
  assumes inv: "ring_inv reg ms" and hd: "header ch" and n: "length data < 4294967296"
    and room: "headroom reg" and fits: "frame_fits reg (length data)"
    and ring: "FB (length data) \<le> rlen reg" and c: "tail_room reg < FB (length data)"
  shows "\<exists>st ch' reg'. TryWriteOneToShared ch reg data = Some (st, ch', reg')
           \<and> write_outcome ch reg ms data st ch' reg'"
proof -
  let ?n = "length data" let ?C = "ContiguousFrom ch reg (write_index (hdr reg))"
  from inv have wf: "region_wf reg" and al: "8 dvd widx reg" and win: "widx reg - ridx reg \<le> rlen reg"
    by (simp_all add: ring_state_def)
  note le = ring_inv_le [OF inv] and len = region_wf_rlen [OF wf]
  note tail = aligned_tail [OF len(1) al len(3)]
  from fits c win le have sum: "widx reg + tail_room reg + FB ?n \<le> ridx reg + rlen reg"
    by (simp add: frame_fits_def)
  have noflow: "widx reg + (tail_room reg + FB ?n) < 18446744073709551616"
    using headroom_noflow [OF room wf] ring by (simp add: tail_room_def)
  have rm: "widx reg + (rlen reg - widx reg mod rlen reg) \<le> ridx reg + rlen reg"
    using sum unfolding tail_room_def by linarith
  have nf: "widx reg + rlen reg < 18446744073709551616"
    by (rule headroom_noflow [OF room wf]) simp
  obtain rg where rg: "put_frame_header (ring reg) (widx reg mod rlen reg) 0 kFrameWrap = Some rg"
    and inv1: "ring_state False (set_write_index (write_index (hdr reg) + ?C) (reg\<lparr>ring := rg\<rparr>)) ms"
    and l: "length rg = rlen reg"
    and w1: "widx (set_write_index (write_index (hdr reg) + ?C) (reg\<lparr>ring := rg\<rparr>)) = widx reg + tail_room reg"
    by (rule wrap_refines [OF inv hd rm nf]) (simp only: tail_room_def)
  let ?reg1 = "set_write_index (write_index (hdr reg) + ?C) (reg\<lparr>ring := rg\<rparr>)"
  have geo1: "producer_frame reg ?reg1" "send_ok (hdr ?reg1) = send_ok (hdr reg)"
    using l by (simp_all add: producer_frame_def same_geometry_def set_write_index_def)
  have wf1: "region_wf ?reg1" using inv1 by (simp add: ring_state_def)
  have r1: "ridx ?reg1 = ridx reg" "rlen ?reg1 = rlen reg" "ring ?reg1 = rg"
    using l by (simp_all add: set_write_index_def)
  have zero: "widx ?reg1 mod rlen ?reg1 = 0"
    using ring_tail_wraps [OF len(3), of "widx reg"] by (simp add: w1 r1 l tail_room_def)
  have f1: "widx ?reg1 mod rlen ?reg1 + FB ?n \<le> rlen ?reg1"
    unfolding zero using ring r1(2) by linarith
  have f2: "widx ?reg1 + FB ?n \<le> ridx ?reg1 + rlen ?reg1"
    unfolding w1 using sum r1(1,2) by linarith
  have f3: "widx ?reg1 + FB ?n < 18446744073709551616"
    unfolding w1 using noflow by linarith
  obtain reg2 where w2: "write_frame ch ?reg1 (write_index (hdr ?reg1)) data = Some (Status_Ok, ch, reg2)"
    "ring_inv reg2 (ms @ [data])" "producer_frame ?reg1 reg2"
    "widx reg2 = widx ?reg1 + FB ?n" "send_ok (hdr reg2) = send_ok (hdr ?reg1) + 1"
    by (rule write_frame_refines [OF inv1 hd n f1 f2 f3])
  have free1: "unat (RingBytes ch ?reg1 - UsedBytes ch ?reg1 (write_index (hdr ?reg1)) (read_index (hdr ?reg1)))
                 = rlen reg - (widx reg + tail_room reg - ridx reg)"
    using unat_free_bytes [OF wf1 hd, of "read_index (hdr ?reg1)" "write_index (hdr ?reg1)"] le sum
    by (simp add: w1 r1 l)
  have "TryWriteOneToShared ch reg data = Some (Status_Ok, ch, reg2)"
  proof -
    have "\<not> RingBytes ch reg < FrameBytes (of_nat ?n)"
      using ring n by (simp add: word_less_nat_alt unat_RingBytes [OF wf hd] unat_length_u32)
    moreover have "?C < FrameBytes (of_nat ?n)"
      using c n by (simp add: word_less_nat_alt unat_ContiguousFrom [OF wf hd] unat_length_u32 tail_room_def)
    moreover have "\<not> RingBytes ch reg - UsedBytes ch reg (write_index (hdr reg)) (read_index (hdr reg))
         < ?C + FrameBytes (of_nat ?n)"
      using sum win le by (simp add: word_less_nat_alt unat_free_bytes [OF wf hd le win] unat_wrap_need [OF wf hd n ring])
    moreover have "sizeof_FrameHeader \<le> ?C"
      using tail(1) by (simp add: word_le_nat_alt sizeof_FrameHeader_def unat_ContiguousFrom [OF wf hd])
    moreover have "\<not> RingBytes ch ?reg1 - UsedBytes ch ?reg1 (write_index (hdr ?reg1)) (read_index (hdr ?reg1))
         < FrameBytes (of_nat ?n)"
      using sum n le unfolding word_less_nat_alt free1 by (simp add: unat_length_u32)
    moreover have "write_index (hdr ?reg1) = write_index (hdr reg) + ?C" by (simp add: set_write_index_def)
    ultimately show ?thesis
      using rg w2(1) unat_ring_offset [OF wf hd, of "write_index (hdr reg)"]
      by (simp add: TryWriteOneToShared_def Let_def)
  qed
  moreover have "widx reg2 \<le> widx reg + 2 * rlen reg" "widx reg < widx reg2"
    using w2(4) w1 ring FB_bounds(5) [of ?n] by (simp_all add: tail_room_def)
  ultimately show ?thesis
    using w2 geo1 fits ring producer_frame_trans [OF geo1(1) w2(3)]
    by (simp add: write_outcome_def)
qed


lemma TryWriteOne_straight:
  assumes inv: "ring_inv reg ms" and hd: "header ch" and n: "length data < 4294967296"
    and room: "headroom reg" and fits: "frame_fits reg (length data)"
    and ring: "FB (length data) \<le> rlen reg" and c: "\<not> tail_room reg < FB (length data)"
  shows "\<exists>st ch' reg'. TryWriteOneToShared ch reg data = Some (st, ch', reg')
           \<and> write_outcome ch reg ms data st ch' reg'"
proof -
  let ?n = "length data" let ?C = "ContiguousFrom ch reg (write_index (hdr reg))"
  from inv have wf: "region_wf reg" and win: "widx reg - ridx reg \<le> rlen reg" by (simp_all add: ring_state_def)
  note le = ring_inv_le [OF inv] and len = region_wf_rlen [OF wf]
  have fit: "widx reg mod rlen reg + FB ?n \<le> rlen reg"
    using c len(3) mod_less_divisor [of "rlen reg" "widx reg"] unfolding tail_room_def by linarith
  from fits c win le have rm: "widx reg + FB ?n \<le> ridx reg + rlen reg"
    by (simp add: frame_fits_def)
  have nf: "widx reg + FB ?n < 18446744073709551616"
    by (rule headroom_noflow [OF room wf]) (use ring in linarith)
  obtain reg2 where w2: "write_frame ch reg (write_index (hdr reg)) data = Some (Status_Ok, ch, reg2)"
    "ring_inv reg2 (ms @ [data])" "producer_frame reg reg2"
    "widx reg2 = widx reg + FB ?n" "send_ok (hdr reg2) = send_ok (hdr reg) + 1"
    by (rule write_frame_refines [OF inv hd n fit rm nf])
  have "\<not> RingBytes ch reg < FrameBytes (of_nat ?n)"
    using ring n by (simp add: word_less_nat_alt unat_RingBytes [OF wf hd] unat_length_u32)
  moreover have "\<not> ?C < FrameBytes (of_nat ?n)"
    using c n by (simp add: word_less_nat_alt unat_ContiguousFrom [OF wf hd] unat_length_u32 tail_room_def)
  moreover have "\<not> ?C < sizeof_FrameHeader"
    using c FB_bounds(4) [of ?n]
    by (simp add: word_less_nat_alt sizeof_FrameHeader_def unat_ContiguousFrom [OF wf hd] tail_room_def)
  moreover have "\<not> RingBytes ch reg - UsedBytes ch reg (write_index (hdr reg)) (read_index (hdr reg))
       < FrameBytes (of_nat ?n)"
    using rm win le n by (simp add: word_less_nat_alt unat_free_bytes [OF wf hd le win] unat_length_u32)
  ultimately have "TryWriteOneToShared ch reg data = Some (Status_Ok, ch, reg2)"
    using w2(1) by (simp add: TryWriteOneToShared_def Let_def)
  moreover have "widx reg2 \<le> widx reg + 2 * rlen reg" "widx reg < widx reg2"
    using w2(4) ring FB_bounds(5) [of ?n] by simp_all
  ultimately show ?thesis
    using w2 fits ring by (simp add: write_outcome_def)
qed

lemma TryWriteOne_blocked:
  assumes inv: "ring_inv reg ms" and hd: "header ch" and n: "length data < 4294967296"
    and nofit: "\<not> frame_fits reg (length data)" and ring: "FB (length data) \<le> rlen reg"
  shows "TryWriteOneToShared ch reg data = Some (st_full, count_send ch, reg)"
proof -
  let ?n = "length data" let ?C = "ContiguousFrom ch reg (write_index (hdr reg))"
  let ?F = "RingBytes ch reg - UsedBytes ch reg (write_index (hdr reg)) (read_index (hdr reg))"
  from inv have wf: "region_wf reg" and al: "8 dvd widx reg" and win: "widx reg - ridx reg \<le> rlen reg"
    by (simp_all add: ring_state_def)
  note le = ring_inv_le [OF inv] and len = region_wf_rlen [OF wf]
  have F: "unat ?F = rlen reg - (widx reg - ridx reg)" by (rule unat_free_bytes [OF wf hd le win])
  have "\<not> RingBytes ch reg < FrameBytes (of_nat ?n)"
    using ring n by (simp add: word_less_nat_alt unat_RingBytes [OF wf hd] unat_length_u32)
  moreover have "\<not> ?C < sizeof_FrameHeader"
    using aligned_tail(1) [OF len(1) al len(3)]
    by (simp add: word_less_nat_alt sizeof_FrameHeader_def unat_ContiguousFrom [OF wf hd])
  moreover have "?C < FrameBytes (of_nat ?n) \<longleftrightarrow> tail_room reg < FB ?n"
    using n by (simp add: word_less_nat_alt unat_ContiguousFrom [OF wf hd] unat_length_u32 tail_room_def)
  moreover have "?F < ?C + FrameBytes (of_nat ?n) \<longleftrightarrow> rlen reg - (widx reg - ridx reg) < tail_room reg + FB ?n"
    by (simp add: word_less_nat_alt F unat_wrap_need [OF wf hd n ring])
  moreover have "?F < FrameBytes (of_nat ?n) \<longleftrightarrow> rlen reg - (widx reg - ridx reg) < FB ?n"
    using n by (simp add: word_less_nat_alt F unat_length_u32)
  ultimately show ?thesis
    using nofit by (auto simp: TryWriteOneToShared_def Let_def frame_fits_def not_le split: if_splits)
qed

lemma TryWriteOne_outcome:
  assumes "ring_inv reg ms" "header ch" "length data < 4294967296" "headroom reg"
  obtains st ch' reg' where "TryWriteOneToShared ch reg data = Some (st, ch', reg')"
    "write_outcome ch reg ms data st ch' reg'"
proof -
  consider "rlen reg < FB (length data)"
    | "FB (length data) \<le> rlen reg" "\<not> frame_fits reg (length data)"
    | "FB (length data) \<le> rlen reg" "frame_fits reg (length data)" "tail_room reg < FB (length data)"
    | "FB (length data) \<le> rlen reg" "frame_fits reg (length data)" "\<not> tail_room reg < FB (length data)"
    by linarith
  then show thesis
  proof cases
    case 1
    have "RingBytes ch reg < FrameBytes (of_nat (length data))"
      using 1 assms by (simp add: word_less_nat_alt unat_RingBytes ring_state_def unat_length_u32)
    then show ?thesis
      using 1 that [of "mkStatus kInvalidArgument ''frame exceeds ring size''" ch reg]
      by (simp add: TryWriteOneToShared_def Let_def write_outcome_def)
  next
    case 2
    then show ?thesis
      using TryWriteOne_blocked [OF assms(1-3)] that by (simp add: write_outcome_def)
  next
    case 3
    then show ?thesis using TryWriteOne_wrap [OF assms] that by blast
  next
    case 4
    then show ?thesis using TryWriteOne_straight [OF assms] that by blast
  qed
qed

end
