(* ===== verification/CK_Channel_FIFO.thy ===== *)
theory CK_Channel_FIFO
  imports CK_Channel_Ring
begin

text \<open>
  The channel as a queue of messages: what is in the ring followed by what waits in the local
  outbox. \<open>TrySend\<close> appends to that list or refuses and leaves it alone, \<open>TryRecv\<close> takes its
  first message, and no operation reaches outside the ring or runs forever.
\<close>

section \<open>Flushing the outbox\<close>

definition mmb :: "'b Channel \<Rightarrow> nat" where
  "mmb ch = unat (opt_message_max_bytes (options ch))"

definition bounded_msgs :: "nat \<Rightarrow> u8 list list \<Rightarrow> bool" where
  "bounded_msgs n ms \<longleftrightarrow> (\<forall>m\<in>set ms. length m \<le> n)"

lemma bounded_msgs_simps [simp]:
  "bounded_msgs n []"
  "bounded_msgs n (m # ms) \<longleftrightarrow> length m \<le> n \<and> bounded_msgs n ms"
  "bounded_msgs n (ms @ ms') \<longleftrightarrow> bounded_msgs n ms \<and> bounded_msgs n ms'"
  by (auto simp: bounded_msgs_def)

text \<open>The members of a channel object that flushing and receiving do not touch.\<close>

definition io_frame :: "'b Channel \<Rightarrow> 'b Channel \<Rightarrow> bool" where
  "io_frame ch ch' \<longleftrightarrow>
     shared_name ch' = shared_name ch \<and> options ch' = options ch \<and> opened ch' = opened ch
     \<and> backend ch' = backend ch \<and> header ch' = header ch
     \<and> local_pending_drop ch' = local_pending_drop ch"

lemma io_frame_refl [simp]: "io_frame ch ch"
  by (simp add: io_frame_def)

lemma io_frame_trans: "io_frame a b \<Longrightarrow> io_frame b c \<Longrightarrow> io_frame a c"
  by (simp add: io_frame_def)

lemma io_frame_simps [simp]:
  "io_frame ch (ch\<lparr>local_outbox := x\<rparr>)" "io_frame ch (count_send ch)" "io_frame ch (count_recv ch)"
  "io_frame (ch\<lparr>local_outbox := x\<rparr>) ch' \<longleftrightarrow> io_frame ch ch'"
  by (simp_all add: io_frame_def count_send_def count_recv_def)

lemma io_frameD:
  "io_frame ch ch' \<Longrightarrow> header ch' = header ch"
  "io_frame ch ch' \<Longrightarrow> opened ch' = opened ch"
  "io_frame ch ch' \<Longrightarrow> options ch' = options ch"
  "io_frame ch ch' \<Longrightarrow> mmb ch' = mmb ch"
  by (simp_all add: io_frame_def mmb_def)

text \<open>
  The result of a flush with budget \<open>n\<close>: a prefix of the outbox has moved to the ring, the rest
  is still in the outbox, and the flush stopped because the budget or the outbox was used up or
  because the next frame does not fit.
\<close>

definition flushed ::
    "nat \<Rightarrow> u8 list list \<Rightarrow> 'b Channel \<Rightarrow> Region \<Rightarrow> u8 list list \<Rightarrow> 'b Channel \<Rightarrow> Region \<Rightarrow> nat \<Rightarrow> bool" where
  "flushed n out ch reg ms ch' reg' k \<longleftrightarrow>
     k \<le> n \<and> k \<le> length out \<and> ring_inv reg' (ms @ take k out) \<and> local_outbox ch' = drop k out
     \<and> producer_frame reg reg' \<and> io_frame ch ch'
     \<and> local_would_block_recv ch' = local_would_block_recv ch
     \<and> send_ok (hdr reg') = send_ok (hdr reg) + of_nat k
     \<and> widx reg' \<le> widx reg + 2 * rlen reg * k
     \<and> (k = n \<or> k = length out \<or> \<not> frame_fits reg' (length (out ! k)))"

lemma flushed_stop: "ring_inv reg ms \<Longrightarrow> n = 0 \<or> out = [] \<or> \<not> frame_fits reg (length (hd out)) \<Longrightarrow>
  io_frame ch ch' \<Longrightarrow> local_would_block_recv ch' = local_would_block_recv ch \<Longrightarrow>
  flushed n out ch reg ms (ch'\<lparr>local_outbox := out\<rparr>) reg 0"
  by (cases out) (auto simp: flushed_def io_frame_def)

lemma flushed_step:
  assumes w: "ring_inv reg1 (ms @ [m])" "producer_frame reg reg1"
    "send_ok (hdr reg1) = send_ok (hdr reg) + 1" "widx reg1 \<le> widx reg + 2 * rlen reg"
    and f: "flushed n out ch reg1 (ms @ [m]) ch' reg' k"
  shows "flushed (Suc n) (m # out) ch reg ms ch' reg' (Suc k)"
proof -
  have "rlen reg1 = rlen reg" using w(2) by (simp add: producer_frame_def same_geometry_def)
  then have "widx reg' \<le> widx reg + 2 * rlen reg * Suc k"
    using f w(4) by (simp add: flushed_def algebra_simps)
  then show ?thesis
    using f w producer_frame_trans [OF w(2)] by (auto simp: flushed_def add.assoc)
qed

lemma ProcessIo_loop_flushes:
  assumes "ring_inv reg ms" "header ch" "bounded_msgs N out" "FB N \<le> rlen reg"
    "widx reg + 2 * rlen reg * n < 9223372036854775808"
  shows "\<exists>ch' reg' k. ProcessIo_loop n out ch reg = Some (ch', reg') \<and> flushed n out ch reg ms ch' reg' k"
  using assms
proof (induction out arbitrary: n reg ms)
  case Nil
  then show ?case using flushed_stop [of reg ms n "[]" ch ch] by auto
next
  case (Cons m out)
  show ?case
  proof (cases n)
    case 0
    then show ?thesis using Cons.prems flushed_stop [of reg ms n "m # out" ch ch] by auto
  next
    case (Suc n')
    have m: "FB (length m) \<le> rlen reg" "length m < 4294967296"
      using Cons.prems(3,4) FB_mono [of "length m" N] FB_bounds(1) [of "length m"]
        region_wf_rlen(4) [of reg] Cons.prems(1) by (auto simp: ring_state_def)
    have "headroom reg" using Cons.prems(5) by (simp add: headroom_def)
    with m(2) Cons.prems obtain st ch1 reg1 where
      w: "TryWriteOneToShared ch reg m = Some (st, ch1, reg1)" "write_outcome ch reg ms m st ch1 reg1"
      using TryWriteOne_outcome by blast
    show ?thesis
    proof (cases "frame_fits reg (length m)")
      case False
      then have "st = st_full" "ch1 = count_send ch" "reg1 = reg"
        using w(2) m(1) by (simp_all add: write_outcome_def)
      moreover have "flushed n (m # out) ch reg ms ((count_send ch)\<lparr>local_outbox := m # out\<rparr>) reg 0"
        using False Cons.prems(1) by (intro flushed_stop) (simp_all add: io_frame_def count_send_def)
      ultimately show ?thesis using w(1) Suc by (simp add: st_full_def) blast
    next
      case True
      with w(2) m(1) have o: "st = Status_Ok" "ch1 = ch" "ring_inv reg1 (ms @ [m])" "producer_frame reg reg1"
        "send_ok (hdr reg1) = send_ok (hdr reg) + 1" "widx reg1 \<le> widx reg + 2 * rlen reg"
        by (simp_all add: write_outcome_def)
      have "rlen reg1 = rlen reg" using o(4) by (simp add: producer_frame_def same_geometry_def)
      then have "widx reg1 + 2 * rlen reg1 * n' < 9223372036854775808"
        using Cons.prems(5) o(6) Suc by (simp add: algebra_simps)
      then obtain ch' reg' k where
        "ProcessIo_loop n' out ch reg1 = Some (ch', reg')" "flushed n' out ch reg1 (ms @ [m]) ch' reg' k"
        using Cons.IH [OF o(3) Cons.prems(2), of n'] Cons.prems(3,4) \<open>rlen reg1 = rlen reg\<close>
        by (metis bounded_msgs_simps(2))
      then show ?thesis
        using w(1) o(1,2) Suc flushed_step [OF o(3-6), of n' out ch ch' reg' k] by auto
    qed
  qed
qed

section \<open>Receiving\<close>

lemma ring_holds_empty: "ring_holds rg t r w ms \<Longrightarrow> w \<le> r \<Longrightarrow> ms = []"
proof (induction rule: ring_holds.induct)
  case (rh_wrap r w ms)
  then show ?case using ring_holds_le [of rg t "r + (length rg - r mod length rg)" w ms] by simp
next
  case (rh_data r m w ms)
  then show ?case
    using ring_holds_le [of rg t "r + FB (length m)" w ms] FB_bounds(5) [of "length m"] by simp
qed simp

lemma ring_holds_complete: "ring_holds rg t r w ms \<Longrightarrow> t \<Longrightarrow> ms = [] \<Longrightarrow> r = w"
  by (induction rule: ring_holds.induct) auto

lemma ring_inv_empty_iff: "ring_inv reg ms \<Longrightarrow> ms = [] \<longleftrightarrow> ridx reg = widx reg"
  using ring_holds_empty [of "ring reg" True "ridx reg" "widx reg" ms]
    ring_holds_complete [of "ring reg" True "ridx reg" "widx reg" ms]
  by (auto simp: ring_state_def)

lemma kFrame_distinct [simp]: "kFrameWrap \<noteq> kFrameData" "kFrameData \<noteq> kFrameWrap"
  by (simp_all add: kFrameData_def kFrameWrap_def)

lemma get_frame_header_wrap:
  "read_at rg off 8 = Some wrap_image \<Longrightarrow> get_frame_header rg off = Some (0, kFrameWrap)"
  by (simp add: get_frame_header_def wrap_image_def)

lemma get_frame_header_data:
  assumes "read_at rg off (8 + length m) = Some (frame_image m)"
  shows "get_frame_header rg off = Some (of_nat (length m), kFrameData)"
    and "read_at rg (off + 8) (length m) = Some m"
  using read_at_split [OF assms] by (simp_all add: get_frame_header_def frame_image_def)

text \<open>What a consumer step leaves as it was.\<close>

definition consumer_frame :: "Region \<Rightarrow> Region \<Rightarrow> bool" where
  "consumer_frame reg reg' \<longleftrightarrow>
     ring reg' = ring reg \<and> ridx reg \<le> ridx reg'
     \<and> hdr reg' = (hdr reg)\<lparr>read_index := read_index (hdr reg'), recv_ok := recv_ok (hdr reg')\<rparr>"

lemma consumer_frame_trans: "consumer_frame a b \<Longrightarrow> consumer_frame b c \<Longrightarrow> consumer_frame a c"
  by (cases "hdr a"; cases "hdr b"; cases "hdr c") (auto simp: consumer_frame_def)

text \<open>The outcomes of the receive loop on a ring that holds \<open>ms\<close>: nothing there; a message that
  does not fit the buffer stays in the ring; otherwise the first message leaves the ring and is at
  the start of the buffer.\<close>

definition recv_outcome ::
    "'b Channel \<Rightarrow> Region \<Rightarrow> u8 list list \<Rightarrow> u8 list option \<Rightarrow> u32 \<Rightarrow>
     u32 Result \<Rightarrow> u8 list option \<Rightarrow> 'b Channel \<Rightarrow> Region \<Rightarrow> bool" where
  "recv_outcome ch reg ms buf bsz res buf' ch' reg' \<longleftrightarrow>
     consumer_frame reg reg' \<and>
     (case ms of
        [] \<Rightarrow> res = Result_status 0 st_no_message \<and> buf' = buf \<and> ch' = count_recv ch
              \<and> ring_inv reg' [] \<and> recv_ok (hdr reg') = recv_ok (hdr reg)
      | m # ms' \<Rightarrow>
          ch' = ch \<and>
          (if unat bsz < length m
           then res = Result_status 0 (mkStatus kBufferTooSmall
                        (''buffer too small, required='' @ ToString (of_nat (length m))))
                \<and> buf' = buf \<and> ring_inv reg' ms \<and> recv_ok (hdr reg') = recv_ok (hdr reg)
           else res = Result_value (of_nat (length m))
                \<and> buf' = map_option (\<lambda>b. m @ drop (length m) b) buf
                \<and> ring_inv reg' ms' \<and> recv_ok (hdr reg') = recv_ok (hdr reg) + 1))"

text \<open>The caller's buffer: null only for size 0, otherwise at least as long as announced.\<close>

definition buffer_ok :: "u8 list option \<Rightarrow> u32 \<Rightarrow> bool" where
  "buffer_ok buf bsz \<longleftrightarrow> (case buf of None \<Rightarrow> bsz = 0 | Some b \<Rightarrow> unat bsz \<le> length b)"

lemma ring_inv_skip:
  assumes inv: "ring_inv reg ms" and h: "ring_holds (ring reg) True (unat r) (widx reg) ms'"
    and r: "ridx reg \<le> unat r" "8 dvd unat r"
  shows "ring_inv (set_read_index r reg) ms'"
  using assms by (auto simp: ring_state_def set_read_index_def intro: region_wf_cong)

lemma skip_short_tail_aligned:
  assumes "region_wf reg" "header ch" "8 dvd unat r"
  shows "skip_short_tail ch reg r w (ContiguousFrom ch reg r) = Inr (r, w, ContiguousFrom ch reg r, reg)"
proof -
  note len = region_wf_rlen [OF assms(1)]
  have "\<not> ContiguousFrom ch reg r < sizeof_FrameHeader"
    using aligned_tail(1) [OF len(1) assms(3) len(3)]
    by (simp add: word_less_nat_alt sizeof_FrameHeader_def unat_ContiguousFrom [OF assms(1,2)])
  then show ?thesis by (simp add: skip_short_tail_def)
qed

text \<open>One frame is read at the head of the ring.\<close>

lemma recv_data_outcome:
  assumes inv: "ring_inv reg (m # ms)" and hd: "header ch" and room: "headroom reg"
    and rd: "read_at (ring reg) (ridx reg mod rlen reg) (8 + length m) = Some (frame_image m)"
    and n: "length m < 4294967296" and fit: "ridx reg mod rlen reg + FB (length m) \<le> rlen reg"
    and holds: "ring_holds (ring reg) True (ridx reg + FB (length m)) (widx reg) ms"
    and mx: "length m \<le> mmb ch" and buf: "buffer_ok buf bsz"
  shows "\<exists>res buf' ch' reg'.
    recv_data ch reg (read_index (hdr reg)) (write_index (hdr reg)) (ContiguousFrom ch reg (read_index (hdr reg)))
      (of_nat (length m)) kFrameData buf bsz = Some (res, buf', ch', reg')
    \<and> recv_outcome ch reg (m # ms) buf bsz res buf' ch' reg'"
proof -
  let ?r = "read_index (hdr reg)" let ?s = "of_nat (length m) :: u32"
  from inv have wf: "region_wf reg" by (simp add: ring_state_def)
  have s: "unat ?s = length m" using n by (rule unat_length_u32)
  have le: "ridx reg + FB (length m) \<le> widx reg" using holds by (rule ring_holds_le)
  have adv: "unat (?r + FrameBytes ?s) = ridx reg + FB (length m)"
    using le room by (subst unat_add_noflow) (simp_all add: s headroom_def)
  have c1: "\<not> opt_message_max_bytes (options ch) < ?s" using mx by (simp add: word_less_nat_alt s mmb_def)
  have "FB (length m) \<le> rlen reg - ridx reg mod rlen reg" using fit by linarith
  then have c2: "\<not> (ContiguousFrom ch reg ?r < FrameBytes ?s \<or> write_index (hdr reg) < ?r + FrameBytes ?s)"
    using le by (simp add: word_less_nat_alt adv s unat_ContiguousFrom [OF wf hd])
  have pay: "read_at (ring reg) (ridx reg mod rlen reg + 8) (length m) = Some m"
    using get_frame_header_data(2) [OF rd] .
  show ?thesis
  proof (cases "unat bsz < length m")
    case True
    then have "bsz < ?s" by (simp add: word_less_nat_alt s)
    with True c1 c2 inv show ?thesis
      by (simp add: recv_data_def recv_none_def recv_outcome_def consumer_frame_def)
  next
    case False
    let ?reg = "reg\<lparr>hdr := (hdr reg)\<lparr>read_index := ?r + FrameBytes ?s, recv_ok := recv_ok (hdr reg) + 1\<rparr>\<rparr>"
    have c3: "\<not> bsz < ?s" using False by (simp add: word_less_nat_alt s)
    have "ring_inv ?reg ms"
    proof -
      have "8 dvd ridx reg + FB (length m)"
        using inv FB_bounds(3) by (simp add: ring_state_def)
      moreover have "region_wf ?reg" by (rule region_wf_cong [OF wf]) simp_all
      ultimately show ?thesis using inv holds adv le by (auto simp: ring_state_def)
    qed
    moreover have "consumer_frame reg ?reg" using adv by (simp add: consumer_frame_def)
    moreover have "(if 0 < ?s then do {
                     bs \<leftarrow> read_at (ring reg) (unat (?r AND RingMask ch reg) + 8) (unat ?s);
                     b \<leftarrow> buf; b' \<leftarrow> write_at b 0 bs; Some (Some b') }
                   else Some buf) = Some (map_option (\<lambda>b. m @ drop (length m) b) buf)"
    proof (cases "m = []")
      case True
      then show ?thesis by (cases buf) simp_all
    next
      case m: False
      then have "0 < ?s" using s by (simp add: word_less_nat_alt)
      moreover obtain b where "buf = Some b" "length m \<le> length b"
        using buf False m by (cases buf) (auto simp: buffer_ok_def)
      ultimately show ?thesis
        using pay by (simp add: unat_ring_offset [OF wf hd] s write_at_Some)
    qed
    ultimately show ?thesis
      using False c1 c2 c3 by (simp add: recv_data_def recv_outcome_def)
  qed
qed

lemma TryRecv_loop_outcome:
  assumes "ring_inv reg ms" "header ch" "headroom reg" "ridx reg < widx reg"
    "bounded_msgs (mmb ch) ms" "buffer_ok buf bsz"
  shows "\<exists>res buf' ch' reg'.
    TryRecv_loop ch reg (read_index (hdr reg)) (write_index (hdr reg))
      (ContiguousFrom ch reg (read_index (hdr reg))) buf bsz = Some (res, buf', ch', reg')
    \<and> recv_outcome ch reg ms buf bsz res buf' ch' reg'"
  using assms
proof (induction "widx reg - ridx reg" arbitrary: reg rule: less_induct)
  case less
  let ?r = "read_index (hdr reg)"
  from less.prems have wf: "region_wf reg" and hd: "header ch" and al: "8 dvd ridx reg"
    and holds: "ring_holds (ring reg) True (ridx reg) (widx reg) ms" by (simp_all add: ring_state_def)
  note len = region_wf_rlen [OF wf]
  have off: "unat (?r AND RingMask ch reg) = ridx reg mod rlen reg" by (rule unat_ring_offset [OF wf hd])
  from holds show ?case
  proof (cases rule: ring_holds.cases)
    case rh_nil
    then show ?thesis using less.prems(4) by simp
  next
    case (rh_data m ms')
    then show ?thesis
      using recv_data_outcome [of reg m ms' ch buf bsz] less.prems get_frame_header_data(1) [OF rh_data(2)]
      by (simp add: TryRecv_loop.simps off)
  next
    case rh_wrap
    let ?r' = "?r + ContiguousFrom ch reg ?r" let ?reg = "set_read_index ?r' reg"
    have c: "unat (ContiguousFrom ch reg ?r) = rlen reg - ridx reg mod rlen reg"
      by (rule unat_ContiguousFrom [OF wf hd])
    have le: "ridx reg + (rlen reg - ridx reg mod rlen reg) \<le> widx reg"
      using rh_wrap(2) by (rule ring_holds_le)
    then have r': "unat ?r' = ridx reg + (rlen reg - ridx reg mod rlen reg)"
      using less.prems(3) by (subst unat_add_noflow) (simp_all add: c headroom_def)
    have al': "8 dvd unat ?r'"
      unfolding r' using al aligned_tail(2) [OF len(1) al len(3)] by simp
    have inv': "ring_inv ?reg ms"
      by (rule ring_inv_skip [OF less.prems(1)]) (use rh_wrap(2) r' al' in simp_all)
    have cf: "consumer_frame reg ?reg" "recv_ok (hdr ?reg) = recv_ok (hdr reg)"
      using r' by (simp_all add: consumer_frame_def set_read_index_def)
    have same: "write_index (hdr ?reg) = write_index (hdr reg)" "read_index (hdr ?reg) = ?r'"
      by (simp_all add: set_read_index_def)
    show ?thesis
    proof (cases "write_index (hdr reg) \<le> ?r'")
      case True
      then have "widx reg \<le> unat ?r'" by (simp add: word_le_nat_alt)
      then have "ms = []" using rh_wrap(2) r' ring_holds_empty by metis
      then show ?thesis
        using True get_frame_header_wrap [OF rh_wrap(1)] inv' cf same
        by (simp add: TryRecv_loop.simps off recv_none_def recv_outcome_def)
    next
      case False
      then have lt: "ridx ?reg < widx ?reg" unfolding same by (simp add: word_le_nat_alt)
      have "widx ?reg - ridx ?reg < widx reg - ridx reg"
        using r' le lt ring_tail_pos [OF len(3), of "ridx reg"] unfolding same by linarith
      then obtain res buf' ch' reg' where
        ih: "TryRecv_loop ch ?reg ?r' (write_index (hdr reg)) (ContiguousFrom ch ?reg ?r') buf bsz = Some (res, buf', ch', reg')"
        "recv_outcome ch ?reg ms buf bsz res buf' ch' reg'"
        using less.hyps [OF _ inv' hd _ lt less.prems(5,6)] less.prems(3) same
        by (auto simp: headroom_def)
      have "TryRecv_loop ch reg ?r (write_index (hdr reg)) (ContiguousFrom ch reg ?r) buf bsz = Some (res, buf', ch', reg')"
        using False get_frame_header_wrap [OF rh_wrap(1)] same ih(1)
          skip_short_tail_aligned [of ?reg ch ?r' "write_index (hdr reg)"] inv' hd al'
        by (subst TryRecv_loop.simps) (simp add: off Let_def ring_state_def)
      moreover have "recv_outcome ch reg ms buf bsz res buf' ch' reg'"
        using ih(2) cf consumer_frame_trans [OF cf(1)] by (auto simp: recv_outcome_def split: list.splits)
      ultimately show ?thesis by blast
    qed
  qed
qed

end
