(* ===== verification/CK_Fifo.thy ===== *)
theory CK_Fifo
  imports CK_Prelude
begin

text \<open>
  The queue interfaces of the library as contracts. \<open>IQueue\<close>, \<open>IRingBuffer\<close> and
  \<open>IChannel\<close> all offer a non-blocking put that may refuse and a non-blocking take that may find
  nothing. The contract relates the provider's state to the list of elements it holds; its first
  argument counts the operations for which the provider vouches (the shared-memory channel has
  64-bit byte counters that must not run over; the in-memory queues ignore it). What follows from
  the contract is proved once here, for any interleaving of puts and takes.
\<close>

datatype 'm fifo_op = Enq 'm | Deq

type_synonym ('m, 's) enq_fun = "'m \<Rightarrow> 's \<Rightarrow> (bool \<times> 's) option"
type_synonym ('m, 's) deq_fun = "'s \<Rightarrow> ('m option \<times> 's) option"

text \<open>A client that performs a list of operations and records what was accepted and what came out.\<close>

fun fifo_run :: "('m, 's) enq_fun \<Rightarrow> ('m, 's) deq_fun \<Rightarrow> 'm fifo_op list \<Rightarrow> 's \<Rightarrow>
    ('m list \<times> 'm list \<times> 's) option" where
  "fifo_run enq deq [] s = Some ([], [], s)"
| "fifo_run enq deq (Enq m # ops) s =
     Option.bind (enq m s) (\<lambda>(b, s1).
     Option.bind (fifo_run enq deq ops s1) (\<lambda>(acc, out, s2).
       Some (if b then m # acc else acc, out, s2)))"
| "fifo_run enq deq (Deq # ops) s =
     Option.bind (deq s) (\<lambda>(r, s1).
     Option.bind (fifo_run enq deq ops s1) (\<lambda>(acc, out, s2).
       Some (acc, case r of None \<Rightarrow> out | Some m \<Rightarrow> m # out, s2)))"

fun op_ok :: "('m \<Rightarrow> bool) \<Rightarrow> 'm fifo_op \<Rightarrow> bool" where
  "op_ok ok (Enq m) = ok m"
| "op_ok ok Deq = True"

lemma op_ok_True [simp]: "op_ok (\<lambda>_. True) p"
  by (cases p) simp_all

locale fifo_queue =
  fixes holds :: "nat \<Rightarrow> 's \<Rightarrow> 'm list \<Rightarrow> bool"
    and ok :: "'m \<Rightarrow> bool"
    and enq :: "('m, 's) enq_fun"
    and deq :: "('m, 's) deq_fun"
  assumes enq_law: "holds (Suc n) s q \<Longrightarrow> ok m \<Longrightarrow>
      \<exists>b s'. enq m s = Some (b, s') \<and> holds n s' (if b then q @ [m] else q)"
    and deq_law: "holds (Suc n) s q \<Longrightarrow>
      \<exists>r s'. deq s = Some (r, s') \<and>
        (case r of None \<Rightarrow> holds n s' q | Some m \<Rightarrow> \<exists>q'. q = m # q' \<and> holds n s' q')"
begin

text \<open>Every interleaving runs to its end without undefined behaviour; what was accepted is what
  came out followed by what is still held, in order.\<close>

lemma run_fifo:
  assumes "holds (length ops + n) s q" "\<forall>p\<in>set ops. op_ok ok p"
  shows "\<exists>acc out s' q'. fifo_run enq deq ops s = Some (acc, out, s') \<and> holds n s' q'
           \<and> q @ acc = out @ q'"
  using assms
proof (induction ops arbitrary: s q)
  case (Cons p ops)
  show ?case
  proof (cases p)
    case (Enq m)
    with Cons.prems obtain b s1 where e: "enq m s = Some (b, s1)"
      "holds (length ops + n) s1 (if b then q @ [m] else q)"
      using enq_law [of "length ops + n" s q m] by auto
    with Cons.IH [OF e(2)] Cons.prems(2) show ?thesis
      by (cases b) (fastforce simp: Enq)+
  next
    case Deq
    with Cons.prems obtain r s1 where d: "deq s = Some (r, s1)"
      "case r of None \<Rightarrow> holds (length ops + n) s1 q
         | Some m \<Rightarrow> \<exists>q'. q = m # q' \<and> holds (length ops + n) s1 q'"
      using deq_law [of "length ops + n" s q] by auto
    with Cons.IH [of s1] Cons.prems(2) show ?thesis
      by (cases r) (fastforce simp: Deq)+
  qed
qed auto

text \<open>The outputs are a prefix of the accepted messages when the queue starts empty.\<close>

lemma run_prefix:
  assumes "holds (length ops + n) s []" "\<forall>p\<in>set ops. op_ok ok p"
  shows "\<exists>acc out s'. fifo_run enq deq ops s = Some (acc, out, s') \<and> out = take (length out) acc
           \<and> length out \<le> length acc"
proof -
  obtain acc out s' q' where "fifo_run enq deq ops s = Some (acc, out, s')" "acc = out @ q'"
    using run_fifo [OF assms] by auto
  then show ?thesis by auto
qed

end

text \<open>Queues whose take finds nothing only when they are empty, and whose put refuses only when
  they are full.\<close>

locale exact_queue = fifo_queue holds ok enq deq
  for holds :: "nat \<Rightarrow> 's \<Rightarrow> 'm list \<Rightarrow> bool" and ok :: "'m \<Rightarrow> bool"
    and enq :: "('m, 's) enq_fun" and deq :: "('m, 's) deq_fun" +
  fixes cap :: "'s \<Rightarrow> nat option"
  assumes enq_exact: "holds (Suc n) s q \<Longrightarrow> ok m \<Longrightarrow> enq m s = Some (b, s') \<Longrightarrow>
      (b \<longleftrightarrow> (case cap s of None \<Rightarrow> True | Some c \<Rightarrow> length q < c)) \<and> cap s' = cap s"
    and deq_exact: "holds (Suc n) s q \<Longrightarrow> deq s = Some (r, s') \<Longrightarrow>
      (r = None \<longleftrightarrow> q = []) \<and> cap s' = cap s"
    and cap_bound: "holds n s q \<Longrightarrow> cap s = Some c \<Longrightarrow> length q \<le> c"
begin

lemma run_cap:
  assumes "holds (length ops + n) s q" "\<forall>p\<in>set ops. op_ok ok p" "fifo_run enq deq ops s = Some (acc, out, s')"
  shows "cap s' = cap s"
  using assms
proof (induction ops arbitrary: s q acc out)
  case (Cons p ops)
  show ?case
  proof (cases p)
    case (Enq m)
    with Cons.prems obtain b s1 acc' where e: "enq m s = Some (b, s1)" "fifo_run enq deq ops s1 = Some (acc', out, s')"
      by (auto split: Option.bind_splits prod.splits)
    have "holds (length ops + n) s1 (if b then q @ [m] else q)" "cap s1 = cap s"
      using enq_law [of "length ops + n" s q m] enq_exact [of "length ops + n" s q m b s1] Cons.prems e(1) Enq by auto
    with Cons.IH [OF _ _ e(2)] Cons.prems(2) show ?thesis by auto
  next
    case Deq
    with Cons.prems obtain r s1 out' where e: "deq s = Some (r, s1)" "fifo_run enq deq ops s1 = Some (acc, out', s')"
      by (auto split: Option.bind_splits prod.splits)
    obtain q1 where "holds (length ops + n) s1 q1" "cap s1 = cap s"
      using deq_law [of "length ops + n" s q] deq_exact [of "length ops + n" s q r s1] Cons.prems(1) e(1)
      by (auto split: option.splits)
    with Cons.IH [OF _ _ e(2)] Cons.prems(2) show ?thesis by auto
  qed
qed simp

lemma deq_head:
  assumes "holds (Suc n) s (m # q)"
  shows "\<exists>s'. deq s = Some (Some m, s') \<and> holds n s' q \<and> cap s' = cap s"
  using deq_law [OF assms] deq_exact [OF assms] by (auto split: option.splits)

lemma drain:
  assumes "holds (length q + n) s q"
  shows "\<exists>s'. fifo_run enq deq (replicate (length q) Deq) s = Some ([], q, s') \<and> holds n s' []"
  using assms
proof (induction q arbitrary: s)
  case (Cons m q)
  obtain s1 where "deq s = Some (Some m, s1)" "holds (length q + n) s1 q"
    using deq_head [of "length q + n" s m q] Cons.prems by auto
  with Cons.IH [of s1] show ?case by auto
qed auto

lemma fill:
  assumes "holds (length ms + n) s q" "\<forall>m\<in>set ms. ok m"
    "case cap s of None \<Rightarrow> True | Some c \<Rightarrow> length q + length ms \<le> c"
  shows "\<exists>s'. fifo_run enq deq (map Enq ms) s = Some (ms, [], s') \<and> holds n s' (q @ ms) \<and> cap s' = cap s"
  using assms
proof (induction ms arbitrary: s q)
  case (Cons m ms)
  then obtain b s1 where e: "enq m s = Some (b, s1)" "holds (length ms + n) s1 (if b then q @ [m] else q)"
    using enq_law [of "length ms + n" s q m] by auto
  have b: "b" "cap s1 = cap s"
    using enq_exact [of "length ms + n" s q m b s1] Cons.prems e(1) by (auto split: option.splits)
  then have "case cap s1 of None \<Rightarrow> True | Some c \<Rightarrow> length (q @ [m]) + length ms \<le> c"
    using Cons.prems(3) by (auto split: option.splits)
  with Cons.IH [of s1 "q @ [m]"] e b Cons.prems(2) show ?case by auto
qed auto

text \<open>Round trip: what is put into a queue with enough room comes out again, in order.\<close>

lemma fill_drain:
  assumes "holds (2 * length ms + n) s []" "\<forall>m\<in>set ms. ok m"
    "case cap s of None \<Rightarrow> True | Some c \<Rightarrow> length ms \<le> c"
  shows "\<exists>s1 s2. fifo_run enq deq (map Enq ms) s = Some (ms, [], s1)
           \<and> fifo_run enq deq (replicate (length ms) Deq) s1 = Some ([], ms, s2) \<and> holds n s2 []"
proof -
  have "holds (length ms + (length ms + n)) s []" using assms(1) by (simp add: mult_2 add.assoc)
  moreover have "case cap s of None \<Rightarrow> True | Some c \<Rightarrow> length ([] :: 'm list) + length ms \<le> c"
    using assms(3) by (auto split: option.splits)
  ultimately obtain s1 where
    s1: "fifo_run enq deq (map Enq ms) s = Some (ms, [], s1)" "holds (length ms + n) s1 ms"
    using fill [OF _ assms(2)] by fastforce
  with drain [OF s1(2)] show ?thesis by blast
qed

end

end
