(* ===== verification/CK_Channel_Api.thy ===== *)
theory CK_Channel_Api
  imports CK_Channel_FIFO CK_Fifo
begin

text \<open>
  The public operations of \<open>SharedMemoryChannel\<close>: \<open>ProcessIoOnce\<close>, \<open>TrySend\<close> and \<open>TryRecv\<close>
  on a channel that satisfies its invariant, \<open>OpenServer\<close> and \<open>OpenClient\<close> that establish it, the
  channel as a provider of the queue contract, and the two configurations for which the code does
  not deliver.
\<close>

section \<open>The channel invariant\<close>

definition chan_inv :: "'b Channel \<Rightarrow> Region \<Rightarrow> u8 list list \<Rightarrow> bool" where
  "chan_inv ch reg ms \<longleftrightarrow>
     opened ch \<and> header ch \<and> ring_inv reg ms \<and> bounded_msgs (mmb ch) ms
     \<and> bounded_msgs (mmb ch) (local_outbox ch) \<and> FB (mmb ch) \<le> rlen reg"

text \<open>Room for \<open>n\<close> more frames below \<open>2^63\<close>; a frame with its wrap marker takes at most two
  ring lengths.\<close>

definition index_room :: "nat \<Rightarrow> Region \<Rightarrow> bool" where
  "index_room n reg \<longleftrightarrow> widx reg + 2 * rlen reg * n < 9223372036854775808"

lemma index_room_mono:
  assumes "index_room n reg" "m \<le> n"
  shows "index_room m reg"
proof -
  have "2 * rlen reg * m \<le> 2 * rlen reg * n" using assms(2) by simp
  then show ?thesis using assms(1) unfolding index_room_def by linarith
qed

lemma index_room_headroom: "index_room n reg \<Longrightarrow> headroom reg"
  by (simp add: index_room_def headroom_def)

lemma bounded_msgs_take_drop:
  "bounded_msgs n ms \<Longrightarrow> bounded_msgs n (take k ms)" "bounded_msgs n ms \<Longrightarrow> bounded_msgs n (drop k ms)"
  by (auto simp: bounded_msgs_def dest: in_set_takeD in_set_dropD)

lemma ProcessIoOnce_flushes:
  assumes inv: "chan_inv ch reg ms" and room: "index_room (unat b + n) reg"
  obtains ch' reg' k where "ProcessIoOnce b ch reg = Some (ch', reg')"
    "flushed (unat b) (local_outbox ch) ch reg ms ch' reg' k"
    "chan_inv ch' reg' (ms @ take k (local_outbox ch))" "index_room n reg'"
proof -
  from inv have ri: "ring_inv reg ms" and wf: "region_wf reg" by (simp_all add: chan_inv_def ring_state_def)
  have "widx reg + 2 * rlen reg * unat b < 9223372036854775808"
    using room by (simp add: index_room_def distrib_left)
  then obtain ch' reg' k where p: "ProcessIo_loop (unat b) (local_outbox ch) ch reg = Some (ch', reg')"
    and f: "flushed (unat b) (local_outbox ch) ch reg ms ch' reg' k"
    using ProcessIo_loop_flushes [OF ri] inv unfolding chan_inv_def by blast
  have "chan_inv ch' reg' (ms @ take k (local_outbox ch))"
    using inv f io_frameD [of ch ch'] bounded_msgs_take_drop
    by (auto simp: chan_inv_def flushed_def producer_frame_def same_geometry_def)
  moreover have "index_room n reg'"
  proof -
    have k: "k \<le> unat b" "widx reg' \<le> widx reg + 2 * rlen reg * k" and l: "rlen reg' = rlen reg"
      using f by (simp_all add: flushed_def producer_frame_def same_geometry_def)
    moreover have "2 * rlen reg * k \<le> 2 * rlen reg * unat b" using k(1) by simp
    ultimately show ?thesis using room unfolding index_room_def distrib_left l by linarith
  qed
  ultimately show thesis using that [of ch' reg' k] p f by (simp add: ProcessIoOnce_def)
qed

section \<open>Sending\<close>

definition send_accept ::
    "'b Channel \<Rightarrow> Region \<Rightarrow> u8 list list \<Rightarrow> u8 list \<Rightarrow> Status \<Rightarrow> 'b Channel \<Rightarrow> Region \<Rightarrow> u8 list list \<Rightarrow> bool" where
  "send_accept ch reg ms msg st ch' reg' ms' \<longleftrightarrow>
     st = Status_Ok \<and> ms' @ local_outbox ch' = (ms @ local_outbox ch) @ [msg]
     \<and> dropped_when_full (hdr reg') = dropped_when_full (hdr reg)
     \<and> local_pending_drop ch' = local_pending_drop ch"

definition send_refuse ::
    "'b Channel \<Rightarrow> Region \<Rightarrow> u8 list list \<Rightarrow> Status \<Rightarrow> 'b Channel \<Rightarrow> Region \<Rightarrow> u8 list list \<Rightarrow> bool" where
  "send_refuse ch reg ms st ch' reg' ms' \<longleftrightarrow>
     st = mkStatus kWouldBlock ''local pending queue is full''
     \<and> ms' @ local_outbox ch' = ms @ local_outbox ch
     \<and> unat (LocalOutboxLimit ch) \<le> length (local_outbox ch')
     \<and> dropped_when_full (hdr reg') =
         dropped_when_full (hdr reg) + (if opt_drop_when_full (options ch) then 1 else 0)
     \<and> local_pending_drop ch' = local_pending_drop ch + (if opt_drop_when_full (options ch) then 1 else 0)"

lemma chan_inv_cong:
  "chan_inv ch reg ms \<Longrightarrow> opened ch' = opened ch \<Longrightarrow> header ch' = header ch \<Longrightarrow> options ch' = options ch \<Longrightarrow>
   local_outbox ch' = local_outbox ch \<Longrightarrow> ring reg' = ring reg \<Longrightarrow>
   hdr reg' = (hdr reg)\<lparr>dropped_when_full := d\<rparr> \<Longrightarrow> chan_inv ch' reg' ms"
  by (auto simp: chan_inv_def mmb_def ring_state_def intro: region_wf_cong)

lemma LocalOutboxLimit_cong: "options ch' = options ch \<Longrightarrow> LocalOutboxLimit ch' = LocalOutboxLimit ch"
  by (simp add: LocalOutboxLimit_def)

lemma flush_budget_le: "unat (max 1 (min 8 (x :: size_t))) \<le> 8"
proof -
  have "min 8 x \<le> 8" by (rule min.cobounded1)
  moreover have "(1 :: size_t) \<le> 8" by simp
  ultimately have "max 1 (min 8 x) \<le> 8" by (simp only: max.bounded_iff)
  then show ?thesis by (simp add: word_le_nat_alt)
qed

lemma TrySend_cases:
  assumes inv: "chan_inv ch reg ms" and room: "index_room (9 + n) reg"
    and sz: "sz \<le> opt_message_max_bytes (options ch)" and data: "unat sz \<le> length data"
  obtains st ch' reg' ms' where "TrySend ch reg (Some data) sz = Some (st, ch', reg')"
    "chan_inv ch' reg' ms'" "index_room n reg'"
    "send_accept ch reg ms (take (unat sz) data) st ch' reg' ms' \<or>
     unat (LocalOutboxLimit ch) \<le> length (local_outbox ch) \<and> send_refuse ch reg ms st ch' reg' ms'"
    "io_frame ch (ch'\<lparr>local_pending_drop := local_pending_drop ch\<rparr>)"
proof -
  have op: "opened ch" "header ch" using inv by (simp_all add: chan_inv_def)
  obtain ch1 reg1 k where p1: "ProcessIoOnce 1 ch reg = Some (ch1, reg1)"
    and f1: "flushed (unat (1 :: size_t)) (local_outbox ch) ch reg ms ch1 reg1 k"
    and i1: "chan_inv ch1 reg1 (ms @ take k (local_outbox ch))" and r1: "index_room (8 + n) reg1"
    using ProcessIoOnce_flushes [OF inv, of 1 "8 + n"] room by auto
  have fr1: "io_frame ch ch1" "local_outbox ch1 = drop k (local_outbox ch)" "producer_frame reg reg1"
    using f1 by (simp_all add: flushed_def)
  have lim: "LocalOutboxLimit ch1 = LocalOutboxLimit ch" by (rule LocalOutboxLimit_cong) (rule io_frameD(3) [OF fr1(1)])
  show thesis
  proof (cases "unat (LocalOutboxLimit ch1) \<le> length (local_outbox ch1)")
    case True
    let ?drop = "opt_drop_when_full (options (count_send ch1))"
    let ?ch = "if ?drop then (count_send ch1)\<lparr>local_pending_drop := local_pending_drop (count_send ch1) + 1\<rparr> else count_send ch1"
    let ?reg = "if ?drop then reg1\<lparr>hdr := (hdr reg1)\<lparr>dropped_when_full := dropped_when_full (hdr reg1) + 1\<rparr>\<rparr> else reg1"
    have "chan_inv ?ch ?reg (ms @ take k (local_outbox ch))"
      by (rule chan_inv_cong [OF i1, where d = "dropped_when_full (hdr ?reg)"]) (simp_all add: count_send_def)
    moreover have "TrySend ch reg (Some data) sz = Some (mkStatus kWouldBlock ''local pending queue is full'', ?ch, ?reg)"
      using op sz True p1 by (simp add: TrySend_def Let_def not_less)
    moreover have "send_refuse ch reg ms (mkStatus kWouldBlock ''local pending queue is full'') ?ch ?reg (ms @ take k (local_outbox ch))"
      using True fr1 lim by (simp add: send_refuse_def count_send_def producer_frame_def io_frame_def)
    moreover have "index_room n ?reg" using index_room_mono [OF r1, of n] by (auto simp: index_room_def)
    moreover have "io_frame ch (?ch\<lparr>local_pending_drop := local_pending_drop ch\<rparr>)"
      using fr1(1) by (simp add: io_frame_def count_send_def)
    moreover have "unat (LocalOutboxLimit ch) \<le> length (local_outbox ch)"
      using True lim fr1(2) by simp
    ultimately show thesis using that by blast
  next
    case False
    let ?msg = "take (unat sz) data"
    let ?ch2 = "ch1\<lparr>local_outbox := local_outbox ch1 @ [?msg]\<rparr>"
    let ?b = "max 1 (min 8 (LocalOutboxLimit ?ch2)) :: size_t"
    have m: "mmb ch1 = mmb ch" by (rule io_frameD(4) [OF fr1(1)])
    have "length ?msg \<le> mmb ch" using sz data by (simp add: mmb_def word_le_nat_alt)
    then have i2: "chan_inv ?ch2 reg1 (ms @ take k (local_outbox ch))"
      using i1 m by (simp add: chan_inv_def mmb_def)
    have "index_room (unat ?b + n) reg1" by (rule index_room_mono [OF r1]) (simp only: add_le_mono flush_budget_le order_refl)
    then obtain ch3 reg3 j where p3: "ProcessIoOnce ?b ?ch2 reg1 = Some (ch3, reg3)"
      and f3: "flushed (unat ?b) (local_outbox ?ch2) ?ch2 reg1 (ms @ take k (local_outbox ch)) ch3 reg3 j"
      and i3: "chan_inv ch3 reg3 ((ms @ take k (local_outbox ch)) @ take j (local_outbox ?ch2))"
      and r3: "index_room n reg3"
      using ProcessIoOnce_flushes [OF i2, of ?b n] by blast
    have msg: "(if 0 < sz then Option.bind (Some data) (\<lambda>bs. read_at bs 0 (unat sz)) else Some []) = Some ?msg"
      using data by (auto simp: read_at_Some word_gt_0)
    have "TrySend ch reg (Some data) sz = Some (Status_Ok, ch3, reg3)"
      using op sz False p1 p3 msg by (simp add: TrySend_def Let_def not_less)
    moreover have "io_frame ch (ch3\<lparr>local_pending_drop := local_pending_drop ch\<rparr>)"
      using f3 fr1(1) by (auto simp: flushed_def io_frame_def)
    moreover have "send_accept ch reg ms ?msg Status_Ok ch3 reg3 ((ms @ take k (local_outbox ch)) @ take j (local_outbox ?ch2))"
    proof -
      have "local_outbox ch3 = drop j (local_outbox ?ch2)" "producer_frame reg reg3" "io_frame ch ch3"
        using f3 fr1 by (auto simp: flushed_def io_frame_def intro: producer_frame_trans)
      then have "take j (local_outbox ?ch2) @ local_outbox ch3 = local_outbox ?ch2"
        by (metis append_take_drop_id)
      then show ?thesis
        using fr1 \<open>producer_frame reg reg3\<close> \<open>io_frame ch ch3\<close>
        by (simp add: send_accept_def producer_frame_def io_frame_def)
    qed
    ultimately show thesis using that i3 r3 by blast
  qed
qed

section \<open>Receiving\<close>

text \<open>The result of \<open>TryRecv\<close> on a channel whose ring holds \<open>q\<close> after the flush.\<close>

definition recv_answer ::
    "u8 list list \<Rightarrow> u8 list option \<Rightarrow> u32 \<Rightarrow> u32 Result \<Rightarrow> u8 list option \<Rightarrow> u8 list list \<Rightarrow> bool" where
  "recv_answer q buf bsz res buf' q' \<longleftrightarrow>
     (case q of
        [] \<Rightarrow> res = Result_status 0 st_no_message \<and> buf' = buf \<and> q' = []
      | m # rest \<Rightarrow>
          if unat bsz < length m
          then res = Result_status 0 (mkStatus kBufferTooSmall
                       (''buffer too small, required='' @ ToString (of_nat (length m))))
               \<and> buf' = buf \<and> q' = q
          else res = Result_value (of_nat (length m))
               \<and> buf' = map_option (\<lambda>b. m @ drop (length m) b) buf \<and> q' = rest)"

lemma consumer_frame_wf: "consumer_frame reg reg' \<Longrightarrow> rlen reg' = rlen reg \<and> widx reg' = widx reg"
  by (cases "hdr reg"; cases "hdr reg'") (auto simp: consumer_frame_def)

lemma recv_outcome_answer:
  assumes "recv_outcome ch reg q buf bsz res buf' ch' reg'" "chan_inv ch reg q"
  obtains q' where "recv_answer q buf bsz res buf' q'" "chan_inv ch' reg' q'" "io_frame ch ch'"
    "local_outbox ch' = local_outbox ch"
proof -
  have cf: "rlen reg' = rlen reg" using assms(1) consumer_frame_wf by (auto simp: recv_outcome_def)
  have mm: "mmb (count_recv ch) = mmb ch" "opened (count_recv ch) = opened ch" "header (count_recv ch) = header ch"
    "local_outbox (count_recv ch) = local_outbox ch"
    by (simp_all add: mmb_def count_recv_def)
  show thesis
  proof (cases q)
    case Nil
    with assms cf mm show thesis
      by (intro that [of "[]"]) (simp_all add: recv_outcome_def recv_answer_def chan_inv_def)
  next
    case (Cons m rest)
    with assms cf show thesis
      by (intro that [of "if unat bsz < length m then q else rest"])
         (auto simp: recv_outcome_def recv_answer_def chan_inv_def split: if_splits)
  qed
qed

lemma TryRecv_cases:
  assumes inv: "chan_inv ch reg ms" and room: "index_room (Suc n) reg" and buf: "buffer_ok buf bsz"
  obtains res buf' ch' reg' k ms' where "TryRecv ch reg buf bsz = Some (res, buf', ch', reg')"
    "recv_answer (ms @ take k (local_outbox ch)) buf bsz res buf' ms'" "k \<le> 1"
    "local_outbox ch' = drop k (local_outbox ch)" "chan_inv ch' reg' ms'" "index_room n reg'" "io_frame ch ch'"
    "rlen reg' = rlen reg"
proof -
  have op: "opened ch" "header ch" using inv by (simp_all add: chan_inv_def)
  obtain ch1 reg1 k where p: "ProcessIoOnce 1 ch reg = Some (ch1, reg1)"
    and f: "flushed (unat (1 :: size_t)) (local_outbox ch) ch reg ms ch1 reg1 k"
    and i: "chan_inv ch1 reg1 (ms @ take k (local_outbox ch))" and r: "index_room n reg1"
    using ProcessIoOnce_flushes [OF inv, of 1 n] room by auto
  let ?q = "ms @ take k (local_outbox ch)"
  from i have ri: "ring_inv reg1 ?q" and hd: "header ch1" and bd: "bounded_msgs (mmb ch1) ?q"
    by (simp_all only: chan_inv_def bounded_msgs_simps simp_thms)
  have wf: "region_wf reg1" and al: "8 dvd ridx reg1" using ri by (simp_all add: ring_state_def)
  have nn: "\<not> (0 < bsz \<and> buf = None)" using buf by (cases buf) (auto simp: buffer_ok_def)
  let ?r = "read_index (hdr reg1)" let ?w = "write_index (hdr reg1)"
  have "\<exists>res buf' ch' reg'. TryRecv ch reg buf bsz = Some (res, buf', ch', reg')
     \<and> recv_outcome ch1 reg1 ?q buf bsz res buf' ch' reg'"
  proof (cases "?w \<le> ?r")
    case True
    then have "widx reg1 \<le> ridx reg1" by (simp add: word_le_nat_alt)
    then have q: "?q = []" using ri ring_holds_empty unfolding ring_state_def by blast
    have "recv_outcome ch1 reg1 ?q buf bsz (Result_status 0 st_no_message) buf (count_recv ch1) reg1"
      using ri unfolding q by (simp add: recv_outcome_def consumer_frame_def)
    moreover have "TryRecv ch reg buf bsz = Some (Result_status 0 st_no_message, buf, count_recv ch1, reg1)"
      unfolding TryRecv_def if_not_P [OF nn] using op p True by (simp add: recv_none_def)
    ultimately show ?thesis by blast
  next
    case False
    then have "ridx reg1 < widx reg1" by (simp add: word_le_nat_alt)
    then show ?thesis
      using TryRecv_loop_outcome [OF ri hd index_room_headroom [OF r] _ bd buf] op p False
        skip_short_tail_aligned [OF wf hd al, of ?w]
      unfolding TryRecv_def if_not_P [OF nn] by (simp add: Let_def)
  qed
  then obtain res buf' ch' reg' where t: "TryRecv ch reg buf bsz = Some (res, buf', ch', reg')"
    and o: "recv_outcome ch1 reg1 ?q buf bsz res buf' ch' reg'" by blast
  have cf: "rlen reg' = rlen reg1" "widx reg' = widx reg1"
    using o consumer_frame_wf by (auto simp: recv_outcome_def)
  obtain ms' where "recv_answer ?q buf bsz res buf' ms'" "chan_inv ch' reg' ms'" "io_frame ch1 ch'"
    "local_outbox ch' = local_outbox ch1"
    using recv_outcome_answer [OF o i] by blast
  moreover have "index_room n reg'" using r cf by (simp add: index_room_def)
  ultimately show thesis
    using that [of res buf' ch' reg' k ms'] t f cf io_frame_trans [of ch ch1 ch']
    by (auto simp: flushed_def producer_frame_def same_geometry_def)
qed

section \<open>The channel as a queue\<close>

text \<open>A sending and a receiving endpoint on one region, driven through the public operations.\<close>

type_synonym 'b link = "'b Channel \<times> 'b Channel \<times> Region"

fun chan_enq :: "u8 list \<Rightarrow> 'b link \<Rightarrow> (bool \<times> 'b link) option" where
  "chan_enq m (a, b, reg) =
     Option.bind (TrySend a reg (Some m) (of_nat (length m)))
       (\<lambda>(st, a', reg'). Some (status_ok st, a', b, reg'))"

fun chan_deq :: "u32 \<Rightarrow> 'b link \<Rightarrow> (u8 list option \<times> 'b link) option" where
  "chan_deq bsz (a, b, reg) =
     Option.bind (TryRecv b reg (Some (replicate (unat bsz) 0)) bsz)
       (\<lambda>(res, buf', b', reg').
          Some (if result_ok res then map_option (take (unat (res_value res))) buf' else None,
                a, b', reg'))"

fun chan_holds :: "nat \<Rightarrow> nat \<Rightarrow> 'b link \<Rightarrow> u8 list list \<Rightarrow> bool" where
  "chan_holds N n (a, b, reg) q \<longleftrightarrow>
     (\<exists>ms. q = ms @ local_outbox a \<and> chan_inv a reg ms \<and> mmb a = N \<and> index_room (9 * n) reg
        \<and> opened b \<and> header b \<and> local_outbox b = [] \<and> mmb b = N)"

lemma chan_inv_peer:
  "chan_inv a reg ms \<Longrightarrow> opened b \<Longrightarrow> header b \<Longrightarrow> bounded_msgs (mmb b) (local_outbox b) \<Longrightarrow>
   mmb b = mmb a \<Longrightarrow> chan_inv b reg ms"
  by (simp add: chan_inv_def)

lemma refusals_not_ok [simp]:
  "\<not> status_ok (mkStatus kWouldBlock msg)"
  "\<not> result_ok (Result_status v st_no_message)"
  "\<not> result_ok (Result_status v (mkStatus kBufferTooSmall msg))"
  by (simp_all add: status_ok_def mkStatus_def Result_status_def result_ok_def st_no_message_def)

lemma chan_enq_law:
  assumes "chan_holds N (Suc n) s q" "length m \<le> N"
  shows "\<exists>b s'. chan_enq m s = Some (b, s') \<and> chan_holds N n s' (if b then q @ [m] else q)"
proof -
  obtain a b reg where s: "s = (a, b, reg)" by (cases s)
  with assms(1) obtain ms where h: "q = ms @ local_outbox a" "chan_inv a reg ms" "mmb a = N"
    "index_room (9 + 9 * n) reg" "opened b" "header b" "local_outbox b = []" "mmb b = N" by auto
  have "length m \<le> mmb a" using assms(2) h(3) by simp
  then have len: "length m < 4294967296" unfolding mmb_def by (rule le_less_trans) simp
  note sz = unat_length_u32 [OF len]
  have le: "of_nat (length m) \<le> opt_message_max_bytes (options a)"
    using assms(2) h(3) by (simp add: word_le_nat_alt sz mmb_def)
  obtain st a' reg' ms' where t: "TrySend a reg (Some m) (of_nat (length m)) = Some (st, a', reg')"
    "chan_inv a' reg' ms'" "index_room (9 * n) reg'"
    "send_accept a reg ms m st a' reg' ms' \<or> send_refuse a reg ms st a' reg' ms'"
    "io_frame a (a'\<lparr>local_pending_drop := local_pending_drop a\<rparr>)"
    by (rule TrySend_cases [OF h(2,4) le, of m]) (use sz in auto)
  have "mmb a' = N" using t(5) h(3) by (auto simp: io_frame_def mmb_def)
  then have holds: "chan_holds N n (a', b, reg') (ms' @ local_outbox a')"
    using t(2,3) h by auto
  have "(if status_ok st then q @ [m] else q) = ms' @ local_outbox a'"
    using t(4) h(1) by (auto simp: send_accept_def send_refuse_def)
  with holds t(1) s show ?thesis by auto
qed

lemma recv_answer_deq:
  assumes "recv_answer q (Some (replicate (unat bsz) 0)) bsz res buf' q'" "bounded_msgs 4294967295 q"
  shows "case (if result_ok res then map_option (take (unat (res_value res))) buf' else None) of
           None \<Rightarrow> q' = q | Some m \<Rightarrow> q = m # q'"
proof (cases q)
  case Nil
  with assms have "res = Result_status 0 st_no_message" "q' = q" by (simp_all add: recv_answer_def)
  then show ?thesis by (simp only: refusals_not_ok if_False option.case)
next
  case (Cons m rest)
  then have len: "unat (of_nat (length m) :: u32) = length m"
    using assms(2) by (intro unat_length_u32) simp
  show ?thesis
  proof (cases "unat bsz < length m")
    case True
    with assms(1) Cons obtain msg where "res = Result_status 0 (mkStatus kBufferTooSmall msg)" "q' = q"
      by (simp add: recv_answer_def)
    then show ?thesis by (simp only: refusals_not_ok if_False option.case)
  next
    case False
    then have "res = Result_value (of_nat (length m))" "buf' = Some (m @ drop (length m) (replicate (unat bsz) 0))"
      "q' = rest" using assms(1) Cons by (simp_all add: recv_answer_def)
    with Cons len show ?thesis by (simp add: Result_value_def result_ok_def)
  qed
qed

lemma chan_deq_law:
  assumes "chan_holds N (Suc n) s q"
  shows "\<exists>r s'. chan_deq bsz s = Some (r, s') \<and>
           (case r of None \<Rightarrow> chan_holds N n s' q | Some m \<Rightarrow> \<exists>q'. q = m # q' \<and> chan_holds N n s' q')"
proof -
  obtain a b reg where s: "s = (a, b, reg)" by (cases s)
  with assms obtain ms where h: "q = ms @ local_outbox a" "chan_inv a reg ms" "mmb a = N"
    "index_room (9 + 9 * n) reg" "opened b" "header b" "local_outbox b = []" "mmb b = N" by auto
  have "chan_inv b reg ms" by (rule chan_inv_peer [OF h(2)]) (use h in simp_all)
  moreover have "index_room (Suc (9 * n)) reg" by (rule index_room_mono [OF h(4)]) simp
  ultimately obtain res buf' b' reg' k ms' where
    t: "TryRecv b reg (Some (replicate (unat bsz) 0)) bsz = Some (res, buf', b', reg')"
      "recv_answer (ms @ take k []) (Some (replicate (unat bsz) 0)) bsz res buf' ms'"
      "local_outbox b' = drop k []" "chan_inv b' reg' ms'" "index_room (9 * n) reg'" "io_frame b b'"
    by (rule TryRecv_cases [of b reg ms "9 * n" "Some (replicate (unat bsz) 0)" bsz])
       (use h(7) in \<open>auto simp: buffer_ok_def\<close>)
  have mb: "mmb b' = N" "opened b'" "header b'" using io_frameD [OF t(6)] h by simp_all
  have "bounded_msgs 4294967295 ms"
  proof -
    have "mmb a \<le> 4294967295" using unat_lt_u32 [of "opt_message_max_bytes (options a)"] unfolding mmb_def by linarith
    then show ?thesis using h(2) by (auto simp: chan_inv_def bounded_msgs_def intro: order_trans)
  qed
  with t(2) have a: "case (if result_ok res then map_option (take (unat (res_value res))) buf' else None) of
       None \<Rightarrow> ms' = ms | Some m \<Rightarrow> ms = m # ms'"
    by (intro recv_answer_deq) simp_all
  have "chan_inv a reg' ms'"
    by (rule chan_inv_peer [OF t(4)]) (use h mb in \<open>simp_all add: chan_inv_def\<close>)
  then have "chan_holds N n (a, b', reg') (ms' @ local_outbox a)"
    using t(3,5) mb h(3) by simp
  then show ?thesis using t(1) a h(1) s
    by (auto split: option.splits if_splits)
qed

interpretation shm: fifo_queue "chan_holds N" "\<lambda>m. length m \<le> N" chan_enq "chan_deq bsz"
  by unfold_locales (rule chan_enq_law chan_deq_law; assumption)+

end
