(* ===== verification/CK_Channel_Open.thy ===== *)
theory CK_Channel_Open
  imports CK_Channel_Api
begin

text \<open>
  Opening a channel: the size arithmetic of \<open>TotalBytes\<close> and \<open>MapAsServer\<close>, the server that
  establishes the channel invariant, the client that adopts the server's geometry, and closing.
\<close>

section \<open>The ring a server creates\<close>

text \<open>The ring size the options ask for, and whether it stays in the range where
  \<open>NextPow2\<close> does not run over.\<close>

definition ring_target :: "ChannelOptions \<Rightarrow> nat" where
  "ring_target o' = FB (unat (opt_message_max_bytes o')) * unat (opt_capacity o')"

definition geometry_ok :: "ChannelOptions \<Rightarrow> bool" where
  "geometry_ok o' \<longleftrightarrow> ring_target o' \<le> 2147483648"

lemma ring_target_bounds:
  assumes "opt_capacity o' \<noteq> 0"
  shows "FB (unat (opt_message_max_bytes o')) \<le> ring_target o'" "8 \<le> ring_target o'"
proof -
  have "1 \<le> unat (opt_capacity o')" using assms by (simp add: Suc_le_eq unat_gt_0)
  then show "FB (unat (opt_message_max_bytes o')) \<le> ring_target o'" by (simp add: ring_target_def)
  then show "8 \<le> ring_target o'" using FB_bounds(4) le_trans by blast
qed

lemma unat_target:
  "geometry_ok o' \<Longrightarrow>
   unat (FrameBytes (opt_message_max_bytes o') * ucast (opt_capacity o') :: size_t) = ring_target o'"
  by (subst unat_mult_noflow) (simp_all add: ring_target_def geometry_ok_def)

lemma unat_target32:
  assumes "geometry_ok o'" "opt_capacity o' \<noteq> 0"
  shows "unat (ucast (FrameBytes (opt_message_max_bytes o')) * opt_capacity o' :: u32) = ring_target o'"
proof -
  have le: "FB (unat (opt_message_max_bytes o')) \<le> 2147483648"
    using ring_target_bounds(1) [OF assms(2)] assms(1) by (simp add: geometry_ok_def)
  then have s: "unat (ucast (FrameBytes (opt_message_max_bytes o')) :: u32) = FB (unat (opt_message_max_bytes o'))"
    by (simp add: unat_ucast_u64_u32)
  have "ring_target o' < 2 ^ LENGTH(32)" using assms(1) by (simp add: geometry_ok_def)
  then show ?thesis by (subst unat_mult_noflow) (simp_all add: s ring_target_def)
qed

lemma NextPow2_ring:
  assumes "8 \<le> unat v" "unat v \<le> 2147483648"
  obtains k where "k \<in> {3..31}" "NextPow2 v = 2 ^ k" "unat v \<le> 2 ^ k" "2 ^ k < 2 * unat v"
proof -
  obtain k where k: "2 ^ k < unat v" "unat v \<le> 2 ^ Suc k" "NextPow2 v = 2 ^ Suc k"
    using NextPow2_power [of v] assms by auto
  have "(2 :: nat) ^ k < 2 ^ 31" using k(1) assms(2) by simp
  then have "k < 31" by (rule power_less_imp_less_exp [rotated]) simp
  moreover have "(2 :: nat) ^ 3 \<le> 2 ^ Suc k" using k(2) assms(1) by simp
  then have "3 \<le> Suc k" by (rule power_le_imp_le_exp [rotated]) simp
  ultimately show thesis using k by (intro that [of "Suc k"]) simp_all
qed

text \<open>\<open>TotalBytes\<close> and \<open>MapAsServer\<close> compute the ring size at different widths; they agree.\<close>

lemma geometry_agrees:
  assumes "geometry_ok o'" "opt_capacity o' \<noteq> 0"
  obtains k where "k \<in> {3..31}" "ring_target o' \<le> 2 ^ k" "2 ^ k < 2 * ring_target o'"
    "NextPow2 (ucast (FrameBytes (opt_message_max_bytes o')) * opt_capacity o') = 2 ^ k"
    "\<And>ch. options ch = o' \<Longrightarrow> TotalBytes ch = 256 + 2 ^ k"
proof -
  let ?v = "ucast (FrameBytes (opt_message_max_bytes o')) * opt_capacity o' :: u32"
  note v = unat_target32 [OF assms]
  have "8 \<le> unat ?v" "unat ?v \<le> 2147483648"
    using ring_target_bounds(2) [OF assms(2)] assms(1) by (simp_all add: v geometry_ok_def)
  then obtain k where k: "k \<in> {3..31}" "NextPow2 ?v = 2 ^ k" "unat ?v \<le> 2 ^ k" "2 ^ k < 2 * unat ?v"
    by (rule NextPow2_ring)
  have t: "unat (FrameBytes (opt_message_max_bytes o') * ucast (opt_capacity o') :: size_t) = ring_target o'"
    by (rule unat_target [OF assms(1)])
  have "ring_target o' < 4294967296" using assms(1) by (simp add: geometry_ok_def)
  then have eq: "ucast (FrameBytes (opt_message_max_bytes o') * ucast (opt_capacity o') :: size_t) = ?v"
    by (simp only: word_unat_eq_iff v t unat_ucast_u64_u32 mod_less)
  have small: "\<not> (0xFFFFFFFF :: size_t) < FrameBytes (opt_message_max_bytes o') * ucast (opt_capacity o')"
    using assms(1) by (simp add: word_less_nat_alt t geometry_ok_def)
  have "(ucast (2 ^ k :: u32) :: size_t) = 2 ^ k"
    using k(1) by (simp add: word_unat_eq_iff unat_2p)
  then have "TotalBytes ch = 256 + 2 ^ k" if "options ch = o'" for ch :: "'a Channel"
    using that small by (simp add: TotalBytes_def Let_def eq k(2) sizeof_SharedHeader_def)
  with k v show thesis by (intro that [of k]) simp_all
qed

lemma fresh_region_inv:
  assumes "geometry_ok o'" "opt_capacity o' \<noteq> 0" "options ch = o'"
  shows "ring_inv (fresh_region o' (TotalBytes ch)) []"
    "ring_target o' \<le> rlen (fresh_region o' (TotalBytes ch))"
    "rlen (fresh_region o' (TotalBytes ch)) < 2 * ring_target o'"
    "widx (fresh_region o' (TotalBytes ch)) = 0"
proof -
  obtain k where k: "k \<in> {3..31}" "ring_target o' \<le> 2 ^ k" "2 ^ k < 2 * ring_target o'"
    "NextPow2 (ucast (FrameBytes (opt_message_max_bytes o')) * opt_capacity o') = 2 ^ k"
    "TotalBytes ch = 256 + 2 ^ k"
    using geometry_agrees [OF assms(1,2)] assms(3) by metis
  let ?reg = "fresh_region o' (TotalBytes ch)"
  have len: "rlen ?reg = 2 ^ k"
    using k(1) by (simp add: fresh_region_def Let_def k(5) sizeof_SharedHeader_def unat_2p)
  show "ring_target o' \<le> rlen ?reg" "rlen ?reg < 2 * ring_target o'" "widx ?reg = 0"
    using k(2,3) by (simp_all add: len) (simp add: fresh_region_def Let_def)
  have "region_wf ?reg"
    unfolding region_wf_def using k(1) len
    by (intro bexI [of _ k]) (simp_all add: fresh_region_def Let_def k(4))
  moreover have "write_index (hdr ?reg) = 0" "read_index (hdr ?reg) = 0"
    by (simp_all add: fresh_region_def Let_def)
  ultimately show "ring_inv ?reg []" by (simp add: ring_state_def ring_holds.rh_nil)
qed

end
