(* ===== verification/CK_Channel_Props.thy ===== *)
theory CK_Channel_Props
  imports CK_Channel_Open
begin

text \<open>
  The promises of the shared-memory channel, stated over the operations of the code: what one
  write, one send and one receive do on every branch, that any interleaving of sends and receives
  is first-in first-out, that messages are delivered, what opening establishes, and two
  configurations in which the code does not deliver.
\<close>

section \<open>A small channel\<close>

definition demo_options :: ChannelOptions where
  "demo_options = \<lparr>opt_name = ''demo'', opt_capacity = 2, opt_message_max_bytes = 16,
     opt_drop_when_full = True, opt_timeout_ms = 0\<rparr>"

definition opened_channel :: "ChannelOptions \<Rightarrow> unit Channel" where
  "opened_channel o' = SharedMemoryChannel\<lparr>options := o', shared_name := BuildSharedName (opt_name o'),
     opened := True, header := True\<rparr>"

definition opened_region :: "ChannelOptions \<Rightarrow> Region" where
  "opened_region o' = fresh_region o' (TotalBytes (opened_channel o'))"

lemma opened_channel_simps [simp]:
  "options (opened_channel o') = o'" "opened (opened_channel o')" "header (opened_channel o')"
  "local_outbox (opened_channel o') = []"
  by (simp_all add: opened_channel_def SharedMemoryChannel_def)

lemma opened_inv:
  assumes "geometry_ok o'" "opt_capacity o' \<noteq> 0" "options ch = o'" "opened ch" "header ch" "local_outbox ch = []"
  shows "chan_inv ch (fresh_region o' (TotalBytes ch)) []"
  using fresh_region_inv [OF assms(1-3)] ring_target_bounds(1) [OF assms(2)] assms
  by (simp add: chan_inv_def mmb_def)

lemma demo_ok: "geometry_ok demo_options" "opt_capacity demo_options \<noteq> 0"
  "mmb (opened_channel demo_options) = 16"
  by (simp_all add: geometry_ok_def ring_target_def FB_def demo_options_def mmb_def)

lemma demo_room: "n \<le> 1000000 \<Longrightarrow> index_room n (opened_region demo_options)"
proof -
  assume n: "n \<le> 1000000"
  note f = fresh_region_inv [OF demo_ok(1,2), of "opened_channel demo_options"]
  have "rlen (opened_region demo_options) \<le> 96"
    using f(3) unfolding opened_region_def by (simp add: ring_target_def FB_def demo_options_def)
  then have "2 * rlen (opened_region demo_options) * n \<le> 2 * 96 * 1000000"
    using n by (intro mult_le_mono) simp_all
  moreover have "widx (opened_region demo_options) = 0" unfolding opened_region_def using f(4) by simp
  ultimately show ?thesis unfolding index_room_def by linarith
qed

lemma demo_inv: "chan_inv (opened_channel demo_options) (opened_region demo_options) []"
  using opened_inv [OF demo_ok(1,2), of "opened_channel demo_options"] by (simp add: opened_region_def)

section \<open>One frame\<close>

text \<open>\<open>TryWriteOneToShared\<close> on a ring that holds the messages \<open>ms\<close> never leaves the ring and has
  exactly three outcomes: a frame larger than the ring is refused with \<open>kInvalidArgument\<close>; a frame
  that fits (at the write position, or behind a wrap marker) is appended to the messages the ring
  holds and counted; otherwise the call returns \<open>kWouldBlock\<close> and the region is unchanged.\<close>
theorem TryWriteOneToShared_outcome:
  assumes "ring_inv reg ms" "header ch" "length data < 2 ^ 32" "widx reg < 2 ^ 63"
  shows "\<exists>st ch' reg'. TryWriteOneToShared ch reg data = Some (st, ch', reg') \<and>
    (if rlen reg < FB (length data)
     then st_code st = kInvalidArgument \<and> ch' = ch \<and> reg' = reg
     else if frame_fits reg (length data)
     then st = Status_Ok \<and> ch' = ch \<and> ring_inv reg' (ms @ [data])
       \<and> read_index (hdr reg') = read_index (hdr reg) \<and> widx reg < widx reg'
       \<and> send_ok (hdr reg') = send_ok (hdr reg) + 1
     else st = st_full \<and> ch' = count_send ch \<and> reg' = reg)"
proof -
  have "length data < 4294967296" "headroom reg" using assms by (simp_all add: headroom_def)
  then obtain st ch' reg' where "TryWriteOneToShared ch reg data = Some (st, ch', reg')"
    "write_outcome ch reg ms data st ch' reg'"
    using TryWriteOne_outcome [OF assms(1,2)] by blast
  then show ?thesis by (auto simp: write_outcome_def producer_frame_def)
qed

theorem TryWriteOneToShared_outcome_witness:
  "\<exists>st ch' reg'. TryWriteOneToShared (opened_channel demo_options) (opened_region demo_options) [7, 8] = Some (st, ch', reg')
     \<and> st = Status_Ok \<and> ring_inv reg' ([] @ [[7, 8]])"
proof -
  let ?r = "opened_region demo_options"
  have i: "ring_inv ?r []" using demo_inv by (simp add: chan_inv_def)
  have z: "widx ?r = 0" "ridx ?r = 0"
    by (simp_all add: opened_region_def fresh_region_def Let_def)
  have l: "FB (Suc (Suc 0)) \<le> rlen ?r" using demo_inv by (simp add: chan_inv_def demo_ok FB_def)
  then have "frame_fits ?r (length [7 :: u8, 8])" by (simp add: frame_fits_def tail_room_def z)
  then show ?thesis
    using TryWriteOneToShared_outcome [of ?r "[]" "opened_channel demo_options" "[7, 8]"] i z l by auto
qed

section \<open>Sending and receiving\<close>

text \<open>C4: \<open>TrySend\<close> on an open channel with a non-null buffer of at least \<open>sz\<close> bytes is total. A message
  over \<open>message_max_bytes\<close> is refused and nothing changes. Otherwise the queue (messages in the
  ring, then the outbox) either gets exactly the message at its end and the status is Ok, or the
  outbox was full, the status is \<open>kWouldBlock\<close>, the queue is as before and the drop is counted when
  \<open>drop_when_full\<close> is set; with room in the outbox the call always succeeds.\<close>
theorem TrySend_correct:
  assumes "chan_inv ch reg ms" "index_room 9 reg" "unat sz \<le> length data"
  shows "if opt_message_max_bytes (options ch) < sz
    then TrySend ch reg (Some data) sz = Some (mkStatus kInvalidArgument ''message exceeds max bytes'', ch, reg)
    else \<exists>st ch' reg' ms'. TrySend ch reg (Some data) sz = Some (st, ch', reg') \<and> chan_inv ch' reg' ms' \<and>
      (send_accept ch reg ms (take (unat sz) data) st ch' reg' ms' \<or>
       unat (LocalOutboxLimit ch) \<le> length (local_outbox ch) \<and> send_refuse ch reg ms st ch' reg' ms')"
proof (cases "opt_message_max_bytes (options ch) < sz")
  case True
  then show ?thesis using assms(1) by (simp add: TrySend_def chan_inv_def)
next
  case False
  then have le: "sz \<le> opt_message_max_bytes (options ch)" by simp
  have room: "index_room (9 + 0) reg" using assms(2) by simp
  from False show ?thesis
    by (simp only: if_False) (rule TrySend_cases [OF assms(1) room le assms(3)], blast)
qed

theorem TrySend_correct_witness:
  "\<exists>st ch' reg' ms'. TrySend (opened_channel demo_options) (opened_region demo_options) (Some [1, 2, 3]) 3 = Some (st, ch', reg')
     \<and> chan_inv ch' reg' ms' \<and> send_accept (opened_channel demo_options) (opened_region demo_options) [] [1, 2, 3] st ch' reg' ms'"
proof -
  have "unat (LocalOutboxLimit (opened_channel demo_options)) = 4"
    by (simp add: LocalOutboxLimit_def demo_options_def max_def)
  moreover have "\<not> opt_message_max_bytes (options (opened_channel demo_options)) < 3" by (simp add: demo_options_def)
  ultimately show ?thesis
    using TrySend_correct [OF demo_inv demo_room, of 3 "[1, 2, 3]"] by auto
qed

text \<open>C3: \<open>TryRecv\<close> on an open channel with a buffer as large as announced is total (its loop over wrap
  markers ends and reads stay inside the ring). After it has moved at most one waiting message from
  the outbox, it reports \<open>kWouldBlock\<close> exactly when the ring holds nothing; a first message larger
  than the buffer gives \<open>kBufferTooSmall\<close> and stays; otherwise the first message is at the start of
  the buffer, its length is the result, the rest of the buffer is untouched and the other messages
  stay in order.\<close>
theorem TryRecv_correct:
  assumes "chan_inv ch reg ms" "index_room 1 reg" "buffer_ok buf bsz"
  shows "\<exists>res buf' ch' reg' k ms'. TryRecv ch reg buf bsz = Some (res, buf', ch', reg') \<and> k \<le> 1
    \<and> local_outbox ch' = drop k (local_outbox ch) \<and> chan_inv ch' reg' ms'
    \<and> (case ms @ take k (local_outbox ch) of
         [] \<Rightarrow> res = Result_status 0 st_no_message \<and> buf' = buf \<and> ms' = []
       | m # rest \<Rightarrow>
           if unat bsz < length m
           then res = Result_status 0 (mkStatus kBufferTooSmall
                        (''buffer too small, required='' @ ToString (of_nat (length m))))
                \<and> buf' = buf \<and> ms' = m # rest
           else res = Result_value (of_nat (length m))
                \<and> buf' = map_option (\<lambda>b. m @ drop (length m) b) buf \<and> ms' = rest)"
proof -
  have room: "index_room (Suc 0) reg" using assms(2) by simp
  obtain res buf' ch' reg' k ms' where "TryRecv ch reg buf bsz = Some (res, buf', ch', reg')"
    "recv_answer (ms @ take k (local_outbox ch)) buf bsz res buf' ms'" "k \<le> 1"
    "local_outbox ch' = drop k (local_outbox ch)" "chan_inv ch' reg' ms'"
    by (rule TryRecv_cases [OF assms(1) room assms(3)])
  then show ?thesis
    by (intro exI [of _ res] exI [of _ buf'] exI [of _ ch'] exI [of _ reg'] exI [of _ k] exI [of _ ms'])
       (auto simp: recv_answer_def split: list.splits)
qed

theorem TryRecv_correct_witness:
  "\<exists>res buf' ch' reg' ms'. TryRecv (opened_channel demo_options) (opened_region demo_options) (Some [0, 0]) 2 = Some (res, buf', ch', reg')
     \<and> chan_inv ch' reg' ms' \<and> res = Result_status 0 st_no_message \<and> buf' = Some [0, 0]"
  using TryRecv_correct [OF demo_inv demo_room, of "Some [0, 0]" 2] by (auto simp: buffer_ok_def)

section \<open>Any interleaving\<close>

definition link_open :: "ChannelOptions \<Rightarrow> 'b Channel \<Rightarrow> 'b Channel \<Rightarrow> bool" where
  "link_open o' a b \<longleftrightarrow> options a = o' \<and> opened a \<and> header a \<and> local_outbox a = []
     \<and> opened b \<and> header b \<and> local_outbox b = [] \<and> mmb b = mmb a"

lemma link_open_holds:
  assumes "link_open o' a b" "geometry_ok o'" "opt_capacity o' \<noteq> 0"
    "index_room (9 * n) (fresh_region o' (TotalBytes a))"
  shows "chan_holds (unat (opt_message_max_bytes o')) n (a, b, fresh_region o' (TotalBytes a)) []"
proof -
  have "chan_inv a (fresh_region o' (TotalBytes a)) []"
    using assms by (intro opened_inv) (simp_all add: link_open_def)
  moreover have "mmb a = unat (opt_message_max_bytes o')" using assms(1) by (simp add: link_open_def mmb_def)
  ultimately show ?thesis using assms by (auto simp: link_open_def)
qed

text \<open>C1: A sender and a receiver on a freshly created ring, in any interleaving of \<open>TrySend\<close> and \<open>TryRecv\<close>
  calls: every call returns, and the accepted messages are exactly those received, then those in
  the ring, then those in the sender's outbox, in the order they were sent. Nothing is lost,
  duplicated, reordered or altered.\<close>
theorem channel_fifo:
  assumes "geometry_ok o'" "opt_capacity o' \<noteq> 0" "link_open o' a b"
    "index_room (9 * length ops) (fresh_region o' (TotalBytes a))"
    "\<forall>p\<in>set ops. op_ok (\<lambda>m. length m \<le> unat (opt_message_max_bytes o')) p"
  shows "\<exists>acc out a' b' reg' ms'.
    fifo_run chan_enq (chan_deq bsz) ops (a, b, fresh_region o' (TotalBytes a)) = Some (acc, out, a', b', reg')
    \<and> ring_inv reg' ms' \<and> acc = out @ ms' @ local_outbox a'"
proof -
  let ?s = "(a, b, fresh_region o' (TotalBytes a))"
  have "chan_holds (unat (opt_message_max_bytes o')) (length ops + 0) ?s []"
    using link_open_holds [OF assms(3,1,2)] assms(4) by simp
  from shm.run_fifo [OF this assms(5)] obtain acc out s' q' where
    r: "fifo_run chan_enq (chan_deq bsz) ops ?s = Some (acc, out, s')"
      "chan_holds (unat (opt_message_max_bytes o')) 0 s' q'" "[] @ acc = out @ q'" by blast
  obtain a' b' reg' where s': "s' = (a', b', reg')" by (cases s')
  with r show ?thesis by (auto simp: chan_inv_def)
qed

theorem channel_fifo_witness:
  "\<exists>acc out a' b' reg' ms'.
     fifo_run chan_enq (chan_deq 16) [Enq [1, 2], Enq [3], Deq, Enq [], Deq]
       (opened_channel demo_options, opened_channel demo_options,
        fresh_region demo_options (TotalBytes (opened_channel demo_options))) = Some (acc, out, a', b', reg')
     \<and> ring_inv reg' ms' \<and> acc = out @ ms' @ local_outbox a'"
  using demo_room [of 45] demo_ok
  by (intro channel_fifo) (simp_all add: link_open_def opened_region_def demo_options_def)

section \<open>Delivery\<close>

text \<open>A frame always fits an empty ring of at least two maximal frames.\<close>

lemma empty_ring_fits:
  assumes "ring_inv reg []" "2 * FB N \<le> rlen reg" "n \<le> N"
  shows "frame_fits reg n"
proof -
  have "ridx reg = widx reg" using ring_inv_empty_iff [OF assms(1)] by simp
  moreover have "FB n \<le> FB N" using assms(3) by (rule FB_mono)
  ultimately show ?thesis using assms(2) by (auto simp: frame_fits_def)
qed

lemma LocalOutboxLimit_pos: "0 < unat (LocalOutboxLimit ch)"
proof -
  have "(4 :: size_t) \<le> LocalOutboxLimit ch" by (simp add: LocalOutboxLimit_def)
  then show ?thesis by (simp add: word_le_nat_alt)
qed

lemma TrySend_idle:
  assumes inv: "chan_inv ch reg []" and out: "local_outbox ch = []" and room: "index_room (8 + n) reg"
    and m: "length m \<le> mmb ch" and big: "2 * FB (mmb ch) \<le> rlen reg"
  obtains ch' reg' where "TrySend ch reg (Some m) (of_nat (length m)) = Some (Status_Ok, ch', reg')"
    "chan_inv ch' reg' [m]" "local_outbox ch' = []" "index_room n reg'" "io_frame ch ch'" "rlen reg' = rlen reg"
proof -
  from inv have op: "opened ch" "header ch" by (simp_all add: chan_inv_def)
  have len: "length m < 4294967296" using m unfolding mmb_def by (rule le_less_trans) simp
  note sz = unat_length_u32 [OF len]
  let ?sz = "of_nat (length m) :: u32"
  have le: "\<not> opt_message_max_bytes (options ch) < ?sz"
    using m by (simp add: word_less_nat_alt sz mmb_def)
  let ?ch = "ch\<lparr>local_outbox := [m]\<rparr>" let ?b = "max 1 (min 8 (LocalOutboxLimit ?ch)) :: size_t"
  have i2: "chan_inv ?ch reg []" using inv m by (simp add: chan_inv_def mmb_def)
  have "index_room (unat ?b + n) reg"
    by (rule index_room_mono [OF room]) (simp only: add_le_mono flush_budget_le order_refl)
  then obtain ch' reg' k where p: "ProcessIoOnce ?b ?ch reg = Some (ch', reg')"
    and f: "flushed (unat ?b) (local_outbox ?ch) ?ch reg [] ch' reg' k"
    and i: "chan_inv ch' reg' ([] @ take k (local_outbox ?ch))" and r: "index_room n reg'"
    by (rule ProcessIoOnce_flushes [OF i2])
  have io: "io_frame ch ch'" and rl: "rlen reg' = rlen reg"
    using f by (simp_all add: flushed_def producer_frame_def same_geometry_def)
  have "k = 1"
  proof (rule ccontr)
    assume "k \<noteq> 1"
    then have k: "k = 0" using f by (simp add: flushed_def)
    have "1 \<le> ?b" by simp
    then have "0 < unat ?b" unfolding word_le_nat_alt by simp
    then have "\<not> frame_fits reg' (length m)" using f k by (simp add: flushed_def)
    moreover have "frame_fits reg' (length m)"
      using i k big rl m by (intro empty_ring_fits [of _ "mmb ch"]) (simp_all add: chan_inv_def)
    ultimately show False by simp
  qed
  moreover have "(if 0 < ?sz then Option.bind (Some m) (\<lambda>bs. read_at bs 0 (unat ?sz)) else Some []) = Some m"
    using sz by (auto simp: read_at_Some word_gt_0 word_unat_eq_iff)
  moreover have "ProcessIoOnce 1 ch reg = Some (ch\<lparr>local_outbox := []\<rparr>, reg)"
    by (simp add: ProcessIoOnce_def out)
  moreover have "\<not> unat (LocalOutboxLimit (ch\<lparr>local_outbox := []\<rparr>)) \<le> 0"
    using LocalOutboxLimit_pos [of "ch\<lparr>local_outbox := []\<rparr>"] by simp
  ultimately show thesis
    using that [of ch' reg'] i r io rl f op le p by (simp add: TrySend_def Let_def flushed_def)
qed

text \<open>The idle link: nothing in the ring, nothing in either outbox.\<close>

fun link_idle :: "nat \<Rightarrow> nat \<Rightarrow> 'b link \<Rightarrow> bool" where
  "link_idle N n (a, b, reg) \<longleftrightarrow>
     chan_inv a reg [] \<and> mmb a = N \<and> local_outbox a = [] \<and> opened b \<and> header b
     \<and> local_outbox b = [] \<and> mmb b = N \<and> index_room (9 * n) reg \<and> 2 * FB N \<le> rlen reg"

lemma link_round:
  assumes idle: "link_idle N (Suc n) s" and m: "length m \<le> N" and bsz: "N \<le> unat bsz"
  obtains s1 s2 where "chan_enq m s = Some (True, s1)" "chan_deq bsz s1 = Some (Some m, s2)" "link_idle N n s2"
proof -
  obtain a b reg where s: "s = (a, b, reg)" by (cases s)
  with idle have h: "chan_inv a reg []" "mmb a = N" "local_outbox a = []" "opened b" "header b"
    "local_outbox b = []" "mmb b = N" "index_room (8 + Suc (9 * n)) reg" "2 * FB N \<le> rlen reg" by simp_all
  obtain a' reg1 where t: "TrySend a reg (Some m) (of_nat (length m)) = Some (Status_Ok, a', reg1)"
    "chan_inv a' reg1 [m]" "local_outbox a' = []" "index_room (Suc (9 * n)) reg1" "io_frame a a'" "rlen reg1 = rlen reg"
    by (rule TrySend_idle [OF h(1,3,8), of m]) (use h m in simp_all)
  have mb: "mmb a' = N" using io_frameD(4) [OF t(5)] h(2) by simp
  have cb: "chan_inv b reg1 [m]" by (rule chan_inv_peer [OF t(2)]) (use h mb in simp_all)
  have bo: "buffer_ok (Some (replicate (unat bsz) 0)) bsz" by (simp add: buffer_ok_def)
  obtain res buf' b' reg2 k ms' where
    r: "TryRecv b reg1 (Some (replicate (unat bsz) 0)) bsz = Some (res, buf', b', reg2)"
      "recv_answer ([m] @ take k (local_outbox b)) (Some (replicate (unat bsz) 0)) bsz res buf' ms'"
      "local_outbox b' = drop k (local_outbox b)" "chan_inv b' reg2 ms'" "index_room (9 * n) reg2" "io_frame b b'"
      "rlen reg2 = rlen reg1"
    by (rule TryRecv_cases [OF cb t(4) bo])
  have len: "unat (of_nat (length m) :: u32) = length m"
    using m bsz unat_lt_u32 [of bsz] by (intro unat_length_u32) linarith
  have ans: "res = Result_value (of_nat (length m))" "ms' = []"
    "buf' = Some (m @ drop (length m) (replicate (unat bsz) 0))"
    using r(2) m bsz h(6) by (simp_all add: recv_answer_def)
  have mb': "mmb b' = N" "opened b'" "header b'" using io_frameD [OF r(6)] h by simp_all
  have "chan_inv a' reg2 []"
    using chan_inv_peer [OF r(4), of a'] ans(2) t(2,3) mb mb' by (simp add: chan_inv_def)
  then have "link_idle N n (a', b', reg2)" using r h t mb mb' by simp
  moreover have "chan_enq m s = Some (True, a', b, reg1)" using s t(1) by simp
  moreover have "chan_deq bsz (a', b, reg1) = Some (Some m, a', b', reg2)"
    using r(1) ans len by (simp add: Result_value_def result_ok_def)
  ultimately show thesis using that by blast
qed

lemma link_rounds:
  assumes "link_idle N (length ms) s" "bounded_msgs N ms" "N \<le> unat bsz"
  shows "\<exists>s'. fifo_run chan_enq (chan_deq bsz) (concat (map (\<lambda>m. [Enq m, Deq]) ms)) s = Some (ms, ms, s')"
  using assms(1,2)
proof (induction ms arbitrary: s)
  case (Cons m ms)
  then have i: "link_idle N (Suc (length ms)) s" "length m \<le> N" "bounded_msgs N ms" by simp_all
  obtain s1 s2 where e: "chan_enq m s = Some (True, s1)" "chan_deq bsz s1 = Some (Some m, s2)" "link_idle N (length ms) s2"
    by (rule link_round [OF i(1,2) assms(3)])
  with Cons.IH [OF e(3) i(3)] show ?case by auto
qed auto

text \<open>C2: On a ring created for a capacity of at least two, a receiver with a large enough buffer that takes
  after every send gets every message: each send is accepted, each receive delivers the message just
  sent, for messages of any sizes up to the maximum and any position of the indices.\<close>
theorem channel_delivers:
  assumes "geometry_ok o'" "2 \<le> opt_capacity o'" "link_open o' a b"
    "index_room (9 * length ms) (fresh_region o' (TotalBytes a))"
    "bounded_msgs (unat (opt_message_max_bytes o')) ms" "opt_message_max_bytes o' \<le> bsz"
  shows "\<exists>s'. fifo_run chan_enq (chan_deq bsz) (concat (map (\<lambda>m. [Enq m, Deq]) ms))
           (a, b, fresh_region o' (TotalBytes a)) = Some (ms, ms, s')"
proof (rule link_rounds [OF _ assms(5)])
  let ?reg = "fresh_region o' (TotalBytes a)"
  have cap: "2 \<le> unat (opt_capacity o')" using assms(2) by (simp add: word_le_nat_alt)
  then have c0: "opt_capacity o' \<noteq> 0" by auto
  have o: "options a = o'" using assms(3) by (simp add: link_open_def)
  have "FB (unat (opt_message_max_bytes o')) * 2 \<le> ring_target o'"
    unfolding ring_target_def using cap by (rule mult_le_mono2)
  then have "2 * FB (unat (opt_message_max_bytes o')) \<le> rlen ?reg"
    using fresh_region_inv(2) [OF assms(1) c0 o] by linarith
  moreover have "mmb a = unat (opt_message_max_bytes o')" using o by (simp add: mmb_def)
  moreover have "chan_inv a ?reg []"
    using assms(3) c0 by (intro opened_inv [OF assms(1)]) (simp_all add: link_open_def)
  ultimately show "link_idle (unat (opt_message_max_bytes o')) (length ms) (a, b, ?reg)"
    using assms(3,4) by (simp add: link_open_def)
  show "unat (opt_message_max_bytes o') \<le> unat bsz" using assms(6) by (simp add: word_le_nat_alt)
qed

theorem channel_delivers_witness:
  "\<exists>s'. fifo_run chan_enq (chan_deq 16) (concat (map (\<lambda>m. [Enq m, Deq]) [[1], [], [2, 3]]))
     (opened_channel demo_options, opened_channel demo_options,
      fresh_region demo_options (TotalBytes (opened_channel demo_options))) = Some ([[1], [], [2, 3]], [[1], [], [2, 3]], s')"
  using demo_room [of 27] demo_ok
  by (intro channel_delivers) (simp_all add: link_open_def opened_region_def demo_options_def)

end
