(* ===== verification/CK_Channel_Limits.thy ===== *)
theory CK_Channel_Limits
  imports CK_Channel_Props
begin

text \<open>
  Opening and its limits: the rounding of ring sizes, what a server and a client establish and
  what they refuse, and two configurations that \<open>ValidateOptions\<close> accepts and that do not deliver.
\<close>

section \<open>Ring sizes\<close>

text \<open>C27: \<open>NextPow2\<close> returns the least power of two that is not below its argument for arguments up to
  \<open>2^31\<close>, and 0 (a wrap-around of the 32-bit result) for every larger argument.\<close>
theorem NextPow2_correct:
  "if unat v \<le> 2 ^ 31
   then \<exists>k\<le>31. NextPow2 v = 2 ^ k \<and> unat v \<le> 2 ^ k \<and> (\<forall>j<k. 2 ^ j < unat v)
   else NextPow2 v = 0"
proof (cases "2 \<le> unat v")
  case False
  then have "v \<le> 1" "unat v \<le> 1" by (simp_all add: word_le_nat_alt)
  then show ?thesis by (auto simp: NextPow2_def intro!: exI [of _ 0])
next
  case True
  then obtain k where k: "2 ^ k < unat v" "unat v \<le> 2 ^ Suc k" "k < 32" "NextPow2 v = 2 ^ Suc k"
    by (rule NextPow2_power)
  show ?thesis
  proof (cases "unat v \<le> 2 ^ 31")
    case small: True
    have "(2 :: nat) ^ k < 2 ^ 31" using k(1) small by (rule less_le_trans)
    then have "Suc k \<le> 31" by (simp only: power_strict_increasing_iff Suc_le_eq one_less_numeral_iff semiring_norm)
    moreover have "2 ^ j < unat v" if "j < Suc k" for j
    proof -
      have "(2 :: nat) ^ j \<le> 2 ^ k" using that by (intro power_increasing) simp_all
      then show ?thesis using k(1) by linarith
    qed
    ultimately show ?thesis using small k(2,4) by (simp only: if_True) blast
  next
    case large: False
    have "(2 :: nat) ^ 31 < 2 ^ Suc k" using large k(2) by linarith
    then have "31 < Suc k" by (simp only: power_strict_increasing_iff)
    then have "Suc k = 32" using k(3) by simp
    then have "NextPow2 v = 2 ^ 32" using k(4) by simp
    moreover have "(2 :: u32) ^ 32 = 0" by (simp add: word_unat_eq_iff)
    ultimately show ?thesis using large by simp
  qed
qed

theorem NextPow2_correct_witness:
  "\<exists>k\<le>31. NextPow2 40 = 2 ^ k \<and> 40 \<le> (2 :: nat) ^ k \<and> (\<forall>j<k. (2 :: nat) ^ j < 40)"
  using NextPow2_correct [of 40] by simp

section \<open>Server and client\<close>

text \<open>C24: \<open>OpenServer\<close> on a channel that is not open, with valid options whose ring size stays within
  \<open>2^31\<close> bytes, and with a backend that creates the mapping: the channel is open, its region is
  initialised, the ring is empty, at least \<open>capacity\<close> maximal frames large and less than twice
  that, and the channel invariant holds.\<close>
theorem OpenServer_establishes:
  assumes "\<not> opened ch" "status_ok (ValidateOptions o')" "geometry_ok o'"
    "be_create vt (BuildSharedName (opt_name o')) (TotalBytes (ch\<lparr>options := o'\<rparr>)) (ensure_backend vt ch) w
       = (Status_Ok, b, w1)"
  shows "\<exists>ch' reg. OpenServer vt ch w o' = (Status_Ok, ch', be_store vt b reg w1)
    \<and> chan_inv ch' reg [] \<and> local_outbox ch' = [] \<and> options ch' = o' \<and> backend ch' = Some b
    \<and> widx reg = 0 \<and> ring_target o' \<le> rlen reg \<and> rlen reg < 2 * ring_target o'
    \<and> magic (hdr reg) = kChannelMagic \<and> version (hdr reg) = kChannelVersion
    \<and> hdr_capacity (hdr reg) = opt_capacity o' \<and> hdr_message_max_bytes (hdr reg) = opt_message_max_bytes o'"
proof -
  have c0: "opt_capacity o' \<noteq> 0" using assms(2)
    by (auto simp: ValidateOptions_def status_ok_def mkStatus_def Status_Ok_def split: if_splits)
  let ?ch = "ch\<lparr>options := o', shared_name := BuildSharedName (opt_name o'), local_outbox := [],
               local_pending_drop := 0\<rparr>"
  let ?ch' = "?ch\<lparr>backend := Some b, header := True, opened := True\<rparr>"
  have tb: "TotalBytes ?ch = TotalBytes (ch\<lparr>options := o'\<rparr>)" "TotalBytes ?ch' = TotalBytes ?ch"
    by (simp_all add: TotalBytes_def)
  note f = fresh_region_inv [OF assms(3) c0, of ?ch', simplified]
  obtain k where k: "k \<in> {3..31}" "\<And>ch :: 'a Channel. options ch = o' \<Longrightarrow> TotalBytes ch = 256 + 2 ^ k"
    by (rule geometry_agrees [OF assms(3) c0]) (rule that)
  have "unat (256 + 2 ^ k :: size_t) \<noteq> 0"
  proof -
    have "(2 :: nat) ^ k \<le> 2 ^ 31" using k(1) by (intro power_increasing) auto
    then have "unat (256 + 2 ^ k :: size_t) = 256 + 2 ^ k"
      using k(1) by (subst unat_add_noflow) (simp_all add: unat_2p)
    then show ?thesis by simp
  qed
  then have nz: "TotalBytes ?ch \<noteq> 0" using k(2) [of ?ch] by auto
  have "ensure_backend vt ?ch = ensure_backend vt ch" by (simp add: ensure_backend_def)
  then have "OpenServer vt ch w o' = (Status_Ok, ?ch', be_store vt b (fresh_region o' (TotalBytes ?ch)) w1)"
    using assms(1,2,4) nz tb by (simp add: OpenServer_def MapAsServer_def Let_def)
  moreover have "chan_inv ?ch' (fresh_region o' (TotalBytes ?ch')) []"
    by (rule opened_inv [OF assms(3) c0]) simp_all
  ultimately show ?thesis
    using f tb by (intro exI [of _ ?ch'] exI [of _ "fresh_region o' (TotalBytes ?ch)"])
      (simp add: fresh_region_def Let_def)
qed

text \<open>A backend whose mappings are the world itself, for the instances below.\<close>

definition cell_backend :: "(unit, Region option) IShmBackend" where
  "cell_backend = \<lparr>be_new = (), be_create = \<lambda>_ _ b w. (Status_Ok, b, w), be_open = \<lambda>_ _ b w. (Status_Ok, b, w),
     be_close = \<lambda>b w. (b, w), be_region = \<lambda>_ w. w, be_store = \<lambda>_ r _. Some r\<rparr>"

theorem OpenServer_establishes_witness:
  "\<exists>ch' reg. OpenServer cell_backend SharedMemoryChannel None demo_options = (Status_Ok, ch', Some reg)
     \<and> chan_inv ch' reg []"
  using OpenServer_establishes [of SharedMemoryChannel demo_options cell_backend None "()" None] demo_ok(1)
  by (auto simp: cell_backend_def SharedMemoryChannel_def demo_options_def ValidateOptions_def)

text \<open>A region some server serves with options \<open>o'\<close>.\<close>

definition served :: "ChannelOptions \<Rightarrow> Region \<Rightarrow> bool" where
  "served o' reg \<longleftrightarrow> magic (hdr reg) = kChannelMagic \<and> version (hdr reg) = kChannelVersion
     \<and> hdr_capacity (hdr reg) = opt_capacity o' \<and> hdr_message_max_bytes (hdr reg) = opt_message_max_bytes o'"

lemma region_wf_ring_bytes:
  assumes "region_wf reg"
  shows "ring_bytes (hdr reg) \<noteq> 0" "ring_bytes (hdr reg) AND (ring_bytes (hdr reg) - 1) = 0"
proof -
  from assms obtain k where k: "3 \<le> k" "k \<le> 31" "ring_bytes (hdr reg) = 2 ^ k" by (auto simp: region_wf_def)
  then show "ring_bytes (hdr reg) \<noteq> 0" by (simp add: word_unat_eq_iff unat_2p)
  have "(2 ^ k :: u32) AND (2 ^ k - 1) = 0"
    by (rule bit_word_eqI) (auto simp: power_two_minus_one_mask bit_simps)
  then show "ring_bytes (hdr reg) AND (ring_bytes (hdr reg) - 1) = 0" by (simp add: k(3))
qed

text \<open>\<open>OpenClient\<close> against a region that a server with an open channel serves: the client adopts the
  server's capacity and message size (not those of its own options) and satisfies the channel
  invariant for the messages the ring holds, with an empty outbox of its own.\<close>
theorem OpenClient_adopts:
  assumes "\<not> opened ch" "opt_name o' \<noteq> []" "chan_inv sv reg ms" "served (options sv) reg"
    "be_open vt (BuildSharedName (opt_name o')) sizeof_SharedHeader (ensure_backend vt ch) w = (Status_Ok, b, w1)"
    "be_region vt b w1 = Some reg" "be_close vt b w1 = (b2, w2)"
    "be_open vt (BuildSharedName (opt_name o')) (sizeof_SharedHeader + ucast (ring_bytes (hdr reg))) b2 w2 = (Status_Ok, b3, w3)"
  shows "\<exists>ch'. OpenClient vt ch w o' = Some (Status_Ok, ch', w3) \<and> chan_inv ch' reg ms
    \<and> opt_capacity (options ch') = opt_capacity (options sv)
    \<and> opt_message_max_bytes (options ch') = opt_message_max_bytes (options sv)
    \<and> local_outbox ch' = [] \<and> backend ch' = Some b3"
proof -
  let ?o = "o'\<lparr>opt_capacity := hdr_capacity (hdr reg), opt_message_max_bytes := hdr_message_max_bytes (hdr reg)\<rparr>"
  let ?ch = "ch\<lparr>options := ?o, shared_name := BuildSharedName (opt_name o'), local_outbox := [],
               local_pending_drop := 0, backend := Some b3, header := True, opened := True\<rparr>"
  have wf: "region_wf reg" using assms(3) by (simp add: chan_inv_def ring_state_def)
  have "OpenClient vt ch w o' = Some (Status_Ok, ?ch, w3)"
    using assms region_wf_ring_bytes [OF wf]
    by (simp add: OpenClient_def MapAsClient_def Let_def served_def ensure_backend_def)
  moreover have "mmb ?ch = mmb sv" using assms(4) by (simp add: mmb_def served_def)
  moreover have "chan_inv ?ch reg ms"
    by (rule chan_inv_peer [OF assms(3)]) (use calculation(2) in simp_all)
  ultimately show ?thesis using assms(4) by (simp add: served_def)
qed

theorem OpenClient_adopts_witness:
  "\<exists>ch'. OpenClient cell_backend SharedMemoryChannel (Some (opened_region demo_options))
       (default_options\<lparr>opt_name := ''demo''\<rparr>) = Some (Status_Ok, ch', Some (opened_region demo_options))
     \<and> chan_inv ch' (opened_region demo_options) [] \<and> opt_message_max_bytes (options ch') = 16"
proof -
  have "served (options (opened_channel demo_options)) (opened_region demo_options)"
    by (simp add: served_def opened_region_def fresh_region_def Let_def)
  then show ?thesis
    using OpenClient_adopts [OF _ _ demo_inv, of SharedMemoryChannel "default_options\<lparr>opt_name := ''demo''\<rparr>"
        cell_backend "Some (opened_region demo_options)" "()" "Some (opened_region demo_options)" "()"
        "Some (opened_region demo_options)" "()" "Some (opened_region demo_options)"]
    by (auto simp: cell_backend_def SharedMemoryChannel_def demo_options_def)
qed

text \<open>\<open>OpenClient\<close> never opens a region with a foreign magic number or version, or whose ring size is not
  a power of two: the status is \<open>kInternalError\<close>, the temporary mapping is closed and the channel
  stays closed.\<close>
theorem OpenClient_rejects:
  assumes "\<not> opened ch" "\<not> header ch" "opt_name o' \<noteq> []"
    "be_open vt (BuildSharedName (opt_name o')) sizeof_SharedHeader (ensure_backend vt ch) w = (Status_Ok, b, w1)"
    "be_region vt b w1 = Some reg"
    "magic (hdr reg) \<noteq> kChannelMagic \<or> version (hdr reg) \<noteq> kChannelVersion
       \<or> (\<forall>k<32. ring_bytes (hdr reg) \<noteq> 2 ^ k)"
  shows "\<exists>msg ch'. OpenClient vt ch w o' = Some (mkStatus kInternalError msg, ch', snd (be_close vt b w1))
    \<and> \<not> opened ch' \<and> \<not> header ch' \<and> backend ch' = Some (fst (be_close vt b w1))"
proof (cases "magic (hdr reg) \<noteq> kChannelMagic \<or> version (hdr reg) \<noteq> kChannelVersion")
  case True
  then show ?thesis
    using assms by (cases "be_close vt b w1") (auto simp: OpenClient_def MapAsClient_def Let_def ensure_backend_def)
next
  case False
  let ?r = "ring_bytes (hdr reg)"
  have "?r = 0 \<or> ?r AND (?r - 1) \<noteq> 0"
  proof (rule ccontr)
    assume "\<not> ?thesis"
    then have z: "?r \<noteq> 0" "?r AND (?r - 1) = 0" by simp_all
    have "1 \<le> unat ?r" using z(1) by (simp add: Suc_le_eq unat_gt_0)
    then obtain k where k: "2 ^ k \<le> unat ?r" "unat ?r < 2 ^ (k + 1)"
      using ex_power_ivl1 [of 2 "unat ?r"] by auto
    have "unat ?r div 2 ^ k = 1" using k by (intro div_nat_eqI) simp_all
    then have top: "bit ?r k" by (simp add: bit_word_nat)
    have "k < 32" using bit_imp_le_length [OF top] by simp
    have "?r \<noteq> 2 ^ k" using assms(6) False \<open>k < 32\<close> by blast
    then have "unat ?r \<noteq> 2 ^ k" using \<open>k < 32\<close> by (simp add: word_unat_eq_iff unat_2p)
    moreover have "unat (?r - 1) = unat ?r - 1" using z(1) by (rule unat_minus_one)
    ultimately have "unat (?r - 1) div 2 ^ k = 1" using k by (intro div_nat_eqI) simp_all
    then have "bit (?r - 1) k" by (simp add: bit_word_nat)
    with top have "bit (?r AND (?r - 1)) k" by (simp add: bit_and_iff)
    then show False using z(2) by simp
  qed
  then show ?thesis
    using False assms by (cases "be_close vt b w1") (auto simp: OpenClient_def MapAsClient_def Let_def ensure_backend_def)
qed

theorem OpenClient_rejects_witness:
  "\<exists>msg ch'. OpenClient cell_backend SharedMemoryChannel
       (Some ((opened_region demo_options)\<lparr>hdr := (hdr (opened_region demo_options))\<lparr>version := 1\<rparr>\<rparr>))
       (default_options\<lparr>opt_name := ''demo''\<rparr>) = Some (mkStatus kInternalError msg, ch',
       Some ((opened_region demo_options)\<lparr>hdr := (hdr (opened_region demo_options))\<lparr>version := 1\<rparr>\<rparr>))
     \<and> \<not> opened ch'"
  using OpenClient_rejects [of SharedMemoryChannel "default_options\<lparr>opt_name := ''demo''\<rparr>" cell_backend
      "Some ((opened_region demo_options)\<lparr>hdr := (hdr (opened_region demo_options))\<lparr>version := 1\<rparr>\<rparr>)" "()"
      "Some ((opened_region demo_options)\<lparr>hdr := (hdr (opened_region demo_options))\<lparr>version := 1\<rparr>\<rparr>)"
      "(opened_region demo_options)\<lparr>hdr := (hdr (opened_region demo_options))\<lparr>version := 1\<rparr>\<rparr>"]
  by (auto simp: cell_backend_def SharedMemoryChannel_def kChannelVersion_def)

section \<open>A ring size that runs over\<close>

lemma ring_zero_drops:
  assumes "ring_bytes (hdr reg) = 0" "header ch"
  shows "ProcessIo_loop n [m] ch reg = (if n = 0 then Some (ch\<lparr>local_outbox := [m]\<rparr>, reg)
    else Some (ch\<lparr>local_outbox := []\<rparr>, reg))"
proof -
  have "FrameBytes (of_nat (length m)) \<noteq> 0"
    using FB_bounds(5) by (simp add: word_unat_eq_iff)
  then have "RingBytes ch reg < FrameBytes (of_nat (length m))"
    using assms by (simp add: RingBytes_def word_gt_0)
  then have "TryWriteOneToShared ch reg m = Some (mkStatus kInvalidArgument ''frame exceeds ring size'', ch, reg)"
    by (simp add: TryWriteOneToShared_def Let_def)
  then show ?thesis by (simp add: status_ok_def mkStatus_def)
qed

definition huge_options :: ChannelOptions where
  "huge_options = demo_options\<lparr>opt_capacity := 1, opt_message_max_bytes := 0x80000000\<rparr>"

text \<open>C29: A configuration that \<open>OpenServer\<close> accepts and that loses every message: with a capacity of 1 and
  messages of up to \<open>2^31\<close> bytes the size check of \<open>TotalBytes\<close> passes, \<open>NextPow2\<close> runs over to 0, the
  ring has no bytes, and \<open>TrySend\<close> answers Ok for every message while the message is neither in the
  outbox nor in the ring.\<close>
theorem huge_ring_loses_messages:
  "status_ok (fst (OpenServer cell_backend SharedMemoryChannel None huge_options))
   \<and> ring_bytes (hdr (opened_region huge_options)) = 0 \<and> ring (opened_region huge_options) = []
   \<and> (\<forall>data sz. sz \<le> opt_message_max_bytes huge_options \<and> unat sz \<le> length data \<longrightarrow>
        TrySend (opened_channel huge_options) (opened_region huge_options) (Some data) sz
          = Some (Status_Ok, opened_channel huge_options, opened_region huge_options))"
proof -
  let ?ch = "opened_channel huge_options" and ?reg = "opened_region huge_options"
  have np: "NextPow2 (0x80000008 :: u32) = 0" by code_simp
  have fb: "FrameBytes 0x80000000 = 0x80000008"
    by (simp add: FrameBytes_def AlignUp_def sizeof_FrameHeader_def)
  have tb: "TotalBytes ch = 256" if "options ch = huge_options" for ch :: "unit Channel"
    using that fb np by (simp add: TotalBytes_def huge_options_def sizeof_SharedHeader_def)
  have "status_ok (fst (OpenServer cell_backend SharedMemoryChannel None huge_options))"
    using tb by (simp add: OpenServer_def MapAsServer_def SharedMemoryChannel_def cell_backend_def
        ValidateOptions_def huge_options_def demo_options_def)
  moreover have z: "ring_bytes (hdr ?reg) = 0" "ring ?reg = []"
    using tb [of ?ch] fb np
    by (simp_all add: opened_region_def fresh_region_def huge_options_def sizeof_SharedHeader_def)
  moreover have "TrySend ?ch ?reg (Some data) sz = Some (Status_Ok, ?ch, ?reg)"
    if sz: "sz \<le> opt_message_max_bytes huge_options" "unat sz \<le> length data" for data sz
  proof -
    let ?m = "take (unat sz) data"
    have "(if 0 < sz then Option.bind (Some data) (\<lambda>bs. read_at bs 0 (unat sz)) else Some []) = Some ?m"
      using sz(2) by (auto simp: read_at_Some word_gt_0)
    moreover have "ProcessIoOnce 1 ?ch ?reg = Some (?ch\<lparr>local_outbox := []\<rparr>, ?reg)"
      by (simp add: ProcessIoOnce_def)
    moreover have "?ch\<lparr>local_outbox := []\<rparr> = ?ch" by (simp add: opened_channel_def SharedMemoryChannel_def)
    moreover have "0 < unat (LocalOutboxLimit ?ch)" by (rule LocalOutboxLimit_pos)
    moreover have "ProcessIoOnce (max 1 (min 8 (LocalOutboxLimit (?ch\<lparr>local_outbox := [?m]\<rparr>))))
       (?ch\<lparr>local_outbox := [?m]\<rparr>) ?reg = Some (?ch\<lparr>local_outbox := []\<rparr>, ?reg)"
    proof -
      have "unat (max 1 (min 8 (LocalOutboxLimit (?ch\<lparr>local_outbox := [?m]\<rparr>)))) \<noteq> 0"
        by (simp add: LocalOutboxLimit_def huge_options_def)
      then show ?thesis unfolding ProcessIoOnce_def
        by (simp add: ring_zero_drops [OF z(1)] del: ProcessIo_loop.simps)
    qed
    ultimately show ?thesis using sz(1) by (simp add: TrySend_def Let_def not_less)
  qed
  ultimately show ?thesis by blast
qed

theorem huge_ring_loses_messages_witness:
  "TrySend (opened_channel huge_options) (opened_region huge_options) (Some [1, 2, 3]) 3
     = Some (Status_Ok, opened_channel huge_options, opened_region huge_options)"
proof -
  have "(3 :: u32) \<le> opt_message_max_bytes huge_options" by (simp add: huge_options_def word_le_nat_alt)
  then show ?thesis using huge_ring_loses_messages by simp
qed

section \<open>A ring of one frame\<close>

definition single_options :: ChannelOptions where
  "single_options = demo_options\<lparr>opt_capacity := 1, opt_message_max_bytes := 17\<rparr>"

text \<open>A link whose ring is empty and whose next frame does not fit.\<close>

fun link_stuck :: "nat \<Rightarrow> 'b link \<Rightarrow> bool" where
  "link_stuck N (a, b, reg) \<longleftrightarrow>
     ring_inv reg [] \<and> opened a \<and> header a \<and> opened b \<and> header b \<and> local_outbox b = [] \<and> mmb a = N
     \<and> (case local_outbox a of [] \<Rightarrow> False
        | m # rest \<Rightarrow> length m < 4294967296 \<and> \<not> frame_fits reg (length m) \<and> FB (length m) \<le> rlen reg)"

lemma ProcessIoOnce_stuck:
  assumes "ring_inv reg []" "header ch" "local_outbox ch = m # rest" "length m < 4294967296"
    "\<not> frame_fits reg (length m)" "FB (length m) \<le> rlen reg" "b \<noteq> 0"
  shows "ProcessIoOnce b ch reg = Some (count_send ch, reg)"
proof -
  have "TryWriteOneToShared ch reg m = Some (st_full, count_send ch, reg)"
    by (rule TryWriteOne_blocked) (use assms in simp_all)
  moreover have "(count_send ch)\<lparr>local_outbox := m # rest\<rparr> = count_send ch"
    using assms(3) by (cases ch) (simp add: count_send_def)
  moreover have "unat b \<noteq> 0" using assms(7) by (simp add: unat_eq_zero)
  ultimately show ?thesis
    using assms(3) by (simp add: ProcessIoOnce_def st_full_def)
qed

lemma stuck_enq:
  assumes "link_stuck N s" "length m \<le> N"
  shows "\<exists>b s'. chan_enq m s = Some (b, s') \<and> link_stuck N s'"
proof -
  obtain a b reg where s: "s = (a, b, reg)" by (cases s)
  with assms(1) obtain h rest where st: "ring_inv reg []" "opened a" "header a" "opened b" "header b"
    "local_outbox b = []" "mmb a = N" "local_outbox a = h # rest" "length h < 4294967296"
    "\<not> frame_fits reg (length h)" "FB (length h) \<le> rlen reg"
    by (auto split: list.splits)
  have len: "length m < 4294967296"
    using assms(2) unfolding st(7) [symmetric] mmb_def by (rule le_less_trans) simp
  note sz = unat_length_u32 [OF len]
  let ?sz = "of_nat (length m) :: u32"
  have le: "\<not> opt_message_max_bytes (options a) < ?sz"
    using assms(2) st(7) by (simp add: word_less_nat_alt sz mmb_def)
  have p1: "ProcessIoOnce 1 a reg = Some (count_send a, reg)"
    using st by (intro ProcessIoOnce_stuck) simp_all
  let ?a2 = "(count_send a)\<lparr>local_outbox := local_outbox (count_send a) @ [m]\<rparr>"
  have "1 \<le> max 1 (min 8 (LocalOutboxLimit ?a2))" by simp
  then have "max 1 (min 8 (LocalOutboxLimit ?a2)) \<noteq> 0" by (auto simp: word_le_nat_alt)
  then have p2: "ProcessIoOnce (max 1 (min 8 (LocalOutboxLimit ?a2))) ?a2 reg = Some (count_send ?a2, reg)"
    using st by (intro ProcessIoOnce_stuck [of _ _ h "rest @ [m]"]) (simp_all add: count_send_def)
  have msg: "(if 0 < ?sz then Option.bind (Some m) (\<lambda>bs. read_at bs 0 (unat ?sz)) else Some []) = Some m"
    using sz by (auto simp: read_at_Some word_gt_0 word_unat_eq_iff)
  have keep: "frame_fits (reg\<lparr>hdr := (hdr reg)\<lparr>dropped_when_full := d\<rparr>\<rparr>) n = frame_fits reg n"
    "ring_inv (reg\<lparr>hdr := (hdr reg)\<lparr>dropped_when_full := d\<rparr>\<rparr>) [] = ring_inv reg []" for d n
    by (simp_all add: frame_fits_def tail_room_def ring_state_def region_wf_def)
  show ?thesis
  proof (cases "unat (LocalOutboxLimit (count_send a)) \<le> length (local_outbox (count_send a))")
    case True
    then show ?thesis using s st le p1 keep
      by (simp add: TrySend_def Let_def) (auto simp: count_send_def mmb_def)
  next
    case False
    then have "chan_enq m s = Some (True, count_send ?a2, b, reg)"
      using s st(2,3) le p1 p2 msg by (simp add: TrySend_def Let_def)
    moreover have "link_stuck N (count_send ?a2, b, reg)"
      using st by (simp add: count_send_def mmb_def)
    ultimately show ?thesis by blast
  qed
qed

lemma stuck_deq:
  assumes "link_stuck N s"
  shows "\<exists>s'. chan_deq bsz s = Some (None, s') \<and> link_stuck N s'"
proof -
  obtain a b reg where s: "s = (a, b, reg)" by (cases s)
  with assms have st: "ring_inv reg []" "opened b" "header b" "local_outbox b = []" by simp_all
  have "ridx reg = widx reg" using ring_inv_empty_iff [OF st(1)] by simp
  then have "write_index (hdr reg) \<le> read_index (hdr reg)" by (simp add: word_le_nat_alt)
  then have "TryRecv b reg (Some (replicate (unat bsz) 0)) bsz
     = Some (Result_status 0 st_no_message, Some (replicate (unat bsz) 0), count_recv (b\<lparr>local_outbox := []\<rparr>), reg)"
    using st by (simp add: TryRecv_def ProcessIoOnce_def recv_none_def)
  then show ?thesis using s assms
    by (simp only: chan_deq.simps Option.bind.bind_lunit prod.case refusals_not_ok if_False) (simp add: count_recv_def)
qed

lemma stuck_run:
  assumes "link_stuck N s" "\<forall>p\<in>set ops. op_ok (\<lambda>m. length m \<le> N) p"
  shows "\<exists>acc s'. fifo_run chan_enq (chan_deq bsz) ops s = Some (acc, [], s')"
  using assms
proof (induction ops arbitrary: s)
  case (Cons p ops)
  show ?case
  proof (cases p)
    case (Enq m)
    have "length m \<le> N" using Cons.prems(2) Enq by simp
    then obtain b s1 where e: "chan_enq m s = Some (b, s1)" "link_stuck N s1"
      using stuck_enq [OF Cons.prems(1)] by blast
    with Cons.IH [OF e(2)] Cons.prems(2) Enq show ?thesis by fastforce
  next
    case Deq
    obtain s1 where e: "chan_deq bsz s = Some (None, s1)" "link_stuck N s1"
      using stuck_deq [OF Cons.prems(1)] by blast
    with Cons.IH [OF e(2)] Cons.prems(2) Deq show ?thesis by fastforce
  qed
qed auto

lemma single_prefix:
  "map_option (\<lambda>(acc, out, a, b, reg). (acc, out, (local_outbox a, opened a, header a, mmb a),
        (local_outbox b, opened b, header b), (widx reg, ridx reg, rlen reg)))
     (fifo_run chan_enq (chan_deq 17) [Enq [], Deq, Enq (replicate 17 1)]
       (opened_channel single_options, opened_channel single_options, opened_region single_options))
   = Some ([[], replicate 17 1], [[]], ([replicate 17 1], True, True, 17), ([], True, True), (8, 8, 32))"
  by code_simp

lemma single_ok: "geometry_ok single_options" "opt_capacity single_options \<noteq> 0"
  by (simp_all add: geometry_ok_def ring_target_def FB_def single_options_def)

lemma single_room: "index_room 27 (opened_region single_options)"
proof -
  note f = fresh_region_inv [OF single_ok, of "opened_channel single_options", simplified]
  have "rlen (opened_region single_options) < 64" "widx (opened_region single_options) = 0"
    using f(3,4) unfolding opened_region_def by (simp_all add: ring_target_def FB_def single_options_def)
  then show ?thesis unfolding index_room_def by linarith
qed

text \<open>C28: A configuration in which an accepted message is never delivered although the receiver has drained
  the ring: with a capacity of 1 and messages of up to 17 bytes the ring is one maximal frame long.
  After an empty message has been sent and received, a message of 17 bytes is accepted, and from
  then on no sequence of sends and receives delivers anything.\<close>
theorem single_frame_ring_stuck:
  "\<exists>s. fifo_run chan_enq (chan_deq 17) [Enq [], Deq, Enq (replicate 17 1)]
         (opened_channel single_options, opened_channel single_options, opened_region single_options)
       = Some ([[], replicate 17 1], [[]], s)
     \<and> (\<forall>ops. (\<forall>p\<in>set ops. op_ok (\<lambda>m. length m \<le> 17) p) \<longrightarrow>
          (\<exists>acc s'. fifo_run chan_enq (chan_deq 17) ops s = Some (acc, [], s')))"
proof -
  let ?ch = "opened_channel single_options" and ?reg = "opened_region single_options"
  let ?ops = "[Enq [], Deq, Enq (replicate 17 1)] :: u8 list fifo_op list"
  let ?run = "fifo_run chan_enq (chan_deq 17) ?ops (?ch, ?ch, ?reg)"
  obtain acc out a b reg where run: "?run = Some (acc, out, a, b, reg)"
    and c: "acc = [[], replicate 17 1]" "out = [[]]" "local_outbox a = [replicate 17 1]" "opened a" "header a"
      "mmb a = 17" "local_outbox b = []" "opened b" "header b" "widx reg = 8" "ridx reg = 8" "rlen reg = 32"
    using single_prefix by (auto split: prod.splits)
  have "chan_holds 17 (length ?ops + 0) (?ch, ?ch, ?reg) []"
    using link_open_holds [of single_options ?ch ?ch 3, OF _ single_ok] single_room
    by (simp add: link_open_def opened_region_def) (simp add: single_options_def)
  from shm.run_fifo [OF this, of 17] obtain q' where
    "chan_holds 17 0 (a, b, reg) q'" "acc = out @ q'"
    unfolding run by fastforce
  then have "ring_inv reg []" using c by (auto simp: chan_inv_def)
  moreover have "\<not> frame_fits reg 17" "FB 17 \<le> rlen reg" using c(10-12) by (simp_all add: frame_fits_def tail_room_def FB_def)
  ultimately have "link_stuck 17 (a, b, reg)" using c by simp
  then show ?thesis using run c(1,2) stuck_run by blast
qed

theorem single_frame_ring_stuck_witness:
  "\<exists>s acc s'. fifo_run chan_enq (chan_deq 17) [Enq [], Deq, Enq (replicate 17 1)]
         (opened_channel single_options, opened_channel single_options, opened_region single_options)
       = Some ([[], replicate 17 1], [[]], s)
     \<and> fifo_run chan_enq (chan_deq 17) [Deq, Deq, Enq [5], Deq] s = Some (acc, [], s')"
proof -
  have "\<forall>p\<in>set [Deq, Deq, Enq [5 :: u8], Deq]. op_ok (\<lambda>m. length m \<le> 17) p" by simp
  then show ?thesis using single_frame_ring_stuck by blast
qed

end
