(* ===== verification/CK_Queues.thy ===== *)
theory CK_Queues
  imports CK_Status CK_Fifo
begin

text \<open>
  The in-memory queues: \<open>BasicMutexQueueImpl\<close> (\<open>src/concurrent/basic_queue_impl.hpp\<close>, a mutex around
  a deque with an optional capacity) and \<open>BasicRingBufferImpl\<close>
  (\<open>src/concurrent/basic_ring_buffer_impl.hpp\<close>, a fixed circular array). Every operation holds the
  object's mutex for its whole body, so an operation is one step. Whether the element type's copy
  or the allocation inside throws is an input of the operation. Both are shown to meet the queue
  contract exactly, with their capacities.
\<close>

section \<open>Exceptions inside an operation\<close>

datatype throws = NoThrow | BadAlloc | OtherThrow

definition ck_status :: "StatusCode \<Rightarrow> string \<Rightarrow> Status" where
  "ck_status code message = Status_FromModule code message kConcurrent 0"

lemma ck_status_ok [simp]: "status_ok (ck_status c m) \<longleftrightarrow> c = kOk"
  by (simp add: ck_status_def Status_FromModule_def status_ok_def)

lemma ck_status_code [simp]: "st_code (ck_status c m) = c"
  by (simp add: ck_status_def Status_FromModule_def)

section \<open>The mutex queue\<close>

record 'a MutexQueue =
  mq_capacity :: size_t
  mq_items :: "'a list"

definition mq_full :: "'a MutexQueue \<Rightarrow> bool" where
  "mq_full q \<longleftrightarrow> mq_capacity q > 0 \<and> unat (mq_capacity q) \<le> length (mq_items q)"

definition mq_TryPush :: "throws \<Rightarrow> 'a \<Rightarrow> 'a MutexQueue \<Rightarrow> Status \<times> 'a MutexQueue" where
  "mq_TryPush env v q =
     (if mq_full q then (ck_status kWouldBlock ''queue is full'', q)
      else case env of
          BadAlloc \<Rightarrow> (ck_status kInternalError ''queue allocation failed'', q)
        | OtherThrow \<Rightarrow> (ck_status kInternalError ''queue push failed'', q)
        | NoThrow \<Rightarrow> (Status_Ok, q\<lparr>mq_items := mq_items q @ [v]\<rparr>))"

text \<open>\<open>TryPushMove\<close> has the body of \<open>TryPush\<close> with the value moved in.\<close>

definition mq_TryPushMove :: "throws \<Rightarrow> 'a \<Rightarrow> 'a MutexQueue \<Rightarrow> Status \<times> 'a MutexQueue" where
  "mq_TryPushMove env v q =
     (if mq_full q then (ck_status kWouldBlock ''queue is full'', q)
      else case env of
          BadAlloc \<Rightarrow> (ck_status kInternalError ''queue allocation failed'', q)
        | OtherThrow \<Rightarrow> (ck_status kInternalError ''queue push failed'', q)
        | NoThrow \<Rightarrow> (Status_Ok, q\<lparr>mq_items := mq_items q @ [v]\<rparr>))"

text \<open>The loop of \<open>TryPushBatch\<close>; \<open>env i\<close> is the outcome of the \<open>i\<close>-th copy. The result carries
  the number stored through \<open>pushed\<close>.\<close>

fun mq_push_loop :: "(nat \<Rightarrow> throws) \<Rightarrow> 'a list \<Rightarrow> nat \<Rightarrow> 'a MutexQueue \<Rightarrow> Status \<times> nat \<times> 'a MutexQueue" where
  "mq_push_loop env [] done q = (Status_Ok, done, q)"
| "mq_push_loop env (v # vs) done q =
     (if mq_full q then (ck_status kWouldBlock ''queue is full'', done, q)
      else case env done of
          BadAlloc \<Rightarrow> (ck_status kInternalError ''queue allocation failed'', done, q)
        | OtherThrow \<Rightarrow> (ck_status kInternalError ''queue push failed'', done, q)
        | NoThrow \<Rightarrow> mq_push_loop env vs (Suc done) (q\<lparr>mq_items := mq_items q @ [v]\<rparr>))"

definition mq_TryPushBatch ::
    "(nat \<Rightarrow> throws) \<Rightarrow> 'a list option \<Rightarrow> size_t \<Rightarrow> 'a MutexQueue \<Rightarrow> (Status \<times> nat \<times> 'a MutexQueue) option" where
  "mq_TryPushBatch env values count q =
     (case values of
        None \<Rightarrow> if count > 0 then Some (ck_status kInvalidArgument ''values is null'', 0, q)
               else Some (mq_push_loop env [] 0 q)
      | Some vs \<Rightarrow> map_option (\<lambda>ws. mq_push_loop env ws 0 q) (read_at vs 0 (unat count)))"

definition mq_TryPop :: "'a \<Rightarrow> 'a MutexQueue \<Rightarrow> 'a Result \<times> 'a MutexQueue" where
  "mq_TryPop dflt q =
     (case mq_items q of
        [] \<Rightarrow> (Result_status dflt (ck_status kWouldBlock ''queue is empty''), q)
      | v # rest \<Rightarrow> (Result_value v, q\<lparr>mq_items := rest\<rparr>))"

definition mq_ApproxSize :: "'a MutexQueue \<Rightarrow> size_t" where
  "mq_ApproxSize q = of_nat (length (mq_items q))"

definition mq_IsEmpty :: "'a MutexQueue \<Rightarrow> bool" where
  "mq_IsEmpty q \<longleftrightarrow> mq_items q = []"

text \<open>An output pointer is null (\<open>None\<close>) or holds the caller's current value.\<close>

definition mq_TryPeek :: "'a option \<Rightarrow> 'a MutexQueue \<Rightarrow> Status \<times> 'a option" where
  "mq_TryPeek out q =
     (case out of None \<Rightarrow> (ck_status kInvalidArgument ''out is null'', None)
      | Some _ \<Rightarrow> (case mq_items q of
          [] \<Rightarrow> (ck_status kWouldBlock ''queue is empty'', out)
        | v # _ \<Rightarrow> (Status_Ok, Some v)))"

fun mq_pop_loop :: "(nat \<Rightarrow> bool) \<Rightarrow> nat \<Rightarrow> 'a list \<Rightarrow> nat \<Rightarrow> 'a MutexQueue \<Rightarrow>
    (Status \<times> nat \<times> 'a list \<times> 'a MutexQueue) option" where
  "mq_pop_loop throw 0 out done q = Some (Status_Ok, done, out, q)"
| "mq_pop_loop throw (Suc left) out done q =
     (case mq_items q of
        [] \<Rightarrow> Some (Status_Ok, done, out, q)
      | v # rest \<Rightarrow>
          if throw done then Some (ck_status kInternalError ''queue pop batch failed'', done, out, q)
          else Option.bind (write_at out done [v]) (\<lambda>out'.
            mq_pop_loop throw left out' (Suc done) (q\<lparr>mq_items := rest\<rparr>)))"

definition mq_TryPopBatch :: "(nat \<Rightarrow> bool) \<Rightarrow> 'a list option \<Rightarrow> size_t \<Rightarrow> 'a MutexQueue \<Rightarrow>
    (Status \<times> nat \<times> 'a list option \<times> 'a MutexQueue) option" where
  "mq_TryPopBatch throw out cap q =
     (if out = None \<and> cap > 0 then Some (ck_status kInvalidArgument ''out_values is null'', 0, out, q)
      else if mq_items q = [] then Some (ck_status kWouldBlock ''queue is empty'', 0, out, q)
      else (case out of
              None \<Rightarrow> Some (Status_Ok, 0, None, q)
            | Some buf \<Rightarrow> map_option (\<lambda>(st, n, buf', q'). (st, n, Some buf', q'))
                           (mq_pop_loop throw (unat cap) buf 0 q)))"

definition mq_Clear :: "'a MutexQueue \<Rightarrow> Status \<times> 'a MutexQueue" where
  "mq_Clear q = (Status_Ok, q\<lparr>mq_items := []\<rparr>)"

definition mq_Capacity :: "'a MutexQueue \<Rightarrow> size_t" where
  "mq_Capacity q = mq_capacity q"

definition BasicMutexQueue :: "size_t \<Rightarrow> 'a MutexQueue" where
  "BasicMutexQueue capacity = \<lparr>mq_capacity = capacity, mq_items = []\<rparr>"

section \<open>The ring buffer\<close>

record 'a RingBuffer =
  rb_capacity :: size_t
  rb_data :: "'a list"
  rb_head :: size_t
  rb_tail :: size_t
  rb_size :: size_t

definition BasicRingBuffer :: "'a \<Rightarrow> size_t \<Rightarrow> 'a RingBuffer" where
  "BasicRingBuffer dflt capacity =
     \<lparr>rb_capacity = capacity, rb_data = replicate (unat (if capacity = 0 then 1 else capacity)) dflt,
      rb_head = 0, rb_tail = 0, rb_size = 0\<rparr>"

definition rb_TryPush :: "throws \<Rightarrow> 'a \<Rightarrow> 'a RingBuffer \<Rightarrow> (Status \<times> 'a RingBuffer) option" where
  "rb_TryPush env v b =
     (if rb_capacity b = 0 \<or> rb_size b \<ge> rb_capacity b
      then Some (ck_status kWouldBlock ''ring buffer is full'', b)
      else case env of
          BadAlloc \<Rightarrow> Some (ck_status kInternalError ''ring buffer allocation failed'', b)
        | OtherThrow \<Rightarrow> Some (ck_status kInternalError ''ring buffer push failed'', b)
        | NoThrow \<Rightarrow> map_option (\<lambda>d. (Status_Ok,
            b\<lparr>rb_data := d, rb_tail := (rb_tail b + 1) mod rb_capacity b, rb_size := rb_size b + 1\<rparr>))
            (write_at (rb_data b) (unat (rb_tail b)) [v]))"

text \<open>A pop may throw when the element is moved out, or when the result is copied after the
  indices have moved. A moved-from slot holds some value \<open>husk v\<close>.\<close>

datatype pop_env = PopOk | MoveThrows | CopyThrows

definition rb_TryPop ::
    "pop_env \<Rightarrow> ('a \<Rightarrow> 'a) \<Rightarrow> 'a \<Rightarrow> 'a RingBuffer \<Rightarrow> ('a Result \<times> 'a RingBuffer) option" where
  "rb_TryPop env husk dflt b =
     (if rb_size b = 0 then Some (Result_status dflt (ck_status kWouldBlock ''ring buffer is empty''), b)
      else if env = MoveThrows
      then Some (Result_status dflt (ck_status kInternalError ''ring buffer pop failed''), b)
      else Option.bind (read_at (rb_data b) (unat (rb_head b)) 1) (\<lambda>vs.
           Option.bind (write_at (rb_data b) (unat (rb_head b)) [husk (hd vs)]) (\<lambda>d.
             let b' = b\<lparr>rb_data := d, rb_head := (rb_head b + 1) mod rb_capacity b, rb_size := rb_size b - 1\<rparr>
             in if env = CopyThrows
                then Some (Result_status dflt (ck_status kInternalError ''ring buffer pop failed''), b')
                else Some (Result_value (hd vs), b'))))"

definition rb_TryPeek :: "bool \<Rightarrow> 'a option \<Rightarrow> 'a RingBuffer \<Rightarrow> (Status \<times> 'a option) option" where
  "rb_TryPeek throw out b =
     (if out = None then Some (ck_status kInvalidArgument ''out is null'', None)
      else if rb_size b = 0 then Some (ck_status kWouldBlock ''ring buffer is empty'', out)
      else if throw then Some (ck_status kInternalError ''ring buffer peek failed'', out)
      else map_option (\<lambda>vs. (Status_Ok, Some (hd vs))) (read_at (rb_data b) (unat (rb_head b)) 1))"

definition rb_Clear :: "'a RingBuffer \<Rightarrow> Status \<times> 'a RingBuffer" where
  "rb_Clear b = (Status_Ok, b\<lparr>rb_head := 0, rb_tail := 0, rb_size := 0\<rparr>)"

definition rb_Size :: "'a RingBuffer \<Rightarrow> size_t" where "rb_Size b = rb_size b"

definition rb_Capacity :: "'a RingBuffer \<Rightarrow> size_t" where "rb_Capacity b = rb_capacity b"

definition rb_IsEmpty :: "'a RingBuffer \<Rightarrow> bool" where "rb_IsEmpty b \<longleftrightarrow> rb_size b = 0"

definition rb_IsFull :: "'a RingBuffer \<Rightarrow> bool" where
  "rb_IsFull b \<longleftrightarrow> rb_capacity b > 0 \<and> rb_size b \<ge> rb_capacity b"

section \<open>The mutex queue meets the contract\<close>

fun mq_holds :: "nat \<Rightarrow> 'a MutexQueue \<Rightarrow> 'a list \<Rightarrow> bool" where
  "mq_holds n q xs \<longleftrightarrow> mq_items q = xs \<and> (mq_capacity q > 0 \<longrightarrow> length xs \<le> unat (mq_capacity q))"

definition mq_enq :: "('a, 'a MutexQueue) enq_fun" where
  "mq_enq v q = (let (st, q') = mq_TryPush NoThrow v q in Some (status_ok st, q'))"

definition mq_deq :: "'a \<Rightarrow> ('a, 'a MutexQueue) deq_fun" where
  "mq_deq dflt q = (let (r, q') = mq_TryPop dflt q in Some (if result_ok r then Some (res_value r) else None, q'))"

definition mq_cap :: "'a MutexQueue \<Rightarrow> nat option" where
  "mq_cap q = (if mq_capacity q = 0 then None else Some (unat (mq_capacity q)))"

lemma mq_enq_eq: "mq_enq v q = Some (\<not> mq_full q, if mq_full q then q else q\<lparr>mq_items := mq_items q @ [v]\<rparr>)"
  by (simp add: mq_enq_def mq_TryPush_def)

lemma mq_deq_eq:
  "mq_deq dflt q = (case mq_items q of [] \<Rightarrow> Some (None, q) | v # rest \<Rightarrow> Some (Some v, q\<lparr>mq_items := rest\<rparr>))"
  by (simp add: mq_deq_def mq_TryPop_def Result_value_def result_ok_def Result_status_def split: list.splits)

interpretation mq: exact_queue mq_holds "\<lambda>_. True" mq_enq "mq_deq dflt" mq_cap
proof unfold_locales
  fix n :: nat and s :: "'a MutexQueue" and q m b s' r
  show "\<exists>b s'. mq_enq m s = Some (b, s') \<and> mq_holds n s' (if b then q @ [m] else q)"
    if "mq_holds (Suc n) s q" using that by (auto simp: mq_enq_eq mq_full_def)
  show "\<exists>r s'. mq_deq dflt s = Some (r, s') \<and>
      (case r of None \<Rightarrow> mq_holds n s' q | Some m \<Rightarrow> \<exists>q'. q = m # q' \<and> mq_holds n s' q')"
    if "mq_holds (Suc n) s q" using that by (auto simp: mq_deq_eq split: list.splits)
  show "(b \<longleftrightarrow> (case mq_cap s of None \<Rightarrow> True | Some c \<Rightarrow> length q < c)) \<and> mq_cap s' = mq_cap s"
    if "mq_holds (Suc n) s q" "mq_enq m s = Some (b, s')"
    using that by (auto simp: mq_enq_eq mq_full_def mq_cap_def word_gt_0 split: if_splits)
  show "(r = None \<longleftrightarrow> q = []) \<and> mq_cap s' = mq_cap s"
    if "mq_holds (Suc n) s q" "mq_deq dflt s = Some (r, s')"
    using that by (auto simp: mq_deq_eq mq_cap_def split: list.splits)
  show "length q \<le> c" if "mq_holds n s q" "mq_cap s = Some c" for c
    using that by (auto simp: mq_cap_def word_gt_0 split: if_splits)
qed

section \<open>The ring buffer meets the contract\<close>

abbreviation rb_cap :: "'a RingBuffer \<Rightarrow> nat" where "rb_cap b \<equiv> unat (rb_capacity b)"

definition rb_wf :: "'a RingBuffer \<Rightarrow> bool" where
  "rb_wf b \<longleftrightarrow>
     length (rb_data b) = max 1 (rb_cap b) \<and> unat (rb_size b) \<le> rb_cap b
     \<and> (0 < rb_cap b \<longrightarrow> unat (rb_head b) < rb_cap b
          \<and> unat (rb_tail b) = (unat (rb_head b) + unat (rb_size b)) mod rb_cap b)"

definition rb_list :: "'a RingBuffer \<Rightarrow> 'a list" where
  "rb_list b = map (\<lambda>i. rb_data b ! ((unat (rb_head b) + i) mod rb_cap b)) [0..<unat (rb_size b)]"

fun rb_holds :: "nat \<Rightarrow> 'a RingBuffer \<Rightarrow> 'a list \<Rightarrow> bool" where
  "rb_holds n b xs \<longleftrightarrow> rb_wf b \<and> rb_list b = xs"

definition rb_enq :: "('a, 'a RingBuffer) enq_fun" where
  "rb_enq v b = map_option (\<lambda>(st, b'). (status_ok st, b')) (rb_TryPush NoThrow v b)"

definition rb_deq :: "('a \<Rightarrow> 'a) \<Rightarrow> 'a \<Rightarrow> ('a, 'a RingBuffer) deq_fun" where
  "rb_deq husk dflt b =
     map_option (\<lambda>(r, b'). (if result_ok r then Some (res_value r) else None, b')) (rb_TryPop PopOk husk dflt b)"

lemma unat_ring_succ:
  assumes "unat i < unat c"
  shows "unat ((i + 1) mod c :: u64) = (unat i + 1) mod unat c"
  using assms by (simp add: unat_mod_distrib unat_succ_below)

lemma rb_wf_new: "rb_wf (BasicRingBuffer dflt c)" "rb_list (BasicRingBuffer dflt c) = []"
  by (auto simp: rb_wf_def rb_list_def BasicRingBuffer_def Suc_leI unat_gt_0)

lemma rb_push_step:
  assumes wf: "rb_wf b" and room: "unat (rb_size b) < rb_cap b"
  obtains b' where "rb_TryPush NoThrow v b = Some (Status_Ok, b')" "rb_wf b'" "rb_list b' = rb_list b @ [v]"
    "rb_capacity b' = rb_capacity b"
proof -
  let ?C = "rb_cap b" and ?h = "unat (rb_head b)" and ?s = "unat (rb_size b)" and ?t = "unat (rb_tail b)"
  have C: "0 < ?C" using room by simp
  with wf have len: "length (rb_data b) = ?C" and h: "?h < ?C" and t: "?t = (?h + ?s) mod ?C"
    by (auto simp: rb_wf_def)
  have tC: "?t < ?C" using C t by simp
  obtain d where d: "write_at (rb_data b) ?t [v] = Some d" using tC len by (simp add: write_at_Some)
  let ?b = "b\<lparr>rb_data := d, rb_tail := (rb_tail b + 1) mod rb_capacity b, rb_size := rb_size b + 1\<rparr>"
  have s1: "unat (rb_size b + 1) = ?s + 1"
    using room by (rule unat_succ_below)
  have "\<not> (rb_capacity b = 0 \<or> rb_capacity b \<le> rb_size b)"
    using room C by (auto simp: word_le_nat_alt)
  then have eq: "rb_TryPush NoThrow v b = Some (Status_Ok, ?b)" by (simp add: rb_TryPush_def d)
  have "unat ((rb_tail b + 1) mod rb_capacity b) = (?h + (?s + 1)) mod ?C"
    using unat_ring_succ [OF tC] t by (simp add: mod_Suc_eq)
  then have wf': "rb_wf ?b"
    using wf room h s1 write_at_length [OF d] by (simp add: rb_wf_def)
  have old: "d ! ((?h + i) mod ?C) = rb_data b ! ((?h + i) mod ?C)" if "i < ?s" for i
  proof -
    have "(?h + i) mod ?C \<noteq> ?t"
      unfolding t using that room by (intro not_sym [OF ring_slots_distinct]) simp_all
    then show ?thesis using write_at_nth [OF d, of "(?h + i) mod ?C"] len C by auto
  qed
  have new: "d ! ?t = v" using write_at_nth [OF d, of ?t] len tC by simp
  have "rb_list ?b = map (\<lambda>i. d ! ((?h + i) mod ?C)) [0..<?s] @ [d ! ((?h + ?s) mod ?C)]"
    by (simp add: rb_list_def s1)
  also have "\<dots> = rb_list b @ [v]"
    using old new by (simp add: rb_list_def t [symmetric])
  finally show thesis using that [of ?b] eq wf' by simp
qed

lemma rb_pop_step:
  assumes wf: "rb_wf b" and some: "rb_size b \<noteq> 0"
  obtains b' v where "rb_list b = v # rb_list b'" "rb_wf b'" "rb_capacity b' = rb_capacity b"
    "rb_TryPop PopOk husk dflt b = Some (Result_value v, b')"
    "rb_TryPop CopyThrows husk dflt b
       = Some (Result_status dflt (ck_status kInternalError ''ring buffer pop failed''), b')"
proof -
  let ?C = "rb_cap b" and ?h = "unat (rb_head b)" and ?s = "unat (rb_size b)"
  have s: "0 < ?s" using some by (simp add: unat_gt_0)
  with wf have C: "0 < ?C" and len: "length (rb_data b) = ?C" and h: "?h < ?C" and sC: "?s \<le> ?C"
    by (auto simp: rb_wf_def)
  let ?v = "rb_data b ! ?h"
  have rd: "read_at (rb_data b) ?h 1 = Some [?v]"
    using h len by (simp add: read_at_def Cons_nth_drop_Suc [symmetric])
  obtain d where d: "write_at (rb_data b) ?h [husk ?v] = Some d" using h len by (simp add: write_at_Some)
  let ?b = "b\<lparr>rb_data := d, rb_head := (rb_head b + 1) mod rb_capacity b, rb_size := rb_size b - 1\<rparr>"
  have s1: "unat (rb_size b - 1) = ?s - 1" using some by (rule unat_minus_one)
  have h1: "unat ((rb_head b + 1) mod rb_capacity b) = (?h + 1) mod ?C" using h by (rule unat_ring_succ)
  have "((?h + 1) mod ?C + (?s - 1)) mod ?C = (?h + ?s) mod ?C"
    unfolding mod_add_left_eq using s by simp
  then have wf': "rb_wf ?b"
    using wf C s1 h1 write_at_length [OF d] sC by (auto simp: rb_wf_def)
  have shift: "rb_data b ! ((?h + Suc i) mod ?C) = d ! (((?h + 1) mod ?C + i) mod ?C)" if "i < ?s - 1" for i
  proof -
    have "(?h + Suc i) mod ?C \<noteq> (?h + 0) mod ?C"
      using that sC by (intro ring_slots_distinct) simp_all
    then have "(?h + Suc i) mod ?C \<noteq> ?h" using h by simp
    then show ?thesis
      using write_at_nth [OF d, of "(?h + Suc i) mod ?C"] len C by (auto simp: mod_simps)
  qed
  have l: "rb_list b = ?v # rb_list ?b"
  proof (rule nth_equalityI)
    show "length (rb_list b) = length (?v # rb_list ?b)" using s s1 by (simp add: rb_list_def)
    fix i assume "i < length (rb_list b)"
    then show "rb_list b ! i = (?v # rb_list ?b) ! i"
      using shift h s1 h1 by (cases i) (simp_all add: rb_list_def less_diff_conv)
  qed
  show thesis
    using that [of ?v ?b] l wf' some rd d by (simp add: rb_TryPop_def Let_def)
qed

lemma length_rb_list [simp]: "length (rb_list b) = unat (rb_size b)"
  by (simp add: rb_list_def)

lemma rb_list_Nil [simp]: "rb_list b = [] \<longleftrightarrow> rb_size b = 0"
  by (metis length_0_conv length_rb_list unat_eq_zero)

lemma rb_full_push: "rb_wf b \<Longrightarrow> \<not> unat (rb_size b) < rb_cap b \<Longrightarrow>
    rb_TryPush env v b = Some (ck_status kWouldBlock ''ring buffer is full'', b)"
  by (auto simp: rb_TryPush_def word_le_nat_alt)

lemma rb_enq_cases:
  assumes "rb_wf b"
  obtains b' where "unat (rb_size b) < rb_cap b" "rb_enq v b = Some (True, b')" "rb_wf b'"
      "rb_list b' = rb_list b @ [v]" "rb_capacity b' = rb_capacity b"
  | "\<not> unat (rb_size b) < rb_cap b" "rb_enq v b = Some (False, b)"
proof (cases "unat (rb_size b) < rb_cap b")
  case True
  obtain b' where b': "rb_TryPush NoThrow v b = Some (Status_Ok, b')" "rb_wf b'" "rb_list b' = rb_list b @ [v]"
    "rb_capacity b' = rb_capacity b" by (rule rb_push_step [OF assms True])
  show thesis by (rule that(1) [OF True, of b']) (use b' in \<open>simp_all add: rb_enq_def\<close>)
next
  case False
  then show thesis using rb_full_push [OF assms False] that(2) by (simp add: rb_enq_def)
qed

lemma rb_deq_cases:
  assumes "rb_wf b"
  obtains b' v where "rb_list b = v # rb_list b'" "rb_deq husk dflt b = Some (Some v, b')" "rb_wf b'"
      "rb_capacity b' = rb_capacity b"
  | "rb_list b = []" "rb_deq husk dflt b = Some (None, b)"
proof (cases "rb_size b = 0")
  case True
  then show thesis using that(2) by (simp add: rb_deq_def rb_TryPop_def Result_status_def result_ok_def)
next
  case False
  obtain b' v where b': "rb_list b = v # rb_list b'" "rb_wf b'" "rb_capacity b' = rb_capacity b"
    "rb_TryPop PopOk husk dflt b = Some (Result_value v, b')" by (rule rb_pop_step [OF assms False])
  show thesis
    by (rule that(1) [of v b']) (use b' in \<open>simp_all add: rb_deq_def Result_value_def result_ok_def\<close>)
qed

definition rb_limit :: "'a RingBuffer \<Rightarrow> nat option" where
  "rb_limit b = Some (rb_cap b)"

interpretation rb: exact_queue rb_holds "\<lambda>_. True" rb_enq "rb_deq husk dflt" rb_limit
proof unfold_locales
  fix n :: nat and s :: "'a RingBuffer" and q m b s' r
  assume h: "rb_holds (Suc n) s q"
  then have wf: "rb_wf s" and q: "q = rb_list s" by simp_all
  show "\<exists>b s'. rb_enq m s = Some (b, s') \<and> rb_holds n s' (if b then q @ [m] else q)"
    by (rule rb_enq_cases [OF wf, of m]) (use wf q in auto)
  show "\<exists>r s'. rb_deq husk dflt s = Some (r, s') \<and>
      (case r of None \<Rightarrow> rb_holds n s' q | Some m \<Rightarrow> \<exists>q'. q = m # q' \<and> rb_holds n s' q')"
    by (rule rb_deq_cases [OF wf, of husk dflt]) (use wf q in auto)
  show "(b \<longleftrightarrow> (case rb_limit s of None \<Rightarrow> True | Some c \<Rightarrow> length q < c)) \<and> rb_limit s' = rb_limit s"
    if "rb_enq m s = Some (b, s')"
    by (rule rb_enq_cases [OF wf, of m]) (use that q in \<open>auto simp: rb_limit_def\<close>)
  show "(r = None \<longleftrightarrow> q = []) \<and> rb_limit s' = rb_limit s"
    if "rb_deq husk dflt s = Some (r, s')"
    by (rule rb_deq_cases [OF wf, of husk dflt]) (use that q in \<open>auto simp: rb_limit_def\<close>)
next
  fix n :: nat and s :: "'a RingBuffer" and q c
  assume "rb_holds n s q" "rb_limit s = Some c"
  then show "length q \<le> c" by (auto simp: rb_wf_def rb_limit_def)
qed

section \<open>Properties\<close>

lemma mq_push_loop_spec:
  assumes "mq_holds 0 q xs" "\<And>i. env i = NoThrow"
    "vs' = (if mq_capacity q = 0 then vs else take (unat (mq_capacity q) - length xs) vs)"
  shows "\<exists>st q'. mq_push_loop env vs k q = (st, k + length vs', q') \<and> mq_holds 0 q' (xs @ vs')
           \<and> (status_ok st \<longleftrightarrow> vs' = vs) \<and> mq_capacity q' = mq_capacity q"
  using assms(1,3)
proof (induction vs arbitrary: vs' xs k q)
  case Nil
  then show ?case by simp
next
  case (Cons v vs)
  show ?case
  proof (cases "mq_full q")
    case True
    then have "vs' = []" using Cons.prems by (auto simp: mq_full_def)
    then show ?thesis using True Cons.prems by simp
  next
    case False
    let ?q = "q\<lparr>mq_items := mq_items q @ [v]\<rparr>"
    let ?vs = "if mq_capacity ?q = 0 then vs else take (unat (mq_capacity ?q) - length (xs @ [v])) vs"
    have h: "mq_holds 0 ?q (xs @ [v])" using Cons.prems(1) False by (auto simp: mq_full_def)
    have vs': "vs' = v # ?vs"
      using Cons.prems False by (auto simp: mq_full_def word_gt_0 take_Cons' Suc_diff_Suc)
    from Cons.IH [OF h refl, of "Suc k"] False assms(2) show ?thesis
      unfolding vs' by simp
  qed
qed

text \<open>\<open>TryPushBatch\<close> of the mutex queue, when no copy throws, appends the longest prefix of the values that
  the capacity admits, reports its length through \<open>pushed\<close>, and answers Ok exactly when that is
  the whole batch; a capacity of 0 admits everything.\<close>
theorem mq_TryPushBatch_prefix:
  assumes "mq_holds 0 q xs" "unat count = length vs"
  shows "\<exists>st q'. mq_TryPushBatch (\<lambda>_. NoThrow) (Some vs) count q
      = Some (st, length (if mq_capacity q = 0 then vs else take (unat (mq_capacity q) - length xs) vs), q')
    \<and> mq_items q' = xs @ (if mq_capacity q = 0 then vs else take (unat (mq_capacity q) - length xs) vs)
    \<and> (status_ok st \<longleftrightarrow> mq_capacity q = 0 \<or> length xs + length vs \<le> unat (mq_capacity q))"
proof -
  let ?vs = "if mq_capacity q = 0 then vs else take (unat (mq_capacity q) - length xs) vs"
  obtain st q' where "mq_push_loop (\<lambda>_. NoThrow) vs 0 q = (st, 0 + length ?vs, q')" "mq_holds 0 q' (xs @ ?vs)"
    "status_ok st \<longleftrightarrow> ?vs = vs"
    using mq_push_loop_spec [OF assms(1), of "\<lambda>_. NoThrow", OF _ refl, of vs 0] by auto
  moreover have "?vs = vs \<longleftrightarrow> mq_capacity q = 0 \<or> length xs + length vs \<le> unat (mq_capacity q)"
    using assms(1) by (auto simp: word_gt_0)
  ultimately show ?thesis using assms(2) by (simp add: mq_TryPushBatch_def read_at_Some)
qed

theorem mq_TryPushBatch_prefix_witness:
  "\<exists>st q'. mq_TryPushBatch (\<lambda>_. NoThrow) (Some [4, 5, 6]) 3 \<lparr>mq_capacity = 3, mq_items = [1 :: nat]\<rparr> = Some (st, Suc (Suc 0), q')
     \<and> mq_items q' = [1, 4, 5] \<and> \<not> status_ok st"
  using mq_TryPushBatch_prefix [of "\<lparr>mq_capacity = 3, mq_items = [1 :: nat]\<rparr>" "[1]" 3 "[4, 5, 6]"] by simp

text \<open>C25: The ring buffer of any capacity is a bounded FIFO queue over any interleaving of \<open>TryPush\<close> and
  \<open>TryPop\<close>: accesses stay inside the array, the outputs are a prefix of the accepted values, and a
  batch of at most \<open>capacity\<close> values that is pushed and then popped comes back in order, whatever
  is left in moved-from slots.\<close>
theorem ring_buffer_fifo:
  "(\<exists>acc out b'. fifo_run rb_enq (rb_deq husk dflt) ops (BasicRingBuffer dflt c) = Some (acc, out, b')
      \<and> out = take (length out) acc \<and> length acc \<le> length out + unat c)
   \<and> (length ms \<le> unat c \<longrightarrow>
      (\<exists>b1 b2. fifo_run rb_enq (rb_deq husk dflt) (map Enq ms) (BasicRingBuffer dflt c) = Some (ms, [], b1)
         \<and> fifo_run rb_enq (rb_deq husk dflt) (replicate (length ms) Deq) b1 = Some ([], ms, b2)))"
proof -
  have h: "rb_holds n (BasicRingBuffer dflt c) []" for n
    using rb_wf_new [of dflt c] by simp
  have ops: "\<forall>p\<in>set ops. op_ok (\<lambda>_. True) p" by simp
  obtain acc out b' q' where r: "fifo_run rb_enq (rb_deq husk dflt) ops (BasicRingBuffer dflt c) = Some (acc, out, b')"
    "rb_holds 0 b' q'" "[] @ acc = out @ q'"
    using rb.run_fifo [OF h [of "length ops + 0"] ops] by blast
  have cap: "rb_capacity b' = c"
    using rb.run_cap [OF h [of "length ops + 0"] ops r(1)] by (simp add: rb_limit_def BasicRingBuffer_def word_unat_eq_iff)
  have "length q' \<le> unat c" using rb.cap_bound [OF r(2)] cap by (simp add: rb_limit_def)
  then have "\<exists>acc out b'. fifo_run rb_enq (rb_deq husk dflt) ops (BasicRingBuffer dflt c) = Some (acc, out, b')
      \<and> out = take (length out) acc \<and> length acc \<le> length out + unat c"
    using r by (intro exI [of _ acc] exI [of _ out] exI [of _ b']) simp
  moreover have "\<exists>b1 b2. fifo_run rb_enq (rb_deq husk dflt) (map Enq ms) (BasicRingBuffer dflt c) = Some (ms, [], b1)
         \<and> fifo_run rb_enq (rb_deq husk dflt) (replicate (length ms) Deq) b1 = Some ([], ms, b2)"
    if "length ms \<le> unat c"
  proof -
    have "case rb_limit (BasicRingBuffer dflt c) of None \<Rightarrow> True | Some l \<Rightarrow> length ms \<le> l"
      using that by (simp add: rb_limit_def BasicRingBuffer_def)
    then show ?thesis using rb.fill_drain [OF h [of "2 * length ms + 0"]] by blast
  qed
  ultimately show ?thesis by blast
qed

theorem ring_buffer_fifo_witness:
  "\<exists>b1 b2. fifo_run rb_enq (rb_deq (\<lambda>_. 0) 0) (map Enq [7, 8, 9]) (BasicRingBuffer (0 :: nat) 3) = Some ([7, 8, 9], [], b1)
     \<and> fifo_run rb_enq (rb_deq (\<lambda>_. 0) 0) (replicate (length [7 :: nat, 8, 9]) Deq) b1 = Some ([], [7, 8, 9], b2)"
proof -
  have "length [7 :: nat, 8, 9] \<le> unat (3 :: size_t)" by simp
  then show ?thesis using ring_buffer_fifo [of "\<lambda>_. 0" "0 :: nat" "[]" 3 "[7, 8, 9]"] by blast
qed

text \<open>A pop of the ring buffer that fails because the move throws leaves the buffer as it was; one that
  fails because the copy of the result throws has already removed the element: the error is
  reported and the value is lost.\<close>
theorem rb_TryPop_exceptions:
  assumes "rb_wf b" "rb_size b \<noteq> 0"
  shows "rb_TryPop MoveThrows husk dflt b
      = Some (Result_status dflt (ck_status kInternalError ''ring buffer pop failed''), b)
    \<and> (\<exists>b'. rb_TryPop CopyThrows husk dflt b
         = Some (Result_status dflt (ck_status kInternalError ''ring buffer pop failed''), b')
         \<and> rb_wf b' \<and> rb_list b' = tl (rb_list b))"
proof -
  have "rb_TryPop MoveThrows husk dflt b
      = Some (Result_status dflt (ck_status kInternalError ''ring buffer pop failed''), b)"
    using assms(2) by (simp add: rb_TryPop_def)
  moreover obtain b' v where "rb_list b = v # rb_list b'" "rb_wf b'"
    "rb_TryPop CopyThrows husk dflt b = Some (Result_status dflt (ck_status kInternalError ''ring buffer pop failed''), b')"
    by (rule rb_pop_step [OF assms])
  ultimately show ?thesis by auto
qed

theorem rb_TryPop_exceptions_witness:
  "\<exists>b'. rb_TryPop CopyThrows (\<lambda>_. 0) 0 \<lparr>rb_capacity = 2, rb_data = [5 :: nat, 6], rb_head = 1, rb_tail = 1, rb_size = 2\<rparr>
         = Some (Result_status 0 (ck_status kInternalError ''ring buffer pop failed''), b')
     \<and> rb_list b' = [5]"
proof -
  let ?b = "\<lparr>rb_capacity = 2, rb_data = [5 :: nat, 6], rb_head = 1, rb_tail = 1, rb_size = 2\<rparr>"
  have "rb_wf ?b" "rb_list ?b = [6, 5]" by (simp_all add: rb_wf_def rb_list_def upt_rec)
  then show ?thesis using rb_TryPop_exceptions [of ?b "\<lambda>_. 0" 0] by auto
qed

end
