(* ===== verification/CK_Maps.thy ===== *)
theory CK_Maps
  imports CK_Queues "HOL-Library.AList"
begin

text \<open>
  The concurrent map and set (\<open>src/concurrent/basic_map_impl.hpp\<close>, \<open>src/concurrent/basic_set_impl.hpp\<close>):
  hash tables behind a mutex. The table is an association list in the order of iteration; nothing
  depends on that order. Every operation is one step under the mutex; what the allocation or the
  element's assignment throws is an input.
\<close>

section \<open>The map\<close>

type_synonym ('k, 'v) ConcurrentMap = "('k \<times> 'v) list"

text \<open>\<open>map_[key] = value\<close> first creates a node with a default value when the key is new, then
  assigns; each part may throw.\<close>

datatype put_env = PutOk | NodeThrows throws | AssignThrows throws

definition put_index :: "put_env \<Rightarrow> 'v \<Rightarrow> 'k \<Rightarrow> 'v \<Rightarrow> ('k, 'v) ConcurrentMap \<Rightarrow> throws \<times> ('k, 'v) ConcurrentMap" where
  "put_index env dflt key v m =
     (if map_of m key = None then
        (case env of
           NodeThrows e \<Rightarrow> if e = NoThrow then (NoThrow, AList.update key v m) else (e, m)
         | AssignThrows e \<Rightarrow> if e = NoThrow then (NoThrow, AList.update key v m)
                             else (e, AList.update key dflt m)
         | PutOk \<Rightarrow> (NoThrow, AList.update key v m))
      else
        (case env of
           AssignThrows e \<Rightarrow> if e = NoThrow then (NoThrow, AList.update key v m) else (e, m)
         | _ \<Rightarrow> (NoThrow, AList.update key v m)))"

definition catch_status :: "throws \<Rightarrow> string \<Rightarrow> string \<Rightarrow> Status" where
  "catch_status e on_alloc on_other =
     (case e of NoThrow \<Rightarrow> Status_Ok
      | BadAlloc \<Rightarrow> ck_status kInternalError on_alloc
      | OtherThrow \<Rightarrow> ck_status kInternalError on_other)"

definition map_Upsert ::
    "put_env \<Rightarrow> 'v \<Rightarrow> 'k \<Rightarrow> 'v \<Rightarrow> ('k, 'v) ConcurrentMap \<Rightarrow> Status \<times> ('k, 'v) ConcurrentMap" where
  "map_Upsert env dflt key v m =
     (let (e, m') = put_index env dflt key v m
      in (catch_status e ''map allocation failed'' ''map upsert failed'', m'))"

text \<open>\<open>inserted\<close> is the caller's flag, null when \<open>None\<close>.\<close>

definition map_InsertOrAssign ::
    "put_env \<Rightarrow> 'v \<Rightarrow> 'k \<Rightarrow> 'v \<Rightarrow> bool option \<Rightarrow> ('k, 'v) ConcurrentMap
     \<Rightarrow> Status \<times> bool option \<times> ('k, 'v) ConcurrentMap" where
  "map_InsertOrAssign env dflt key v inserted m =
     (let fresh = (map_of m key = None); (e, m') = put_index env dflt key v m
      in (catch_status e ''map allocation failed'' ''map insert-or-assign failed'',
          if e = NoThrow then map_option (\<lambda>_. fresh) inserted else inserted, m'))"

definition map_InsertIfAbsent ::
    "put_env \<Rightarrow> 'v \<Rightarrow> 'k \<Rightarrow> 'v \<Rightarrow> ('k, 'v) ConcurrentMap \<Rightarrow> Status \<times> ('k, 'v) ConcurrentMap" where
  "map_InsertIfAbsent env dflt key v m =
     (if map_of m key \<noteq> None then (ck_status kWouldBlock ''key already exists'', m)
      else let (e, m') = put_index env dflt key v m
           in (catch_status e ''map allocation failed'' ''map insert failed'', m'))"

definition map_Find :: "'v \<Rightarrow> 'k \<Rightarrow> ('k, 'v) ConcurrentMap \<Rightarrow> 'v Result" where
  "map_Find dflt key m =
     (case map_of m key of None \<Rightarrow> Result_status dflt (ck_status kNotFound ''key not found'')
      | Some v \<Rightarrow> Result_value v)"

definition map_TryGet :: "'k \<Rightarrow> 'v option \<Rightarrow> ('k, 'v) ConcurrentMap \<Rightarrow> Status \<times> 'v option" where
  "map_TryGet key out m =
     (if out = None then (ck_status kInvalidArgument ''out is null'', out)
      else case map_of m key of None \<Rightarrow> (ck_status kNotFound ''key not found'', out)
           | Some v \<Rightarrow> (Status_Ok, Some v))"

definition map_Contains :: "'k \<Rightarrow> ('k, 'v) ConcurrentMap \<Rightarrow> bool" where
  "map_Contains key m \<longleftrightarrow> map_of m key \<noteq> None"

definition map_Erase :: "'k \<Rightarrow> ('k, 'v) ConcurrentMap \<Rightarrow> Status \<times> ('k, 'v) ConcurrentMap" where
  "map_Erase key m =
     (if map_of m key = None then (ck_status kNotFound ''key not found'', m)
      else (Status_Ok, AList.delete key m))"

definition map_Clear :: "('k, 'v) ConcurrentMap \<Rightarrow> Status \<times> ('k, 'v) ConcurrentMap" where
  "map_Clear m = (Status_Ok, [])"

definition map_Reserve :: "throws \<Rightarrow> size_t \<Rightarrow> ('k, 'v) ConcurrentMap \<Rightarrow> Status \<times> ('k, 'v) ConcurrentMap" where
  "map_Reserve env expected_size m =
     (catch_status env ''map reserve failed'' ''map reserve failed'', m)"

text \<open>The output vector is cleared first; an exception after \<open>k\<close> keys leaves those keys in it.\<close>

definition map_SnapshotKeys ::
    "(throws \<times> nat) \<Rightarrow> 'k list option \<Rightarrow> ('k, 'v) ConcurrentMap \<Rightarrow> Status \<times> 'k list option" where
  "map_SnapshotKeys env keys m =
     (if keys = None then (ck_status kInvalidArgument ''keys is null'', None)
      else case env of (e, k) \<Rightarrow>
        (catch_status e ''snapshot allocation failed'' ''snapshot failed'',
         Some (if e = NoThrow then map fst m else take k (map fst m))))"

definition map_ApproxSize :: "('k, 'v) ConcurrentMap \<Rightarrow> size_t" where
  "map_ApproxSize m = of_nat (length m)"

section \<open>The set\<close>

type_synonym 'k ConcurrentSet = "'k list"

definition set_Insert :: "throws \<Rightarrow> 'k \<Rightarrow> 'k ConcurrentSet \<Rightarrow> Status \<times> 'k ConcurrentSet" where
  "set_Insert env key s =
     (if key \<in> set s then (ck_status kWouldBlock ''key already exists'', s)
      else case env of NoThrow \<Rightarrow> (Status_Ok, s @ [key])
           | e \<Rightarrow> (catch_status e ''set allocation failed'' ''set insert failed'', s))"

definition set_Erase :: "'k \<Rightarrow> 'k ConcurrentSet \<Rightarrow> Status \<times> 'k ConcurrentSet" where
  "set_Erase key s =
     (if key \<notin> set s then (ck_status kNotFound ''key not found'', s)
      else (Status_Ok, remove1 key s))"

definition set_Contains :: "'k \<Rightarrow> 'k ConcurrentSet \<Rightarrow> bool" where
  "set_Contains key s \<longleftrightarrow> key \<in> set s"

definition set_Clear :: "'k ConcurrentSet \<Rightarrow> Status \<times> 'k ConcurrentSet" where
  "set_Clear s = (Status_Ok, [])"

definition set_Reserve :: "throws \<Rightarrow> size_t \<Rightarrow> 'k ConcurrentSet \<Rightarrow> Status \<times> 'k ConcurrentSet" where
  "set_Reserve env expected_size s = (catch_status env ''set reserve failed'' ''set reserve failed'', s)"

definition set_Snapshot :: "(throws \<times> nat) \<Rightarrow> 'k list option \<Rightarrow> 'k ConcurrentSet \<Rightarrow> Status \<times> 'k list option" where
  "set_Snapshot env keys s =
     (if keys = None then (ck_status kInvalidArgument ''keys is null'', None)
      else case env of (e, k) \<Rightarrow>
        (catch_status e ''snapshot allocation failed'' ''snapshot failed'',
         Some (if e = NoThrow then s else take k s)))"

definition set_ApproxSize :: "'k ConcurrentSet \<Rightarrow> size_t" where
  "set_ApproxSize s = of_nat (length s)"

section \<open>The contract of a keyed container\<close>

datatype ('k, 'v) kv_cmd = KPut 'k 'v | KDel 'k | KClear

fun kv_apply :: "('k, 'v) kv_cmd \<Rightarrow> ('k \<rightharpoonup> 'v) \<Rightarrow> ('k \<rightharpoonup> 'v)" where
  "kv_apply (KPut k v) m = m(k \<mapsto> v)"
| "kv_apply (KDel k) m = m(k := None)"
| "kv_apply KClear m = Map.empty"

fun kv_step :: "('k \<Rightarrow> 'v \<Rightarrow> 's \<Rightarrow> 's) \<Rightarrow> ('k \<Rightarrow> 's \<Rightarrow> 's) \<Rightarrow> ('s \<Rightarrow> 's) \<Rightarrow> ('k, 'v) kv_cmd \<Rightarrow> 's \<Rightarrow> 's" where
  "kv_step put del clr (KPut k v) s = put k v s"
| "kv_step put del clr (KDel k) s = del k s"
| "kv_step put del clr KClear s = clr s"

locale keyed_container =
  fixes invar :: "'s \<Rightarrow> bool" and look :: "'s \<Rightarrow> 'k \<Rightarrow> 'v option"
    and put :: "'k \<Rightarrow> 'v \<Rightarrow> 's \<Rightarrow> 's" and del :: "'k \<Rightarrow> 's \<Rightarrow> 's" and clr :: "'s \<Rightarrow> 's"
    and keys :: "'s \<Rightarrow> 'k list"
  assumes put_law: "invar s \<Longrightarrow> invar (put k v s) \<and> look (put k v s) = (look s)(k \<mapsto> v)"
    and del_law: "invar s \<Longrightarrow> invar (del k s) \<and> look (del k s) = (look s)(k := None)"
    and clr_law: "invar s \<Longrightarrow> invar (clr s) \<and> look (clr s) = Map.empty"
    and keys_law: "invar s \<Longrightarrow> distinct (keys s) \<and> set (keys s) = dom (look s)"
begin

lemma run_refines:
  "invar s \<Longrightarrow> invar (fold (kv_step put del clr) cs s)
     \<and> look (fold (kv_step put del clr) cs s) = fold kv_apply cs (look s)"
proof (induction cs arbitrary: s)
  case (Cons c cs)
  have "invar (kv_step put del clr c s) \<and> look (kv_step put del clr c s) = kv_apply c (look s)"
    using Cons.prems put_law del_law clr_law by (cases c) auto
  with Cons.IH show ?case by simp
qed simp

lemma run_size:
  "invar s \<Longrightarrow> length (keys (fold (kv_step put del clr) cs s)) = card (dom (fold kv_apply cs (look s)))"
  using run_refines [of s cs] keys_law [of "fold (kv_step put del clr) cs s"] distinct_card by metis

end

definition map_put :: "'v \<Rightarrow> 'k \<Rightarrow> 'v \<Rightarrow> ('k, 'v) ConcurrentMap \<Rightarrow> ('k, 'v) ConcurrentMap" where
  "map_put dflt k v m = snd (map_Upsert PutOk dflt k v m)"

definition map_del :: "'k \<Rightarrow> ('k, 'v) ConcurrentMap \<Rightarrow> ('k, 'v) ConcurrentMap" where
  "map_del k m = snd (map_Erase k m)"

lemma map_put_eq: "map_put dflt k v m = AList.update k v m"
  by (simp add: map_put_def map_Upsert_def put_index_def)

lemma delete_absent: "map_of m k = None \<Longrightarrow> AList.delete k m = m"
  by (induction m) (auto split: if_splits)

lemma map_del_eq: "map_del k m = AList.delete k m"
  by (auto simp: map_del_def map_Erase_def delete_absent)

interpretation cmap: keyed_container "\<lambda>m. distinct (map fst m)" map_of "map_put dflt" map_del
    "\<lambda>m. snd (map_Clear m)" "map fst"
  by unfold_locales
    (auto simp: map_put_eq map_del_eq map_Clear_def distinct_update distinct_delete update_conv' delete_conv'
      dom_map_of_conv_image_fst)

definition set_put :: "'k \<Rightarrow> unit \<Rightarrow> 'k ConcurrentSet \<Rightarrow> 'k ConcurrentSet" where
  "set_put k u s = snd (set_Insert NoThrow k s)"

definition set_del :: "'k \<Rightarrow> 'k ConcurrentSet \<Rightarrow> 'k ConcurrentSet" where
  "set_del k s = snd (set_Erase k s)"

definition set_look :: "'k ConcurrentSet \<Rightarrow> 'k \<Rightarrow> unit option" where
  "set_look s k = (if set_Contains k s then Some () else None)"

interpretation cset: keyed_container distinct set_look set_put set_del "\<lambda>s. snd (set_Clear s)" "\<lambda>s. s"
  by unfold_locales
    (auto simp: set_put_def set_del_def set_look_def set_Insert_def set_Erase_def set_Clear_def set_Contains_def
      fun_eq_iff dom_def split: if_splits)

lemma set_look_Nil [simp]: "set_look [] = Map.empty"
  by (simp add: set_look_def set_Contains_def fun_eq_iff)

section \<open>Properties\<close>


text \<open>Every outcome of \<open>InsertIfAbsent\<close>: an existing key is reported and kept; a success stores the value;
  an error from creating the node leaves the map alone. An error from assigning the value leaves
  the key in the map with a default value, so the failed insertion is visible.\<close>
theorem map_InsertIfAbsent_outcomes:
  "let (st, m') = map_InsertIfAbsent env dflt key v m in
   (if map_of m key \<noteq> None then st_code st = kWouldBlock \<and> m' = m
    else case env of
        NodeThrows e \<Rightarrow> if e = NoThrow then st = Status_Ok \<and> map_of m' = (map_of m)(key \<mapsto> v)
                       else st_code st = kInternalError \<and> m' = m
      | AssignThrows e \<Rightarrow> if e = NoThrow then st = Status_Ok \<and> map_of m' = (map_of m)(key \<mapsto> v)
                       else st_code st = kInternalError \<and> map_of m' = (map_of m)(key \<mapsto> dflt)
      | PutOk \<Rightarrow> st = Status_Ok \<and> map_of m' = (map_of m)(key \<mapsto> v))"
  by (auto simp: map_InsertIfAbsent_def put_index_def catch_status_def update_conv' Let_def
      split: put_env.splits throws.splits)

text \<open>The set behaves as a finite set: after any sequence of insertions, erasures and clears that do not throw,
  \<open>Contains\<close> is membership in the abstract set, \<open>Insert\<close> succeeds exactly for absent keys and \<open>Erase\<close>
  exactly for present ones, and the size is the number of elements.\<close>
theorem concurrent_set_refines:
  "let s = fold (kv_step set_put set_del (\<lambda>s. snd (set_Clear s))) cs [];
       a = dom (fold kv_apply cs Map.empty)
   in (set_Contains key s \<longleftrightarrow> key \<in> a)
    \<and> (status_ok (fst (set_Insert NoThrow key s)) \<longleftrightarrow> key \<notin> a)
    \<and> (status_ok (fst (set_Erase key s)) \<longleftrightarrow> key \<in> a)
    \<and> set (snd (set_Insert NoThrow key s)) = insert key a
    \<and> set (snd (set_Erase key s)) = a - {key}
    \<and> set_ApproxSize s = of_nat (card a)"
proof -
  let ?s = "fold (kv_step set_put set_del (\<lambda>s. snd (set_Clear s))) cs []"
  have r: "distinct ?s" "set_look ?s = fold kv_apply cs Map.empty"
    using cset.run_refines [of "[]" cs] by simp_all
  have "set ?s = dom (set_look ?s)" by (auto simp: set_look_def set_Contains_def dom_def)
  with r have s: "set ?s = dom (fold kv_apply cs Map.empty)" by simp
  have "length ?s = card (dom (fold kv_apply cs Map.empty))" using cset.run_size [of "[]" cs] by simp
  with s r(1) show ?thesis
    by (auto simp: Let_def set_Contains_def set_Insert_def set_Erase_def set_ApproxSize_def)
qed

end
