(* ===== verification/CK_Ordered.thy ===== *)
theory CK_Ordered
  imports CK_Prelude
begin

text \<open>
  \<open>std::map\<close> and \<open>std::set\<close> as the code uses them: ordered containers whose iteration is ascending.
  A map is a list of key-value pairs with strictly ascending keys, a set a strictly ascending list.
\<close>

type_synonym ('k, 'v) omap = "('k \<times> 'v) list"

abbreviation okeys :: "('k, 'v) omap \<Rightarrow> 'k list" where "okeys m \<equiv> map fst m"

definition omap_wf :: "('k :: linorder, 'v) omap \<Rightarrow> bool" where
  "omap_wf m \<longleftrightarrow> sorted_wrt (<) (okeys m)"

fun omap_put :: "'k :: linorder \<Rightarrow> 'v \<Rightarrow> ('k, 'v) omap \<Rightarrow> ('k, 'v) omap" where
  "omap_put k v [] = [(k, v)]"
| "omap_put k v ((k', v') # m) =
     (if k < k' then (k, v) # (k', v') # m
      else if k = k' then (k, v) # m
      else (k', v') # omap_put k v m)"

fun oset_insert :: "'k :: linorder \<Rightarrow> 'k list \<Rightarrow> 'k list" where
  "oset_insert k [] = [k]"
| "oset_insert k (x # xs) = (if k < x then k # x # xs else if k = x then x # xs else x # oset_insert k xs)"

lemma set_oset_insert [simp]: "set (oset_insert k xs) = insert k (set xs)"
  by (induction xs) auto

lemma oset_insert_sorted: "sorted_wrt (<) xs \<Longrightarrow> sorted_wrt (<) (oset_insert k xs)"
  by (induction xs) auto

lemma set_okeys_put: "set (okeys (omap_put k v m)) = insert k (set (okeys m))"
  by (induction k v m rule: omap_put.induct) auto

lemma set_omap_put_subset: "set (omap_put k v m) \<subseteq> insert (k, v) (set m)"
  by (induction k v m rule: omap_put.induct) auto

lemma okeys_put: "okeys (omap_put k v m) = oset_insert k (okeys m)"
  by (induction k v m rule: omap_put.induct) auto

lemma omap_wf_put [simp]: "omap_wf m \<Longrightarrow> omap_wf (omap_put k v m)"
  unfolding omap_wf_def
proof (induction k v m rule: omap_put.induct)
  case (2 k v k' v' m)
  then show ?case using set_okeys_put [of k v m] by auto
qed simp

lemma map_of_put [simp]: "omap_wf m \<Longrightarrow> map_of (omap_put k v m) = (map_of m)(k \<mapsto> v)"
  unfolding omap_wf_def
proof (induction k v m rule: omap_put.induct)
  case (2 k v k' v' m)
  then show ?case by (auto simp: fun_eq_iff)
qed (simp add: fun_eq_iff)

lemma omap_wf_Nil [simp]: "omap_wf []"
  by (simp add: omap_wf_def)

lemma omap_distinct: "omap_wf m \<Longrightarrow> distinct (okeys m)"
  by (auto simp: omap_wf_def strict_sorted_iff)

lemma strict_sorted_distinct: "sorted_wrt (<) (xs :: 'k :: linorder list) \<Longrightarrow> distinct xs"
  by (auto simp: strict_sorted_iff)

lemma map_of_dom: "map_of m k \<noteq> None \<longleftrightarrow> k \<in> set (okeys m)"
  by (auto simp: map_of_eq_None_iff)

lemma okeys_put_present: "k \<in> set (okeys m) \<Longrightarrow> omap_wf m \<Longrightarrow> okeys (omap_put k v m) = okeys m"
  unfolding omap_wf_def by (induction k v m rule: omap_put.induct) auto

lemma map_of_member: "k \<in> set (okeys m) \<Longrightarrow> \<exists>v. map_of m k = Some v"
  using map_of_dom [of m k] by auto

text \<open>Iteration as a value-wise map: \<open>m[k] = f(k)\<close> for the keys in order.\<close>

lemma omap_wf_const [simp]: "omap_wf (map (\<lambda>(k, v). (k, f k)) m) \<longleftrightarrow> omap_wf m"
  by (simp add: omap_wf_def comp_def case_prod_unfold)

end
