(* ===== verification/CK_TaskGraph.thy ===== *)
theory CK_TaskGraph
  imports CK_Status CK_Ordered "HOL-Library.Monad_Syntax" "HOL-Library.Multiset"
begin

text \<open>
  The task graph (\<open>src/task/simple_task_graph.cpp\<close>, \<open>.hpp\<close>, \<open>include/corekit/task/i_task_graph.hpp\<close>):
  tasks with dependencies, validated by Kahn's algorithm and run level by level, inline or on an
  executor. This theory is the model; \<open>CK_TaskGraph_Props\<close> proves it correct.

  A task body is a function on the program's state that also says whether it threw; \<open>None\<close> is an
  empty \<open>std::function\<close>. The executor is the interface \<open>IExecutor\<close>: a record with the two
  operations the graph calls. A submitted closure changes the state the graph shares with the
  executor: the program's state and the \<open>failed\<close> flags of the current level. Edge counts are
  natural numbers (a graph with \<open>2^64\<close> edges does not fit in memory). The result \<open>None\<close> of the two
  loops stands for a loop that does not end.
\<close>

type_synonym TaskId = u64

datatype TaskPriority = kLow | kNormal | kHigh

fun score :: "TaskPriority \<Rightarrow> int" where
  "score kHigh = 2"
| "score kNormal = 1"
| "score kLow = 0"

lemma score_inj [simp]: "score a = score b \<longleftrightarrow> a = b"
  by (cases a; cases b) simp_all

instantiation TaskPriority :: linorder
begin

definition less_eq_TaskPriority :: "TaskPriority \<Rightarrow> TaskPriority \<Rightarrow> bool" where
  "less_eq_TaskPriority a b \<longleftrightarrow> score a \<le> score b"

definition less_TaskPriority :: "TaskPriority \<Rightarrow> TaskPriority \<Rightarrow> bool" where
  "less_TaskPriority a b \<longleftrightarrow> score a < score b"

instance
  by standard (auto simp: less_eq_TaskPriority_def less_TaskPriority_def)

end

record TaskSubmitOptions =
  so_priority :: TaskPriority
  so_serial_key :: u64

definition default_submit_options :: TaskSubmitOptions where
  "default_submit_options = \<lparr>so_priority = kNormal, so_serial_key = 0\<rparr>"

record GraphTaskOptions =
  go_name :: "string option"
  go_priority :: TaskPriority

record GraphRunOptions =
  fail_fast :: bool
  max_concurrency :: u32

record GraphRunStats =
  total :: u64
  succeeded :: u64
  gs_failed :: u64
  gs_canceled :: u64

type_synonym 'w body = "'w \<Rightarrow> 'w \<times> bool"

record 'w TaskNode =
  node_id :: TaskId
  node_fn :: "'w body"
  node_options :: GraphTaskOptions
  node_name :: string

record 'w TaskGraph =
  nodes :: "(TaskId, 'w TaskNode) omap"
  edges :: "(TaskId, TaskId list) omap"
  next_id :: TaskId

definition task_status :: "StatusCode \<Rightarrow> string \<Rightarrow> Status" where
  "task_status code message = Status_FromModule code message kTask 0"

definition SimpleTaskGraph :: "'w TaskGraph" where
  "SimpleTaskGraph = \<lparr>nodes = [], edges = [], next_id = 1\<rparr>"

section \<open>Building\<close>

definition AddTask :: "'w body option \<Rightarrow> GraphTaskOptions \<Rightarrow> 'w TaskGraph \<Rightarrow> TaskId Result \<times> 'w TaskGraph" where
  "AddTask fn opts g =
     (case fn of None \<Rightarrow> (Result_status 0 (task_status kInvalidArgument ''fn is null''), g)
      | Some f \<Rightarrow>
          let tid = next_id g;
              node = \<lparr>node_id = tid, node_fn = f, node_options = opts,
                      node_name = (case go_name opts of None \<Rightarrow> [] | Some n \<Rightarrow> n)\<rparr>
          in (Result_value tid,
              g\<lparr>next_id := tid + 1, nodes := omap_put tid node (nodes g),
                edges := (if map_of (edges g) tid = None then omap_put tid [] (edges g) else edges g)\<rparr>))"

definition AddDependency :: "TaskId \<Rightarrow> TaskId \<Rightarrow> 'w TaskGraph \<Rightarrow> Status \<times> 'w TaskGraph" where
  "AddDependency before_id after_id g =
     (if before_id = after_id then (task_status kInvalidArgument ''self dependency is not allowed'', g)
      else if map_of (nodes g) before_id = None \<or> map_of (nodes g) after_id = None
      then (task_status kNotFound ''task id not found'', g)
      else (Status_Ok, g\<lparr>edges := omap_put before_id
              (oset_insert after_id (case map_of (edges g) before_id of None \<Rightarrow> [] | Some s \<Rightarrow> s)) (edges g)\<rparr>))"

fun AddDependencies_loop :: "TaskId \<Rightarrow> TaskId list \<Rightarrow> 'w TaskGraph \<Rightarrow> Status \<times> 'w TaskGraph" where
  "AddDependencies_loop after_id [] g = (Status_Ok, g)"
| "AddDependencies_loop after_id (b # bs) g =
     (let (st, g') = AddDependency b after_id g
      in if \<not> status_ok st then (st, g') else AddDependencies_loop after_id bs g')"

definition AddDependencies ::
    "TaskId \<Rightarrow> TaskId list option \<Rightarrow> size_t \<Rightarrow> 'w TaskGraph \<Rightarrow> (Status \<times> 'w TaskGraph) option" where
  "AddDependencies after_id before_ids n g =
     (case before_ids of
        None \<Rightarrow> if n > 0 then Some (task_status kInvalidArgument ''before_task_ids is null'', g)
               else Some (Status_Ok, g)
      | Some bs \<Rightarrow> map_option (\<lambda>ids. AddDependencies_loop after_id ids g) (read_at bs 0 (unat n)))"

definition Clear :: "'w TaskGraph \<Rightarrow> Status \<times> 'w TaskGraph" where
  "Clear g = (Status_Ok, g\<lparr>nodes := [], edges := [], next_id := 1\<rparr>)"

section \<open>Validation\<close>

type_synonym indegrees = "(TaskId, nat) omap"

fun count_dsts :: "TaskId list \<Rightarrow> indegrees \<Rightarrow> Status + indegrees" where
  "count_dsts [] ind = Inr ind"
| "count_dsts (d # ds) ind =
     (case map_of ind d of
        None \<Rightarrow> Inl (task_status kInternalError ''edge references missing node'')
      | Some n \<Rightarrow> count_dsts ds (omap_put d (Suc n) ind))"

fun count_edges :: "(TaskId, TaskId list) omap \<Rightarrow> indegrees \<Rightarrow> Status + indegrees" where
  "count_edges [] ind = Inr ind"
| "count_edges ((u, ds) # es) ind =
     (case count_dsts ds ind of Inl st \<Rightarrow> Inl st | Inr ind' \<Rightarrow> count_edges es ind')"

definition BuildIndegree :: "'w TaskGraph \<Rightarrow> Status + indegrees" where
  "BuildIndegree g = count_edges (edges g) (map (\<lambda>(k, v). (k, 0)) (nodes g))"

definition initial_ready :: "indegrees \<Rightarrow> TaskId list" where
  "initial_ready ind = map fst (filter (\<lambda>(k, n). n = 0) ind)"

text \<open>The inner loop over the successors of a processed node; new ready nodes join the queue.\<close>

fun unlock :: "TaskId list \<Rightarrow> indegrees \<Rightarrow> TaskId list \<Rightarrow> Status + (indegrees \<times> TaskId list)" where
  "unlock [] ind ready = Inr (ind, ready)"
| "unlock (d # ds) ind ready =
     (case map_of ind d of
        None \<Rightarrow> Inl (task_status kInternalError ''indegree missing for destination node'')
      | Some n \<Rightarrow>
          let n' = (if n > 0 then n - 1 else n)
          in unlock ds (omap_put d n' ind) (if n' = 0 then ready @ [d] else ready))"

definition successors :: "'w TaskGraph \<Rightarrow> TaskId \<Rightarrow> TaskId list" where
  "successors g u = (case map_of (edges g) u of None \<Rightarrow> [] | Some ds \<Rightarrow> ds)"

partial_function (option) Validate_loop ::
    "'w TaskGraph \<Rightarrow> indegrees \<Rightarrow> TaskId list \<Rightarrow> nat \<Rightarrow> (Status + nat) option" where
  "Validate_loop g ind ready processed =
     (case ready of [] \<Rightarrow> Some (Inr processed)
      | u # rest \<Rightarrow>
          (case unlock (successors g u) ind rest of
             Inl st \<Rightarrow> Some (Inl st)
           | Inr (ind', ready') \<Rightarrow> Validate_loop g ind' ready' (Suc processed)))"

declare Validate_loop.simps [code]

definition st_cycle :: Status where
  "st_cycle = task_status kInvalidArgument ''task graph contains cycle or unresolved dependency''"

definition Validate :: "'w TaskGraph \<Rightarrow> Status option" where
  "Validate g =
     (case BuildIndegree g of
        Inl st \<Rightarrow> Some st
      | Inr ind \<Rightarrow> map_option (\<lambda>r. case r of Inl st \<Rightarrow> st
          | Inr processed \<Rightarrow> if processed \<noteq> length (nodes g) then st_cycle else Status_Ok)
          (Validate_loop g ind (initial_ready ind) 0))"

section \<open>Running\<close>

text \<open>Inline execution of a level: each body runs, a throw is counted and does not stop the level.\<close>

fun run_inline :: "'w TaskGraph \<Rightarrow> TaskId list \<Rightarrow> 'w \<Rightarrow> GraphRunStats \<Rightarrow> bool \<Rightarrow>
    (Status + (GraphRunStats \<times> bool)) \<times> 'w" where
  "run_inline g [] w stats lf = (Inr (stats, lf), w)"
| "run_inline g (u # us) w stats lf =
     (case map_of (nodes g) u of
        None \<Rightarrow> (Inl (task_status kInternalError ''node missing during execution''), w)
      | Some node \<Rightarrow>
          let (w', threw) = node_fn node w
          in if threw then run_inline g us w' (stats\<lparr>gs_failed := gs_failed stats + 1\<rparr>) True
             else run_inline g us w' (stats\<lparr>succeeded := succeeded stats + 1\<rparr>) lf)"

text \<open>The executor interface; closures act on the state shared with the executor.\<close>

type_synonym 'w shared = "'w \<times> bool list"

record ('e, 's) IExecutor =
  ie_SubmitEx :: "('s \<Rightarrow> 's) \<Rightarrow> TaskSubmitOptions \<Rightarrow> 'e \<Rightarrow> 's \<Rightarrow> TaskId Result \<times> 'e \<times> 's"
  ie_WaitBatch :: "TaskId list \<Rightarrow> u32 \<Rightarrow> 'e \<Rightarrow> 's \<Rightarrow> Status \<times> 'e \<times> 's"

definition node_closure :: "nat \<Rightarrow> 'w body \<Rightarrow> 'w shared \<Rightarrow> 'w shared" where
  "node_closure i fn s = (let (w, flags) = s; (w', threw) = fn w in (w', if threw then flags[i := True] else flags))"

fun submit_level :: "'w TaskGraph \<Rightarrow> ('e, 'w shared) IExecutor \<Rightarrow> nat \<Rightarrow> TaskId list \<Rightarrow> TaskId list \<Rightarrow> 'e \<Rightarrow> 'w shared \<Rightarrow>
    (Status + TaskId list) \<times> 'e \<times> 'w shared" where
  "submit_level g ex i [] ids e s = (Inr ids, e, s)"
| "submit_level g ex i (u # us) ids e s =
     (case map_of (nodes g) u of
        None \<Rightarrow> (Inl (task_status kInternalError ''node missing during execution''), e, s)
      | Some node \<Rightarrow>
          let (sub, e', s') = ie_SubmitEx ex (node_closure i (node_fn node))
                \<lparr>so_priority = go_priority (node_options node), so_serial_key = 0\<rparr> e s
          in if \<not> result_ok sub
             then (if ids \<noteq> []
                   then let (st, e'', s'') = ie_WaitBatch ex ids 0 e' s' in (Inl (res_status sub), e'', s'')
                   else (Inl (res_status sub), e', s'))
             else submit_level g ex (Suc i) us (ids @ [res_value sub]) e' s')"

fun count_flags :: "bool list \<Rightarrow> GraphRunStats \<Rightarrow> bool \<Rightarrow> GraphRunStats \<times> bool" where
  "count_flags [] stats lf = (stats, lf)"
| "count_flags (f # fs) stats lf =
     (if f then count_flags fs (stats\<lparr>gs_failed := gs_failed stats + 1\<rparr>) True
      else count_flags fs (stats\<lparr>succeeded := succeeded stats + 1\<rparr>) lf)"

definition run_on_executor :: "'w TaskGraph \<Rightarrow> ('e, 'w shared) IExecutor \<Rightarrow> TaskId list \<Rightarrow> 'e \<Rightarrow> 'w \<Rightarrow> GraphRunStats \<Rightarrow>
    (Status + (GraphRunStats \<times> bool)) \<times> 'e \<times> 'w" where
  "run_on_executor g ex level e w stats =
     (let (sub, e1, s1) = submit_level g ex 0 level [] e (w, replicate (length level) False)
      in case sub of Inl st \<Rightarrow> (Inl st, e1, fst s1)
         | Inr ids \<Rightarrow>
             let (st, e2, s2) = ie_WaitBatch ex ids 0 e1 s1
             in if \<not> status_ok st then (Inl st, e2, fst s2)
                else (Inr (count_flags (snd s2) stats False), e2, fst s2))"

text \<open>The successors of a whole level are unlocked after it has run.\<close>

fun unlock_level :: "'w TaskGraph \<Rightarrow> TaskId list \<Rightarrow> indegrees \<Rightarrow> TaskId list \<Rightarrow> Status + (indegrees \<times> TaskId list)" where
  "unlock_level g [] ind ready = Inr (ind, ready)"
| "unlock_level g (u # us) ind ready =
     (case unlock (successors g u) ind ready of Inl st \<Rightarrow> Inl st
      | Inr (ind', ready') \<Rightarrow> unlock_level g us ind' ready')"

definition level_cap :: "GraphRunOptions \<Rightarrow> nat" where
  "level_cap opts = (if max_concurrency opts = 0 then unat (-1 :: size_t) else unat (max_concurrency opts))"

definition final_stats :: "GraphRunStats \<Rightarrow> GraphRunStats" where
  "final_stats stats = stats\<lparr>gs_canceled := total stats - succeeded stats - gs_failed stats\<rparr>"

definition run_level :: "('e, 'w shared) IExecutor option \<Rightarrow> 'w TaskGraph \<Rightarrow> TaskId list \<Rightarrow> 'e \<Rightarrow> 'w \<Rightarrow> GraphRunStats \<Rightarrow>
    (Status + (GraphRunStats \<times> bool)) \<times> 'e \<times> 'w" where
  "run_level ex g level e w stats =
     (case ex of
        None \<Rightarrow> (let (r, w') = run_inline g level w stats False in (r, e, w'))
      | Some x \<Rightarrow> run_on_executor g x level e w stats)"

partial_function (option) Run_loop ::
    "('e, 'w shared) IExecutor option \<Rightarrow> GraphRunOptions \<Rightarrow> 'w TaskGraph \<Rightarrow> indegrees \<Rightarrow> TaskId list \<Rightarrow> nat \<Rightarrow>
     GraphRunStats \<Rightarrow> 'e \<Rightarrow> 'w \<Rightarrow> (GraphRunStats Result \<times> 'e \<times> 'w) option" where
  "Run_loop ex opts g ind ready processed stats e w =
     (if ready = [] then
        Some (if processed \<noteq> length (nodes g) then Result_status stats st_cycle
              else Result_value (final_stats stats), e, w)
      else
        let level = take (level_cap opts) ready; rest = drop (level_cap opts) ready;
            (r, e', w') = run_level ex g level e w stats
        in case r of
             Inl st \<Rightarrow> Some (Result_status stats st, e', w')
           | Inr (stats', level_failed) \<Rightarrow>
               if level_failed \<and> fail_fast opts then Some (Result_value (final_stats stats'), e', w')
               else (case unlock_level g level ind rest of
                       Inl st \<Rightarrow> Some (Result_status stats st, e', w')
                     | Inr (ind', ready') \<Rightarrow>
                         Run_loop ex opts g ind' ready' (processed + length level) stats' e' w'))"

declare Run_loop.simps [code]

definition zero_stats :: GraphRunStats where
  "zero_stats = \<lparr>total = 0, succeeded = 0, gs_failed = 0, gs_canceled = 0\<rparr>"

definition RunInternal ::
    "('e, 'w shared) IExecutor option \<Rightarrow> GraphRunOptions \<Rightarrow> 'w TaskGraph \<Rightarrow> 'e \<Rightarrow> 'w \<Rightarrow>
     (GraphRunStats Result \<times> 'e \<times> 'w) option" where
  "RunInternal ex opts g e w =
     (case Validate g of
        None \<Rightarrow> None
      | Some st \<Rightarrow>
          if \<not> status_ok st then Some (Result_status zero_stats st, e, w)
          else case BuildIndegree g of
              Inl st' \<Rightarrow> Some (Result_status zero_stats st', e, w)
            | Inr ind \<Rightarrow> Run_loop ex opts g ind (initial_ready ind) 0
                          (zero_stats\<lparr>total := of_nat (length (nodes g))\<rparr>) e w)"

definition Run :: "'w TaskGraph \<Rightarrow> 'w \<Rightarrow> (GraphRunStats Result \<times> 'w) option" where
  "Run g w =
     map_option (\<lambda>(r, e, w'). (r, w'))
       (RunInternal (None :: (unit, 'w shared) IExecutor option) \<lparr>fail_fast = True, max_concurrency = 0\<rparr> g () w)"

definition RunWithExecutor ::
    "('e, 'w shared) IExecutor option \<Rightarrow> GraphRunOptions \<Rightarrow> 'w TaskGraph \<Rightarrow> 'e \<Rightarrow> 'w \<Rightarrow>
     (GraphRunStats Result \<times> 'e \<times> 'w) option" where
  "RunWithExecutor ex opts g e w =
     (case ex of
        None \<Rightarrow> Some (Result_status zero_stats (task_status kInvalidArgument
                  ''executor is null; use Run() for synchronous execution''), e, w)
      | Some _ \<Rightarrow> RunInternal ex opts g e w)"

end
