(* ===== verification/CK_TaskGraph_Run.thy ===== *)
theory CK_TaskGraph_Run
  imports CK_TaskGraph_Props
begin

text \<open>
  Running a task graph, inline and on an executor. The executor is used through a contract: a
  submitted closure runs at most once, and a successful wait means that the awaited closures ran.
\<close>

section \<open>Executing a list of tasks\<close>

definition task_body :: "'w TaskGraph \<Rightarrow> TaskId \<Rightarrow> 'w body" where
  "task_body g u = node_fn (the (map_of (nodes g) u))"

fun exec_list :: "'w TaskGraph \<Rightarrow> TaskId list \<Rightarrow> 'w \<Rightarrow> 'w \<times> bool list" where
  "exec_list g [] w = (w, [])"
| "exec_list g (u # us) w =
     (let (w1, threw) = task_body g u w; (w2, fl) = exec_list g us w1 in (w2, threw # fl))"

definition add_stats :: "bool list \<Rightarrow> GraphRunStats \<Rightarrow> GraphRunStats" where
  "add_stats fl stats = stats\<lparr>succeeded := succeeded stats + of_nat (count_list fl False),
     gs_failed := gs_failed stats + of_nat (count_list fl True)\<rparr>"

definition run_stats :: "nat \<Rightarrow> bool list \<Rightarrow> GraphRunStats" where
  "run_stats n fl = \<lparr>total = of_nat n, succeeded = of_nat (count_list fl False),
     gs_failed = of_nat (count_list fl True), gs_canceled = of_nat (n - length fl)\<rparr>"

lemma exec_list_append:
  "exec_list g (us @ vs) w = (let (w1, f1) = exec_list g us w; (w2, f2) = exec_list g vs w1 in (w2, f1 @ f2))"
  by (induction us arbitrary: w) (auto simp: Let_def split: prod.splits)

lemma length_exec_list: "exec_list g us w = (w', fl) \<Longrightarrow> length fl = length us"
  by (induction us arbitrary: w fl) (auto simp: Let_def split: prod.splits)

lemma add_stats_append: "add_stats (f1 @ f2) stats = add_stats f2 (add_stats f1 stats)"
  by (simp add: add_stats_def)

lemma add_stats_simps [simp]:
  "add_stats [] stats = stats"
  "add_stats (True # fl) stats = add_stats fl (stats\<lparr>gs_failed := gs_failed stats + 1\<rparr>)"
  "add_stats (False # fl) stats = add_stats fl (stats\<lparr>succeeded := succeeded stats + 1\<rparr>)"
  by (simp_all add: add_stats_def)

lemma count_bools: "count_list fl False + count_list fl True = length fl"
  by (induction fl) auto

lemma final_run_stats:
  assumes "length fl \<le> n"
  shows "final_stats (add_stats fl (zero_stats\<lparr>total := of_nat n\<rparr>)) = run_stats n fl"
proof -
  have "(of_nat n :: u64) - of_nat (count_list fl False) - of_nat (count_list fl True) = of_nat (n - length fl)"
  proof -
    obtain m where m: "n = length fl + m" using assms le_Suc_ex by blast
    show ?thesis unfolding m count_bools [of fl, symmetric] by simp
  qed
  then show ?thesis by (simp add: final_stats_def add_stats_def zero_stats_def run_stats_def)
qed

lemma run_inline_spec:
  assumes "set us \<subseteq> set (gkeys g)" "exec_list g us w = (w', fl)"
  shows "run_inline g us w stats lf = (Inr (add_stats fl stats, lf \<or> True \<in> set fl), w')"
  using assms
proof (induction us arbitrary: w fl stats lf)
  case (Cons u us)
  then obtain node where n: "map_of (nodes g) u = Some node" using map_of_member [of u "nodes g"] by auto
  obtain w1 t where b: "node_fn node w = (w1, t)" by (cases "node_fn node w")
  then obtain fl' where fl: "fl = t # fl'" "exec_list g us w1 = (w', fl')"
    using Cons.prems(2) n by (auto simp: task_body_def Let_def split: prod.splits)
  have us: "set us \<subseteq> set (gkeys g)" using Cons.prems(1) by simp
  show ?case using Cons.IH [OF us fl(2)] n b fl(1) by (cases t) simp_all
qed simp

section \<open>The level loop\<close>

lemma topo_all: "(\<forall>v\<in>set vs. \<forall>u. v \<in> set (successors g u) \<longrightarrow> u \<in> D) \<Longrightarrow> topo g D vs"
  by (induction vs arbitrary: D) auto

lemma unlock_level_spec:
  assumes "graph_wf g"
  shows "kahn_inv g P ind lv R \<Longrightarrow>
    \<exists>ind' R'. unlock_level g lv ind R = Inr (ind', R') \<and> kahn_inv g (P @ lv) ind' [] R'"
proof (induction lv arbitrary: P ind R)
  case (Cons u lv)
  obtain ind1 R1 where s: "unlock (successors g u) ind R = Inr (ind1, R1)" "kahn_inv g (P @ [u]) ind1 lv R1"
    by (rule kahn_step [OF assms Cons.prems])
  from Cons.IH [OF s(2)] s(1) show ?case by auto
qed auto

text \<open>A level ran: its tasks were executed in some order, and the statistics count the throws. A runner
  takes levels from a budget of submissions.\<close>

definition level_ran :: "'w TaskGraph \<Rightarrow> TaskId list \<Rightarrow> 'w \<Rightarrow> 'w \<Rightarrow> bool list \<Rightarrow> bool" where
  "level_ran g lv w w' fl \<longleftrightarrow> (\<exists>ord. mset ord = mset lv \<and> exec_list g ord w = (w', fl))"

definition runner_ok ::
    "(nat \<Rightarrow> 'e \<Rightarrow> bool) \<Rightarrow> (Status \<Rightarrow> bool) \<Rightarrow> ('e, 'w shared) IExecutor option \<Rightarrow> 'w TaskGraph \<Rightarrow> bool" where
  "runner_ok I E ex g \<longleftrightarrow>
     (\<forall>lv k e w stats r e' w'. I (length lv + k) e \<and> distinct lv \<and> set lv \<subseteq> set (gkeys g) \<and> run_level ex g lv e w stats = (r, e', w') \<longrightarrow>
        (case r of Inl st \<Rightarrow> E st
         | Inr (stats', lf) \<Rightarrow> I k e' \<and> (\<exists>fl. stats' = add_stats fl stats \<and> lf = (True \<in> set fl) \<and> level_ran g lv w w' fl)))"

lemma runner_ok_inline: "runner_ok (\<lambda>_ _. True) (\<lambda>_. False) None g"
  unfolding runner_ok_def
proof (intro allI impI, elim conjE)
  fix lv :: "TaskId list" and k e w stats r e' w'
  assume a: "set lv \<subseteq> set (gkeys g)" "run_level (None :: ('a, 'b shared) IExecutor option) g lv e w stats = (r, e', w')"
  obtain w1 fl where x: "exec_list g lv w = (w1, fl)" by (cases "exec_list g lv w")
  have "r = Inr (add_stats fl stats, True \<in> set fl)" "w' = w1"
    using a(2) run_inline_spec [OF a(1) x] by (simp_all add: run_level_def)
  then show "case r of Inl st \<Rightarrow> False | Inr (stats', lf) \<Rightarrow>
      True \<and> (\<exists>fl. stats' = add_stats fl stats \<and> lf = (True \<in> set fl) \<and> level_ran g lv w w' fl)"
    using x by (auto simp: level_ran_def)
qed

text \<open>What a run leaves behind: the tasks in \<open>ord\<close> were executed in an order that respects the
  dependencies, and the rest was skipped because of a failure under \<open>fail_fast\<close>.\<close>

definition run_outcome :: "GraphRunOptions \<Rightarrow> 'w TaskGraph \<Rightarrow> 'w \<Rightarrow> GraphRunStats Result \<Rightarrow> 'w \<Rightarrow> bool" where
  "run_outcome opts g w res w' \<longleftrightarrow>
     (\<exists>ord fl. exec_list g ord w = (w', fl) \<and> distinct ord \<and> set ord \<subseteq> set (gkeys g) \<and> topo g {} ord
        \<and> res = Result_value (run_stats (length (nodes g)) fl)
        \<and> (set ord = set (gkeys g) \<or> fail_fast opts \<and> True \<in> set fl))"

lemma level_cap_pos: "0 < level_cap opts"
  by (simp add: level_cap_def unat_gt_0)

lemma take_level_inv:
  "kahn_inv g P ind [] R \<Longrightarrow> kahn_inv g P ind (take n R) (drop n R)"
  by (simp add: kahn_inv_def)

lemma Run_loop_spec:
  assumes wf: "graph_wf g" and ac: "acyclic (graph_edges g)" and good: "runner_ok I E ex g"
  shows "kahn_inv g P ind [] R \<Longrightarrow> I (length (nodes g) - length P) e \<Longrightarrow> mset ord0 = mset P \<Longrightarrow> topo g {} ord0 \<Longrightarrow>
    exec_list g ord0 w0 = (w, fl0) \<Longrightarrow> stats = add_stats fl0 (zero_stats\<lparr>total := of_nat (length (nodes g))\<rparr>) \<Longrightarrow>
    \<exists>res e' w'. Run_loop ex opts g ind R (length P) stats e w = Some (res, e', w')
      \<and> (run_outcome opts g w0 res w' \<or> (\<exists>d st. res = Result_status d st \<and> E st))"
proof (induction "length (nodes g) - length P" arbitrary: P ind R e ord0 w fl0 stats rule: less_induct)
  case less
  have P: "distinct P" "set P \<subseteq> set (gkeys g)" using less.prems(1) unfolding kahn_inv_def by blast+
  have ord0: "set ord0 = set P" "distinct ord0" "length ord0 = length P"
    using less.prems(3) P(1) by (metis mset_eq_setD, metis mset_eq_imp_distinct_iff, metis mset_eq_length)
  note lfl = length_exec_list [OF less.prems(5)]
  have nP: "length P \<le> length (nodes g)" using kahn_bound [OF wf less.prems(1)] by simp
  show ?case
  proof (cases "R = []")
    case True
    then have all: "set P = set (gkeys g)" using stuck_cyclic [OF wf _ ac] less.prems(1) by simp
    have dk: "distinct (gkeys g)" using wf by (simp add: graph_wf_def omap_distinct)
    have "length P = length (nodes g)"
      using distinct_card [OF P(1)] distinct_card [OF dk] unfolding all by simp
    then have "Run_loop ex opts g ind R (length P) stats e w = Some (Result_value (final_stats stats), e, w)"
      using True by (simp add: Run_loop.simps)
    moreover have "final_stats stats = run_stats (length (nodes g)) fl0"
      unfolding less.prems(6) using lfl ord0(3) nP by (intro final_run_stats) simp
    moreover have "run_outcome opts g w0 (Result_value (run_stats (length (nodes g)) fl0)) w"
      unfolding run_outcome_def
      by (intro exI [of _ ord0] exI [of _ fl0]) (use less.prems(4,5) ord0 all P(2) in simp)
    ultimately show ?thesis using less.prems(2) by auto
  next
    case False
    let ?lv = "take (level_cap opts) R" and ?rest = "drop (level_cap opts) R"
    have k: "kahn_inv g P ind ?lv ?rest" by (rule take_level_inv [OF less.prems(1)])
    have ne: "?lv \<noteq> []" using False level_cap_pos [of opts] by simp
    have lv: "distinct ?lv" "set ?lv \<subseteq> {v \<in> set (gkeys g). v \<notin> set P \<and> deg g (set P) v = 0}"
    proof -
      have "distinct (?lv @ ?rest)" "set (?lv @ ?rest) = {v \<in> set (gkeys g). v \<notin> set P \<and> deg g (set P) v = 0}"
        using k unfolding kahn_inv_def by blast+
      then show "distinct ?lv" "set ?lv \<subseteq> {v \<in> set (gkeys g). v \<notin> set P \<and> deg g (set P) v = 0}"
        by (simp_all only: distinct_append set_append) blast
    qed
    then have lvk: "set ?lv \<subseteq> set (gkeys g)" by blast
    have budget: "length (nodes g) - length P = length ?lv + (length (nodes g) - length (P @ ?lv))"
      using kahn_bound [OF wf k] unfolding length_append by linarith
    obtain r e' w' where r: "run_level ex g ?lv e w stats = (r, e', w')" by (cases "run_level ex g ?lv e w stats")
    show ?thesis
    proof (cases r)
      case (Inl st)
      then have "E st"
        using good [unfolded runner_ok_def, rule_format, of ?lv "length (nodes g) - length (P @ ?lv)" e w stats r e' w']
          r less.prems(2) [unfolded budget] lv(1) lvk by simp
      moreover have "Run_loop ex opts g ind R (length P) stats e w = Some (Result_status stats st, e', w')"
        using False r Inl by (simp add: Run_loop.simps [of ex opts g ind R])
      ultimately show ?thesis by blast
    next
      case (Inr q)
      obtain stats' lf where q: "q = (stats', lf)" by (cases q)
      then obtain fl ord where o: "I (length (nodes g) - length (P @ ?lv)) e'" "stats' = add_stats fl stats"
        "lf = (True \<in> set fl)" "mset ord = mset ?lv" "exec_list g ord w = (w', fl)"
        using good [unfolded runner_ok_def, rule_format, of ?lv "length (nodes g) - length (P @ ?lv)" e w stats r e' w']
          r less.prems(2) [unfolded budget] lv(1) lvk Inr by (auto simp: level_ran_def)
      let ?ord = "ord0 @ ord"
      have so: "set ord = set ?lv" "distinct ord" "length ord = length ?lv"
        using o(4) lv(1) by (metis mset_eq_setD, metis mset_eq_imp_distinct_iff, metis mset_eq_length)
      have ms: "mset ?ord = mset (P @ ?lv)" using less.prems(3) o(4) by simp
      have "\<forall>v\<in>set ord. \<forall>u. v \<in> set (successors g u) \<longrightarrow> u \<in> set P"
        using lv(2) so(1) deg_zero_iff [OF wf] by blast
      then have topo': "topo g {} ?ord" using less.prems(4) ord0(1) by (simp add: topo_append topo_all)
      have ex': "exec_list g ?ord w0 = (w', fl0 @ fl)" using less.prems(5) o(5) by (simp add: exec_list_append)
      have st': "stats' = add_stats (fl0 @ fl) (zero_stats\<lparr>total := of_nat (length (nodes g))\<rparr>)"
        using o(2) less.prems(6) by (simp add: add_stats_append)
      have dis: "distinct ?ord" "set ?ord \<subseteq> set (gkeys g)" "length ?ord \<le> length (nodes g)"
        using ord0 so lv P(2) lvk kahn_bound [OF wf k] by auto
      show ?thesis
      proof (cases "lf \<and> fail_fast opts")
        case True
        have "Run_loop ex opts g ind R (length P) stats e w = Some (Result_value (final_stats stats'), e', w')"
          using False r Inr q True by (simp add: Run_loop.simps [of ex opts g ind R])
        moreover have "final_stats stats' = run_stats (length (nodes g)) (fl0 @ fl)"
          unfolding st' using dis(3) length_exec_list [OF ex'] by (intro final_run_stats) simp
        moreover have "run_outcome opts g w0 (Result_value (run_stats (length (nodes g)) (fl0 @ fl))) w'"
          unfolding run_outcome_def
          by (intro exI [of _ ?ord] exI [of _ "fl0 @ fl"]) (use ex' dis topo' o(3) True in simp)
        ultimately show ?thesis by auto
      next
        case go: False
        obtain ind' R' where u: "unlock_level g ?lv ind ?rest = Inr (ind', R')" "kahn_inv g (P @ ?lv) ind' [] R'"
          using unlock_level_spec [OF wf k] by blast
        have "length (P @ ?lv) \<le> length (nodes g)" using kahn_bound [OF wf u(2)] by simp
        moreover have "0 < length ?lv" using ne by simp
        ultimately have "length (nodes g) - length (P @ ?lv) < length (nodes g) - length P"
          unfolding length_append by linarith
        note ih = less.hyps [OF this u(2) o(1) ms topo' ex' st']
        have "Run_loop ex opts g ind R (length P) stats e w
            = Run_loop ex opts g ind' R' (length (P @ ?lv)) stats' e' w'"
          using False r Inr q go u(1) by (subst Run_loop.simps, cases lf) (simp_all add: Let_def)
        then show ?thesis using ih by simp
      qed
    qed
  qed
qed

lemma RunInternal_spec:
  assumes wf: "graph_wf g" and ac: "acyclic (graph_edges g)" and good: "runner_ok I E ex g"
    and e: "I (length (nodes g)) e"
  shows "\<exists>res e' w'. RunInternal ex opts g e w = Some (res, e', w')
    \<and> (run_outcome opts g w res w' \<or> (\<exists>d st. res = Result_status d st \<and> E st))"
proof -
  obtain ind P ind' where v: "BuildIndegree g = Inr ind" "kahn_inv g [] ind [] (initial_ready ind)"
    "Validate_loop g ind (initial_ready ind) 0 = Some (Inr (length P))" "kahn_inv g P ind' [] []"
    "length P = length (nodes g) \<longleftrightarrow> acyclic (graph_edges g)"
    by (rule Validate_cases [OF wf])
  then have "Validate g = Some Status_Ok" using ac by (simp add: Validate_def)
  then have "RunInternal ex opts g e w = Run_loop ex opts g ind (initial_ready ind) (length ([] :: TaskId list))
      (zero_stats\<lparr>total := of_nat (length (nodes g))\<rparr>) e w"
    using v(1) by (simp add: RunInternal_def)
  then show ?thesis
    using Run_loop_spec [OF wf ac good v(2), of e "[]" w w "[]"] e by simp
qed

text \<open>C6: \<open>Run\<close> on a well-formed acyclic graph always finishes with statistics. The tasks it executed are
  distinct tasks of the graph in an order in which every task comes after all its predecessors, each
  executed once; it executed all of them unless some task threw. The statistics add up: total is
  the number of tasks, succeeded and failed count the executed ones, canceled the others.\<close>
theorem Run_correct:
  assumes "graph_wf g" "acyclic (graph_edges g)"
  shows "\<exists>w' ord fl. Run g w = Some (Result_value (run_stats (length (nodes g)) fl), w')
    \<and> exec_list g ord w = (w', fl) \<and> distinct ord \<and> set ord \<subseteq> set (gkeys g) \<and> topo g {} ord
    \<and> (set ord = set (gkeys g) \<or> True \<in> set fl)"
proof -
  obtain res e' w' where "RunInternal (None :: (unit, 'a shared) IExecutor option)
      \<lparr>fail_fast = True, max_concurrency = 0\<rparr> g () w = Some (res, e', w')"
    "run_outcome \<lparr>fail_fast = True, max_concurrency = 0\<rparr> g w res w'"
    using RunInternal_spec [OF assms runner_ok_inline, where e = "()"] by blast
  then show ?thesis by (auto simp: Run_def run_outcome_def)
qed

text \<open>\<open>Run\<close> and \<open>RunWithExecutor\<close> on a well-formed graph with a cycle execute nothing: the state of the
  program and of the executor is untouched and the status is the cycle error.\<close>
theorem Run_rejects_cycle:
  assumes "graph_wf g" "\<not> acyclic (graph_edges g)"
  shows "Run g w = Some (Result_status zero_stats st_cycle, w)
    \<and> RunWithExecutor (Some ex) opts g e w = Some (Result_status zero_stats st_cycle, e, w)"
proof -
  obtain ind P ind' where v: "BuildIndegree g = Inr ind" "kahn_inv g [] ind [] (initial_ready ind)"
    "Validate_loop g ind (initial_ready ind) 0 = Some (Inr (length P))" "kahn_inv g P ind' [] []"
    "length P = length (nodes g) \<longleftrightarrow> acyclic (graph_edges g)"
    by (rule Validate_cases [OF assms(1)])
  have "\<not> status_ok st_cycle" by (simp add: st_cycle_def task_status_def Status_FromModule_def status_ok_def)
  then have "Validate g = Some st_cycle" "\<not> status_ok st_cycle"
    using v assms(2) by (simp_all add: Validate_def)
  then show ?thesis by (simp add: Run_def RunWithExecutor_def RunInternal_def)
qed

theorem Run_correct_witness:
  "\<exists>w' ord fl. Run chain_graph [] = Some (Result_value (run_stats 3 fl), w')
     \<and> exec_list chain_graph ord [] = (w', fl) \<and> distinct ord \<and> topo chain_graph {} ord
     \<and> (set ord = {1, 2, 3} \<or> True \<in> set fl)"
proof -
  have "length (nodes chain_graph) = 3" "set (gkeys chain_graph) = {1, 2, 3}" by (simp_all add: graph_eval)
  then show ?thesis using Run_correct [OF chain_graph_wf chain_acyclic, of "[]"] by simp blast
qed

theorem Run_rejects_cycle_witness:
  "Run loop_graph ''x'' = Some (Result_status zero_stats st_cycle, ''x'')"
  by (rule conjunct1 [OF Run_rejects_cycle [OF loop_graph_wf loop_cyclic]])

end
