(* ===== verification/CK_TaskGraph_Exec.thy ===== *)
theory CK_TaskGraph_Exec
  imports CK_TaskGraph_Run
begin

text \<open>
  Running a task graph on an executor. The contract \<open>task_executor\<close> is what the graph relies on of
  \<open>IExecutor\<close>: a closure that was accepted runs at most once, nothing else changes the shared state,
  and a successful \<open>WaitBatch\<close> means that the closures it names have run. The invariant counts the
  submissions the executor still vouches for (its task identifiers are 64-bit). \<open>CK_Executor_Client\<close>
  shows that the thread pool provides it under every schedule.
\<close>

section \<open>The contract\<close>

type_synonym 's pending = "(TaskId \<times> ('s \<Rightarrow> 's)) list"

locale task_executor =
  fixes ex :: "('e, 's) IExecutor"
    and pend :: "'e \<Rightarrow> 's pending"
    and einv :: "nat \<Rightarrow> 'e \<Rightarrow> bool"
  assumes submit_law: "einv (Suc n) e \<Longrightarrow> ie_SubmitEx ex f opts e s = (r, e', s') \<Longrightarrow>
      einv n e' \<and> (\<exists>ran. s' = fold snd ran s \<and>
        mset ran + mset (pend e') = mset (pend e) + (if result_ok r then {#(res_value r, f)#} else {#}))"
    and wait_law: "einv n e \<Longrightarrow> ie_WaitBatch ex ids tmo e s = (st, e', s') \<Longrightarrow>
      einv n e' \<and> (\<exists>ran. s' = fold snd ran s \<and> mset ran + mset (pend e') = mset (pend e))
      \<and> (status_ok st \<longrightarrow> fst ` set (pend e') \<inter> set ids = {})"

section \<open>Closures of a level\<close>

lemma mset_eq_image:
  "mset xs = image_mset f M \<Longrightarrow> \<exists>ys. mset ys = M \<and> xs = map f ys"
proof (induction xs arbitrary: M)
  case (Cons x xs)
  then have "image_mset f M = add_mset x (mset xs)" by simp
  then obtain M1 y where m: "M = add_mset y M1" "f y = x" "image_mset f M1 = mset xs"
    using msed_map_invR by metis
  from Cons.IH [OF m(3) [symmetric]] obtain ys where "mset ys = M1" "xs = map f ys" by blast
  then show ?case using m by (intro exI [of _ "y # ys"]) simp
qed simp

text \<open>Running the closures of a level in any order executes the tasks in that order and marks the
  throwing ones.\<close>

lemma fold_closures:
  assumes "distinct ixs" "\<forall>i\<in>set ixs. i < length lv \<and> i < length flags \<and> \<not> flags ! i"
    "fold (\<lambda>i. node_closure i (task_body g (lv ! i))) ixs (w, flags) = (w', flags')"
    "exec_list g (map ((!) lv) ixs) w = (w2, fl)"
  shows "w' = w2 \<and> length flags' = length flags \<and> map ((!) flags') ixs = fl
    \<and> (\<forall>j. j \<notin> set ixs \<longrightarrow> flags' ! j = flags ! j)"
  using assms
proof (induction ixs arbitrary: w flags fl)
  case Nil
  then show ?case by simp
next
  case (Cons i ixs)
  obtain w1 t where b: "task_body g (lv ! i) w = (w1, t)" by (cases "task_body g (lv ! i) w")
  obtain fl1 where fl: "fl = t # fl1" "exec_list g (map ((!) lv) ixs) w1 = (w2, fl1)"
    using Cons.prems(4) b by (auto simp: Let_def split: prod.splits)
  let ?flags = "if t then flags[i := True] else flags"
  have f: "fold (\<lambda>i. node_closure i (task_body g (lv ! i))) ixs (w1, ?flags) = (w', flags')"
  proof -
    have "node_closure i (task_body g (lv ! i)) (w, flags) = (w1, ?flags)" using b by (simp add: node_closure_def)
    then show ?thesis using Cons.prems(3) by (simp only: fold_simps)
  qed
  have pre: "distinct ixs" "\<forall>j\<in>set ixs. j < length lv \<and> j < length ?flags \<and> \<not> ?flags ! j"
    using Cons.prems(1,2) by (auto simp: nth_list_update)
  note ih = Cons.IH [OF pre f fl(2)]
  have "flags' ! i = ?flags ! i" using ih Cons.prems(1) by simp
  moreover have "?flags ! i = t" using Cons.prems(2) by auto
  moreover have "?flags ! j = flags ! j" if "j \<noteq> i" for j using that by simp
  ultimately show ?case using ih fl(1) by auto
qed

lemma count_flags_spec: "count_flags fs stats lf = (add_stats fs stats, lf \<or> True \<in> set fs)"
  by (induction fs stats lf rule: count_flags.induct) auto

lemma add_stats_mset: "mset a = mset b \<Longrightarrow> add_stats a stats = add_stats b stats"
  using mset_eq_length_filter [of a b False] mset_eq_length_filter [of a b True]
  by (simp add: add_stats_def)

section \<open>The graph as a client\<close>

fun level_closures :: "'w TaskGraph \<Rightarrow> nat \<Rightarrow> TaskId list \<Rightarrow> ('w shared \<Rightarrow> 'w shared) list" where
  "level_closures g i [] = []"
| "level_closures g i (u # us) = node_closure i (task_body g u) # level_closures g (Suc i) us"

lemma level_closures_map:
  "level_closures g i us = map (\<lambda>j. node_closure (i + j) (task_body g (us ! j))) [0..<length us]"
  by (induction us arbitrary: i) (simp_all add: upt_conv_Cons map_Suc_upt [symmetric] comp_def del: upt_Suc)

locale graph_executor = task_executor ex pend einv
  for ex :: "('e, 'w shared) IExecutor" and pend :: "'e \<Rightarrow> 'w shared pending" and einv :: "nat \<Rightarrow> 'e \<Rightarrow> bool"
begin

lemma submit_level_spec:
  assumes "set us \<subseteq> set (gkeys g)" "einv (length us + n) e" "submit_level g ex i us ids e s = (r, e', s')"
  shows "case r of Inl st \<Rightarrow> \<not> status_ok st
    | Inr ids' \<Rightarrow> einv n e' \<and> (\<exists>news ran. ids' = ids @ news \<and> length news = length us \<and> s' = fold snd ran s
        \<and> mset ran + mset (pend e') = mset (pend e) + mset (zip news (level_closures g i us)))"
  using assms
proof (induction us arbitrary: i ids e s)
  case Nil
  then show ?case by (auto intro: exI [of _ "[]"])
next
  case (Cons u us)
  then obtain node where n: "map_of (nodes g) u = Some node" using map_of_member [of u "nodes g"] by auto
  let ?o = "\<lparr>so_priority = go_priority (node_options node), so_serial_key = 0\<rparr>"
  let ?f = "node_closure i (node_fn node)"
  have fn: "node_fn node = task_body g u" using n by (simp add: task_body_def)
  obtain sub e1 s1 where sb: "ie_SubmitEx ex ?f ?o e s = (sub, e1, s1)" by (cases "ie_SubmitEx ex ?f ?o e s")
  have e: "einv (Suc (length us + n)) e" using Cons.prems(2) by simp
  note law = submit_law [OF e sb]
  show ?case
  proof (cases "result_ok sub")
    case False
    then have "r = Inl (res_status sub)"
      using Cons.prems(3) n sb by (auto simp: Let_def split: if_splits prod.splits)
    with False show ?thesis by (simp add: result_ok_def)
  next
    case True
    obtain ran1 where r1: "s1 = fold snd ran1 s" "mset ran1 + mset (pend e1) = mset (pend e) + {#(res_value sub, ?f)#}"
      using law True by auto
    have next_: "submit_level g ex (Suc i) us (ids @ [res_value sub]) e1 s1 = (r, e', s')"
      using Cons.prems(3) n sb True by (simp add: Let_def)
    have "set us \<subseteq> set (gkeys g)" "einv (length us + n) e1" using Cons.prems(1) law by simp_all
    note ih = Cons.IH [OF this next_]
    show ?thesis
    proof (cases r)
      case (Inl st)
      then show ?thesis using ih by simp
    next
      case (Inr ids')
      then obtain news ran where r2: "einv n e'" "ids' = (ids @ [res_value sub]) @ news" "length news = length us"
        "s' = fold snd ran s1" "mset ran + mset (pend e') = mset (pend e1) + mset (zip news (level_closures g (Suc i) us))"
        using ih by auto
      have "mset (ran1 @ ran) + mset (pend e')
          = mset (pend e) + mset (zip (res_value sub # news) (level_closures g i (u # us)))"
      proof -
        have "mset (ran1 @ ran) + mset (pend e') = mset ran1 + (mset ran + mset (pend e'))" by simp
        also have "\<dots> = (mset ran1 + mset (pend e1)) + mset (zip news (level_closures g (Suc i) us))"
          unfolding r2(5) by simp
        finally show ?thesis unfolding r1(2) fn by simp
      qed
      then show ?thesis
        using Inr r1(1) r2(1-4)
        by (auto intro!: exI [of _ "res_value sub # news"] exI [of _ "ran1 @ ran"])
    qed
  qed
qed

lemma run_on_executor_spec:
  assumes lv: "distinct lv" "set lv \<subseteq> set (gkeys g)" and e: "einv (length lv + n) e" "pend e = []"
    and run: "run_on_executor g ex lv e w stats = (r, e', w')"
  shows "case r of Inl st \<Rightarrow> \<not> status_ok st
    | Inr (stats', lf) \<Rightarrow> (einv n e' \<and> pend e' = [])
        \<and> (\<exists>fl. stats' = add_stats fl stats \<and> lf = (True \<in> set fl) \<and> level_ran g lv w w' fl)"
proof -
  let ?n = "length lv"
  obtain sub e1 s1 where s: "submit_level g ex 0 lv [] e (w, replicate ?n False) = (sub, e1, s1)"
    by (cases "submit_level g ex 0 lv [] e (w, replicate ?n False)")
  note sl = submit_level_spec [OF lv(2) e(1) s]
  show ?thesis
  proof (cases sub)
    case (Inl st)
    then show ?thesis using run s sl by (auto simp: run_on_executor_def)
  next
    case (Inr ids)
    then obtain ran1 where s1: "einv n e1" "length ids = ?n" "s1 = fold snd ran1 (w, replicate ?n False)"
      "mset ran1 + mset (pend e1) = mset (zip ids (level_closures g 0 lv))"
      using sl e(2) by auto
    obtain st e2 s2 where wb: "ie_WaitBatch ex ids 0 e1 s1 = (st, e2, s2)" by (cases "ie_WaitBatch ex ids 0 e1 s1")
    note law = wait_law [OF s1(1) wb]
    show ?thesis
    proof (cases "status_ok st")
      case False
      then show ?thesis using run s Inr wb by (auto simp: run_on_executor_def)
    next
      case True
      obtain ran2 where r2: "s2 = fold snd ran2 s1" "mset ran2 + mset (pend e2) = mset (pend e1)" using law by blast
      have all: "mset (ran1 @ ran2) + mset (pend e2) = mset (zip ids (level_closures g 0 lv))"
        unfolding s1(4) [symmetric] r2(2) [symmetric] by simp
      have "set (pend e2) \<subseteq> set (zip ids (level_closures g 0 lv))"
        using arg_cong [OF all, of set_mset] by auto
      then have "fst ` set (pend e2) \<subseteq> set ids" by (force dest: set_zip_leftD)
      moreover have "fst ` set (pend e2) \<inter> set ids = {}" using law True by blast
      ultimately have "set (pend e2) = {}" by (metis Int_absorb2 image_is_empty)
      then have none: "pend e2 = []" by simp
      let ?f = "\<lambda>j. (ids ! j, node_closure j (task_body g (lv ! j)))"
      have "zip ids (level_closures g 0 lv) = map ?f [0..<?n]"
        using s1(2) by (auto simp: level_closures_map intro!: nth_equalityI)
      then have "mset (ran1 @ ran2) = image_mset ?f (mset [0..<?n])" using all none by (simp add: mset_map)
      from mset_eq_image [OF this] obtain ixs where ix: "mset ixs = mset [0..<?n]" "ran1 @ ran2 = map ?f ixs" by blast
      have set_ix: "set ixs = {0..<?n}" "distinct ixs"
        using ix(1) by (metis mset_eq_setD set_upt, metis distinct_upt mset_eq_imp_distinct_iff)
      have s2: "s2 = fold (\<lambda>j. node_closure j (task_body g (lv ! j))) ixs (w, replicate ?n False)"
      proof -
        have "s2 = fold snd (ran1 @ ran2) (w, replicate ?n False)" unfolding r2(1) s1(3) by simp
        also have "\<dots> = fold (snd \<circ> ?f) ixs (w, replicate ?n False)" unfolding ix(2) fold_map ..
        finally show ?thesis by (simp only: comp_def snd_conv)
      qed
      obtain w2 fl where xl: "exec_list g (map ((!) lv) ixs) w = (w2, fl)" by (cases "exec_list g (map ((!) lv) ixs) w")
      have fc: "fst s2 = w2 \<and> length (snd s2) = ?n \<and> map ((!) (snd s2)) ixs = fl"
        using fold_closures [OF set_ix(2) _ _ xl, of "replicate ?n False" "fst s2" "snd s2"] s2 set_ix(1) by simp
      have "mset fl = mset (snd s2)"
      proof -
        have "mset fl = image_mset ((!) (snd s2)) (mset [0..<?n])" using fc ix(1) by (metis mset_map)
        also have "\<dots> = mset (map ((!) (snd s2)) [0..<length (snd s2)])" using fc by (simp add: mset_map)
        finally show ?thesis by (simp add: map_nth)
      qed
      then have cf: "count_flags (snd s2) stats False = (add_stats fl stats, True \<in> set fl)"
        using add_stats_mset [of fl "snd s2"] mset_eq_setD [of fl "snd s2"] by (simp add: count_flags_spec)
      have "mset (map ((!) lv) ixs) = mset lv" using ix(1) by (simp add: mset_map) (metis map_nth mset_map mset_upt)
      then have "level_ran g lv w w2 fl" using xl unfolding level_ran_def by blast
      moreover have "r = Inr (add_stats fl stats, True \<in> set fl)" "e' = e2" "w' = w2"
        using run s Inr wb True cf fc by (auto simp: run_on_executor_def)
      ultimately show ?thesis using law none by auto
    qed
  qed
qed

lemma runner_ok_executor: "runner_ok (\<lambda>n e. einv n e \<and> pend e = []) (\<lambda>st. \<not> status_ok st) (Some ex) g"
  unfolding runner_ok_def
proof (intro allI impI, elim conjE)
  fix lv n e w stats r e' w'
  assume "einv (length lv + n) e" "pend e = []" "distinct lv" "set lv \<subseteq> set (gkeys g)" "run_level (Some ex) g lv e w stats = (r, e', w')"
  then show "case r of Inl st \<Rightarrow> \<not> status_ok st
    | Inr (stats', lf) \<Rightarrow> (einv n e' \<and> pend e' = [])
        \<and> (\<exists>fl. stats' = add_stats fl stats \<and> lf = (True \<in> set fl) \<and> level_ran g lv w w' fl)"
    by (intro run_on_executor_spec) (simp_all add: run_level_def)
qed

text \<open>A run on the executor either reports an error of the executor, or behaves as a run in some
  order that respects the dependencies.\<close>

lemma RunWithExecutor_outcome:
  assumes "graph_wf g" "acyclic (graph_edges g)" "einv (length (nodes g)) e" "pend e = []"
  shows "\<exists>res e' w'. RunWithExecutor (Some ex) opts g e w = Some (res, e', w')
    \<and> (run_outcome opts g w res w' \<or> (\<exists>d st. res = Result_status d st \<and> \<not> status_ok st))"
  using RunInternal_spec [OF assms(1,2) runner_ok_executor, of e opts w] assms(3,4)
  by (simp add: RunWithExecutor_def)

end

section \<open>An executor that accepts every task\<close>

text \<open>When submissions are accepted and the ids they return stay known to the executor, waiting for
  them succeeds and a run reports no error.\<close>

locale reliable_executor = graph_executor ex pend einv
  for ex :: "('e, 'w shared) IExecutor" and pend :: "'e \<Rightarrow> 'w shared pending" and einv :: "nat \<Rightarrow> 'e \<Rightarrow> bool" +
  fixes ids_known :: "'e \<Rightarrow> TaskId set"
  assumes submit_ok: "einv (Suc n) e \<Longrightarrow> ie_SubmitEx ex f opts e s = (r, e', s') \<Longrightarrow>
      result_ok r \<and> res_value r \<in> ids_known e' \<and> ids_known e \<subseteq> ids_known e'"
    and wait_ok: "einv n e \<Longrightarrow> set ids \<subseteq> ids_known e \<Longrightarrow> ie_WaitBatch ex ids tmo e s = (st, e', s') \<Longrightarrow> status_ok st"
begin

lemma submit_level_ok:
  assumes "set us \<subseteq> set (gkeys g)" "einv (length us + n) e" "set ids \<subseteq> ids_known e" "submit_level g ex i us ids e s = (r, e', s')"
  shows "\<exists>ids'. r = Inr ids' \<and> set ids' \<subseteq> ids_known e'"
  using assms
proof (induction us arbitrary: i ids e s)
  case Nil
  then show ?case by auto
next
  case (Cons u us)
  then obtain node where n: "map_of (nodes g) u = Some node" using map_of_member [of u "nodes g"] by auto
  let ?o = "\<lparr>so_priority = go_priority (node_options node), so_serial_key = 0\<rparr>"
  let ?f = "node_closure i (node_fn node)"
  obtain sub e1 s1 where sb: "ie_SubmitEx ex ?f ?o e s = (sub, e1, s1)" by (cases "ie_SubmitEx ex ?f ?o e s")
  have e: "einv (Suc (length us + n)) e" using Cons.prems(2) by simp
  note ok = submit_ok [OF e sb]
  have e1: "einv (length us + n) e1" using submit_law [OF e sb] by blast
  have "set (ids @ [res_value sub]) \<subseteq> ids_known e1" using ok Cons.prems(3) by auto
  moreover have "submit_level g ex (Suc i) us (ids @ [res_value sub]) e1 s1 = (r, e', s')"
    using Cons.prems(4) n sb ok by (simp add: Let_def)
  moreover have "set us \<subseteq> set (gkeys g)" using Cons.prems(1) by simp
  ultimately show ?case by (intro Cons.IH [OF _ e1])
qed

lemma run_on_executor_ok:
  assumes "set lv \<subseteq> set (gkeys g)" and e: "einv (length lv + n) e" and run: "run_on_executor g ex lv e w stats = (r, e', w')"
  shows "\<exists>x. r = Inr x"
proof -
  obtain sub e1 s1 where s: "submit_level g ex 0 lv [] e (w, replicate (length lv) False) = (sub, e1, s1)"
    by (cases "submit_level g ex 0 lv [] e (w, replicate (length lv) False)")
  obtain ids where ids: "sub = Inr ids" "set ids \<subseteq> ids_known e1" using submit_level_ok [OF assms(1) e _ s] by auto
  have e1: "einv n e1" using submit_level_spec [OF assms(1) e s] ids by auto
  obtain st e2 s2 where wb: "ie_WaitBatch ex ids 0 e1 s1 = (st, e2, s2)" by (cases "ie_WaitBatch ex ids 0 e1 s1")
  have "status_ok st" by (rule wait_ok [OF e1 ids(2) wb])
  then show ?thesis using run s ids wb by (auto simp: run_on_executor_def)
qed

lemma runner_ok_reliable: "runner_ok (\<lambda>n e. einv n e \<and> pend e = []) (\<lambda>st. False) (Some ex) g"
  unfolding runner_ok_def
proof (intro allI impI, elim conjE)
  fix lv n e w stats r e' w'
  assume a: "einv (length lv + n) e" "pend e = []" "distinct lv" "set lv \<subseteq> set (gkeys g)" "run_level (Some ex) g lv e w stats = (r, e', w')"
  have r: "run_on_executor g ex lv e w stats = (r, e', w')" using a(5) by (simp add: run_level_def)
  obtain x where "r = Inr x" using run_on_executor_ok [OF a(4,1) r] by blast
  then show "case r of Inl st \<Rightarrow> False
    | Inr (stats', lf) \<Rightarrow> (einv n e' \<and> pend e' = [])
        \<and> (\<exists>fl. stats' = add_stats fl stats \<and> lf = (True \<in> set fl) \<and> level_ran g lv w w' fl)"
    using run_on_executor_spec [OF a(3,4,1,2) r] by simp
qed

lemma RunWithExecutor_succeeds:
  assumes "graph_wf g" "acyclic (graph_edges g)" "einv (length (nodes g)) e" "pend e = []"
  shows "\<exists>res e' w'. RunWithExecutor (Some ex) opts g e w = Some (res, e', w') \<and> run_outcome opts g w res w'"
  using RunInternal_spec [OF assms(1,2) runner_ok_reliable, of e opts w] assms(3,4)
  by (simp add: RunWithExecutor_def)

end

end
