(* ===== verification/CK_Executor.thy ===== *)
theory CK_Executor
  imports CK_TaskGraph
begin

text \<open>
  The thread pool executor (\<open>src/task/thread_pool_executor.cpp\<close>, \<open>.hpp\<close>,
  \<open>include/corekit/task/iexecutor.hpp\<close>). The members guarded by \<open>mu_\<close> are one record; every
  section of code that holds the mutex is one function on it. A worker is a small state machine:
  it picks a task, waits for the serial key of the task, starts it, runs its body without the
  mutex, records the result and becomes idle again, or leaves the loop when the pool stops; \<open>exec_step\<close> interleaves the workers with
  the calls of clients. A body is a function on the state \<open>'s\<close> that tasks share, and it is atomic.
  \<open>SubmitEx\<close> is one step although the code takes the mutex three times; the id it registers is not
  known to anyone before it returns. \<open>CK_Executor_Table\<close>,
  \<open>CK_Executor_Pool\<close> and \<open>CK_Executor_Client\<close> prove the model correct.
\<close>

section \<open>State\<close>

datatype ExecutorPolicy = kFifo | kPriority | kFair | kHybridFairPriority

record ExecutorOptions =
  xo_worker_count :: size_t
  xo_queue_capacity :: size_t
  xo_policy :: ExecutorPolicy

record ExecutorStats =
  xs_submitted :: u64
  xs_completed :: u64
  xs_failed :: u64
  xs_canceled :: u64
  xs_rejected :: u64
  xs_stolen :: u64
  xs_queue_depth :: nat
  xs_high_watermark :: nat

record TaskState =
  started :: bool
  ts_done :: bool
  canceled :: bool
  succeeded_flag :: bool

text \<open>The closures handed to \<open>Enqueue\<close>: that of \<open>Submit\<close> and that of \<open>SubmitEx\<close>.\<close>

datatype 's job = PlainJob "'s body" | TrackedJob TaskId "'s body" u64

record 's TaskEntry =
  te_fn :: "'s job"
  te_priority :: TaskPriority
  te_seq :: u64

record 's Executor =
  tasks :: "'s TaskEntry list"
  stopping :: bool
  active_workers :: nat
  pending_tasks :: nat
  next_task_id :: TaskId
  enqueue_seq :: u64
  max_retained_states :: nat
  stats :: ExecutorStats
  xoptions :: ExecutorOptions
  states :: "(TaskId \<times> TaskState) list"
  pending_ids :: "TaskId list"
  done_ids :: "TaskId list"
  serial_keys :: "u64 list"

definition zero_xstats :: ExecutorStats where
  "zero_xstats = \<lparr>xs_submitted = 0, xs_completed = 0, xs_failed = 0, xs_canceled = 0, xs_rejected = 0,
     xs_stolen = 0, xs_queue_depth = 0, xs_high_watermark = 0\<rparr>"

definition new_TaskState :: TaskState where
  "new_TaskState = \<lparr>started = False, ts_done = False, canceled = False, succeeded_flag = False\<rparr>"

text \<open>The number of hardware threads is a parameter.\<close>

definition NormalizeWorkerCount :: "size_t \<Rightarrow> size_t \<Rightarrow> size_t" where
  "NormalizeWorkerCount hardware_concurrency worker_count =
     (if worker_count > 0 then worker_count
      else if hardware_concurrency = 0 then 1 else hardware_concurrency)"

definition ThreadPoolExecutor :: "size_t \<Rightarrow> ExecutorOptions \<Rightarrow> 's Executor" where
  "ThreadPoolExecutor hw opts =
     \<lparr>tasks = [], stopping = False, active_workers = 0, pending_tasks = 0, next_task_id = 1, enqueue_seq = 0,
      max_retained_states = 65536, stats = zero_xstats,
      xoptions = \<lparr>xo_worker_count = NormalizeWorkerCount hw (xo_worker_count opts),
                  xo_queue_capacity = xo_queue_capacity opts, xo_policy = xo_policy opts\<rparr>,
      states = [], pending_ids = [], done_ids = [], serial_keys = []\<rparr>"

section \<open>Submitting\<close>

definition QueueDepthLocked :: "'s Executor \<Rightarrow> nat" where
  "QueueDepthLocked e = length (tasks e)"

definition Enqueue :: "'s job \<Rightarrow> TaskSubmitOptions \<Rightarrow> 's Executor \<Rightarrow> Status \<times> 's Executor" where
  "Enqueue fn opts e =
     (if stopping e
      then (task_status kInternalError ''executor is stopping, cannot accept new tasks'', e)
      else if xo_queue_capacity (xoptions e) > 0 \<and> unat (xo_queue_capacity (xoptions e)) \<le> length (tasks e)
      then (task_status kWouldBlock ''executor queue is full'',
            e\<lparr>stats := (stats e)\<lparr>xs_rejected := xs_rejected (stats e) + 1\<rparr>\<rparr>)
      else
        let sq = enqueue_seq e + 1;
            e1 = e\<lparr>enqueue_seq := sq,
                   tasks := tasks e @ [\<lparr>te_fn = fn, te_priority = so_priority opts, te_seq = sq\<rparr>],
                   pending_tasks := pending_tasks e + 1\<rparr>;
            d = QueueDepthLocked e1;
            st = (stats e1)\<lparr>xs_submitted := xs_submitted (stats e1) + 1, xs_queue_depth := d\<rparr>
        in (Status_Ok,
            e1\<lparr>stats := (if xs_high_watermark st < d then st\<lparr>xs_high_watermark := d\<rparr> else st)\<rparr>))"

definition Submit :: "'s body option \<Rightarrow> 's Executor \<Rightarrow> Status \<times> 's Executor" where
  "Submit fn e =
     (case fn of None \<Rightarrow> (task_status kInvalidArgument ''fn is empty'', e)
      | Some f \<Rightarrow> Enqueue (PlainJob f) default_submit_options e)"

definition NextTaskIdLocked :: "'s Executor \<Rightarrow> TaskId \<times> 's Executor" where
  "NextTaskIdLocked e = (next_task_id e, e\<lparr>next_task_id := next_task_id e + 1\<rparr>)"

text \<open>\<open>states_[id] = state\<close> and \<open>states_.erase(id)\<close>.\<close>

definition put_state :: "TaskId \<Rightarrow> TaskState \<Rightarrow> 's Executor \<Rightarrow> 's Executor" where
  "put_state i st e = e\<lparr>states := (i, st) # filter (\<lambda>p. fst p \<noteq> i) (states e)\<rparr>"

definition erase_state :: "TaskId \<Rightarrow> 's Executor \<Rightarrow> 's Executor" where
  "erase_state i e = e\<lparr>states := filter (\<lambda>p. fst p \<noteq> i) (states e)\<rparr>"

definition get_state :: "'s Executor \<Rightarrow> TaskId \<Rightarrow> TaskState option" where
  "get_state e i = map_of (states e) i"

text \<open>The two locked sections of \<open>SubmitEx\<close> before \<open>Enqueue\<close>: the mutex of the serial key is made on
  first use, and the id is registered.\<close>

definition register_task :: "u64 \<Rightarrow> 's Executor \<Rightarrow> TaskId \<times> 's Executor" where
  "register_task key e =
     (let e0 = (if key \<noteq> 0 \<and> key \<notin> set (serial_keys e) then e\<lparr>serial_keys := key # serial_keys e\<rparr> else e);
          (i, e1) = NextTaskIdLocked e0
      in (i, (put_state i new_TaskState e1)\<lparr>pending_ids := oset_insert i (pending_ids e1)\<rparr>))"

definition SubmitEx :: "'s body option \<Rightarrow> TaskSubmitOptions \<Rightarrow> 's Executor \<Rightarrow> TaskId Result \<times> 's Executor" where
  "SubmitEx fn opts e =
     (case fn of None \<Rightarrow> (Result_status 0 (task_status kInvalidArgument ''fn is empty''), e)
      | Some f \<Rightarrow>
          let (i, e2) = register_task (so_serial_key opts) e;
              (st, e3) = Enqueue (TrackedJob i f (so_serial_key opts)) opts e2
          in if \<not> status_ok st
             then (Result_status 0 st, (erase_state i e3)\<lparr>pending_ids := removeAll i (pending_ids e3)\<rparr>)
             else (Result_value i, e3))"

definition SubmitWithKey :: "u64 \<Rightarrow> 's body option \<Rightarrow> 's Executor \<Rightarrow> TaskId Result \<times> 's Executor" where
  "SubmitWithKey key fn e = SubmitEx fn (default_submit_options\<lparr>so_serial_key := key\<rparr>) e"

section \<open>Choosing a task\<close>

fun pick_best :: "'s TaskEntry list \<Rightarrow> nat \<Rightarrow> nat \<Rightarrow> int \<Rightarrow> u64 \<Rightarrow> nat" where
  "pick_best [] i best best_score best_seq = best"
| "pick_best (t # ts) i best best_score best_seq =
     (let s = score (te_priority t)
      in if s > best_score \<or> s = best_score \<and> te_seq t < best_seq
         then pick_best ts (Suc i) i s (te_seq t)
         else pick_best ts (Suc i) best best_score best_seq)"

definition PickNextTaskIndexLocked :: "'s Executor \<Rightarrow> nat" where
  "PickNextTaskIndexLocked e =
     (case tasks e of [] \<Rightarrow> 0
      | t # ts \<Rightarrow>
          if xo_policy (xoptions e) = kFifo \<or> xo_policy (xoptions e) = kFair then 0
          else pick_best ts 1 0 (score (te_priority t)) (te_seq t))"

text \<open>The first locked section of \<open>WorkerLoop\<close>.\<close>

definition worker_pick :: "'s Executor \<Rightarrow> ('s job \<times> 's Executor) option" where
  "worker_pick e =
     (if tasks e = [] then None
      else let idx = PickNextTaskIndexLocked e
           in Some (te_fn (tasks e ! idx),
                    e\<lparr>tasks := erase_at idx (tasks e), active_workers := active_workers e + 1\<rparr>))"

section \<open>Finishing a task\<close>

text \<open>The eviction loop of \<open>MarkTaskDone\<close>: it pops until at most \<open>max_retained\<close> ids are kept.\<close>

fun evict :: "nat \<Rightarrow> TaskId list \<Rightarrow> (TaskId \<times> TaskState) list \<Rightarrow> TaskId list \<times> (TaskId \<times> TaskState) list" where
  "evict keep [] sts = ([], sts)"
| "evict keep (old # ids) sts =
     (if keep < length (old # ids) then
        evict keep ids
          (case map_of sts old of
             Some st \<Rightarrow> if ts_done st then filter (\<lambda>p. fst p \<noteq> old) sts else sts
           | None \<Rightarrow> sts)
      else (old # ids, sts))"

definition MarkTaskDone :: "TaskId \<Rightarrow> bool \<Rightarrow> bool \<Rightarrow> 's Executor \<Rightarrow> 's Executor" where
  "MarkTaskDone i executed failed e =
     (case get_state e i of
        None \<Rightarrow> e
      | Some st \<Rightarrow>
          let st' = st\<lparr>ts_done := True, succeeded_flag := executed \<and> \<not> failed\<rparr>;
              e1 = (put_state i st' e)\<lparr>pending_ids := removeAll i (pending_ids e)\<rparr>;
              (ids, sts) = evict (max_retained_states e1) (done_ids e1 @ [i]) (states e1);
              e2 = e1\<lparr>done_ids := ids, states := sts\<rparr>
          in if canceled st' then e2
             else if failed then e2\<lparr>stats := (stats e2)\<lparr>xs_failed := xs_failed (stats e2) + 1\<rparr>\<rparr>
             else if executed then e2\<lparr>stats := (stats e2)\<lparr>xs_completed := xs_completed (stats e2) + 1\<rparr>\<rparr>
             else e2)"

text \<open>The section of the closure of \<open>SubmitEx\<close> that reads \<open>canceled\<close> and sets \<open>started\<close>. The closure
  owns its state object, also after the table has dropped it; a state is dropped only when it is
  done, so a task that has not run still has its entry.\<close>

definition task_begin :: "TaskId \<Rightarrow> 's Executor \<Rightarrow> bool \<times> 's Executor" where
  "task_begin i e =
     (case get_state e i of None \<Rightarrow> (False, e)
      | Some st \<Rightarrow> (canceled st, put_state i (st\<lparr>started := True\<rparr>) e))"

definition plain_done :: "bool \<Rightarrow> 's Executor \<Rightarrow> 's Executor" where
  "plain_done threw e =
     (if threw then e\<lparr>stats := (stats e)\<lparr>xs_failed := xs_failed (stats e) + 1\<rparr>\<rparr>
      else e\<lparr>stats := (stats e)\<lparr>xs_completed := xs_completed (stats e) + 1\<rparr>\<rparr>)"

text \<open>The last locked section of \<open>WorkerLoop\<close>.\<close>

definition worker_finish :: "'s Executor \<Rightarrow> 's Executor" where
  "worker_finish e =
     (let e1 = e\<lparr>active_workers := active_workers e - 1,
                 pending_tasks := (if pending_tasks e > 0 then pending_tasks e - 1 else pending_tasks e)\<rparr>
      in e1\<lparr>stats := (stats e1)\<lparr>xs_queue_depth := QueueDepthLocked e1\<rparr>\<rparr>)"

section \<open>Waiting, cancelling, queries\<close>

definition TryCancel :: "TaskId \<Rightarrow> 's Executor \<Rightarrow> Status \<times> 's Executor" where
  "TryCancel i e =
     (case get_state e i of
        None \<Rightarrow> (task_status kNotFound ''task id not found'', e)
      | Some st \<Rightarrow>
          if started st \<or> ts_done st then (task_status kWouldBlock ''task already running or done'', e)
          else (Status_Ok,
                (put_state i (st\<lparr>canceled := True\<rparr>) e)\<lparr>stats := (stats e)\<lparr>xs_canceled := xs_canceled (stats e) + 1\<rparr>\<rparr>))"

text \<open>The condition \<open>WaitAll\<close> waits for, and what a \<open>Wait\<close> without timeout finds when it looks.\<close>

definition all_idle :: "'s Executor \<Rightarrow> bool" where
  "all_idle e \<longleftrightarrow> pending_tasks e = 0 \<and> active_workers e = 0"

definition Wait_now :: "TaskId \<Rightarrow> 's Executor \<Rightarrow> Status option" where
  "Wait_now i e =
     (case get_state e i of
        None \<Rightarrow> Some (task_status kNotFound ''task id not found'')
      | Some st \<Rightarrow> if ts_done st then Some Status_Ok else None)"

definition IsTaskSucceeded :: "TaskId \<Rightarrow> 's Executor \<Rightarrow> bool Result" where
  "IsTaskSucceeded i e =
     (case get_state e i of
        None \<Rightarrow> Result_status False (task_status kNotFound ''task id not found or result expired'')
      | Some st \<Rightarrow> Result_value (succeeded_flag st))"

definition QueryStats :: "'s Executor \<Rightarrow> ExecutorStats Result" where
  "QueryStats e = Result_value ((stats e)\<lparr>xs_queue_depth := QueueDepthLocked e\<rparr>)"

definition Reconfigure :: "ExecutorOptions \<Rightarrow> 's Executor \<Rightarrow> Status \<times> 's Executor" where
  "Reconfigure opts e =
     (Status_Ok, e\<lparr>xoptions := (xoptions e)\<lparr>xo_queue_capacity := xo_queue_capacity opts,
                                            xo_policy := xo_policy opts\<rparr>\<rparr>)"

definition stop :: "'s Executor \<Rightarrow> 's Executor" where
  "stop e = e\<lparr>stopping := True\<rparr>"

section \<open>Workers and clients\<close>

datatype 's worker = WIdle | WPicked "'s job" | WRunning TaskId "'s body" u64 | WFinishing | WExited

record 's pool =
  px :: "'s Executor"
  pshared :: 's
  pworkers :: "'s worker list"

text \<open>The serial key a worker holds: the closure locks it before it starts and releases it when it
  returns.\<close>

fun holds_key :: "'s worker \<Rightarrow> u64" where
  "holds_key (WRunning i f key) = key"
| "holds_key w = 0"

definition key_free :: "u64 \<Rightarrow> 's worker list \<Rightarrow> bool" where
  "key_free key ws \<longleftrightarrow> key = 0 \<or> (\<forall>w\<in>set ws. holds_key w \<noteq> key)"

inductive exec_step :: "'s pool \<Rightarrow> 's pool \<Rightarrow> bool" where
  client_submit: "Submit fn (px p) = (st, e) \<Longrightarrow> exec_step p (p\<lparr>px := e\<rparr>)"
| client_submit_ex: "SubmitEx fn opts (px p) = (r, e) \<Longrightarrow> exec_step p (p\<lparr>px := e\<rparr>)"
| client_cancel: "TryCancel i (px p) = (st, e) \<Longrightarrow> exec_step p (p\<lparr>px := e\<rparr>)"
| client_reconfigure: "Reconfigure opts (px p) = (st, e) \<Longrightarrow> exec_step p (p\<lparr>px := e\<rparr>)"
| client_stop: "exec_step p (p\<lparr>px := stop (px p)\<rparr>)"
| work_pick: "k < length (pworkers p) \<Longrightarrow> pworkers p ! k = WIdle \<Longrightarrow> worker_pick (px p) = Some (j, e) \<Longrightarrow>
    exec_step p (p\<lparr>px := e, pworkers := (pworkers p)[k := WPicked j]\<rparr>)"
| work_plain: "k < length (pworkers p) \<Longrightarrow> pworkers p ! k = WPicked (PlainJob f) \<Longrightarrow> f (pshared p) = (s', threw) \<Longrightarrow>
    exec_step p (p\<lparr>px := plain_done threw (px p), pshared := s', pworkers := (pworkers p)[k := WFinishing]\<rparr>)"
| work_begin: "k < length (pworkers p) \<Longrightarrow> pworkers p ! k = WPicked (TrackedJob i f key) \<Longrightarrow>
    key_free key (pworkers p) \<Longrightarrow> task_begin i (px p) = (False, e) \<Longrightarrow>
    exec_step p (p\<lparr>px := e, pworkers := (pworkers p)[k := WRunning i f key]\<rparr>)"
| work_skip: "k < length (pworkers p) \<Longrightarrow> pworkers p ! k = WPicked (TrackedJob i f key) \<Longrightarrow>
    key_free key (pworkers p) \<Longrightarrow> task_begin i (px p) = (True, e) \<Longrightarrow>
    exec_step p (p\<lparr>px := MarkTaskDone i False False e, pworkers := (pworkers p)[k := WFinishing]\<rparr>)"
| work_end: "k < length (pworkers p) \<Longrightarrow> pworkers p ! k = WRunning i f key \<Longrightarrow> f (pshared p) = (s', threw) \<Longrightarrow>
    exec_step p (p\<lparr>px := MarkTaskDone i (\<not> threw) threw (px p), pshared := s',
                   pworkers := (pworkers p)[k := WFinishing]\<rparr>)"
| work_finish: "k < length (pworkers p) \<Longrightarrow> pworkers p ! k = WFinishing \<Longrightarrow>
    exec_step p (p\<lparr>px := worker_finish (px p), pworkers := (pworkers p)[k := WIdle]\<rparr>)"
| work_exit: "k < length (pworkers p) \<Longrightarrow> pworkers p ! k = WIdle \<Longrightarrow> stopping (px p) \<Longrightarrow> tasks (px p) = [] \<Longrightarrow>
    exec_step p (p\<lparr>pworkers := (pworkers p)[k := WExited]\<rparr>)"

inductive_cases exec_stepE: "exec_step p p'"

definition new_pool :: "size_t \<Rightarrow> ExecutorOptions \<Rightarrow> 's \<Rightarrow> 's pool" where
  "new_pool hw opts s =
     \<lparr>px = ThreadPoolExecutor hw opts, pshared = s,
      pworkers = replicate (unat (NormalizeWorkerCount hw (xo_worker_count opts))) WIdle\<rparr>"

text \<open>\<open>exec_steps p n p'\<close>: \<open>n\<close> steps of workers and clients lead from \<open>p\<close> to \<open>p'\<close>.\<close>

inductive exec_steps :: "'s pool \<Rightarrow> nat \<Rightarrow> 's pool \<Rightarrow> bool" for p where
  steps_none: "exec_steps p 0 p"
| steps_one: "exec_steps p n q \<Longrightarrow> exec_step q q' \<Longrightarrow> exec_steps p (Suc n) q'"

end
