(* ===== verification/CK_Executor_Table.thy ===== *)
theory CK_Executor_Table
  imports CK_Executor
begin

text \<open>
  The table of task states of the thread pool. \<open>table_inv\<close> describes it relative to the ids that wait
  (queued or just picked) and the ids that run, so that a worker who moves a task from one place to
  the next changes nothing; every locked section of the executor keeps it.
\<close>

section \<open>The table of task states\<close>

lemma get_put [simp]: "get_state (put_state i st e) j = (if j = i then Some st else get_state e j)"
proof -
  have "map_of (filter (\<lambda>p. fst p \<noteq> i) xs) j = (if j = i then None else map_of xs j)" for xs :: "(TaskId \<times> TaskState) list"
    by (induction xs) auto
  then show ?thesis by (simp add: get_state_def put_state_def)
qed

lemma map_of_filter_ne: "map_of (filter (\<lambda>p. fst p \<noteq> i) xs) j = (if j = i then None else map_of xs j)"
  by (induction xs) auto

lemma get_erase [simp]: "get_state (erase_state i e) j = (if j = i then None else get_state e j)"
  by (simp add: get_state_def erase_state_def map_of_filter_ne)

lemma get_state_frame [simp]:
  "get_state (e\<lparr>tasks := a\<rparr>) i = get_state e i"
  "get_state (e\<lparr>stopping := b\<rparr>) i = get_state e i"
  "get_state (e\<lparr>active_workers := c\<rparr>) i = get_state e i"
  "get_state (e\<lparr>pending_tasks := c\<rparr>) i = get_state e i"
  "get_state (e\<lparr>next_task_id := d\<rparr>) i = get_state e i"
  "get_state (e\<lparr>enqueue_seq := d\<rparr>) i = get_state e i"
  "get_state (e\<lparr>stats := f\<rparr>) i = get_state e i"
  "get_state (e\<lparr>xoptions := g\<rparr>) i = get_state e i"
  "get_state (e\<lparr>pending_ids := h\<rparr>) i = get_state e i"
  "get_state (e\<lparr>done_ids := h\<rparr>) i = get_state e i"
  "get_state (e\<lparr>serial_keys := k\<rparr>) i = get_state e i"
  by (simp_all add: get_state_def)

lemma evict_ids: "fst (evict keep ids sts) = drop (length ids - keep) ids"
  by (induction ids arbitrary: sts) (auto simp: Suc_diff_le)

lemma evict_states:
  "map_of (snd (evict keep ids sts)) j =
     (case map_of sts j of None \<Rightarrow> None
      | Some st \<Rightarrow> if ts_done st \<and> j \<in> set (take (length ids - keep) ids) then None else Some st)"
proof (induction ids arbitrary: sts)
  case Nil
  then show ?case by (simp split: option.splits)
next
  case (Cons old ids)
  show ?case
  proof (cases "keep < length (old # ids)")
    case True
    then have "Suc (length ids) - keep = Suc (length ids - keep)" by simp
    then show ?thesis using True
      by (auto simp: Cons.IH map_of_filter_ne split: option.splits)
  qed (auto split: option.splits)
qed

text \<open>\<open>n\<close> bounds the number of ids given out, \<open>W\<close> are the ids of tasks that wait, \<open>R\<close> those that run.\<close>

definition waiting_state :: "TaskState \<Rightarrow> bool" where
  "waiting_state st \<longleftrightarrow> \<not> started st \<and> \<not> ts_done st"

definition running_state :: "TaskState \<Rightarrow> bool" where
  "running_state st \<longleftrightarrow> started st \<and> \<not> ts_done st \<and> \<not> canceled st"


definition table_inv :: "nat \<Rightarrow> 's Executor \<Rightarrow> TaskId multiset \<Rightarrow> TaskId multiset \<Rightarrow> bool" where
  "table_inv n e W R \<longleftrightarrow>
     (\<forall>i. Multiset.count (W + R) i \<le> 1) \<and>
     (\<forall>i. i \<in># W \<longrightarrow> (\<exists>st. get_state e i = Some st \<and> waiting_state st)) \<and>
     (\<forall>i. i \<in># R \<longrightarrow> (\<exists>st. get_state e i = Some st \<and> running_state st)) \<and>
     (\<forall>i st. get_state e i = Some st \<longrightarrow> \<not> ts_done st \<longrightarrow> i \<in># W + R) \<and>
     (\<forall>i st. get_state e i = Some st \<longrightarrow> unat i < unat (next_task_id e)) \<and>
     (\<forall>i. i \<in> set (done_ids e) \<longleftrightarrow> (\<exists>st. get_state e i = Some st \<and> ts_done st)) \<and>
     distinct (done_ids e) \<and> length (done_ids e) \<le> 65536 \<and> max_retained_states e = 65536 \<and>
     0 < unat (next_task_id e) \<and> unat (next_task_id e) \<le> Suc n \<and>
     set (pending_ids e) = set_mset (W + R)"

lemma table_inv_cong:
  assumes "table_inv n e W R" and "states e' = states e" and "next_task_id e' = next_task_id e"
    and "done_ids e' = done_ids e" and "max_retained_states e' = max_retained_states e"
    and "pending_ids e' = pending_ids e" and "n \<le> m"
  shows "table_inv m e' W R"
proof -
  have "get_state e' = get_state e" using assms(2) by (auto simp: get_state_def)
  then show ?thesis using assms by (auto simp: table_inv_def)
qed

lemma table_waiting:
  assumes "table_inv n e W R" and "i \<in># W"
  obtains st where "get_state e i = Some st" and "waiting_state st" and "i \<notin># R"
proof -
  have "Multiset.count (W + R) i \<le> 1" using assms(1) unfolding table_inv_def by blast
  moreover have "0 < Multiset.count W i" using assms(2) unfolding count_greater_zero_iff .
  ultimately have "i \<notin># R" unfolding not_in_iff plus_multiset.rep_eq by linarith
  then show ?thesis using assms that unfolding table_inv_def by blast
qed

lemma table_running:
  assumes "table_inv n e W R" and "i \<in># R"
  obtains st where "get_state e i = Some st" and "running_state st" and "i \<notin># W"
proof -
  have "Multiset.count (W + R) i \<le> 1" using assms(1) unfolding table_inv_def by blast
  moreover have "0 < Multiset.count R i" using assms(2) unfolding count_greater_zero_iff .
  ultimately have "i \<notin># W" unfolding not_in_iff plus_multiset.rep_eq by linarith
  then show ?thesis using assms that unfolding table_inv_def by blast
qed

lemma table_fresh:
  assumes "table_inv n e W R"
  shows "get_state e (next_task_id e) = None" and "next_task_id e \<notin># W + R"
    and "next_task_id e \<notin> set (done_ids e)" and "next_task_id e \<notin> set (pending_ids e)"
proof -
  show none: "get_state e (next_task_id e) = None"
    using assms unfolding table_inv_def by (cases "get_state e (next_task_id e)") blast+
  then have 1: "next_task_id e \<notin># W" and 2: "next_task_id e \<notin># R"
    and 3: "next_task_id e \<notin> set (done_ids e)"
    using assms unfolding table_inv_def by force+
  then show "next_task_id e \<notin># W + R" and "next_task_id e \<notin> set (done_ids e)" by auto
  then show "next_task_id e \<notin> set (pending_ids e)" using assms unfolding table_inv_def by blast
qed

text \<open>An id is registered, and given back when the queue refuses the task.\<close>

lemma table_register:
  assumes inv: "table_inv n e W R" and n: "n + 2 < 2 ^ 64"
    and e': "get_state e' = (get_state e)(next_task_id e \<mapsto> new_TaskState)"
    and nx: "next_task_id e' = next_task_id e + 1" and d: "done_ids e' = done_ids e"
    and mx: "max_retained_states e' = max_retained_states e"
    and pd: "set (pending_ids e') = insert (next_task_id e) (set (pending_ids e))"
  shows "table_inv (Suc n) e' (add_mset (next_task_id e) W) R"
proof -
  let ?i = "next_task_id e"
  have "unat ?i \<le> Suc n" using inv unfolding table_inv_def by blast
  then have "unat ?i + 1 < 2 ^ 64" using n by linarith
  then have u: "unat (?i + 1) = unat ?i + 1" by (rule unat_succ_u64)
  note fr = table_fresh [OF inv]
  have c: "Multiset.count (W + R) ?i = 0" using fr(2) by (simp add: not_in_iff)
  show ?thesis unfolding table_inv_def nx u d mx pd
    using inv fr c unfolding table_inv_def e'
    by (auto simp: new_TaskState_def waiting_state_def less_Suc_eq split: if_splits)
qed

lemma table_unregister:
  assumes inv: "table_inv n e W R" and n: "n + 2 < 2 ^ 64"
    and e': "get_state e' = get_state e"
    and nx: "next_task_id e' = next_task_id e + 1" and d: "done_ids e' = done_ids e"
    and mx: "max_retained_states e' = max_retained_states e"
    and pd: "set (pending_ids e') = set (pending_ids e)"
  shows "table_inv (Suc n) e' W R"
proof -
  let ?i = "next_task_id e"
  have "unat ?i \<le> Suc n" using inv unfolding table_inv_def by blast
  then have "unat ?i + 1 < 2 ^ 64" using n by linarith
  then have u: "unat (?i + 1) = unat ?i + 1" by (rule unat_succ_u64)
  show ?thesis unfolding table_inv_def nx u d mx pd e'
    using inv unfolding table_inv_def by (auto simp: less_Suc_eq)
qed

text \<open>A task that is done leaves the waiting or running ids; the oldest result may leave the table.\<close>

lemma drop_excess:
  assumes "length xs \<le> k"
  shows "take (length (xs @ [i]) - k) (xs @ [i]) = (if length xs = k \<and> k \<noteq> 0 then [hd xs] else if k = 0 then [i] else [])"
    and "drop (length (xs @ [i]) - k) (xs @ [i]) = (if length xs = k \<and> k \<noteq> 0 then tl xs @ [i] else if k = 0 then [] else xs @ [i])"
  using assms by (cases xs; auto)+

definition after_done :: "TaskId \<Rightarrow> TaskId list \<Rightarrow> TaskId list" where
  "after_done i ds = (if length ds = 65536 then tl ds else ds) @ [i]"

definition expired :: "TaskId list \<Rightarrow> TaskId \<Rightarrow> bool" where
  "expired ds j \<longleftrightarrow> length ds = 65536 \<and> j = hd ds"

lemma MarkTaskDone_fields:
  assumes st: "get_state e i = Some st" and k: "max_retained_states e = 65536" and l: "length (done_ids e) \<le> 65536"
  shows "next_task_id (MarkTaskDone i ex fl e) = next_task_id e"
    and "max_retained_states (MarkTaskDone i ex fl e) = max_retained_states e"
    and "pending_ids (MarkTaskDone i ex fl e) = removeAll i (pending_ids e)"
    and "done_ids (MarkTaskDone i ex fl e) = after_done i (done_ids e)"
    and "get_state (MarkTaskDone i ex fl e) j =
          (case ((get_state e)(i \<mapsto> st\<lparr>ts_done := True, succeeded_flag := ex \<and> \<not> fl\<rparr>)) j of None \<Rightarrow> None
           | Some st' \<Rightarrow> if ts_done st' \<and> expired (done_ids e) j then None else Some st')"
proof -
  let ?e1 = "(put_state i (st\<lparr>ts_done := True, succeeded_flag := ex \<and> \<not> fl\<rparr>) e)\<lparr>pending_ids := removeAll i (pending_ids e)\<rparr>"
  obtain ids sts where ev: "evict (max_retained_states e) (done_ids e @ [i]) (states ?e1) = (ids, sts)"
    by (metis surj_pair)
  have 1: "max_retained_states ?e1 = max_retained_states e" "done_ids ?e1 = done_ids e" "pending_ids ?e1 = removeAll i (pending_ids e)"
    "next_task_id ?e1 = next_task_id e"
    by (simp_all add: put_state_def)
  have 2: "MarkTaskDone i ex fl e = ?e1\<lparr>done_ids := ids, states := sts, stats := stats (MarkTaskDone i ex fl e)\<rparr>"
    using ev 1 by (simp add: MarkTaskDone_def st Let_def put_state_def)
  show "next_task_id (MarkTaskDone i ex fl e) = next_task_id e"
    "max_retained_states (MarkTaskDone i ex fl e) = max_retained_states e"
    "pending_ids (MarkTaskDone i ex fl e) = removeAll i (pending_ids e)"
    by (subst 2; simp add: put_state_def)+
  have 3: "ids = after_done i (done_ids e)"
    using evict_ids [of 65536 "done_ids e @ [i]" "states ?e1"] ev k drop_excess(2) [OF l]
    by (simp add: after_done_def)
  show "done_ids (MarkTaskDone i ex fl e) = after_done i (done_ids e)"
    by (subst 2) (simp add: 3)
  have 4: "j \<in> set (take (length (done_ids e @ [i]) - 65536) (done_ids e @ [i])) \<longleftrightarrow> expired (done_ids e) j"
    unfolding drop_excess(1) [OF l] expired_def by simp
  have "map_of sts j = (case get_state ?e1 j of None \<Rightarrow> None
      | Some st \<Rightarrow> if ts_done st \<and> expired (done_ids e) j then None else Some st)"
    using evict_states [of 65536 "done_ids e @ [i]" "states ?e1" j] unfolding ev [unfolded k] 4 snd_conv get_state_def .
  moreover have "get_state (MarkTaskDone i ex fl e) j = map_of sts j"
    by (subst 2) (simp add: get_state_def)
  ultimately show "get_state (MarkTaskDone i ex fl e) j =
          (case ((get_state e)(i \<mapsto> st\<lparr>ts_done := True, succeeded_flag := ex \<and> \<not> fl\<rparr>)) j of None \<Rightarrow> None
           | Some st' \<Rightarrow> if ts_done st' \<and> expired (done_ids e) j then None else Some st')"
    by (simp add: fun_upd_def)
qed

lemma expired_mem: "expired ds j \<Longrightarrow> j \<in> set ds"
  using hd_in_set [of ds] by (cases "ds = []") (auto simp: expired_def)

lemma set_after_done:
  "distinct ds \<Longrightarrow> j \<in> set (after_done i ds) \<longleftrightarrow> j = i \<or> j \<in> set ds \<and> \<not> expired ds j"
  by (cases ds) (auto simp: after_done_def expired_def)

lemma after_done_ok:
  assumes "distinct ds" and "i \<notin> set ds" and "length ds \<le> 65536"
  shows "distinct (after_done i ds)" and "length (after_done i ds) \<le> 65536"
proof -
  show "distinct (after_done i ds)"
    using assms by (cases ds) (auto simp: after_done_def)
  show "length (after_done i ds) \<le> 65536"
    using assms(3) by (auto simp: after_done_def)
qed

lemma remove_single_mem:
  assumes "Multiset.count (W + R) i = 1"
  shows "j \<in># W - {#i#} + (R - {#i#}) \<longleftrightarrow> j \<in># W + R \<and> j \<noteq> i"
  using assms by (auto simp: in_diff_count not_in_iff split: if_splits)

lemma table_done:
  assumes inv: "table_inv n e W R" and i: "i \<in># W + R"
    and gs: "get_state e0 = (get_state e)(i \<mapsto> st)"
    and f: "next_task_id e0 = next_task_id e" "done_ids e0 = done_ids e" "max_retained_states e0 = max_retained_states e"
      "pending_ids e0 = pending_ids e"
  shows "table_inv n (MarkTaskDone i ex fl e0) (W - {#i#}) (R - {#i#})"
proof -
  let ?e' = "MarkTaskDone i ex fl e0" and ?st = "st\<lparr>ts_done := True, succeeded_flag := ex \<and> \<not> fl\<rparr>"
  have st0: "get_state e0 i = Some st" by (simp add: gs)
  have mx: "max_retained_states e0 = 65536" and len: "length (done_ids e0) \<le> 65536"
    using inv f unfolding table_inv_def by auto
  note mf = MarkTaskDone_fields [OF st0 mx len, of ex fl]
  obtain sti where sti: "get_state e i = Some sti" "\<not> ts_done sti"
    using inv i unfolding table_inv_def waiting_state_def running_state_def by (metis union_iff)
  have nd: "i \<notin> set (done_ids e)" using inv sti unfolding table_inv_def by fastforce
  have ne: "\<not> expired (done_ids e) i" using nd expired_mem by blast
  have g: "get_state ?e' j = (if j = i then Some ?st else if expired (done_ids e) j then None else get_state e j)" for j
  proof (cases "expired (done_ids e) j")
    case True
    then have "j \<in> set (done_ids e)" by (rule expired_mem)
    then obtain stj where "get_state e j = Some stj" "ts_done stj" using inv unfolding table_inv_def by blast
    then show ?thesis using True ne unfolding mf(5) f gs by auto
  next
    case False
    then show ?thesis using ne unfolding mf(5) f gs by (auto split: option.splits)
  qed
  have c: "Multiset.count (W + R) i = 1"
    using inv i unfolding table_inv_def by (metis One_nat_def Suc_leI count_greater_zero_iff le_antisym)
  note el = remove_single_mem [OF c]
  have ds: "distinct (done_ids e)" using inv unfolding table_inv_def by blast
  have cnt: "Multiset.count (W - {#i#} + (R - {#i#})) j \<le> 1" for j
  proof -
    have "Multiset.count (W - {#i#} + (R - {#i#})) j \<le> Multiset.count (W + R) j" by simp
    moreover have "Multiset.count (W + R) j \<le> 1" using inv unfolding table_inv_def by blast
    ultimately show ?thesis by linarith
  qed
  have ndn: "ts_done st \<Longrightarrow> get_state e j = Some st \<Longrightarrow> j \<notin># W + R" for j st
    using inv unfolding table_inv_def waiting_state_def running_state_def by fastforce
  have live: "get_state ?e' j = get_state e j" if "j \<in># W + R" "j \<noteq> i" for j
  proof -
    have "j \<notin> set (done_ids e)" using inv ndn that unfolding table_inv_def by blast
    then show ?thesis using that expired_mem by (auto simp: g)
  qed
  have W': "\<exists>st. get_state ?e' j = Some st \<and> waiting_state st" if "j \<in># W - {#i#}" for j
  proof -
    have "j \<in># W" and "j \<noteq> i" using that el [of j] by (auto dest: in_diffD)
    then show ?thesis using live [of j] inv unfolding table_inv_def by auto
  qed
  have R': "\<exists>st. get_state ?e' j = Some st \<and> running_state st" if "j \<in># R - {#i#}" for j
  proof -
    have "j \<in># R" and "j \<noteq> i" using that el [of j] by (auto dest: in_diffD)
    then show ?thesis using live [of j] inv unfolding table_inv_def by auto
  qed
  have nd': "j \<in># W - {#i#} + (R - {#i#})" if "get_state ?e' j = Some s" "\<not> ts_done s" for j s
    using that inv unfolding el g table_inv_def by (auto split: if_splits)
  have bd': "unat j < unat (next_task_id e)" if "get_state ?e' j = Some s" for j s
    using that inv sti unfolding g table_inv_def by (auto split: if_splits)
  have done': "j \<in> set (after_done i (done_ids e)) \<longleftrightarrow> (\<exists>st. get_state ?e' j = Some st \<and> ts_done st)" for j
  proof -
    have "j \<in> set (done_ids e) \<longleftrightarrow> (\<exists>st. get_state e j = Some st \<and> ts_done st)"
      using inv unfolding table_inv_def by blast
    then show ?thesis unfolding set_after_done [OF ds] g by auto
  qed
  have pend': "set (removeAll i (pending_ids e)) = set_mset (W - {#i#} + (R - {#i#}))"
    using inv unfolding table_inv_def set_eq_iff el by auto
  note od = after_done_ok [OF ds nd]
  show ?thesis unfolding table_inv_def mf(1-4) f
    using cnt W' R' nd' bd' done' pend' od inv unfolding table_inv_def by auto
qed

lemma table_begin:
  assumes inv: "table_inv n e W R" and i: "i \<in># W" and b: "task_begin i e = (c, e')"
  shows "\<exists>st. get_state e i = Some st \<and> waiting_state st \<and> c = canceled st
      \<and> e' = put_state i (st\<lparr>started := True\<rparr>) e
      \<and> (\<not> c \<longrightarrow> table_inv n e' (W - {#i#}) (add_mset i R))"
proof -
  obtain st where st: "get_state e i = Some st" "waiting_state st" "i \<notin># R"
    using table_waiting [OF inv i] by blast
  have e': "e' = put_state i (st\<lparr>started := True\<rparr>) e" and c: "c = canceled st"
    using b st(1) by (auto simp: task_begin_def)
  have f: "next_task_id e' = next_task_id e" "done_ids e' = done_ids e"
    "max_retained_states e' = max_retained_states e" "pending_ids e' = pending_ids e"
    by (simp_all add: e' put_state_def)
  have sum: "W - {#i#} + add_mset i R = W + R" using i by simp
  have el: "j \<in># W - {#i#} \<Longrightarrow> j \<in># W \<and> j \<noteq> i" for j
  proof -
    assume j: "j \<in># W - {#i#}"
    have "Multiset.count (W + R) i \<le> 1" using inv unfolding table_inv_def by blast
    then have "Multiset.count W i \<le> 1" by simp
    then show "j \<in># W \<and> j \<noteq> i" using j by (auto simp: in_diff_count split: if_splits)
  qed
  have ndi: "i \<notin> set (done_ids e)" using inv st unfolding table_inv_def waiting_state_def by fastforce
  have "table_inv n e' (W - {#i#}) (add_mset i R)" if nc: "\<not> c"
    unfolding table_inv_def f sum
  proof (intro conjI allI impI)
    fix j assume "j \<in># W - {#i#}"
    then show "\<exists>st. get_state e' j = Some st \<and> waiting_state st"
      using el inv unfolding table_inv_def e' by simp
  next
    fix j assume "j \<in># add_mset i R"
    then show "\<exists>st. get_state e' j = Some st \<and> running_state st"
      using inv st nc unfolding table_inv_def e' c
      by (auto simp: running_state_def waiting_state_def)
  next
    fix j s assume "get_state e' j = Some s" "\<not> ts_done s"
    then show "j \<in># W + R" using inv i unfolding table_inv_def e' by (auto split: if_splits)
  next
    fix j s assume "get_state e' j = Some s"
    then show "unat j < unat (next_task_id e)" using inv st unfolding table_inv_def e' by (auto split: if_splits)
  next
    fix j show "(j \<in> set (done_ids e)) = (\<exists>st. get_state e' j = Some st \<and> ts_done st)"
      using inv ndi st unfolding table_inv_def e' by (auto simp: waiting_state_def)
  qed (use inv in \<open>simp_all add: table_inv_def\<close>)
  then show ?thesis using st e' c by blast
qed

lemma TryCancel_cases:
  assumes "TryCancel i e = (s, e')"
  shows "(status_ok s \<longrightarrow> (\<exists>st. get_state e i = Some st \<and> waiting_state st
            \<and> e' = (put_state i (st\<lparr>canceled := True\<rparr>) e)\<lparr>stats := stats e'\<rparr>
            \<and> xs_canceled (stats e') = xs_canceled (stats e) + 1))
         \<and> (\<not> status_ok s \<longrightarrow> e' = e)"
  using assms unfolding TryCancel_def
  by (auto simp: waiting_state_def put_state_def task_status_def split: option.splits if_splits)

lemma table_cancel:
  assumes inv: "table_inv n e W R" and t: "TryCancel i e = (s, e')"
  shows "table_inv n e' W R"
proof (cases "status_ok s")
  case False
  then show ?thesis using TryCancel_cases [OF t] inv by simp
next
  case True
  then obtain st where st: "get_state e i = Some st" "waiting_state st"
    and e': "e' = (put_state i (st\<lparr>canceled := True\<rparr>) e)\<lparr>stats := stats e'\<rparr>"
    using TryCancel_cases [OF t] by blast
  let ?e = "put_state i (st\<lparr>canceled := True\<rparr>) e"
  have iW: "i \<in># W" "i \<notin># R"
  proof -
    have "i \<in># W + R" using inv st unfolding table_inv_def waiting_state_def by blast
    moreover show nr: "i \<notin># R"
      using inv st unfolding table_inv_def running_state_def waiting_state_def by force
    ultimately show "i \<in># W" by auto
  qed
  have f: "next_task_id ?e = next_task_id e" "done_ids ?e = done_ids e"
    "max_retained_states ?e = max_retained_states e" "pending_ids ?e = pending_ids e"
    by (simp_all add: put_state_def)
  have ndi: "i \<notin> set (done_ids e)" using inv st unfolding table_inv_def waiting_state_def by fastforce
  have "table_inv n ?e W R"
    unfolding table_inv_def f
  proof (intro conjI allI impI)
    fix j show "(j \<in> set (done_ids e)) = (\<exists>st. get_state ?e j = Some st \<and> ts_done st)"
      using inv ndi st unfolding table_inv_def by (auto simp: waiting_state_def)
  next
    fix j assume "j \<in># W"
    then show "\<exists>st. get_state ?e j = Some st \<and> waiting_state st"
      using inv st unfolding table_inv_def by (auto simp: waiting_state_def)
  next
    fix j assume "j \<in># R"
    then show "\<exists>st. get_state ?e j = Some st \<and> running_state st"
      using inv iW unfolding table_inv_def by auto
  qed (use inv st iW in \<open>auto simp: table_inv_def split: if_splits\<close>)
  then show ?thesis by (rule table_inv_cong) ((subst e', simp)+, simp)
qed

section \<open>Submitting\<close>

lemma status_ok_task [simp]: "status_ok (task_status c m) \<longleftrightarrow> c = kOk"
  by (simp add: task_status_def)

definition entry_of :: "'s job \<Rightarrow> TaskSubmitOptions \<Rightarrow> 's Executor \<Rightarrow> 's TaskEntry" where
  "entry_of j opts e = \<lparr>te_fn = j, te_priority = so_priority opts, te_seq = enqueue_seq e + 1\<rparr>"

lemma Enqueue_ok:
  assumes "Enqueue j opts e = (s, e')" and "status_ok s"
  shows "e' = e\<lparr>enqueue_seq := enqueue_seq e + 1, tasks := tasks e @ [entry_of j opts e],
                pending_tasks := pending_tasks e + 1, stats := stats e'\<rparr> \<and> \<not> stopping e"
  using assms unfolding Enqueue_def entry_of_def
  by (auto simp: Let_def split: if_splits)

lemma Enqueue_refused:
  assumes "Enqueue j opts e = (s, e')" and "\<not> status_ok s"
  shows "e' = e\<lparr>stats := stats e'\<rparr>"
  using assms unfolding Enqueue_def by (auto simp: Let_def split: if_splits)

lemma register_task_effect:
  assumes "register_task key e = (i, e2)"
  shows "i = next_task_id e" and "tasks e2 = tasks e" and "enqueue_seq e2 = enqueue_seq e"
    and "pending_tasks e2 = pending_tasks e" and "active_workers e2 = active_workers e"
    and "stopping e2 = stopping e" and "next_task_id e2 = next_task_id e + 1"
    and "done_ids e2 = done_ids e" and "max_retained_states e2 = max_retained_states e"
    and "pending_ids e2 = oset_insert (next_task_id e) (pending_ids e)"
    and "get_state e2 = (get_state e)(next_task_id e \<mapsto> new_TaskState)"
  using assms unfolding register_task_def NextTaskIdLocked_def
  by (auto simp: Let_def put_state_def get_state_def map_of_filter_ne fun_eq_iff split: if_splits)

text \<open>The effect of \<open>SubmitEx\<close>, up to statistics and the set of serial keys.\<close>

lemma SubmitEx_ok:
  assumes s: "SubmitEx fn opts e = (r, e')" and ok: "result_ok r"
  shows "\<exists>f. fn = Some f \<and> r = Result_value (next_task_id e) \<and> \<not> stopping e \<and>
     tasks e' = tasks e @ [entry_of (TrackedJob (next_task_id e) f (so_serial_key opts)) opts e] \<and>
     enqueue_seq e' = enqueue_seq e + 1 \<and> pending_tasks e' = pending_tasks e + 1 \<and>
     active_workers e' = active_workers e \<and> stopping e' = stopping e \<and>
     get_state e' = (get_state e)(next_task_id e \<mapsto> new_TaskState) \<and>
     next_task_id e' = next_task_id e + 1 \<and> done_ids e' = done_ids e \<and>
     max_retained_states e' = max_retained_states e \<and>
     set (pending_ids e') = insert (next_task_id e) (set (pending_ids e))"
proof -
  let ?key = "so_serial_key opts"
  obtain f where f: "fn = Some f" using s ok unfolding SubmitEx_def by (cases fn) auto
  obtain i e2 where rg: "register_task ?key e = (i, e2)" by (metis surj_pair)
  obtain st e3 where en: "Enqueue (TrackedJob i f ?key) opts e2 = (st, e3)" by (metis surj_pair)
  have st: "status_ok st" "r = Result_value i" "e' = e3"
    using s ok unfolding SubmitEx_def f by (auto simp: Let_def rg en split: if_splits)
  note rt = register_task_effect [OF rg]
  have e3: "e3 = e2\<lparr>enqueue_seq := enqueue_seq e2 + 1, tasks := tasks e2 @ [entry_of (TrackedJob i f ?key) opts e2],
                pending_tasks := pending_tasks e2 + 1, stats := stats e3\<rparr>" and ns: "\<not> stopping e2"
    using Enqueue_ok [OF en st(1)] by blast+
  have g3: "get_state e3 = get_state e2" by (rule ext, subst e3) simp
  have en2: "entry_of (TrackedJob i f ?key) opts e2 = entry_of (TrackedJob (next_task_id e) f ?key) opts e"
    by (simp add: entry_of_def rt)
  have fields: "tasks e3 = tasks e2 @ [entry_of (TrackedJob i f ?key) opts e2]"
    "enqueue_seq e3 = enqueue_seq e2 + 1" "pending_tasks e3 = pending_tasks e2 + 1"
    "active_workers e3 = active_workers e2" "stopping e3 = stopping e2" "next_task_id e3 = next_task_id e2"
    "done_ids e3 = done_ids e2" "max_retained_states e3 = max_retained_states e2"
    "pending_ids e3 = pending_ids e2"
    by (subst e3; simp)+
  show ?thesis
    using f st(2) ns unfolding st(3) fields g3 en2 rt(2-) unfolding rt(1) by simp
qed

lemma SubmitEx_refused:
  assumes s: "SubmitEx fn opts e = (r, e')" and nok: "\<not> result_ok r" and nx: "get_state e (next_task_id e) = None"
    and np: "next_task_id e \<notin> set (pending_ids e)"
  shows "fn = None \<and> e' = e \<or>
     fn \<noteq> None \<and> tasks e' = tasks e \<and> enqueue_seq e' = enqueue_seq e \<and> pending_tasks e' = pending_tasks e \<and>
     active_workers e' = active_workers e \<and> stopping e' = stopping e \<and> get_state e' = get_state e \<and>
     next_task_id e' = next_task_id e + 1 \<and> done_ids e' = done_ids e \<and>
     max_retained_states e' = max_retained_states e \<and> set (pending_ids e') = set (pending_ids e)"
proof (cases fn)
  case None
  then show ?thesis using s by (simp add: SubmitEx_def)
next
  case (Some f)
  let ?key = "so_serial_key opts"
  obtain i e2 where rg: "register_task ?key e = (i, e2)" by (metis surj_pair)
  obtain st e3 where en: "Enqueue (TrackedJob i f ?key) opts e2 = (st, e3)" by (metis surj_pair)
  have st: "\<not> status_ok st" "e' = (erase_state i e3)\<lparr>pending_ids := removeAll i (pending_ids e3)\<rparr>"
    using s nok unfolding SubmitEx_def Some by (auto simp: Let_def rg en split: if_splits)
  note rt = register_task_effect [OF rg]
  have e3: "e3 = e2\<lparr>stats := stats e3\<rparr>" using Enqueue_refused [OF en st(1)] .
  have g: "get_state e' = get_state e"
  proof (rule ext)
    fix j
    have "get_state e3 j = get_state e2 j" by (subst e3) simp
    then show "get_state e' j = get_state e j" using nx by (simp add: st(2) rt)
  qed
  have fields: "tasks e' = tasks e2" "enqueue_seq e' = enqueue_seq e2" "pending_tasks e' = pending_tasks e2"
    "active_workers e' = active_workers e2" "stopping e' = stopping e2" "next_task_id e' = next_task_id e2"
    "done_ids e' = done_ids e2" "max_retained_states e' = max_retained_states e2"
    "pending_ids e' = removeAll i (pending_ids e2)"
    unfolding st(2) by (subst e3; simp add: erase_state_def)+
  show ?thesis using Some np unfolding fields g rt(2-) rt(1) by auto
qed

end
