(* ===== verification/CK_Executor_Pool.thy ===== *)
theory CK_Executor_Pool
  imports CK_Executor_Table
begin

text \<open>
  What holds in every state that the workers and the clients of the thread pool can reach: the
  accounting, the order of the queue, the exclusion by serial keys, and progress. The counters for
  ids and sequence numbers have 64 bits, so a run is followed for fewer than \<open>2 ^ 64 - 2\<close> steps.
\<close>

section \<open>Lists of workers\<close>

lemma length_filter_update:
  "k < length ws \<Longrightarrow> length (filter P (ws[k := x])) + (if P (ws ! k) then 1 else 0)
     = length (filter P ws) + (if P x then 1 else 0)"
proof (induction ws arbitrary: k)
  case (Cons w ws)
  then show ?case by (cases k) (auto split: if_splits)
qed simp

lemma mset_concat_update:
  "k < length ws \<Longrightarrow> mset (concat (map f (ws[k := x]))) + mset (f (ws ! k)) = mset (concat (map f ws)) + mset (f x)"
proof (induction ws arbitrary: k)
  case (Cons w ws)
  then show ?case by (cases k) (auto simp: ac_simps)
qed simp

lemma erase_at_split:
  "i < length xs \<Longrightarrow> \<exists>ys zs. xs = ys @ xs ! i # zs \<and> erase_at i xs = ys @ zs"
  by (metis erase_at_def id_take_nth_drop)

lemma mset_concat_erase:
  assumes "i < length xs"
  shows "mset (concat (map f xs)) = mset (concat (map f (erase_at i xs))) + mset (f (xs ! i))"
proof -
  obtain ys x zs where "xs = ys @ x # zs" "xs ! i = x" "erase_at i xs = ys @ zs" using erase_at_split [OF assms] by blast
  then show ?thesis by simp
qed

section \<open>The invariant\<close>

fun job_ids :: "'s job \<Rightarrow> TaskId list" where
  "job_ids (PlainJob f) = []"
| "job_ids (TrackedJob i f key) = [i]"

fun wait_ids :: "'s worker \<Rightarrow> TaskId list" where
  "wait_ids (WPicked j) = job_ids j"
| "wait_ids w = []"

fun run_ids :: "'s worker \<Rightarrow> TaskId list" where
  "run_ids (WRunning i f key) = [i]"
| "run_ids w = []"

fun busy :: "'s worker \<Rightarrow> bool" where
  "busy WIdle = False"
| "busy WExited = False"
| "busy w = True"

definition queued :: "'s Executor \<Rightarrow> TaskId multiset" where
  "queued e = mset (concat (map (job_ids \<circ> te_fn) (tasks e)))"

definition picked :: "'s worker list \<Rightarrow> TaskId multiset" where
  "picked ws = mset (concat (map wait_ids ws))"

definition running :: "'s worker list \<Rightarrow> TaskId multiset" where
  "running ws = mset (concat (map run_ids ws))"

definition queue_inv :: "nat \<Rightarrow> 's Executor \<Rightarrow> bool" where
  "queue_inv n e \<longleftrightarrow> sorted_wrt (<) (map te_seq (tasks e)) \<and>
     (\<forall>t\<in>set (tasks e). te_seq t \<le> enqueue_seq e) \<and> unat (enqueue_seq e) \<le> n"

definition keys_exclusive :: "'s worker list \<Rightarrow> bool" where
  "keys_exclusive ws \<longleftrightarrow> (\<forall>k < length ws. \<forall>l < length ws. k \<noteq> l \<longrightarrow> holds_key (ws ! k) \<noteq> 0 \<longrightarrow>
     holds_key (ws ! k) \<noteq> holds_key (ws ! l))"

definition counts_ok :: "'s pool \<Rightarrow> bool" where
  "counts_ok p \<longleftrightarrow> active_workers (px p) = length (filter busy (pworkers p)) \<and>
     pending_tasks (px p) = length (tasks (px p)) + active_workers (px p) \<and>
     (WExited \<in> set (pworkers p) \<longrightarrow> stopping (px p) \<and> tasks (px p) = [])"

definition pool_inv :: "nat \<Rightarrow> 's pool \<Rightarrow> bool" where
  "pool_inv n p \<longleftrightarrow> table_inv n (px p) (queued (px p) + picked (pworkers p)) (running (pworkers p)) \<and>
     queue_inv n (px p) \<and> keys_exclusive (pworkers p) \<and> counts_ok p"

text \<open>How an update of one worker changes the parts.\<close>

lemma picked_update: "k < length ws \<Longrightarrow> picked (ws[k := w]) + mset (wait_ids (ws ! k)) = picked ws + mset (wait_ids w)"
  unfolding picked_def by (rule mset_concat_update)

lemma running_update: "k < length ws \<Longrightarrow> running (ws[k := w]) + mset (run_ids (ws ! k)) = running ws + mset (run_ids w)"
  unfolding running_def by (rule mset_concat_update)

lemma keys_update:
  assumes "keys_exclusive ws" and "holds_key w = 0 \<or> holds_key w = holds_key (ws ! k) \<or> key_free (holds_key w) ws"
  shows "keys_exclusive (ws[k := w])"
  using assms unfolding keys_exclusive_def key_free_def
  by (cases "k < length ws") (auto simp: nth_list_update list_update_beyond, metis)

lemma counts_update:
  assumes "counts_ok p" and "k < length (pworkers p)" and "w \<noteq> WExited"
    and "active_workers e + (if busy (pworkers p ! k) then 1 else 0) = active_workers (px p) + (if busy w then 1 else 0)"
    and "pending_tasks e = length (tasks e) + active_workers e"
    and "WExited \<in> set (pworkers p) \<longrightarrow> stopping e \<and> tasks e = []"
  shows "counts_ok (p\<lparr>px := e, pshared := s, pworkers := (pworkers p)[k := w]\<rparr>)"
  using assms length_filter_update [OF assms(2), of busy w]
  by (auto simp: counts_ok_def dest: set_update_subset_insert [THEN subsetD])

section \<open>Choosing a task\<close>

lemma pick_best_bound: "best < i \<Longrightarrow> pick_best ts i best s q < i + length ts"
  by (induction ts i best s q rule: pick_best.induct) (auto simp: Let_def less_Suc_eq)

lemma PickNextTaskIndex_bound: "tasks e \<noteq> [] \<Longrightarrow> PickNextTaskIndexLocked e < length (tasks e)"
  using pick_best_bound [of 0 1] by (cases "tasks e") (fastforce simp: PickNextTaskIndexLocked_def)+

lemma score_le_iff: "score p \<le> score q \<longleftrightarrow> p \<le> q" and score_less_iff: "score p < score q \<longleftrightarrow> p < q"
  and score_eq_iff: "score p = score q \<longleftrightarrow> p = q"
  by (cases p; cases q; simp add: less_eq_TaskPriority_def less_TaskPriority_def)+

lemma pick_best_correct:
  assumes "xs = pre @ ts" and "best < length pre" and "s = score (te_priority (xs ! best))" and "q = te_seq (xs ! best)"
    and "\<forall>k < length pre. te_priority (xs ! k) < te_priority (xs ! best)
           \<or> te_priority (xs ! k) = te_priority (xs ! best) \<and> te_seq (xs ! best) \<le> te_seq (xs ! k)"
  shows "\<forall>k < length xs. te_priority (xs ! k) < te_priority (xs ! pick_best ts (length pre) best s q)
      \<or> te_priority (xs ! k) = te_priority (xs ! pick_best ts (length pre) best s q)
         \<and> te_seq (xs ! pick_best ts (length pre) best s q) \<le> te_seq (xs ! k)"
  using assms
proof (induction ts arbitrary: pre best s q)
  case Nil
  then show ?case by simp
next
  case (Cons t ts)
  let ?n = "length pre"
  have t: "xs ! ?n = t" using Cons.prems(1) by simp
  have xs: "xs = (pre @ [t]) @ ts" using Cons.prems(1) by simp
  show ?case
  proof (cases "score (te_priority t) > s \<or> score (te_priority t) = s \<and> te_seq t < q")
    case True
    then have "\<forall>k < length (pre @ [t]). te_priority (xs ! k) < te_priority (xs ! ?n)
        \<or> te_priority (xs ! k) = te_priority (xs ! ?n) \<and> te_seq (xs ! ?n) \<le> te_seq (xs ! k)"
      using Cons.prems(3-5) by (auto simp: t less_Suc_eq score_less_iff score_eq_iff)
    from Cons.IH [OF xs _ _ _ this] show ?thesis using True t by (simp add: Let_def)
  next
    case False
    then have "\<forall>k < length (pre @ [t]). te_priority (xs ! k) < te_priority (xs ! best)
        \<or> te_priority (xs ! k) = te_priority (xs ! best) \<and> te_seq (xs ! best) \<le> te_seq (xs ! k)"
      using Cons.prems(3-5) by (auto simp: t less_Suc_eq score_less_iff score_eq_iff not_less_iff_gr_or_eq)
    from Cons.IH [OF xs _ Cons.prems(3,4) this] show ?thesis using False Cons.prems(2) by (auto simp: Let_def)
  qed
qed

lemma worker_pick_effect:
  assumes "worker_pick e = Some (j, e')"
  obtains i where "i < length (tasks e)" and "i = PickNextTaskIndexLocked e" and "j = te_fn (tasks e ! i)"
    and "e' = e\<lparr>tasks := erase_at i (tasks e), active_workers := active_workers e + 1\<rparr>"
  using assms PickNextTaskIndex_bound [of e] by (auto simp: worker_pick_def Let_def split: if_splits)

section \<open>Every step keeps the invariant\<close>

lemma pool_inv_new: "pool_inv 0 (new_pool hw opts s)"
proof -
  have 1: "concat (map wait_ids (replicate k WIdle)) = []" and 2: "concat (map run_ids (replicate k WIdle)) = []"
    and 3: "filter busy (replicate k WIdle) = []" for k by (induction k) auto
  show ?thesis
    by (auto simp: pool_inv_def table_inv_def new_pool_def ThreadPoolExecutor_def queued_def picked_def running_def
        get_state_def queue_inv_def keys_exclusive_def counts_ok_def 1 2 3)
qed

lemma queue_inv_mono: "queue_inv n e \<Longrightarrow> n \<le> m \<Longrightarrow> tasks e' = tasks e \<Longrightarrow> enqueue_seq e' = enqueue_seq e \<Longrightarrow> queue_inv m e'"
  by (auto simp: queue_inv_def)

lemma queue_inv_enqueue:
  assumes q: "queue_inv n e" and n: "n + 2 < 2 ^ 64" and t: "tasks e' = tasks e @ [entry_of j opts e]"
    and s: "enqueue_seq e' = enqueue_seq e + 1"
  shows "queue_inv (Suc n) e'"
proof -
  have "unat (enqueue_seq e) \<le> n" using q by (simp add: queue_inv_def)
  then have "unat (enqueue_seq e) + 1 < 2 ^ 64" using n by linarith
  then have u: "unat (enqueue_seq e + 1) = unat (enqueue_seq e) + 1" by (rule unat_succ_u64)
  then have lt: "enqueue_seq e < enqueue_seq e + 1" by (simp add: word_less_nat_alt)
  have old: "te_seq x < enqueue_seq e + 1" if "x \<in> set (tasks e)" for x
    using that q lt unfolding queue_inv_def by (meson le_less_trans)
  show ?thesis
    using q u old unfolding queue_inv_def t s
    by (auto simp: entry_of_def sorted_wrt_append intro: less_imp_le)
qed

lemma queue_inv_pick:
  assumes "queue_inv n e" and "i < length (tasks e)" and "tasks e' = erase_at i (tasks e)" and "enqueue_seq e' = enqueue_seq e"
  shows "queue_inv (Suc n) e'"
proof -
  obtain ys x zs where "tasks e = ys @ x # zs" "tasks e' = ys @ zs"
    using erase_at_split [OF assms(2)] assms(3) by metis
  then show ?thesis using assms(1,4) by (auto simp: queue_inv_def sorted_wrt_append)
qed

lemma queued_pick:
  "i < length (tasks e) \<Longrightarrow> queued e = queued (e\<lparr>tasks := erase_at i (tasks e), active_workers := a\<rparr>) + mset (job_ids (te_fn (tasks e ! i)))"
  unfolding queued_def using mset_concat_erase [of i "tasks e" "job_ids \<circ> te_fn"] by simp

text \<open>Client calls.\<close>

lemma inv_submit:
  assumes inv: "pool_inv n p" and n: "n + 2 < 2 ^ 64" and s: "Submit fn (px p) = (st, e)"
  shows "pool_inv (Suc n) (p\<lparr>px := e\<rparr>)"
proof (cases fn)
  case None
  then have "e = px p" using s by (simp add: Submit_def)
  then show ?thesis using inv table_inv_cong [of n "px p" _ _ "px p" "Suc n"]
    by (auto simp: pool_inv_def queue_inv_def counts_ok_def)
next
  case (Some f)
  then have en: "Enqueue (PlainJob f) default_submit_options (px p) = (st, e)" using s by (simp add: Submit_def)
  show ?thesis
  proof (cases "status_ok st")
    case True
    note e = Enqueue_ok [OF en True]
    have f: "tasks e = tasks (px p) @ [entry_of (PlainJob f) default_submit_options (px p)]"
      "enqueue_seq e = enqueue_seq (px p) + 1" "pending_tasks e = pending_tasks (px p) + 1"
      "active_workers e = active_workers (px p)" "stopping e = stopping (px p)" "states e = states (px p)"
      "next_task_id e = next_task_id (px p)" "done_ids e = done_ids (px p)"
      "max_retained_states e = max_retained_states (px p)" "pending_ids e = pending_ids (px p)"
      by (subst conjunct1 [OF e]; simp)+
    have "queued e = queued (px p)" by (simp add: queued_def f entry_of_def)
    then show ?thesis
      using inv e queue_inv_enqueue [OF _ n f(1,2)] table_inv_cong [OF _ f(6-10), of n _ _ "Suc n"]
      by (auto simp: pool_inv_def counts_ok_def f)
  next
    case False
    note e = Enqueue_refused [OF en False]
    have f: "tasks e = tasks (px p)"
      "enqueue_seq e = enqueue_seq (px p)" "pending_tasks e = pending_tasks (px p)"
      "active_workers e = active_workers (px p)" "stopping e = stopping (px p)" "states e = states (px p)"
      "next_task_id e = next_task_id (px p)" "done_ids e = done_ids (px p)"
      "max_retained_states e = max_retained_states (px p)" "pending_ids e = pending_ids (px p)"
      by (subst e; simp)+
    have "queued e = queued (px p)" by (simp add: queued_def f)
    then show ?thesis
      using inv queue_inv_mono [OF _ _ f(1,2), of n "Suc n"] table_inv_cong [OF _ f(6-10), of n _ _ "Suc n"]
      by (auto simp: pool_inv_def counts_ok_def f)
  qed
qed

lemma inv_frame:
  assumes inv: "pool_inv n p" and f: "tasks e = tasks (px p)" "enqueue_seq e = enqueue_seq (px p)"
    "pending_tasks e = pending_tasks (px p)" "active_workers e = active_workers (px p)"
    and st: "stopping (px p) \<longrightarrow> stopping e" and tb: "\<And>W R. table_inv n (px p) W R \<Longrightarrow> table_inv m e W R"
    and m: "n \<le> m"
  shows "pool_inv m (p\<lparr>px := e\<rparr>)"
proof -
  have "queued e = queued (px p)" by (simp add: queued_def f)
  then show ?thesis
    using inv tb st queue_inv_mono [OF _ m f(1,2)] by (auto simp: pool_inv_def counts_ok_def f)
qed

lemma inv_mono: "pool_inv n p \<Longrightarrow> n \<le> m \<Longrightarrow> pool_inv m p"
  using inv_frame [of n p "px p" m] table_inv_cong [of n "px p" _ _ "px p" m] by simp

lemma inv_submit_ex:
  assumes inv: "pool_inv n p" and n: "n + 2 < 2 ^ 64" and s: "SubmitEx fn opts (px p) = (r, e)"
  shows "pool_inv (Suc n) (p\<lparr>px := e\<rparr>)"
proof -
  let ?i = "next_task_id (px p)" and ?W = "queued (px p) + picked (pworkers p)" and ?R = "running (pworkers p)"
  have tab: "table_inv n (px p) ?W ?R" using inv by (simp add: pool_inv_def)
  show ?thesis
  proof (cases "result_ok r")
    case True
    note ex = SubmitEx_ok [OF s True]
    then obtain f where f: "tasks e = tasks (px p) @ [entry_of (TrackedJob ?i f (so_serial_key opts)) opts (px p)]"
      "enqueue_seq e = enqueue_seq (px p) + 1" "pending_tasks e = pending_tasks (px p) + 1"
      "active_workers e = active_workers (px p)" "stopping e = stopping (px p)" "\<not> stopping (px p)"
      "get_state e = (get_state (px p))(?i \<mapsto> new_TaskState)" "next_task_id e = ?i + 1" "done_ids e = done_ids (px p)"
      "max_retained_states e = max_retained_states (px p)" "set (pending_ids e) = insert ?i (set (pending_ids (px p)))"
      by blast
    have "queued e = add_mset ?i (queued (px p))" by (simp add: queued_def f entry_of_def)
    then show ?thesis
      using inv queue_inv_enqueue [OF _ n f(1,2)] table_register [OF tab n f(7-11)] f(6)
      by (auto simp: pool_inv_def counts_ok_def f(1-5))
  next
    case False
    note rf = SubmitEx_refused [OF s False table_fresh(1) [OF tab] table_fresh(4) [OF tab]]
    show ?thesis
    proof (cases fn)
      case None
      then have "e = px p" using rf by simp
      then show ?thesis using inv inv_mono [of n p "Suc n"] by simp
    next
      case (Some f)
      then have f: "tasks e = tasks (px p)" "enqueue_seq e = enqueue_seq (px p)" "pending_tasks e = pending_tasks (px p)"
        "active_workers e = active_workers (px p)" "stopping e = stopping (px p)" "get_state e = get_state (px p)"
        "next_task_id e = next_task_id (px p) + 1" "done_ids e = done_ids (px p)"
        "max_retained_states e = max_retained_states (px p)" "set (pending_ids e) = set (pending_ids (px p))"
        using rf by auto
      show ?thesis
        by (rule inv_frame [OF inv f(1-4)]) (use f(5) table_unregister [OF _ n f(6-10)] in auto)
    qed
  qed
qed

lemma inv_cancel:
  assumes inv: "pool_inv n p" and s: "TryCancel i (px p) = (st, e)"
  shows "pool_inv n (p\<lparr>px := e\<rparr>)"
proof -
  have "tasks e = tasks (px p)" "enqueue_seq e = enqueue_seq (px p)" "pending_tasks e = pending_tasks (px p)"
    "active_workers e = active_workers (px p)" "stopping e = stopping (px p)"
    using s unfolding TryCancel_def by (auto simp: put_state_def split: option.splits if_splits)
  then show ?thesis using inv table_cancel [OF _ s] by (intro inv_frame [OF inv]) auto
qed

text \<open>Worker steps.\<close>

lemma inv_pick:
  assumes inv: "pool_inv n p" and k: "k < length (pworkers p)" and w: "pworkers p ! k = WIdle"
    and s: "worker_pick (px p) = Some (j, e)"
  shows "pool_inv (Suc n) (p\<lparr>px := e, pworkers := (pworkers p)[k := WPicked j]\<rparr>)"
proof -
  obtain i where i: "i < length (tasks (px p))" "j = te_fn (tasks (px p) ! i)"
    and e: "e = (px p)\<lparr>tasks := erase_at i (tasks (px p)), active_workers := active_workers (px p) + 1\<rparr>"
    using worker_pick_effect [OF s] by blast
  let ?ws = "(pworkers p)[k := WPicked j]"
  have 1: "queued e + picked ?ws = queued (px p) + picked (pworkers p)"
    using queued_pick [OF i(1), of "active_workers (px p) + 1"] picked_update [OF k, of "WPicked j"] w i(2) e by simp
  have 2: "running ?ws = running (pworkers p)" using running_update [OF k, of "WPicked j"] w by simp
  have 3: "queue_inv (Suc n) e" by (rule queue_inv_pick [OF _ i(1)]) (use inv e in \<open>simp_all add: pool_inv_def\<close>)
  have 4: "keys_exclusive ?ws" by (rule keys_update) (use inv in \<open>simp_all add: pool_inv_def\<close>)
  have l: "length (erase_at i (tasks (px p))) = length (tasks (px p)) - 1" "tasks (px p) \<noteq> []" using i by (auto simp: erase_at_def)
  have "counts_ok (p\<lparr>px := e, pshared := pshared p, pworkers := ?ws\<rparr>)"
    by (rule counts_update [OF _ k]) (use inv w l i(1) in \<open>auto simp: pool_inv_def counts_ok_def e\<close>)
  moreover have "table_inv (Suc n) e (queued (px p) + picked (pworkers p)) (running (pworkers p))"
    by (rule table_inv_cong [of n "px p"]) (use inv e in \<open>simp_all add: pool_inv_def\<close>)
  ultimately show ?thesis using 3 4 by (simp add: pool_inv_def 1 2)
qed

text \<open>The other steps of a worker change neither the queue nor the number of pending tasks.\<close>

lemma inv_worker:
  assumes inv: "pool_inv n p" and k: "k < length (pworkers p)" and b: "busy (pworkers p ! k)" "busy w"
    and f: "tasks e = tasks (px p)" "enqueue_seq e = enqueue_seq (px p)" "pending_tasks e = pending_tasks (px p)"
      "active_workers e = active_workers (px p)" "stopping e = stopping (px p)"
    and key: "holds_key w = 0 \<or> key_free (holds_key w) (pworkers p)"
    and tab: "table_inv n e (queued (px p) + picked ((pworkers p)[k := w])) (running ((pworkers p)[k := w]))"
  shows "pool_inv (Suc n) (p\<lparr>px := e, pshared := s, pworkers := (pworkers p)[k := w]\<rparr>)"
proof -
  have q: "queued e = queued (px p)" by (simp add: queued_def f)
  have 3: "queue_inv (Suc n) e" by (rule queue_inv_mono [OF _ _ f(1,2), of n]) (use inv in \<open>simp_all add: pool_inv_def\<close>)
  have 4: "keys_exclusive ((pworkers p)[k := w])" by (rule keys_update) (use inv key in \<open>auto simp: pool_inv_def\<close>)
  have "counts_ok (p\<lparr>px := e, pshared := s, pworkers := (pworkers p)[k := w]\<rparr>)"
    by (rule counts_update [OF _ k]) (use inv b in \<open>auto simp: pool_inv_def counts_ok_def f\<close>)
  then show ?thesis using 3 4 table_inv_cong [OF tab, of e "Suc n"] by (simp add: pool_inv_def q)
qed

lemma inv_begin:
  assumes inv: "pool_inv n p" and k: "k < length (pworkers p)" and w: "pworkers p ! k = WPicked (TrackedJob i f key)"
    and fr: "key_free key (pworkers p)" and s: "task_begin i (px p) = (False, e)"
  shows "pool_inv (Suc n) (p\<lparr>px := e, pworkers := (pworkers p)[k := WRunning i f key]\<rparr>)"
proof -
  let ?ws = "(pworkers p)[k := WRunning i f key]"
  have tab: "table_inv n (px p) (queued (px p) + picked (pworkers p)) (running (pworkers p))"
    using inv by (simp add: pool_inv_def)
  have pk: "picked (pworkers p) = add_mset i (picked ?ws)" using picked_update [OF k, of "WRunning i f key"] w by simp
  have rn: "running ?ws = add_mset i (running (pworkers p))" using running_update [OF k, of "WRunning i f key"] w by simp
  have iW: "i \<in># queued (px p) + picked (pworkers p)" by (simp add: pk)
  obtain st where e: "e = put_state i (st\<lparr>started := True\<rparr>) (px p)"
    and t: "table_inv n e (queued (px p) + picked (pworkers p) - {#i#}) (add_mset i (running (pworkers p)))"
    using table_begin [OF tab iW s] by blast
  have "pool_inv (Suc n) (p\<lparr>px := e, pshared := pshared p, pworkers := ?ws\<rparr>)"
    by (rule inv_worker [OF inv k]) (use w fr t in \<open>simp_all add: e put_state_def pk rn\<close>)
  then show ?thesis by simp
qed

lemma MarkTaskDone_frame [simp]:
  "tasks (MarkTaskDone i ex fl e) = tasks e" "enqueue_seq (MarkTaskDone i ex fl e) = enqueue_seq e"
  "pending_tasks (MarkTaskDone i ex fl e) = pending_tasks e" "active_workers (MarkTaskDone i ex fl e) = active_workers e"
  "stopping (MarkTaskDone i ex fl e) = stopping e" "xoptions (MarkTaskDone i ex fl e) = xoptions e"
  by (auto simp: MarkTaskDone_def Let_def put_state_def split: option.splits prod.splits)

lemma put_state_frame [simp]:
  "tasks (put_state i st e) = tasks e" "enqueue_seq (put_state i st e) = enqueue_seq e"
  "pending_tasks (put_state i st e) = pending_tasks e" "active_workers (put_state i st e) = active_workers e"
  "stopping (put_state i st e) = stopping e" "xoptions (put_state i st e) = xoptions e"
  "next_task_id (put_state i st e) = next_task_id e" "done_ids (put_state i st e) = done_ids e"
  "max_retained_states (put_state i st e) = max_retained_states e" "pending_ids (put_state i st e) = pending_ids e"
  by (simp_all add: put_state_def)

lemma inv_skip:
  assumes inv: "pool_inv n p" and k: "k < length (pworkers p)" and w: "pworkers p ! k = WPicked (TrackedJob i f key)"
    and s: "task_begin i (px p) = (True, e)"
  shows "pool_inv (Suc n) (p\<lparr>px := MarkTaskDone i False False e, pworkers := (pworkers p)[k := WFinishing]\<rparr>)"
proof -
  let ?ws = "(pworkers p)[k := WFinishing]" and ?W = "queued (px p) + picked (pworkers p)"
  have tab: "table_inv n (px p) ?W (running (pworkers p))" using inv by (simp add: pool_inv_def)
  have pk: "picked (pworkers p) = add_mset i (picked ?ws)" using picked_update [OF k, of WFinishing] w by simp
  have rn: "running ?ws = running (pworkers p)" using running_update [OF k, of WFinishing] w by simp
  have iW: "i \<in># ?W" by (simp add: pk)
  obtain st where e: "e = put_state i (st\<lparr>started := True\<rparr>) (px p)" using table_begin [OF tab iW s] by blast
  have nr: "i \<notin># running (pworkers p)" using table_waiting [OF tab iW] by blast
  have gs: "get_state e = (get_state (px p))(i \<mapsto> st\<lparr>started := True\<rparr>)" by (rule ext) (simp add: e)
  have "table_inv n (MarkTaskDone i False False e) (?W - {#i#}) (running (pworkers p) - {#i#})"
    by (rule table_done [OF tab _ gs]) (use iW e in simp_all)
  then have t: "table_inv n (MarkTaskDone i False False e) (queued (px p) + picked ?ws) (running ?ws)"
    using nr by (simp add: pk rn diff_single_trivial)
  have "pool_inv (Suc n) (p\<lparr>px := MarkTaskDone i False False e, pshared := pshared p, pworkers := ?ws\<rparr>)"
    by (rule inv_worker [OF inv k _ _ _ _ _ _ _ _ t]) (use w in \<open>simp_all add: e\<close>)
  then show ?thesis by simp
qed

lemma inv_end:
  assumes inv: "pool_inv n p" and k: "k < length (pworkers p)" and w: "pworkers p ! k = WRunning i f key"
  shows "pool_inv (Suc n) (p\<lparr>px := MarkTaskDone i ex fl (px p), pshared := s, pworkers := (pworkers p)[k := WFinishing]\<rparr>)"
proof -
  let ?ws = "(pworkers p)[k := WFinishing]" and ?W = "queued (px p) + picked (pworkers p)"
  have tab: "table_inv n (px p) ?W (running (pworkers p))" using inv by (simp add: pool_inv_def)
  have pk: "picked ?ws = picked (pworkers p)" using picked_update [OF k, of WFinishing] w by simp
  have rn: "running (pworkers p) = add_mset i (running ?ws)" using running_update [OF k, of WFinishing] w by simp
  have iR: "i \<in># running (pworkers p)" by (simp add: rn)
  obtain st where st: "get_state (px p) i = Some st" "i \<notin># ?W" using table_running [OF tab iR] by blast
  have gs: "get_state (px p) = (get_state (px p))(i \<mapsto> st)" using st(1) by (simp add: fun_upd_idem)
  have "table_inv n (MarkTaskDone i ex fl (px p)) (?W - {#i#}) (running (pworkers p) - {#i#})"
    by (rule table_done [OF tab _ gs]) (use iR in simp_all)
  then have t: "table_inv n (MarkTaskDone i ex fl (px p)) (queued (px p) + picked ?ws) (running ?ws)"
    using st(2) by (simp add: pk rn diff_single_trivial)
  show ?thesis by (rule inv_worker [OF inv k _ _ _ _ _ _ _ _ t]) (use w in simp_all)
qed

lemma inv_plain:
  assumes inv: "pool_inv n p" and k: "k < length (pworkers p)" and w: "pworkers p ! k = WPicked (PlainJob f)"
  shows "pool_inv (Suc n) (p\<lparr>px := plain_done threw (px p), pshared := s, pworkers := (pworkers p)[k := WFinishing]\<rparr>)"
proof (rule inv_worker [OF inv k])
  have pk: "picked ((pworkers p)[k := WFinishing]) = picked (pworkers p)" using picked_update [OF k, of WFinishing] w by simp
  have rn: "running ((pworkers p)[k := WFinishing]) = running (pworkers p)" using running_update [OF k, of WFinishing] w by simp
  show "table_inv n (plain_done threw (px p)) (queued (px p) + picked ((pworkers p)[k := WFinishing]))
      (running ((pworkers p)[k := WFinishing]))"
    unfolding pk rn by (rule table_inv_cong [of n "px p"]) (use inv in \<open>simp_all add: pool_inv_def plain_done_def\<close>)
qed (use w in \<open>simp_all add: plain_done_def\<close>)

lemma inv_leave:
  assumes inv: "pool_inv n p" and k: "k < length (pworkers p)"
    and w: "pworkers p ! k = WFinishing \<and> e = worker_finish (px p) \<and> w = WIdle
      \<or> pworkers p ! k = WIdle \<and> e = px p \<and> w = WExited \<and> stopping (px p) \<and> tasks (px p) = []"
  shows "pool_inv (Suc n) (p\<lparr>px := e, pworkers := (pworkers p)[k := w]\<rparr>)"
proof -
  let ?ws = "(pworkers p)[k := w]"
  have pk: "picked ?ws = picked (pworkers p)" using picked_update [OF k, of w] w by auto
  have rn: "running ?ws = running (pworkers p)" using running_update [OF k, of w] w by auto
  have q: "queued e = queued (px p)" using w by (auto simp: queued_def worker_finish_def Let_def)
  have t: "table_inv (Suc n) e (queued (px p) + picked (pworkers p)) (running (pworkers p))"
    by (rule table_inv_cong [of n "px p"]) (use inv w in \<open>auto simp: pool_inv_def worker_finish_def Let_def\<close>)
  have 3: "queue_inv (Suc n) e"
    by (rule queue_inv_mono [of n "px p"]) (use inv w in \<open>auto simp: pool_inv_def worker_finish_def Let_def\<close>)
  have 4: "keys_exclusive ?ws" by (rule keys_update) (use inv w in \<open>auto simp: pool_inv_def\<close>)
  have "counts_ok (p\<lparr>px := e, pworkers := ?ws\<rparr>)"
    using inv w length_filter_update [OF k, of busy w] set_update_subset_insert [of "pworkers p" k w]
    by (auto simp: pool_inv_def counts_ok_def worker_finish_def Let_def)
  then show ?thesis using t 3 4 by (simp add: pool_inv_def q pk rn)
qed

theorem pool_inv_step:
  assumes "exec_step p q" and "pool_inv n p" and "n + 2 < 2 ^ 64"
  shows "pool_inv (Suc n) q"
  using assms
proof cases
  case (client_reconfigure opts st e)
  then show ?thesis
    by (auto simp: Reconfigure_def intro!: inv_frame [OF assms(2)] table_inv_cong [of n "px p"])
next
  case client_stop
  then show ?thesis
    by (auto simp: stop_def intro!: inv_frame [OF assms(2)] table_inv_cong [of n "px p"])
next
  case (client_cancel i st e)
  then show ?thesis using inv_mono [OF inv_cancel [OF assms(2)]] by simp
next
  case (work_exit k)
  then show ?thesis using inv_leave [OF assms(2), of k "px p" WExited] by simp
qed (auto intro: inv_submit inv_submit_ex inv_pick inv_begin inv_skip inv_end inv_plain inv_leave assms(2,3))

lemma pool_inv_steps:
  assumes "exec_steps p m q" and "pool_inv n p" and "n + m + 2 < 2 ^ 64"
  shows "pool_inv (n + m) q"
  using assms
proof (induction m q rule: exec_steps.induct)
  case (steps_one m q q')
  then show ?case using pool_inv_step [of q q' "n + m"] by simp
qed simp

end
