(* ===== verification/CK_Executor_Props.thy ===== *)
theory CK_Executor_Props
  imports CK_Executor_Pool
begin

text \<open>
  The properties of the thread pool over all runs of its workers and clients: accounting and the
  condition of \<open>WaitAll\<close>, the choice of the next task, exclusion by serial keys, cancellation,
  \<open>Wait\<close>, progress and termination of the work that is queued.
\<close>

section \<open>Runs\<close>

lemma pool_inv_reach: "exec_steps (new_pool hw opts s) n p \<Longrightarrow> n + 2 < 2 ^ 64 \<Longrightarrow> pool_inv n p"
  using pool_inv_steps [OF _ pool_inv_new, of hw opts s n p] by simp

lemma not_busy_iff: "\<not> busy w \<longleftrightarrow> w = WIdle \<or> w = WExited"
  by (cases w) auto

lemma exec_step_workers_length: "exec_step p q \<Longrightarrow> length (pworkers q) = length (pworkers p)"
  by (erule exec_step.cases) auto

lemma exec_steps_workers_length: "exec_steps p n q \<Longrightarrow> length (pworkers q) = length (pworkers p)"
  by (induction rule: exec_steps.induct) (auto dest: exec_step_workers_length)

lemma new_pool_workers: "length (pworkers (new_pool hw opts s)) > 0"
  by (auto simp: new_pool_def NormalizeWorkerCount_def unat_gt_0)

text \<open>A pool with one worker in which a client submits one tracked task and cancels it.\<close>

definition demo_options :: ExecutorOptions where
  "demo_options = \<lparr>xo_worker_count = 1, xo_queue_capacity = 0, xo_policy = kFifo\<rparr>"

definition demo_body :: "nat body" where
  "demo_body x = (Suc x, False)"

definition demo_submitted :: "nat pool" where
  "demo_submitted = (let p = new_pool 0 demo_options 0
     in p\<lparr>px := snd (SubmitEx (Some demo_body) default_submit_options (px p))\<rparr>)"

lemmas demo_eval = demo_options_def new_pool_def ThreadPoolExecutor_def NormalizeWorkerCount_def SubmitWithKey_def SubmitEx_def
  register_task_def NextTaskIdLocked_def put_state_def get_state_def Enqueue_def QueueDepthLocked_def
  default_submit_options_def zero_xstats_def new_TaskState_def worker_pick_def PickNextTaskIndexLocked_def
  task_begin_def erase_at_def Let_def

lemma demo_submitted_steps: "exec_steps (new_pool 0 demo_options 0) 1 demo_submitted"
proof -
  let ?p = "new_pool 0 demo_options 0 :: nat pool"
  have "exec_step ?p demo_submitted"
    unfolding demo_submitted_def Let_def
    by (rule client_submit_ex [of "Some demo_body" default_submit_options _ "fst (SubmitEx (Some demo_body) default_submit_options (px ?p))"])
      simp
  then have "exec_steps ?p (Suc 0) demo_submitted" by (rule steps_one [OF steps_none])
  then show ?thesis by simp
qed

section \<open>Accounting\<close>

text \<open>C22: In every state the pool can reach, \<open>active_workers_\<close> is the number of workers that hold a
  task, \<open>pending_tasks_\<close> counts the queued tasks and those, and the condition \<open>WaitAll\<close> waits for holds
  exactly when the queue is empty and no worker holds a task.\<close>

theorem executor_accounting:
  assumes "exec_steps (new_pool hw opts s) n p" and "n + 2 < 2 ^ 64"
  shows "active_workers (px p) = length (filter busy (pworkers p)) \<and>
     pending_tasks (px p) = length (tasks (px p)) + length (filter busy (pworkers p)) \<and>
     (all_idle (px p) \<longleftrightarrow> tasks (px p) = [] \<and> (\<forall>w\<in>set (pworkers p). w = WIdle \<or> w = WExited))"
proof -
  have "counts_ok p" using pool_inv_reach [OF assms] by (simp add: pool_inv_def)
  then show ?thesis by (auto simp: counts_ok_def all_idle_def filter_empty_conv not_busy_iff)
qed

theorem executor_accounting_witness:
  "active_workers (px demo_submitted) = 0 \<and> pending_tasks (px demo_submitted) = 1 \<and> \<not> all_idle (px demo_submitted)"
  using executor_accounting [OF demo_submitted_steps] by (simp add: demo_submitted_def all_idle_def demo_eval)

section \<open>The choice of the next task\<close>

text \<open>In every reachable state with a queued task, the index a worker picks is in range; under
  \<open>kFifo\<close> and \<open>kFair\<close> it is the oldest task, and under the priority policies it is the oldest of the
  tasks of the highest priority.\<close>

theorem PickNextTaskIndex_correct:
  assumes "exec_steps (new_pool hw opts s) n p" and "n + 2 < 2 ^ 64" and "tasks (px p) \<noteq> []"
  shows "PickNextTaskIndexLocked (px p) < length (tasks (px p)) \<and>
     (let best = tasks (px p) ! PickNextTaskIndexLocked (px p) in
        (xo_policy (xoptions (px p)) \<in> {kFifo, kFair} \<longrightarrow>
           (\<forall>t\<in>set (tasks (px p)). te_seq best \<le> te_seq t)) \<and>
        (xo_policy (xoptions (px p)) \<in> {kPriority, kHybridFairPriority} \<longrightarrow>
           (\<forall>t\<in>set (tasks (px p)). te_priority t < te_priority best
              \<or> te_priority t = te_priority best \<and> te_seq best \<le> te_seq t)))"
proof -
  let ?e = "px p"
  obtain t ts where ts: "tasks ?e = t # ts" using assms(3) by (cases "tasks ?e") auto
  have "sorted_wrt (<) (map te_seq (tasks ?e))"
    using pool_inv_reach [OF assms(1,2)] by (simp add: pool_inv_def queue_inv_def)
  then have first: "\<forall>x\<in>set (tasks ?e). te_seq t \<le> te_seq x" by (auto simp: ts)
  have pr: "\<forall>x\<in>set (tasks ?e). te_priority x < te_priority (tasks ?e ! i) \<or> te_priority x = te_priority (tasks ?e ! i)
      \<and> te_seq (tasks ?e ! i) \<le> te_seq x" if i: "i = pick_best ts 1 0 (score (te_priority t)) (te_seq t)" for i
    using pick_best_correct [of "t # ts" "[t]" ts 0 "score (te_priority t)" "te_seq t"]
    unfolding i ts all_set_conv_all_nth by simp
  show ?thesis
    using PickNextTaskIndex_bound [OF assms(3)] first pr
    by (auto simp: PickNextTaskIndexLocked_def ts Let_def)
qed

definition low_then_high :: "nat pool" where
  "low_then_high = (let p = new_pool 0 (demo_options\<lparr>xo_policy := kPriority\<rparr>) 0;
      e1 = snd (SubmitEx (Some demo_body) (default_submit_options\<lparr>so_priority := kLow\<rparr>) (px p));
      e2 = snd (SubmitEx (Some demo_body) (default_submit_options\<lparr>so_priority := kHigh\<rparr>) e1)
    in p\<lparr>px := e2\<rparr>)"

lemma low_then_high_steps: "exec_steps (new_pool 0 (demo_options\<lparr>xo_policy := kPriority\<rparr>) 0) 2 low_then_high"
proof -
  let ?p = "new_pool 0 (demo_options\<lparr>xo_policy := kPriority\<rparr>) 0 :: nat pool"
  let ?q = "?p\<lparr>px := snd (SubmitEx (Some demo_body) (default_submit_options\<lparr>so_priority := kLow\<rparr>) (px ?p))\<rparr>"
  have 1: "exec_step ?p ?q"
    by (rule client_submit_ex [of "Some demo_body" "default_submit_options\<lparr>so_priority := kLow\<rparr>" _
      "fst (SubmitEx (Some demo_body) (default_submit_options\<lparr>so_priority := kLow\<rparr>) (px ?p))"]) simp
  have "exec_step ?q (?q\<lparr>px := snd (SubmitEx (Some demo_body) (default_submit_options\<lparr>so_priority := kHigh\<rparr>) (px ?q))\<rparr>)"
    by (rule client_submit_ex [of "Some demo_body" "default_submit_options\<lparr>so_priority := kHigh\<rparr>" _
      "fst (SubmitEx (Some demo_body) (default_submit_options\<lparr>so_priority := kHigh\<rparr>) (px ?q))"]) simp
  then have 2: "exec_step ?q low_then_high" by (simp add: low_then_high_def Let_def)
  have "exec_steps ?p (Suc (Suc 0)) low_then_high" by (rule steps_one [OF steps_one [OF steps_none 1] 2])
  then show ?thesis by (simp add: numeral_2_eq_2)
qed

theorem PickNextTaskIndex_correct_witness:
  "PickNextTaskIndexLocked (px low_then_high) < length (tasks (px low_then_high)) \<and>
   te_priority (tasks (px low_then_high) ! PickNextTaskIndexLocked (px low_then_high)) = kHigh"
proof -
  have "tasks (px low_then_high) \<noteq> []" by (simp add: low_then_high_def demo_eval)
  from PickNextTaskIndex_correct [OF low_then_high_steps _ this]
  have "PickNextTaskIndexLocked (px low_then_high) < length (tasks (px low_then_high))" by simp
  moreover have "te_priority (tasks (px low_then_high) ! PickNextTaskIndexLocked (px low_then_high)) = kHigh"
    by (simp add: low_then_high_def demo_eval)
  ultimately show ?thesis by simp
qed

section \<open>Serial keys\<close>


text \<open>A task with serial key 7 is submitted to the pool, picked and started.\<close>

definition demo_keyed :: "nat pool" where
  "demo_keyed = (let p = new_pool 0 demo_options 0 in p\<lparr>px := snd (SubmitWithKey 7 (Some demo_body) (px p))\<rparr>)"

definition demo_picked :: "nat pool" where
  "demo_picked = demo_keyed\<lparr>px := snd (the (worker_pick (px demo_keyed))), pworkers := [WPicked (TrackedJob 1 demo_body 7)]\<rparr>"

definition demo_running :: "nat pool" where
  "demo_running = demo_picked\<lparr>px := snd (task_begin 1 (px demo_picked)), pworkers := [WRunning 1 demo_body 7]\<rparr>"

lemma demo_running_steps: "exec_steps (new_pool 0 demo_options 0) 3 demo_running"
proof -
  let ?p = "new_pool 0 demo_options 0 :: nat pool"
  have 1: "exec_step ?p demo_keyed"
    unfolding demo_keyed_def Let_def SubmitWithKey_def
    by (rule client_submit_ex [of "Some demo_body" "default_submit_options\<lparr>so_serial_key := 7\<rparr>" _
          "fst (SubmitEx (Some demo_body) (default_submit_options\<lparr>so_serial_key := 7\<rparr>) (px ?p))"]) simp
  have w: "pworkers demo_keyed = [WIdle]" by (simp add: demo_keyed_def demo_eval)
  have pk: "fst (the (worker_pick (px demo_keyed))) = TrackedJob 1 demo_body 7" "worker_pick (px demo_keyed) \<noteq> None"
    by (simp_all add: demo_keyed_def demo_eval)
  then have pk': "worker_pick (px demo_keyed) = Some (TrackedJob 1 demo_body 7, snd (the (worker_pick (px demo_keyed))))"
    by (metis option.collapse prod.collapse)
  have 2: "exec_step demo_keyed demo_picked"
    using work_pick [of 0 demo_keyed, OF _ _ pk'] by (simp add: w demo_picked_def)
  have tb: "task_begin 1 (px demo_picked) = (False, snd (task_begin 1 (px demo_picked)))"
    by (simp add: demo_picked_def demo_keyed_def demo_eval)
  have w2: "pworkers demo_picked = [WPicked (TrackedJob 1 demo_body 7)]" by (simp add: demo_picked_def)
  have 3: "exec_step demo_picked demo_running"
    using work_begin [of 0 demo_picked 1 demo_body 7, OF _ _ _ tb] by (simp add: w2 demo_running_def key_free_def)
  have "exec_steps ?p (Suc (Suc (Suc 0))) demo_running"
    by (rule steps_one [OF steps_one [OF steps_one [OF steps_none 1] 2] 3])
  then show ?thesis by (simp add: numeral_3_eq_3)
qed


section \<open>Cancellation\<close>

text \<open>Once \<open>TryCancel\<close> has succeeded, the state of the task says so for as long as the table keeps it,
  and the id is never given out again.\<close>

definition revoked :: "TaskId \<Rightarrow> 's Executor \<Rightarrow> bool" where
  "revoked i e \<longleftrightarrow> unat i < unat (next_task_id e) \<and> (case get_state e i of None \<Rightarrow> True | Some st \<Rightarrow> canceled st)"

lemma revoked_frame: "revoked i e \<Longrightarrow> get_state e' = get_state e \<Longrightarrow> next_task_id e' = next_task_id e \<Longrightarrow> revoked i e'"
  by (simp add: revoked_def)

lemma revoked_MarkTaskDone:
  assumes "revoked i e" and "table_inv n e0 W R" and "get_state e j = Some st"
    and "max_retained_states e = max_retained_states e0" and "done_ids e = done_ids e0"
  shows "revoked i (MarkTaskDone j ex fl e)"
proof -
  have mx: "max_retained_states e = 65536" "length (done_ids e) \<le> 65536" using assms(2,4,5) by (auto simp: table_inv_def)
  note f = MarkTaskDone_fields [OF assms(3) mx]
  show ?thesis using assms(1,3) unfolding revoked_def f(1,5) by (auto split: option.splits)
qed

lemma revoked_task_begin: "revoked i e \<Longrightarrow> task_begin j e = (c, e') \<Longrightarrow> revoked i e'"
  by (auto simp: revoked_def task_begin_def split: option.splits if_splits)

lemma revoked_step:
  assumes st: "exec_step p q" and inv: "pool_inv n p" and n: "n + 2 < 2 ^ 64" and rv: "revoked i (px p)"
  shows "revoked i (px q)"
proof -
  have tab: "table_inv n (px p) (queued (px p) + picked (pworkers p)) (running (pworkers p))"
    using inv by (simp add: pool_inv_def)
  have "unat (next_task_id (px p)) \<le> Suc n" using tab unfolding table_inv_def by blast
  then have "unat (next_task_id (px p)) + 1 < 2 ^ 64" using n by linarith
  then have nx: "unat (next_task_id (px p) + 1) = unat (next_task_id (px p)) + 1" by (rule unat_succ_u64)
  show ?thesis using st
  proof cases
    case (client_submit fn s e)
    have "get_state e = get_state (px p) \<and> next_task_id e = next_task_id (px p)"
      using client_submit(2) unfolding Submit_def Enqueue_def get_state_def by (auto simp: Let_def split: option.splits if_splits)
    then show ?thesis using rv by (simp add: revoked_def client_submit(1))
  next
    case (client_submit_ex fn opts r e)
    show ?thesis
    proof (cases "result_ok r")
      case True
      have "next_task_id (px p) \<noteq> i" using rv by (auto simp: revoked_def)
      then show ?thesis using SubmitEx_ok [OF client_submit_ex(2) True] rv nx by (auto simp: revoked_def client_submit_ex(1))
    next
      case False
      show ?thesis
        using SubmitEx_refused [OF client_submit_ex(2) False table_fresh(1) [OF tab] table_fresh(4) [OF tab]] rv nx
        by (auto simp: revoked_def client_submit_ex(1))
    qed
  next
    case (client_cancel j s e)
    then show ?thesis using rv
      by (auto simp: TryCancel_def revoked_def split: option.splits if_splits)
  next
    case (work_pick k j e)
    obtain l where "e = (px p)\<lparr>tasks := erase_at l (tasks (px p)), active_workers := active_workers (px p) + 1\<rparr>"
      by (rule worker_pick_effect [OF work_pick(4)])
    then show ?thesis using rv by (simp add: revoked_def work_pick(1))
  next
    case (work_begin k j f key e)
    then show ?thesis using revoked_task_begin [OF rv] by simp
  next
    case (work_skip k j f key e)
    have "picked (pworkers p) = add_mset j (picked ((pworkers p)[k := WFinishing]))"
      using picked_update [OF work_skip(2), of WFinishing] work_skip(3) by simp
    then have "j \<in># queued (px p) + picked (pworkers p)" by simp
    then obtain st where e: "e = put_state j (st\<lparr>started := True\<rparr>) (px p)" using table_begin [OF tab _ work_skip(5)] by blast
    show ?thesis
      using revoked_MarkTaskDone [OF revoked_task_begin [OF rv work_skip(5)] tab] by (simp add: e work_skip(1))
  next
    case (work_end k j f key s' threw)
    have "running (pworkers p) = add_mset j (running ((pworkers p)[k := WFinishing]))"
      using running_update [OF work_end(2), of WFinishing] work_end(3) by simp
    then have "j \<in># running (pworkers p)" by simp
    then obtain st where "get_state (px p) j = Some st" using table_running [OF tab] by blast
    from revoked_MarkTaskDone [OF rv tab this refl refl] show ?thesis by (simp add: work_end(1))
  qed (use rv in \<open>auto simp: revoked_def Reconfigure_def stop_def plain_done_def worker_finish_def Let_def\<close>)
qed

lemma revoked_not_running:
  assumes "pool_inv n p" and "revoked i (px p)"
  shows "WRunning i f key \<notin> set (pworkers p)"
proof
  assume "WRunning i f key \<in> set (pworkers p)"
  then have "i \<in># running (pworkers p)" by (force simp: running_def)
  then obtain st where "get_state (px p) i = Some st" "running_state st"
    using assms(1) table_running unfolding pool_inv_def by blast
  then show False using assms(2) by (simp add: revoked_def running_state_def)
qed

lemma revoked_steps:
  "exec_steps p m q \<Longrightarrow> pool_inv n p \<Longrightarrow> n + m + 2 < 2 ^ 64 \<Longrightarrow> revoked i (px p) \<Longrightarrow> revoked i (px q)"
proof (induction rule: exec_steps.induct)
  case (steps_one m q q')
  then have "pool_inv (n + m) q" using pool_inv_steps [of p m q n] by simp
  then show ?case using steps_one revoked_step [of q q' "n + m"] by simp
qed

lemma TryCancel_revokes:
  assumes "pool_inv n p" and "TryCancel i (px p) = (s, e)" and "status_ok s"
  shows "revoked i e"
proof -
  have tab: "table_inv n (px p) (queued (px p) + picked (pworkers p)) (running (pworkers p))"
    using assms(1) by (simp add: pool_inv_def)
  obtain st where st: "get_state (px p) i = Some st"
    and e: "e = (put_state i (st\<lparr>canceled := True\<rparr>) (px p))\<lparr>stats := stats e\<rparr>"
    using TryCancel_cases [OF assms(2)] assms(3) by blast
  have "get_state e i = Some (st\<lparr>canceled := True\<rparr>)" by (subst e) simp
  moreover have "next_task_id e = next_task_id (px p)" by (subst e) simp
  moreover have "unat i < unat (next_task_id (px p))" using tab st unfolding table_inv_def by blast
  ultimately show ?thesis by (simp add: revoked_def)
qed

text \<open>C32: When \<open>TryCancel\<close> returns ok in a reachable state, no worker runs the task in that state or in
  any state reached later.\<close>

theorem TryCancel_never_runs:
  assumes "exec_steps (new_pool hw opts s) n p" and "TryCancel i (px p) = (st, e)" and "status_ok st"
    and "exec_steps (p\<lparr>px := e\<rparr>) m q" and "n + m + 2 < 2 ^ 64"
  shows "WRunning i f key \<notin> set (pworkers q)"
proof -
  have inv: "pool_inv n p" using pool_inv_reach [OF assms(1)] assms(5) by simp
  have inv': "pool_inv n (p\<lparr>px := e\<rparr>)" by (rule inv_cancel [OF inv assms(2)])
  have "revoked i (px (p\<lparr>px := e\<rparr>))" using TryCancel_revokes [OF inv assms(2,3)] by simp
  then have "revoked i (px q)" by (rule revoked_steps [OF assms(4) inv' assms(5)])
  then show ?thesis by (rule revoked_not_running [OF pool_inv_steps [OF assms(4) inv' assms(5)]])
qed

definition demo_cancelled :: "Status \<times> nat Executor" where
  "demo_cancelled = TryCancel 1 (px demo_submitted)"

theorem TryCancel_never_runs_witness:
  "status_ok (fst demo_cancelled) \<and> WRunning 1 demo_body 0 \<notin> set (pworkers (demo_submitted\<lparr>px := snd demo_cancelled\<rparr>))"
proof -
  have ok: "status_ok (fst demo_cancelled)"
    by (simp add: demo_cancelled_def TryCancel_def demo_submitted_def demo_eval)
  have c: "TryCancel 1 (px demo_submitted) = (fst demo_cancelled, snd demo_cancelled)" by (simp add: demo_cancelled_def)
  from TryCancel_never_runs [OF demo_submitted_steps c ok steps_none] ok show ?thesis by simp
qed

text \<open>A second \<open>TryCancel\<close> of a task that has not started succeeds again and is counted again:
  \<open>stats_.canceled\<close> counts calls, not tasks, and can exceed \<open>stats_.submitted\<close>.\<close>

theorem TryCancel_counts_twice:
  "let (s1, e1) = TryCancel 1 (px demo_submitted); (s2, e2) = TryCancel 1 e1
   in status_ok s1 \<and> status_ok s2 \<and> xs_submitted (stats e2) = 1 \<and> xs_canceled (stats e2) = 2"
  by (simp add: TryCancel_def demo_submitted_def demo_eval)

section \<open>Waiting\<close>

text \<open>In every reachable state \<open>Wait\<close> without timeout blocks exactly for the ids that are queued,
  just picked or running: an id that was never registered, was refused or has expired is reported
  at once, and a task that is done is reported ok at once.\<close>

theorem Wait_blocks_iff_live:
  assumes "exec_steps (new_pool hw opts s) n p" and "n + 2 < 2 ^ 64"
  shows "Wait_now i (px p) = None \<longleftrightarrow>
     (\<exists>t\<in>set (tasks (px p)). i \<in> set (job_ids (te_fn t))) \<or> (\<exists>w\<in>set (pworkers p). i \<in> set (wait_ids w @ run_ids w))"
proof -
  let ?W = "queued (px p) + picked (pworkers p)" and ?R = "running (pworkers p)"
  have tab: "table_inv n (px p) ?W ?R" using pool_inv_reach [OF assms] by (simp add: pool_inv_def)
  have "Wait_now i (px p) = None \<longleftrightarrow> (\<exists>st. get_state (px p) i = Some st \<and> \<not> ts_done st)"
    by (simp add: Wait_now_def split: option.splits)
  also have "\<dots> \<longleftrightarrow> i \<in># ?W + ?R"
    using tab unfolding table_inv_def waiting_state_def running_state_def union_iff by blast
  also have "\<dots> \<longleftrightarrow> (\<exists>t\<in>set (tasks (px p)). i \<in> set (job_ids (te_fn t)))
      \<or> (\<exists>w\<in>set (pworkers p). i \<in> set (wait_ids w @ run_ids w))"
    unfolding queued_def picked_def running_def by auto
  finally show ?thesis .
qed

theorem Wait_blocks_iff_live_witness:
  "Wait_now 1 (px demo_submitted) = None \<and> Wait_now 2 (px demo_submitted) \<noteq> None"
  using Wait_blocks_iff_live [OF demo_submitted_steps, of 1] Wait_blocks_iff_live [OF demo_submitted_steps, of 2]
  by (simp add: demo_submitted_def demo_eval)

text \<open>In every reachable state the results of at most 65536 tasks are kept, every id in
  \<open>done_ids_\<close> has its result, and \<open>pending_ids_\<close> is the set of the ids that are not done.\<close>

theorem results_retained:
  assumes "exec_steps (new_pool hw opts s) n p" and "n + 2 < 2 ^ 64"
  shows "length (done_ids (px p)) \<le> 65536 \<and> distinct (done_ids (px p)) \<and>
     {i. \<exists>st. get_state (px p) i = Some st \<and> ts_done st} = set (done_ids (px p)) \<and>
     {i. \<exists>st. get_state (px p) i = Some st \<and> \<not> ts_done st} = set (pending_ids (px p))"
proof -
  let ?W = "queued (px p) + picked (pworkers p)" and ?R = "running (pworkers p)"
  have tab: "table_inv n (px p) ?W ?R" using pool_inv_reach [OF assms] by (simp add: pool_inv_def)
  have "(\<exists>st. get_state (px p) i = Some st \<and> \<not> ts_done st) \<longleftrightarrow> i \<in> set (pending_ids (px p))" for i
    using tab unfolding table_inv_def waiting_state_def running_state_def union_iff set_eq_iff by blast
  moreover have "(\<exists>st. get_state (px p) i = Some st \<and> ts_done st) \<longleftrightarrow> i \<in> set (done_ids (px p))" for i
    using tab unfolding table_inv_def by blast
  ultimately show ?thesis using tab unfolding table_inv_def by blast
qed

theorem results_retained_witness:
  "length (done_ids (px demo_submitted)) \<le> 65536 \<and> set (pending_ids (px demo_submitted)) = {1}"
  using results_retained [OF demo_submitted_steps] by (simp add: demo_submitted_def demo_eval oset_insert.simps)

section \<open>Progress and termination\<close>

fun worker_weight :: "'s worker \<Rightarrow> nat" where
  "worker_weight WExited = 0"
| "worker_weight WIdle = 1"
| "worker_weight WFinishing = 2"
| "worker_weight (WRunning i f key) = 3"
| "worker_weight (WPicked j) = 4"

definition work_left :: "'s pool \<Rightarrow> nat" where
  "work_left p = 4 * length (tasks (px p)) + sum_list (map worker_weight (pworkers p))"

text \<open>A step of a worker is one that changes the state of a worker; clients change none.\<close>

definition worker_step :: "'s pool \<Rightarrow> 's pool \<Rightarrow> bool" where
  "worker_step p q \<longleftrightarrow> exec_step p q \<and> pworkers q \<noteq> pworkers p"

lemma sum_list_update_weight:
  "k < length ws \<Longrightarrow> sum_list (map f (ws[k := w])) + f (ws ! k) = sum_list (map f ws) + (f w :: nat)"
proof (induction ws arbitrary: k)
  case (Cons x ws)
  then show ?case by (cases k) auto
qed simp

lemma worker_step_decreases: "worker_step p q \<Longrightarrow> work_left q < work_left p"
proof -
  assume "worker_step p q"
  then have "exec_step p q" and ne: "pworkers q \<noteq> pworkers p" by (auto simp: worker_step_def)
  then show ?thesis
  proof cases
    case (work_pick k j e)
    obtain i where i: "i < length (tasks (px p))"
      and e: "e = (px p)\<lparr>tasks := erase_at i (tasks (px p)), active_workers := active_workers (px p) + 1\<rparr>"
      by (rule worker_pick_effect [OF work_pick(4)])
    have "length (erase_at i (tasks (px p))) = length (tasks (px p)) - 1" using i by (simp add: erase_at_def)
    then show ?thesis
      using sum_list_update_weight [OF work_pick(2), of worker_weight "WPicked j"] i work_pick(3)
      by (simp add: work_left_def work_pick(1) e)
  next
    case (work_begin k i f key e)
    then show ?thesis using sum_list_update_weight [OF work_begin(2), of worker_weight "WRunning i f key"]
      by (simp add: work_left_def task_begin_def split: option.splits)
        (auto simp: put_state_def)
  next
    case (work_skip k i f key e)
    then have "tasks e = tasks (px p)" by (auto simp: task_begin_def split: option.splits)
    then show ?thesis using sum_list_update_weight [OF work_skip(2), of worker_weight WFinishing] work_skip(3)
      by (simp add: work_left_def work_skip(1))
  next
    case (work_end k i f key s' threw)
    then show ?thesis using sum_list_update_weight [OF work_end(2), of worker_weight WFinishing]
      by (simp add: work_left_def)
  next
    case (work_plain k f s' threw)
    then show ?thesis using sum_list_update_weight [OF work_plain(2), of worker_weight WFinishing]
      by (simp add: work_left_def plain_done_def)
  next
    case (work_finish k)
    then show ?thesis using sum_list_update_weight [OF work_finish(2), of worker_weight WIdle]
      by (simp add: work_left_def worker_finish_def Let_def)
  next
    case (work_exit k)
    then show ?thesis using sum_list_update_weight [OF work_exit(2), of worker_weight WExited]
      by (simp add: work_left_def)
  qed (use ne in simp_all)
qed

lemma list_update_ne: "k < length ws \<Longrightarrow> ws ! k \<noteq> w \<Longrightarrow> ws[k := w] \<noteq> ws"
  by (metis nth_list_update_eq)

text \<open>While a task is queued or held, some worker can move: the holder of a serial key never waits.\<close>

lemma worker_progress:
  assumes inv: "pool_inv n p" and w: "pworkers p \<noteq> []" and busyp: "\<not> all_idle (px p)"
  shows "\<exists>q. worker_step p q"
proof -
  have c: "counts_ok p" using inv by (simp add: pool_inv_def)
  have mv: "\<exists>q. worker_step p q" if "exec_step p q" "pworkers q \<noteq> pworkers p" for q
    using that by (auto simp: worker_step_def)
  show ?thesis
  proof (cases "\<exists>k < length (pworkers p). (\<exists>i f key. pworkers p ! k = WRunning i f key) \<or> pworkers p ! k = WFinishing
      \<or> (\<exists>f. pworkers p ! k = WPicked (PlainJob f))")
    case True
    then obtain k where k: "k < length (pworkers p)" and
      cs: "(\<exists>i f key. pworkers p ! k = WRunning i f key) \<or> pworkers p ! k = WFinishing \<or> (\<exists>f. pworkers p ! k = WPicked (PlainJob f))"
      by blast
    from cs show ?thesis
    proof (elim disjE exE)
      fix i f key assume r: "pworkers p ! k = WRunning i f key"
      obtain s' t where "f (pshared p) = (s', t)" by (metis surj_pair)
      from mv [OF work_end [OF k r this]] show ?thesis using k r by (simp add: list_update_ne)
    next
      assume r: "pworkers p ! k = WFinishing"
      from mv [OF work_finish [OF k r]] show ?thesis using k r by (simp add: list_update_ne)
    next
      fix f assume r: "pworkers p ! k = WPicked (PlainJob f)"
      obtain s' t where "f (pshared p) = (s', t)" by (metis surj_pair)
      from mv [OF work_plain [OF k r this]] show ?thesis using k r by (simp add: list_update_ne)
    qed
  next
    case False
    have shape: "pworkers p ! k = WIdle \<or> pworkers p ! k = WExited \<or> (\<exists>i f key. pworkers p ! k = WPicked (TrackedJob i f key))"
      if "k < length (pworkers p)" for k
    proof (cases "pworkers p ! k")
      case (WPicked j)
      then show ?thesis using that False by (cases j) auto
    qed (use that False in auto)
    then have free: "key_free key (pworkers p)" for key
      unfolding key_free_def in_set_conv_nth by (metis holds_key.simps(2,3,5) in_set_conv_nth)
    show ?thesis
    proof (cases "\<exists>k < length (pworkers p). busy (pworkers p ! k)")
      case True
      then obtain k i f key where k: "k < length (pworkers p)" and r: "pworkers p ! k = WPicked (TrackedJob i f key)"
        using shape by (metis busy.simps(1,2))
      obtain b e where tb: "task_begin i (px p) = (b, e)" by (metis surj_pair)
      show ?thesis
      proof (cases b)
        case True
        from mv [OF work_skip [OF k r free]] show ?thesis using k r tb True by (simp add: list_update_ne)
      next
        case False
        from mv [OF work_begin [OF k r free]] show ?thesis using k r tb False by (simp add: list_update_ne)
      qed
    next
      case False
      then have nb: "filter busy (pworkers p) = []" by (simp add: filter_empty_conv all_set_conv_all_nth)
      then have ts: "tasks (px p) \<noteq> []" using c busyp by (auto simp: counts_ok_def all_idle_def)
      then have "WExited \<notin> set (pworkers p)" using c by (auto simp: counts_ok_def)
      then have r: "pworkers p ! 0 = WIdle" and k: "0 < length (pworkers p)"
        using w nb by (cases "pworkers p"; auto simp: not_busy_iff split: if_splits)+
      obtain j e where pk: "worker_pick (px p) = Some (j, e)" using ts by (simp add: worker_pick_def Let_def)
      from mv [OF work_pick [OF k r pk]] show ?thesis using k r by (simp add: list_update_ne)
    qed
  qed
qed

inductive worker_run :: "'s pool \<Rightarrow> nat \<Rightarrow> 's pool \<Rightarrow> bool" where
  run_done: "worker_run p 0 p"
| run_step: "worker_step p q \<Longrightarrow> worker_run q n r \<Longrightarrow> worker_run p (Suc n) r"

lemma worker_run_bound: "worker_run p m q \<Longrightarrow> m + work_left q \<le> work_left p"
  by (induction rule: worker_run.induct) (auto dest: worker_step_decreases)

lemma worker_drains:
  assumes "pool_inv n p" and "pworkers p \<noteq> []" and "n + work_left p + 2 < 2 ^ 64"
  shows "\<exists>m q. worker_run p m q \<and> all_idle (px q)"
  using assms
proof (induction "work_left p" arbitrary: p n rule: less_induct)
  case less
  show ?case
  proof (cases "all_idle (px p)")
    case True
    then show ?thesis using run_done by blast
  next
    case False
    then obtain q where q: "worker_step p q" using worker_progress less.prems(1,2) by blast
    then have st: "exec_step p q" by (simp add: worker_step_def)
    have lt: "work_left q < work_left p" by (rule worker_step_decreases [OF q])
    have "pool_inv (Suc n) q" using pool_inv_step [OF st less.prems(1)] less.prems(3) by simp
    moreover have "pworkers q \<noteq> []" using exec_step_workers_length [OF st] less.prems(2) by auto
    ultimately obtain m r where "worker_run q m r" "all_idle (px r)"
      using less.hyps [OF lt, of "Suc n"] lt less.prems(3) by auto
    then show ?thesis using run_step [OF q] by blast
  qed
qed

text \<open>C21: From every reachable state in which a task is queued or held, some worker can move; every run
  of worker steps is at most \<open>work_left\<close> steps long; and the workers alone reach a state in which
  the condition of \<open>WaitAll\<close> holds, so \<open>WaitAll\<close> returns when clients stop submitting.\<close>

theorem WaitAll_returns:
  assumes "exec_steps (new_pool hw opts s) n p" and "n + work_left p + 2 < 2 ^ 64"
  shows "(\<not> all_idle (px p) \<longrightarrow> (\<exists>q. worker_step p q)) \<and>
     (\<forall>m q. worker_run p m q \<longrightarrow> m \<le> work_left p) \<and>
     (\<exists>m q. worker_run p m q \<and> all_idle (px q))"
proof -
  have inv: "pool_inv n p" using pool_inv_reach [OF assms(1)] assms(2) by simp
  have ws: "pworkers p \<noteq> []"
    using exec_steps_workers_length [OF assms(1)] new_pool_workers [of hw opts s] by auto
  show ?thesis
    using worker_progress [OF inv ws] worker_drains [OF inv ws assms(2)] worker_run_bound by fastforce
qed

theorem WaitAll_returns_witness:
  "\<not> all_idle (px demo_submitted) \<and> (\<exists>m q. worker_run demo_submitted m q \<and> all_idle (px q))"
proof -
  have "1 + work_left demo_submitted + 2 < 2 ^ 64" by (simp add: work_left_def demo_submitted_def demo_eval)
  from WaitAll_returns [OF demo_submitted_steps this]
  have "\<exists>m q. worker_run demo_submitted m q \<and> all_idle (px q)" by blast
  moreover have "\<not> all_idle (px demo_submitted)" by (simp add: all_idle_def demo_submitted_def demo_eval)
  ultimately show ?thesis by blast
qed

end
