(* ===== verification/CK_Executor_Client.thy ===== *)
theory CK_Executor_Client
  imports CK_Executor_Props CK_TaskGraph_Exec
begin

text \<open>
  The thread pool as seen by one client thread that submits tasks, waits for them and runs
  \<open>ParallelFor\<close>. A schedule says, for every tick of a clock, how many steps the workers make before
  the next call of the client and which worker moves next; a worker that cannot move is replaced by
  the first one that can. Every interleaving of the workers with the client is given by some
  schedule, and the theorems hold for all of them.
\<close>

section \<open>Moves of workers\<close>

definition set_worker :: "nat \<Rightarrow> 's worker \<Rightarrow> 's Executor \<Rightarrow> 's \<Rightarrow> 's pool \<Rightarrow> 's pool" where
  "set_worker k w e s p = p\<lparr>px := e, pshared := s, pworkers := (pworkers p)[k := w]\<rparr>"

definition worker_move :: "nat \<Rightarrow> 's pool \<Rightarrow> 's pool option" where
  "worker_move k p =
     (if k < length (pworkers p) then
        case pworkers p ! k of
          WIdle \<Rightarrow> (case worker_pick (px p) of
              Some (j, e) \<Rightarrow> Some (set_worker k (WPicked j) e (pshared p) p)
            | None \<Rightarrow> if stopping (px p) then Some (set_worker k WExited (px p) (pshared p) p) else None)
        | WPicked (PlainJob f) \<Rightarrow>
            (let (s', threw) = f (pshared p) in Some (set_worker k WFinishing (plain_done threw (px p)) s' p))
        | WPicked (TrackedJob i f key) \<Rightarrow>
            if key_free key (pworkers p) then
              let (c, e) = task_begin i (px p)
              in if c then Some (set_worker k WFinishing (MarkTaskDone i False False e) (pshared p) p)
                 else Some (set_worker k (WRunning i f key) e (pshared p) p)
            else None
        | WRunning i f key \<Rightarrow>
            (let (s', threw) = f (pshared p)
             in Some (set_worker k WFinishing (MarkTaskDone i (\<not> threw) threw (px p)) s' p))
        | WFinishing \<Rightarrow> Some (set_worker k WIdle (worker_finish (px p)) (pshared p) p)
        | WExited \<Rightarrow> None
      else None)"

lemma worker_move_sound: "worker_move k p = Some q \<Longrightarrow> worker_step p q"
proof -
  assume m: "worker_move k p = Some q"
  then have k: "k < length (pworkers p)" by (auto simp: worker_move_def split: if_splits)
  have ne: "(pworkers p)[k := w] \<noteq> pworkers p" if "pworkers p ! k \<noteq> w" for w
    using list_update_ne [OF k that] .
  have "exec_step p q \<and> pworkers q \<noteq> pworkers p"
  proof (cases "pworkers p ! k")
    case WIdle
    then show ?thesis
    proof (cases "worker_pick (px p)")
      case None
      then have "tasks (px p) = []" by (auto simp: worker_pick_def Let_def split: if_splits)
      then show ?thesis using m k WIdle None work_exit [OF k WIdle] ne [of WExited]
        by (auto simp: worker_move_def set_worker_def split: if_splits)
    next
      case (Some je)
      obtain j e where je: "je = (j, e)" by (metis surj_pair)
      then show ?thesis using m k WIdle Some work_pick [OF k WIdle, of j e] ne [of "WPicked j"]
        by (auto simp: worker_move_def set_worker_def)
    qed
  next
    case (WPicked j)
    show ?thesis
    proof (cases j)
      case (PlainJob f)
      then show ?thesis using m k WPicked ne [of WFinishing] work_plain [OF k, of f]
        by (auto simp: worker_move_def set_worker_def split: prod.splits)
    next
      case (TrackedJob i f key)
      then show ?thesis using m k WPicked ne [of WFinishing] ne [of "WRunning i f key"] work_begin [OF k, of i f key] work_skip [OF k, of i f key]
        by (auto simp: worker_move_def set_worker_def split: prod.splits if_splits)
    qed
  next
    case (WRunning i f key)
    then show ?thesis using m k ne [of WFinishing] work_end [OF k WRunning]
      by (auto simp: worker_move_def set_worker_def split: prod.splits)
  next
    case WFinishing
    then show ?thesis using m k ne [of WIdle] work_finish [OF k WFinishing] by (auto simp: worker_move_def set_worker_def)
  next
    case WExited
    then show ?thesis using m k by (simp add: worker_move_def)
  qed
  then show ?thesis by (simp add: worker_step_def)
qed

lemma worker_move_complete:
  assumes "worker_step p q"
  shows "\<exists>k < length (pworkers p). worker_move k p \<noteq> None"
proof -
  have "exec_step p q" and ne: "pworkers q \<noteq> pworkers p" using assms by (auto simp: worker_step_def)
  then show ?thesis
  proof cases
    case (work_exit k)
    then show ?thesis by (auto simp: worker_move_def worker_pick_def intro!: exI [of _ k])
  next
    case (work_pick k j e)
    then show ?thesis by (auto simp: worker_move_def intro!: exI [of _ k])
  next
    case (work_begin k i f key e)
    then show ?thesis by (auto simp: worker_move_def intro!: exI [of _ k])
  next
    case (work_skip k i f key e)
    then show ?thesis by (auto simp: worker_move_def intro!: exI [of _ k])
  next
    case (work_end k i f key s' threw)
    then show ?thesis by (auto simp: worker_move_def split: prod.splits intro!: exI [of _ k])
  next
    case (work_plain k f s' threw)
    then show ?thesis by (auto simp: worker_move_def split: prod.splits intro!: exI [of _ k])
  next
    case (work_finish k)
    then show ?thesis by (auto simp: worker_move_def intro!: exI [of _ k])
  qed (use ne in simp_all)
qed

section \<open>A client under a schedule\<close>

record schedule =
  burst :: "nat \<Rightarrow> nat"
  turn :: "nat \<Rightarrow> nat"

type_synonym 's client = "nat \<times> 's pool"

definition next_move :: "schedule \<Rightarrow> nat \<Rightarrow> 's pool \<Rightarrow> 's pool option" where
  "next_move sc t p =
     (case worker_move (turn sc t) p of
        Some q \<Rightarrow> Some q
      | None \<Rightarrow> (case find (\<lambda>k. worker_move k p \<noteq> None) [0..<length (pworkers p)] of
                   Some k \<Rightarrow> worker_move k p
                 | None \<Rightarrow> None))"

fun moves :: "schedule \<Rightarrow> nat \<Rightarrow> 's client \<Rightarrow> 's client" where
  "moves sc 0 (t, p) = (t, p)"
| "moves sc (Suc n) (t, p) =
     (case next_move sc t p of None \<Rightarrow> (t, p) | Some q \<Rightarrow> moves sc n (Suc t, q))"

text \<open>The steps the workers make before a call of the client.\<close>

definition before_call :: "schedule \<Rightarrow> 's client \<Rightarrow> 's client" where
  "before_call sc c = moves sc (burst sc (fst c)) c"

lemma next_move_step: "next_move sc t p = Some q \<Longrightarrow> worker_step p q"
  by (auto simp: next_move_def intro: worker_move_sound split: option.splits)

lemma next_move_progress: "worker_step p q \<Longrightarrow> next_move sc t p \<noteq> None"
proof -
  assume "worker_step p q"
  then obtain k where "k < length (pworkers p)" "worker_move k p \<noteq> None" using worker_move_complete by blast
  then obtain l where l: "find (\<lambda>k. worker_move k p \<noteq> None) [0..<length (pworkers p)] = Some l"
    by (cases "find (\<lambda>k. worker_move k p \<noteq> None) [0..<length (pworkers p)]") (auto simp: find_None_iff)
  then have "worker_move l p \<noteq> None" unfolding find_Some_iff by blast
  then show ?thesis unfolding next_move_def l by (simp split: option.splits)
qed

text \<open>\<open>Wait\<close> without timeout. The result \<open>None\<close> means that the client is blocked and no worker can
  move.\<close>

function Wait :: "schedule \<Rightarrow> TaskId \<Rightarrow> nat \<Rightarrow> 's pool \<Rightarrow> (Status \<times> 's client) option" where
  "Wait sc i t p =
     (case Wait_now i (px p) of
        Some st \<Rightarrow> Some (st, t, p)
      | None \<Rightarrow> (case next_move sc t p of None \<Rightarrow> None | Some q \<Rightarrow> Wait sc i (Suc t) q))"
  by pat_completeness auto
termination
  by (relation "measure (\<lambda>(sc, i, t, p). work_left p)")
    (auto dest: next_move_step worker_step_decreases)

declare Wait.simps [simp del]

text \<open>\<open>WaitBatch\<close> with \<open>timeout_ms = 0\<close>.\<close>

fun WaitBatch :: "schedule \<Rightarrow> TaskId list \<Rightarrow> 's client \<Rightarrow> (Status \<times> 's client) option" where
  "WaitBatch sc [] c = Some (Status_Ok, c)"
| "WaitBatch sc (i # is) c =
     (case Wait sc i (fst c) (snd c) of
        None \<Rightarrow> None
      | Some (st, c') \<Rightarrow> if \<not> status_ok st then Some (st, c') else WaitBatch sc is c')"

definition client_SubmitEx ::
    "schedule \<Rightarrow> 's body option \<Rightarrow> TaskSubmitOptions \<Rightarrow> 's client \<Rightarrow> TaskId Result \<times> 's client" where
  "client_SubmitEx sc fn opts c =
     (let (t, p) = before_call sc c; (r, e) = SubmitEx fn opts (px p) in (r, (t, p\<lparr>px := e\<rparr>)))"

definition client_WaitBatch :: "schedule \<Rightarrow> TaskId list \<Rightarrow> 's client \<Rightarrow> (Status \<times> 's client) option" where
  "client_WaitBatch sc ids c = WaitBatch sc ids (before_call sc c)"

text \<open>The body of a chunk of \<open>ParallelFor\<close>: an exception of \<open>fn\<close> leaves the loop and ends the task.\<close>

function chunk_body :: "(size_t \<Rightarrow> 's body) \<Rightarrow> size_t \<Rightarrow> size_t \<Rightarrow> 's body" where
  "chunk_body fn i chunk_end s =
     (if i < chunk_end then
        let (s', threw) = fn i s in if threw then (s', True) else chunk_body fn (i + 1) chunk_end s'
      else (s, False))"
  by pat_completeness auto
termination
proof (relation "measure (\<lambda>(fn, i, chunk_end, s). unat chunk_end - unat i)", goal_cases)
  case (2 fn i chunk_end s x s' threw)
  then have lt: "unat i < unat chunk_end" by (simp add: word_less_nat_alt)
  then show ?case using unat_succ_below [OF lt] by simp
qed simp

declare chunk_body.simps [simp del]

partial_function (option) ParallelFor_loop ::
    "schedule \<Rightarrow> size_t \<Rightarrow> size_t \<Rightarrow> (size_t \<Rightarrow> 's body) \<Rightarrow> size_t \<Rightarrow> TaskId list \<Rightarrow> 's client \<Rightarrow> (Status \<times> 's client) option" where
  "ParallelFor_loop sc range_end grain fn chunk_begin ids c =
     (if chunk_begin < range_end then
        let chunk_end = min (chunk_begin + grain) range_end;
            (sub, c') = client_SubmitEx sc (Some (chunk_body fn chunk_begin chunk_end)) default_submit_options c
        in if \<not> result_ok sub
           then (if ids \<noteq> [] then (case client_WaitBatch sc ids c' of None \<Rightarrow> None | Some (st, c'') \<Rightarrow> Some (res_status sub, c''))
                 else Some (res_status sub, c'))
           else ParallelFor_loop sc range_end grain fn (chunk_begin + grain) (ids @ [res_value sub]) c'
      else if ids = [] then Some (Status_Ok, c) else client_WaitBatch sc ids c)"

definition ParallelFor ::
    "schedule \<Rightarrow> size_t \<Rightarrow> size_t \<Rightarrow> size_t \<Rightarrow> (size_t \<Rightarrow> 's body) option \<Rightarrow> 's client \<Rightarrow> (Status \<times> 's client) option" where
  "ParallelFor sc range_begin range_end grain fn c =
     (case fn of None \<Rightarrow> Some (task_status kInvalidArgument ''fn is empty'', c)
      | Some f \<Rightarrow>
          if range_end < range_begin then Some (task_status kInvalidArgument ''end must be >= begin'', c)
          else if range_begin = range_end then Some (Status_Ok, c)
          else ParallelFor_loop sc range_end (if grain = 0 then 1 else grain) f range_begin [] c)"

section \<open>What a client may rely on\<close>

fun job_pairs :: "'s job \<Rightarrow> (TaskId \<times> 's body) list" where
  "job_pairs (PlainJob f) = []"
| "job_pairs (TrackedJob i f key) = [(i, f)]"

fun worker_pairs :: "'s worker \<Rightarrow> (TaskId \<times> 's body) list" where
  "worker_pairs (WPicked j) = job_pairs j"
| "worker_pairs (WRunning i f key) = [(i, f)]"
| "worker_pairs w = []"

definition live_jobs :: "'s pool \<Rightarrow> (TaskId \<times> 's body) list" where
  "live_jobs p = concat (map (job_pairs \<circ> te_fn) (tasks (px p))) @ concat (map worker_pairs (pworkers p))"

fun tracked :: "'s job \<Rightarrow> bool" where
  "tracked (PlainJob f) = False"
| "tracked (TrackedJob i f key) = True"

fun tracked_worker :: "'s worker \<Rightarrow> bool" where
  "tracked_worker (WPicked j) = tracked j"
| "tracked_worker w = True"

text \<open>Only tracked tasks, none of them cancelled.\<close>

definition quiet :: "'s pool \<Rightarrow> bool" where
  "quiet p \<longleftrightarrow> (\<forall>t\<in>set (tasks (px p)). tracked (te_fn t)) \<and> (\<forall>w\<in>set (pworkers p). tracked_worker w) \<and>
     (\<forall>i st. get_state (px p) i = Some st \<longrightarrow> \<not> canceled st)"

definition id_level :: "'s pool \<Rightarrow> nat" where
  "id_level p = max (unat (next_task_id (px p))) (unat (enqueue_seq (px p)))"

definition known :: "'s pool \<Rightarrow> TaskId set" where
  "known p = {i. get_state (px p) i \<noteq> None}"

text \<open>\<open>n\<close> is the number of further submissions for which no result is forgotten.\<close>

definition client_inv :: "nat \<Rightarrow> 's pool \<Rightarrow> bool" where
  "client_inv n p \<longleftrightarrow> pool_inv (id_level p) p \<and> id_level p + n + 2 < 2 ^ 64 \<and> quiet p \<and> pworkers p \<noteq> [] \<and>
     \<not> stopping (px p) \<and> xo_queue_capacity (xoptions (px p)) = 0 \<and>
     length (done_ids (px p)) + length (live_jobs p) + n \<le> 65536"

definition run_bodies :: "(TaskId \<times> 's body) list \<Rightarrow> 's \<Rightarrow> 's" where
  "run_bodies js s = fold (\<lambda>(i, f) s. fst (f s)) js s"

lemma run_bodies_simps [simp]: "run_bodies [] s = s" "run_bodies ((i, f) # js) s = run_bodies js (fst (f s))"
  "run_bodies (xs @ ys) s = run_bodies ys (run_bodies xs s)"
  by (simp_all add: run_bodies_def)

lemma live_jobs_update:
  "k < length (pworkers p) \<Longrightarrow> tasks e = tasks (px p) \<Longrightarrow>
   mset (live_jobs (p\<lparr>px := e, pshared := s, pworkers := (pworkers p)[k := w]\<rparr>)) + mset (worker_pairs (pworkers p ! k))
     = mset (live_jobs p) + mset (worker_pairs w)"
  using mset_concat_update [of k "pworkers p" worker_pairs w] by (simp add: live_jobs_def ac_simps)

lemma pool_inv_tight:
  assumes "pool_inv n p" and "id_level p \<le> m"
  shows "pool_inv m p"
  using assms unfolding pool_inv_def table_inv_def queue_inv_def id_level_def by auto

lemma quiet_update:
  assumes "quiet p" and "tracked_worker w" and "set (tasks e) \<subseteq> set (tasks (px p))"
    and "\<And>i st. get_state e i = Some st \<Longrightarrow> canceled st \<Longrightarrow> \<exists>st'. get_state (px p) i = Some st' \<and> canceled st'"
  shows "quiet (p\<lparr>px := e, pshared := s, pworkers := (pworkers p)[k := w]\<rparr>)"
  using assms set_update_subset_insert [of "pworkers p" k w] unfolding quiet_def by fastforce

text \<open>What one step of a worker does for a client.\<close>

definition served :: "'s pool \<Rightarrow> 's pool \<Rightarrow> bool" where
  "served p q \<longleftrightarrow> (\<exists>ran. pshared q = run_bodies ran (pshared p) \<and> mset ran + mset (live_jobs q) = mset (live_jobs p)) \<and>
     known p \<subseteq> known q"

lemma served_refl: "served p p"
  by (auto simp: served_def intro: exI [of _ "[]"])

lemma served_trans: "served p q \<Longrightarrow> served q r \<Longrightarrow> served p r"
proof -
  assume a: "served p q" "served q r"
  then obtain xs ys where "pshared q = run_bodies xs (pshared p)" "mset xs + mset (live_jobs q) = mset (live_jobs p)"
    "pshared r = run_bodies ys (pshared q)" "mset ys + mset (live_jobs r) = mset (live_jobs q)"
    by (auto simp: served_def)
  then have "pshared r = run_bodies (xs @ ys) (pshared p)" "mset (xs @ ys) + mset (live_jobs r) = mset (live_jobs p)"
    by (auto simp: ac_simps)
  then show ?thesis using a unfolding served_def by blast
qed

lemma client_inv_step:
  assumes inv: "client_inv n p" and st: "exec_step p q" and srv: "served p q" and q: "quiet q"
    and f: "next_task_id (px q) = next_task_id (px p)" "enqueue_seq (px q) = enqueue_seq (px p)"
      "stopping (px q) = stopping (px p)" "xoptions (px q) = xoptions (px p)"
    and len: "length (done_ids (px q)) + length (live_jobs q) \<le> length (done_ids (px p)) + length (live_jobs p)"
  shows "client_inv n q"
proof -
  have l: "id_level q = id_level p" by (simp add: id_level_def f)
  have b: "id_level p + n + 2 < 2 ^ 64" and pi: "pool_inv (id_level p) p" using inv unfolding client_inv_def by blast+
  then have "id_level p + 2 < 2 ^ 64" by linarith
  then have "pool_inv (Suc (id_level p)) q" by (rule pool_inv_step [OF st pi])
  then have 1: "pool_inv (id_level q) q" by (rule pool_inv_tight) simp
  have "pworkers q \<noteq> []" using exec_step_workers_length [OF st] inv unfolding client_inv_def by auto
  then show ?thesis using 1 inv q len unfolding client_inv_def l f by auto
qed

lemma served_same:
  assumes "pshared q = pshared p" and "mset (live_jobs q) = mset (live_jobs p)"
    and "known q = known p"
  shows "served p q"
  using assms by (auto simp: served_def intro: exI [of _ "[]"])

lemma live_pick:
  assumes "k < length (pworkers p)" and "pworkers p ! k = WIdle" and "i < length (tasks (px p))"
  shows "mset (live_jobs (p\<lparr>px := (px p)\<lparr>tasks := erase_at i (tasks (px p)), active_workers := a\<rparr>,
            pworkers := (pworkers p)[k := WPicked (te_fn (tasks (px p) ! i))]\<rparr>)) = mset (live_jobs p)"
  using mset_concat_update [OF assms(1), of worker_pairs "WPicked (te_fn (tasks (px p) ! i))"] assms(2)
    mset_concat_erase [OF assms(3), of "job_pairs \<circ> te_fn"]
  by (simp add: live_jobs_def ac_simps)

lemma client_pick:
  assumes inv: "client_inv n p" and st: "exec_step p q" and k: "k < length (pworkers p)" and w: "pworkers p ! k = WIdle"
    and s: "worker_pick (px p) = Some (j, e)" and q: "q = p\<lparr>px := e, pworkers := (pworkers p)[k := WPicked j]\<rparr>"
  shows "client_inv n q \<and> served p q"
proof -
  obtain i where i: "i < length (tasks (px p))" "j = te_fn (tasks (px p) ! i)"
    and e: "e = (px p)\<lparr>tasks := erase_at i (tasks (px p)), active_workers := active_workers (px p) + 1\<rparr>"
    using worker_pick_effect [OF s] by blast
  have lv: "mset (live_jobs q) = mset (live_jobs p)" using live_pick [OF k w i(1)] by (simp add: q e i(2))
  have sv: "served p q" by (rule served_same) (use lv in \<open>simp_all add: q known_def e\<close>)
  obtain ys zs where yz: "tasks (px p) = ys @ tasks (px p) ! i # zs" "erase_at i (tasks (px p)) = ys @ zs"
    using erase_at_split [OF i(1)] by blast
  have "set (erase_at i (tasks (px p))) \<subseteq> set (tasks (px p))" by (subst (2) yz(1)) (auto simp: yz(2))
  moreover have "tracked j" using inv i unfolding client_inv_def quiet_def by auto
  ultimately have "quiet (p\<lparr>px := e, pshared := pshared p, pworkers := (pworkers p)[k := WPicked j]\<rparr>)"
    using inv by (intro quiet_update) (auto simp: client_inv_def e)
  then have qq: "quiet q" by (simp add: q)
  have "client_inv n q"
    by (rule client_inv_step [OF inv st sv qq]) (use mset_eq_length [OF lv] in \<open>simp_all add: q e\<close>)
  then show ?thesis using sv by simp
qed

lemma client_begin:
  assumes inv: "client_inv n p" and st: "exec_step p q" and k: "k < length (pworkers p)"
    and w: "pworkers p ! k = WPicked (TrackedJob i f key)" and s: "task_begin i (px p) = (False, e)"
    and q: "q = p\<lparr>px := e, pworkers := (pworkers p)[k := WRunning i f key]\<rparr>"
  shows "client_inv n q \<and> served p q"
proof -
  have e: "e = px p \<or> (\<exists>st. get_state (px p) i = Some st \<and> e = put_state i (st\<lparr>started := True\<rparr>) (px p))"
    using s by (auto simp: task_begin_def split: option.splits)
  have ef: "tasks e = tasks (px p)" "next_task_id e = next_task_id (px p)" "enqueue_seq e = enqueue_seq (px p)"
    "stopping e = stopping (px p)" "xoptions e = xoptions (px p)" "done_ids e = done_ids (px p)"
    using s by (auto simp: task_begin_def split: option.splits)
  have lv: "mset (live_jobs q) = mset (live_jobs p)"
    using live_jobs_update [OF k ef(1), of "WRunning i f key" "pshared p"] w by (simp add: q)
  have kn: "known q = known p" using e by (auto simp: q known_def split: if_splits)
  have cn: "\<exists>st'. get_state (px p) j = Some st' \<and> canceled st'" if "get_state e j = Some st" "canceled st" for j st
    using e that by (auto split: if_splits)
  have sv: "served p q" by (rule served_same) (use lv kn in \<open>simp_all add: q\<close>)
  have "quiet (p\<lparr>px := e, pshared := pshared p, pworkers := (pworkers p)[k := WRunning i f key]\<rparr>)"
    by (rule quiet_update) (use inv cn ef in \<open>auto simp: client_inv_def\<close>)
  then have qq: "quiet q" by (simp add: q)
  have "client_inv n q"
    by (rule client_inv_step [OF inv st sv qq]) (use mset_eq_length [OF lv] in \<open>simp_all add: q ef\<close>)
  then show ?thesis using sv by simp
qed

lemma client_end:
  assumes inv: "client_inv n p" and st: "exec_step p q" and k: "k < length (pworkers p)"
    and w: "pworkers p ! k = WRunning i f key" and s: "f (pshared p) = (s', threw)"
    and q: "q = p\<lparr>px := MarkTaskDone i (\<not> threw) threw (px p), pshared := s', pworkers := (pworkers p)[k := WFinishing]\<rparr>"
  shows "client_inv n q \<and> served p q"
proof -
  let ?e = "MarkTaskDone i (\<not> threw) threw (px p)"
  have lv: "mset (live_jobs p) = add_mset (i, f) (mset (live_jobs q))"
    using live_jobs_update [OF k, of ?e WFinishing s'] w by (simp add: q)
  then have len: "length (live_jobs p) = Suc (length (live_jobs q))" using mset_eq_length [of "live_jobs p" "(i, f) # live_jobs q"] by simp
  have tab: "table_inv (id_level p) (px p) (queued (px p) + picked (pworkers p)) (running (pworkers p))"
    using inv by (simp add: client_inv_def pool_inv_def)
  have "running (pworkers p) = add_mset i (running ((pworkers p)[k := WFinishing]))"
    using running_update [OF k, of WFinishing] w by simp
  then have "i \<in># running (pworkers p)" by simp
  then obtain sti where sti: "get_state (px p) i = Some sti" using table_running [OF tab] by blast
  have mx: "max_retained_states (px p) = 65536" and ld: "length (done_ids (px p)) \<le> 65536" using tab by (auto simp: table_inv_def)
  have lt: "length (done_ids (px p)) \<noteq> 65536" using inv len unfolding client_inv_def by auto
  note mf = MarkTaskDone_fields [OF sti mx ld, of "\<not> threw" threw]
  have g: "get_state ?e j = (if j = i then Some (sti\<lparr>ts_done := True, succeeded_flag := \<not> threw \<and> \<not> threw\<rparr>) else get_state (px p) j)" for j
    unfolding mf(5) expired_def using lt by (auto split: option.splits)
  have dn: "done_ids ?e = done_ids (px p) @ [i]" unfolding mf(4) after_done_def using lt by simp
  have kn: "known p \<subseteq> known q" by (auto simp: q known_def g)
  have "pshared q = run_bodies [(i, f)] (pshared p)" "mset [(i, f)] + mset (live_jobs q) = mset (live_jobs p)"
    using s lv by (simp_all add: q)
  then have sv: "served p q" using kn unfolding served_def by blast
  have "quiet (p\<lparr>px := ?e, pshared := s', pworkers := (pworkers p)[k := WFinishing]\<rparr>)"
    using inv sti by (intro quiet_update) (auto simp: client_inv_def g split: if_splits)
  then have qq: "quiet q" by (simp add: q)
  have "client_inv n q"
    by (rule client_inv_step [OF inv st sv qq]) (use len in \<open>simp_all add: q mf(1) dn\<close>)
  then show ?thesis using sv by simp
qed

lemma client_finish:
  assumes inv: "client_inv n p" and st: "exec_step p q" and k: "k < length (pworkers p)" and w: "pworkers p ! k = WFinishing"
    and q: "q = p\<lparr>px := worker_finish (px p), pworkers := (pworkers p)[k := WIdle]\<rparr>"
  shows "client_inv n q \<and> served p q"
proof -
  let ?e = "worker_finish (px p)"
  have lv: "mset (live_jobs q) = mset (live_jobs p)"
    using live_jobs_update [OF k, of ?e WIdle "pshared p"] w by (simp add: q worker_finish_def Let_def)
  have sv: "served p q" by (rule served_same) (use lv in \<open>simp_all add: q known_def worker_finish_def Let_def\<close>)
  have "quiet (p\<lparr>px := ?e, pshared := pshared p, pworkers := (pworkers p)[k := WIdle]\<rparr>)"
    using inv by (intro quiet_update) (auto simp: client_inv_def worker_finish_def Let_def)
  then have qq: "quiet q" by (simp add: q)
  have "client_inv n q"
    by (rule client_inv_step [OF inv st sv qq]) (use mset_eq_length [OF lv] in \<open>simp_all add: q worker_finish_def Let_def\<close>)
  then show ?thesis using sv by simp
qed

lemma client_worker_step:
  assumes inv: "client_inv n p" and ws: "worker_step p q"
  shows "client_inv n q \<and> served p q"
proof -
  have st: "exec_step p q" and ne: "pworkers q \<noteq> pworkers p" using ws by (auto simp: worker_step_def)
  have qu: "quiet p" and ns: "\<not> stopping (px p)" using inv by (auto simp: client_inv_def)
  from st show ?thesis
  proof cases
    case (work_pick k j e)
    then show ?thesis using client_pick [OF inv st] by blast
  next
    case (work_plain k f s' threw)
    then show ?thesis using qu unfolding quiet_def by (metis nth_mem tracked.simps(1) tracked_worker.simps(1))
  next
    case (work_begin k i f key e)
    then show ?thesis using client_begin [OF inv st] by blast
  next
    case (work_skip k i f key e)
    then show ?thesis using qu unfolding quiet_def by (auto simp: task_begin_def split: option.splits)
  next
    case (work_end k i f key s' threw)
    then show ?thesis using client_end [OF inv st] by blast
  next
    case (work_finish k)
    then show ?thesis using client_finish [OF inv st] by blast
  qed (use ne ns in simp_all)
qed

section \<open>Calls of the client\<close>

lemma moves_served: "client_inv n p \<Longrightarrow> moves sc m (t, p) = (t', q) \<Longrightarrow> client_inv n q \<and> served p q"
proof (induction sc m "(t, p)" arbitrary: t p rule: moves.induct)
  case (1 sc t p)
  then show ?case by (simp add: served_refl)
next
  case (2 sc m t p)
  show ?case
  proof (cases "next_move sc t p")
    case None
    then show ?thesis using 2 by (simp add: served_refl)
  next
    case (Some r)
    then have "client_inv n r \<and> served p r" using client_worker_step [OF 2(2)] next_move_step by blast
    then show ?thesis using 2(1) [OF Some] 2(3) Some served_trans [of p r q] by simp
  qed
qed

lemma before_call_served:
  "client_inv n p \<Longrightarrow> before_call sc (t, p) = (t', q) \<Longrightarrow> client_inv n q \<and> served p q"
  unfolding before_call_def by (rule moves_served) simp_all

text \<open>The ids of the live jobs are those the table counts as waiting or running.\<close>

lemma live_ids: "mset (map fst (live_jobs p)) = queued (px p) + picked (pworkers p) + running (pworkers p)"
proof -
  have j: "map fst (job_pairs j) = job_ids j" for j :: "'a job" by (cases j) auto
  have w: "image_mset fst (mset (worker_pairs w)) = mset (wait_ids w) + mset (run_ids w)" for w :: "'a worker"
    by (cases w) (auto simp: j simp flip: mset_map)
  have "mset (map fst (concat (map worker_pairs ws))) = picked ws + running ws" for ws :: "'a worker list"
    by (induction ws) (auto simp: picked_def running_def w)
  moreover have "map fst (concat (map (job_pairs \<circ> te_fn) ts)) = concat (map (job_ids \<circ> te_fn) ts)" for ts :: "'a TaskEntry list"
    by (induction ts) (auto simp: j)
  ultimately show ?thesis unfolding live_jobs_def queued_def by simp
qed

lemma client_table:
  "client_inv n p \<Longrightarrow> table_inv (id_level p) (px p) (queued (px p) + picked (pworkers p)) (running (pworkers p))"
  by (simp add: client_inv_def pool_inv_def)

lemma table_done_iff:
  assumes tab: "table_inv n e W R" and st: "get_state e i = Some st"
  shows "ts_done st \<longleftrightarrow> i \<notin># W + R"
proof
  assume d: "ts_done st"
  have "i \<notin># W" using tab st d unfolding table_inv_def waiting_state_def by fastforce
  moreover have "i \<notin># R" using tab st d unfolding table_inv_def running_state_def by fastforce
  ultimately show "i \<notin># W + R" by simp
next
  show "ts_done st" if "i \<notin># W + R" using tab st that unfolding table_inv_def by blast
qed

lemma table_live_known: "table_inv n e W R \<Longrightarrow> i \<in># W + R \<Longrightarrow> get_state e i \<noteq> None"
  unfolding table_inv_def union_iff by (metis option.distinct(1))

lemma idle_nothing_live:
  assumes "counts_ok p" and "all_idle (px p)"
  shows "queued (px p) + picked (pworkers p) + running (pworkers p) = {#}"
proof -
  have e: "tasks (px p) = []" "\<forall>w\<in>set (pworkers p). \<not> busy w"
    using assms by (auto simp: all_idle_def counts_ok_def filter_empty_conv)
  have "wait_ids w = [] \<and> run_ids w = []" if "w \<in> set (pworkers p)" for w using e(2) that by (cases w) auto
  then show ?thesis using e(1) by (auto simp: queued_def picked_def running_def)
qed

lemma done_iff_not_live:
  assumes "client_inv n p" and st: "get_state (px p) i = Some st"
  shows "ts_done st \<longleftrightarrow> i \<notin> fst ` set (live_jobs p)"
proof -
  have "i \<in> fst ` set (live_jobs p) \<longleftrightarrow> i \<in># queued (px p) + picked (pworkers p) + running (pworkers p)"
    unfolding live_ids [symmetric] by simp
  then show ?thesis using table_done_iff [OF client_table [OF assms(1)] st] by simp
qed

text \<open>A worker can move as long as some known task is not done.\<close>

lemma not_done_progress:
  assumes inv: "client_inv n p" and st: "get_state (px p) i = Some st" "\<not> ts_done st"
  shows "next_move sc t p \<noteq> None"
proof -
  have "\<not> all_idle (px p)"
  proof
    assume "all_idle (px p)"
    moreover have "counts_ok p" using inv by (simp add: client_inv_def pool_inv_def)
    ultimately have "queued (px p) + picked (pworkers p) + running (pworkers p) = {#}" by (intro idle_nothing_live)
    then show False using client_table [OF inv] st unfolding table_inv_def by (metis empty_iff set_mset_empty)
  qed
  then obtain r where "worker_step p r" using worker_progress [of "id_level p" p] inv unfolding client_inv_def by blast
  then show ?thesis by (rule next_move_progress)
qed

text \<open>\<open>Wait\<close> returns for every known id, because a worker can move as long as the task is not done.\<close>

lemma Wait_served:
  assumes "client_inv n p" and "i \<in> known p"
  shows "\<exists>t' q. Wait sc i t p = Some (Status_Ok, t', q) \<and> client_inv n q \<and> served p q \<and> i \<notin> fst ` set (live_jobs q)"
  using assms
proof (induction sc i t p rule: Wait.induct)
  case (1 sc i t p)
  obtain st where st: "get_state (px p) i = Some st" using 1(3) by (auto simp: known_def)
  show ?case
  proof (cases "ts_done st")
    case True
    then have "Wait_now i (px p) = Some Status_Ok" using st by (simp add: Wait_now_def)
    then show ?thesis using True done_iff_not_live [OF 1(2) st] 1(2) served_refl by (subst Wait.simps) auto
  next
    case False
    then have none: "Wait_now i (px p) = None" using st by (simp add: Wait_now_def)
    obtain q where q: "next_move sc t p = Some q" using not_done_progress [OF 1(2) st False] by blast
    have s: "client_inv n q" "served p q" using client_worker_step [OF 1(2) next_move_step [OF q]] by blast+
    then have "i \<in> known q" using 1(3) by (auto simp: served_def)
    from 1(1) [OF none q s(1) this] show ?thesis using none q s(2) served_trans by (subst Wait.simps) auto
  qed
qed

lemma served_live: "served p q \<Longrightarrow> set (live_jobs q) \<subseteq> set (live_jobs p)"
proof -
  assume "served p q"
  then obtain js where "mset (live_jobs p) = mset js + mset (live_jobs q)" unfolding served_def by metis
  then have "set_mset (mset (live_jobs p)) = set_mset (mset js + mset (live_jobs q))" by simp
  then show ?thesis by simp
qed

lemma Wait_unknown: "i \<notin> known p \<Longrightarrow> \<exists>st. \<not> status_ok st \<and> Wait sc i t p = Some (st, t, p)"
  by (subst Wait.simps) (simp add: known_def Wait_now_def)

lemma WaitBatch_served:
  assumes "client_inv n p"
  shows "\<exists>st t' q. WaitBatch sc ids (t, p) = Some (st, t', q) \<and> client_inv n q \<and> served p q \<and>
     (set ids \<subseteq> known p \<longrightarrow> status_ok st) \<and> (status_ok st \<longrightarrow> set ids \<inter> fst ` set (live_jobs q) = {})"
  using assms
proof (induction ids arbitrary: t p)
  case Nil
  then show ?case by (simp add: served_refl)
next
  case (Cons i ids)
  show ?case
  proof (cases "i \<in> known p")
    case False
    then obtain st where "\<not> status_ok st" "Wait sc i t p = Some (st, t, p)" using Wait_unknown by blast
    then show ?thesis using Cons.prems False by (simp add: served_refl)
  next
    case True
    obtain t1 q1 where 1: "Wait sc i t p = Some (Status_Ok, t1, q1)" "client_inv n q1" "served p q1" "i \<notin> fst ` set (live_jobs q1)"
      using Wait_served [OF Cons.prems True, of sc t] by blast
    obtain st t2 q2 where 2: "WaitBatch sc ids (t1, q1) = Some (st, t2, q2)" "client_inv n q2" "served q1 q2"
      "set ids \<subseteq> known q1 \<longrightarrow> status_ok st" "status_ok st \<longrightarrow> set ids \<inter> fst ` set (live_jobs q2) = {}"
      using Cons.IH [OF 1(2), of t1] by blast
    have "i \<notin> fst ` set (live_jobs q2)" using 1(4) served_live [OF 2(3)] by blast
    moreover have "set ids \<subseteq> known p \<longrightarrow> status_ok st" using 1(3) 2(4) by (auto simp: served_def)
    moreover have "served p q2" by (rule served_trans [OF 1(3) 2(3)])
    ultimately show ?thesis using 1(1) 2(1,2,5) by auto
  qed
qed

lemma client_WaitBatch_served:
  assumes "client_inv n p"
  shows "\<exists>st t' q. client_WaitBatch sc ids (t, p) = Some (st, t', q) \<and> client_inv n q \<and> served p q \<and>
     (set ids \<subseteq> known p \<longrightarrow> status_ok st) \<and> (status_ok st \<longrightarrow> set ids \<inter> fst ` set (live_jobs q) = {})"
proof -
  obtain t1 p1 where b: "before_call sc (t, p) = (t1, p1)" by (metis surj_pair)
  have s: "client_inv n p1" "served p p1" using before_call_served [OF assms(1) b] by blast+
  then have k: "set ids \<subseteq> known p \<longrightarrow> set ids \<subseteq> known p1" by (auto simp: served_def)
  from WaitBatch_served [OF s(1), of sc ids t1] show ?thesis
    using s(2) k served_trans [OF s(2)] unfolding client_WaitBatch_def b by blast
qed

text \<open>A submission is accepted while the queue is unbounded and the pool is not stopping.\<close>

lemma client_SubmitEx_served:
  assumes inv: "client_inv (Suc n) p"
  shows "\<exists>i t' q. client_SubmitEx sc (Some f) opts (t, p) = (Result_value i, t', q) \<and> client_inv n q \<and> i \<in> known q \<and>
     known p \<subseteq> known q \<and> (\<exists>js. pshared q = run_bodies js (pshared p) \<and> mset js + mset (live_jobs q) = add_mset (i, f) (mset (live_jobs p)))"
proof -
  obtain t1 p1 where b: "before_call sc (t, p) = (t1, p1)" by (metis surj_pair)
  have inv1: "client_inv (Suc n) p1" and sv: "served p p1" using before_call_served [OF inv b] by blast+
  obtain r e where s: "SubmitEx (Some f) opts (px p1) = (r, e)" by (metis surj_pair)
  have ns: "\<not> stopping (px p1)" "xo_queue_capacity (xoptions (px p1)) = 0" using inv1 by (auto simp: client_inv_def)
  have reg: "stopping e2 = stopping e1 \<and> xoptions e2 = xoptions e1" if "register_task key e1 = (i, e2)" for key e1 e2 and i :: TaskId
    using that by (auto simp: register_task_def NextTaskIdLocked_def put_state_def Let_def split: if_splits)
  have ok: "result_ok r \<and> xoptions e = xoptions (px p1)"
    using s ns unfolding SubmitEx_def
    by (auto simp: Let_def Enqueue_def split: prod.splits if_splits dest!: reg)
  note ex = SubmitEx_ok [OF s conjunct1 [OF ok]]
  let ?i = "next_task_id (px p1)" and ?q = "p1\<lparr>px := e\<rparr>"
  have r: "r = Result_value ?i" using ex by blast
  have gs: "get_state e = (get_state (px p1))(?i \<mapsto> new_TaskState)" using ex by blast
  have ts: "tasks e = tasks (px p1) @ [entry_of (TrackedJob ?i f (so_serial_key opts)) opts (px p1)]" using ex by auto
  have lv: "mset (live_jobs ?q) = add_mset (?i, f) (mset (live_jobs p1))" by (simp add: live_jobs_def ts entry_of_def)
  have lv': "length (live_jobs ?q) = Suc (length (live_jobs p1))"
    using mset_eq_length [of "live_jobs ?q" "(?i, f) # live_jobs p1"] lv by simp
  have bnd: "id_level p1 + Suc n + 2 < 2 ^ 64" and pi: "pool_inv (id_level p1) p1" using inv1 unfolding client_inv_def by blast+
  have "unat (next_task_id (px p1)) + 1 < 2 ^ 64" "unat (enqueue_seq (px p1)) + 1 < 2 ^ 64"
    using bnd unfolding id_level_def by linarith+
  then have lev: "id_level ?q = Suc (id_level p1)"
    using ex unat_succ_u64 [of ?i] unat_succ_u64 [of "enqueue_seq (px p1)"] by (auto simp: id_level_def)
  have "pool_inv (Suc (id_level p1)) ?q" by (rule inv_submit_ex [OF pi _ s]) (use bnd in linarith)
  moreover have "quiet ?q" using inv1 unfolding client_inv_def quiet_def by (auto simp: ts gs entry_of_def new_TaskState_def split: if_splits)
  moreover have "done_ids e = done_ids (px p1)" using ex by blast
  moreover have "stopping e = stopping (px p1)" using ex by blast
  ultimately have "client_inv n ?q"
    using inv1 lev lv' ok bnd unfolding client_inv_def by auto
  moreover have kn: "?i \<in> known ?q" "known p1 \<subseteq> known ?q" by (auto simp: known_def gs)
  moreover obtain js where "pshared p1 = run_bodies js (pshared p)" "mset js + mset (live_jobs p1) = mset (live_jobs p)"
    using sv by (auto simp: served_def)
  moreover have "client_SubmitEx sc (Some f) opts (t, p) = (Result_value ?i, t1, ?q)"
    unfolding client_SubmitEx_def b by (simp add: s r)
  ultimately show ?thesis using sv lv unfolding served_def
    by (intro exI [of _ ?i] exI [of _ t1] exI [of _ ?q]) auto
qed

section \<open>The pool as the executor of task graphs\<close>

definition no_throw :: "('s \<Rightarrow> 's) \<Rightarrow> 's body" where
  "no_throw f = (\<lambda>s. (f s, False))"

text \<open>The two operations the graph calls. The graph always passes \<open>timeout_ms = 0\<close>. The last branch
  stands for a wait that never ends; \<open>client_WaitBatch_served\<close> excludes it.\<close>

definition pool_executor :: "schedule \<Rightarrow> ('s client, 's) IExecutor" where
  "pool_executor sc =
     \<lparr>ie_SubmitEx = (\<lambda>f opts (t, p) s.
        let (r, t', q) = client_SubmitEx sc (Some (no_throw f)) opts (t, p\<lparr>pshared := s\<rparr>) in (r, (t', q), pshared q)),
      ie_WaitBatch = (\<lambda>ids tmo (t, p) s.
        case client_WaitBatch sc ids (t, p\<lparr>pshared := s\<rparr>) of
          Some (st, t', q) \<Rightarrow> (st, (t', q), pshared q)
        | None \<Rightarrow> (task_status kWouldBlock ''wait timeout'', (t, p), s))\<rparr>"

definition pool_pend :: "'s client \<Rightarrow> 's pending" where
  "pool_pend c = map (\<lambda>(i, f). (i, \<lambda>s. fst (f s))) (live_jobs (snd c))"

text \<open>Waiting is guaranteed for ids the pool knows.\<close>

definition pool_einv :: "nat \<Rightarrow> 's client \<Rightarrow> bool" where
  "pool_einv n c \<longleftrightarrow> client_inv n (snd c)"

lemma with_shared [simp]:
  "client_inv n (p\<lparr>pshared := s\<rparr>) \<longleftrightarrow> client_inv n p" "live_jobs (p\<lparr>pshared := s\<rparr>) = live_jobs p"
  "known (p\<lparr>pshared := s\<rparr>) = known p"
  by (simp_all add: client_inv_def pool_inv_def id_level_def quiet_def live_jobs_def known_def counts_ok_def)

lemma run_bodies_fold: "run_bodies js s = fold snd (map (\<lambda>(i, f). (i, \<lambda>s. fst (f s))) js) s"
  by (induction js arbitrary: s) auto

lemma pend_mset:
  assumes "mset js + mset (live_jobs q) = mset xs"
  shows "mset (map (\<lambda>(i, f). (i, \<lambda>s. fst (f s))) js) + mset (map (\<lambda>(i, f). (i, \<lambda>s. fst (f s))) (live_jobs q))
     = mset (map (\<lambda>(i, f). (i, \<lambda>s. fst (f s))) xs)"
  using arg_cong [OF assms, of "image_mset (\<lambda>(i, f). (i, \<lambda>s. fst (f s)))"] by (simp flip: mset_map)

lemma pool_submit_law:
  assumes "pool_einv (Suc n) e" and "ie_SubmitEx (pool_executor sc) f opts e s = (r, e', s')"
  shows "pool_einv n e' \<and> result_ok r \<and> res_value r \<in> known (snd e') \<and> known (snd e) \<subseteq> known (snd e') \<and>
     (\<exists>js. s' = fold snd js s \<and> mset js + mset (pool_pend e') = mset (pool_pend e) + {#(res_value r, f)#})"
proof -
  obtain t p where e: "e = (t, p)" by (metis surj_pair)
  have inv: "client_inv (Suc n) (p\<lparr>pshared := s\<rparr>)" using assms(1) by (simp add: pool_einv_def e)
  obtain i t' q js where c: "client_SubmitEx sc (Some (no_throw f)) opts (t, p\<lparr>pshared := s\<rparr>) = (Result_value i, t', q)"
    "client_inv n q" "i \<in> known q" "known p \<subseteq> known q" "pshared q = run_bodies js s"
    "mset js + mset (live_jobs q) = mset ((i, no_throw f) # live_jobs p)"
    using client_SubmitEx_served [OF inv, of sc "no_throw f" opts t] by auto
  have r: "r = Result_value i" "e' = (t', q)" "s' = pshared q" using assms(2) c(1) by (auto simp: pool_executor_def e)
  have "s' = fold snd (map (\<lambda>(i, f). (i, \<lambda>s. fst (f s))) js) s" using c(5) r(3) run_bodies_fold by metis
  moreover have "mset (map (\<lambda>(i, f). (i, \<lambda>s. fst (f s))) js) + mset (pool_pend e') = mset (pool_pend e) + {#(res_value r, f)#}"
    using pend_mset [OF c(6)] by (simp add: pool_pend_def r e no_throw_def)
  ultimately show ?thesis using c(2-4) r by (auto simp: pool_einv_def e)
qed

lemma pool_wait_law:
  assumes "pool_einv n e" and "ie_WaitBatch (pool_executor sc) ids tmo e s = (st, e', s')"
  shows "pool_einv n e' \<and> (set ids \<subseteq> known (snd e) \<longrightarrow> status_ok st) \<and> known (snd e) \<subseteq> known (snd e') \<and>
     (status_ok st \<longrightarrow> fst ` set (pool_pend e') \<inter> set ids = {}) \<and>
     (\<exists>js. s' = fold snd js s \<and> mset js + mset (pool_pend e') = mset (pool_pend e))"
proof -
  obtain t p where e: "e = (t, p)" by (metis surj_pair)
  have inv: "client_inv n (p\<lparr>pshared := s\<rparr>)" using assms(1) by (auto simp: pool_einv_def e)
  obtain st1 t' q where c: "client_WaitBatch sc ids (t, p\<lparr>pshared := s\<rparr>) = Some (st1, t', q)"
    "client_inv n q" "served (p\<lparr>pshared := s\<rparr>) q" "set ids \<subseteq> known p \<longrightarrow> status_ok st1"
    "status_ok st1 \<longrightarrow> set ids \<inter> fst ` set (live_jobs q) = {}"
    using client_WaitBatch_served [OF inv, of sc ids t] by auto
  obtain js where js: "pshared q = run_bodies js s" "mset js + mset (live_jobs q) = mset (live_jobs p)" "known p \<subseteq> known q"
    using c(3) by (auto simp: served_def)
  have r: "st = st1" "e' = (t', q)" "s' = pshared q" using assms(2) c(1) by (auto simp: pool_executor_def e)
  have "s' = fold snd (map (\<lambda>(i, f). (i, \<lambda>s. fst (f s))) js) s" using js(1) r(3) run_bodies_fold by metis
  moreover have "mset (map (\<lambda>(i, f). (i, \<lambda>s. fst (f s))) js) + mset (pool_pend e') = mset (pool_pend e)"
    using pend_mset [OF js(2)] by (simp add: pool_pend_def r e)
  moreover have "fst ` set (pool_pend e') = fst ` set (live_jobs q)" by (force simp: pool_pend_def r)
  ultimately show ?thesis using c(2,4,5) js(3) r by (auto simp: pool_einv_def e)
qed

interpretation tp: reliable_executor "pool_executor sc" pool_pend pool_einv "\<lambda>c. known (snd c)" for sc
proof unfold_locales
  fix n e f opts s r e' s'
  assume a: "pool_einv (Suc n) e" "ie_SubmitEx (pool_executor sc) f opts e s = (r, e', s')"
  note law = pool_submit_law [OF a]
  then show "pool_einv n e' \<and> (\<exists>ran. s' = fold snd ran s \<and>
      mset ran + mset (pool_pend e') = mset (pool_pend e) + (if result_ok r then {#(res_value r, f)#} else {#}))" by simp
  show "result_ok r \<and> res_value r \<in> known (snd e') \<and> known (snd e) \<subseteq> known (snd e')" using law by simp
next
  fix n e ids tmo s st e' s'
  assume a: "pool_einv n e" "ie_WaitBatch (pool_executor sc) ids tmo e s = (st, e', s')"
  note law = pool_wait_law [OF a]
  then show "pool_einv n e' \<and> (\<exists>ran. s' = fold snd ran s \<and> mset ran + mset (pool_pend e') = mset (pool_pend e))
      \<and> (status_ok st \<longrightarrow> fst ` set (pool_pend e') \<inter> set ids = {})" by blast
  show "status_ok st" if "set ids \<subseteq> known (snd e)" using law that by blast
qed

lemma client_inv_new:
  assumes "xo_queue_capacity opts = 0" and "n \<le> 65536"
  shows "client_inv n (new_pool hw opts s)" and "live_jobs (new_pool hw opts s) = []"
proof -
  have w: "concat (map worker_pairs (replicate k WIdle)) = []" "\<forall>w\<in>set (replicate k WIdle). tracked_worker w" for k
    by (induction k) auto
  show lv: "live_jobs (new_pool hw opts s) = []"
    by (auto simp: live_jobs_def new_pool_def ThreadPoolExecutor_def w)
  have l: "id_level (new_pool hw opts s) = 1" by (simp add: id_level_def new_pool_def ThreadPoolExecutor_def)
  have "pool_inv 1 (new_pool hw opts s)" by (rule inv_mono [OF pool_inv_new]) simp
  moreover have "pworkers (new_pool hw opts s) \<noteq> []" using new_pool_workers [of hw opts s] by auto
  moreover have "quiet (new_pool hw opts s)"
    unfolding quiet_def by (auto simp: new_pool_def ThreadPoolExecutor_def get_state_def)
  ultimately show "client_inv n (new_pool hw opts s)"
    using assms lv unfolding client_inv_def l by (simp add: new_pool_def ThreadPoolExecutor_def)
qed

text \<open>C7: On a new thread pool with an unbounded queue, for every number of workers, every policy and every
  schedule of the workers, \<open>RunWithExecutor\<close> on an acyclic graph of at most 65536 tasks returns, reports
  no error, and has executed tasks in an order that respects all dependencies, each at most once, all
  of them unless a task failed under \<open>fail_fast\<close>; the statistics are those of that execution.\<close>

theorem RunWithExecutor_on_pool:
  assumes "graph_wf g" and "acyclic (graph_edges g)" and "length (nodes g) \<le> 65536" and "xo_queue_capacity xopts = 0"
  shows "\<exists>res c' w'. RunWithExecutor (Some (pool_executor sc)) opts g (t, new_pool hw xopts s) w = Some (res, c', w')
     \<and> run_outcome opts g w res w'"
  by (rule tp.RunWithExecutor_succeeds [OF assms(1,2)])
    (simp_all add: pool_einv_def pool_pend_def client_inv_new [OF assms(4,3)])

theorem RunWithExecutor_on_pool_witness:
  "\<exists>res c' w'. RunWithExecutor (Some (pool_executor \<lparr>burst = (\<lambda>t. t mod 2), turn = (\<lambda>t. t mod 3)\<rparr>))
       \<lparr>fail_fast = True, max_concurrency = 0\<rparr> chain_graph
       (0, new_pool 0 \<lparr>xo_worker_count = 3, xo_queue_capacity = 0, xo_policy = kPriority\<rparr> ([], [])) [] = Some (res, c', w')
     \<and> run_outcome \<lparr>fail_fast = True, max_concurrency = 0\<rparr> chain_graph [] res w'"
proof -
  have "length (nodes chain_graph) \<le> 65536" by (simp add: graph_eval)
  then show ?thesis by (rule RunWithExecutor_on_pool [OF chain_graph_wf chain_acyclic]) simp
qed

text \<open>A result that has expired: when 65536 tasks have finished after the oldest kept one, the next task
  that finishes removes its state, and \<open>Wait\<close> on it reports that the id was not found although the task
  had run. \<open>WaitBatch\<close> over more than 65536 ids can fail this way.\<close>

theorem expired_result_not_found:
  assumes "get_state e i = Some st" and "max_retained_states e = 65536" and "length (done_ids e) = 65536"
    and "get_state e (hd (done_ids e)) = Some st0" and "ts_done st0" and "hd (done_ids e) \<noteq> i"
  shows "Wait_now (hd (done_ids e)) e = Some Status_Ok \<and>
     Wait_now (hd (done_ids e)) (MarkTaskDone i ex fl e) = Some (task_status kNotFound ''task id not found'')"
proof -
  have "get_state (MarkTaskDone i ex fl e) (hd (done_ids e)) = None"
    using MarkTaskDone_fields(5) [OF assms(1,2), of ex fl "hd (done_ids e)"] assms(3-6) by (simp add: expired_def)
  then show ?thesis using assms(4,5) by (simp add: Wait_now_def)
qed

definition full_table :: "nat Executor" where
  "full_table = (ThreadPoolExecutor 1 demo_options)
     \<lparr>done_ids := replicate 65536 1, states := [(1, new_TaskState\<lparr>ts_done := True\<rparr>), (2, new_TaskState\<lparr>started := True\<rparr>)]\<rparr>"

theorem expired_result_not_found_witness:
  "Wait_now 1 full_table = Some Status_Ok \<and>
   Wait_now 1 (MarkTaskDone 2 True False full_table) = Some (task_status kNotFound ''task id not found'')"
proof -
  have hd: "hd (done_ids full_table) = 1" "length (done_ids full_table) = 65536"
    by (simp_all add: full_table_def hd_replicate)
  show ?thesis
    using expired_result_not_found [of full_table 2 "new_TaskState\<lparr>started := True\<rparr>" "new_TaskState\<lparr>ts_done := True\<rparr>" True False]
    unfolding hd by (simp add: full_table_def get_state_def ThreadPoolExecutor_def)
qed

end
