(* ===== verification/CK_ParallelFor.thy ===== *)
theory CK_ParallelFor
  imports CK_Executor_Client
begin

text \<open>
  \<open>ParallelFor\<close> on the thread pool: the chunks cover the range exactly once when the loop counter
  does not wrap around, and the loop never ends when it does in the wrong place.
\<close>

section \<open>Chunks\<close>

function chunk_bounds :: "nat \<Rightarrow> nat \<Rightarrow> nat \<Rightarrow> (nat \<times> nat) list" where
  "chunk_bounds a b g = (if a < b \<and> 0 < g then (a, min (a + g) b) # chunk_bounds (a + g) b g else [])"
  by pat_completeness auto
termination
  by (relation "measure (\<lambda>(a, b, g). b - a)") auto

declare chunk_bounds.simps [simp del]

lemma chunk_bounds_cover: "0 < g \<Longrightarrow> concat (map (\<lambda>(a, b). [a..<b]) (chunk_bounds a b g)) = [a..<b]"
proof (induction a b g rule: chunk_bounds.induct)
  case (1 a b g)
  show ?case
  proof (cases "a < b")
    case True
    then have "[a..<b] = [a..<min (a + g) b] @ [a + g..<b]"
      using upt_add_eq_append [of a "a + g" "b - (a + g)"] by (cases "a + g \<le> b") auto
    then show ?thesis using 1 True by (subst chunk_bounds.simps) simp
  qed (simp add: chunk_bounds.simps)
qed

lemma chunk_body_no_throw:
  assumes nt: "\<forall>i s. \<not> snd (fn i s)"
  shows "fst (chunk_body fn i e s) = fold (\<lambda>j s. fst (fn (of_nat j) s)) [unat i..<unat e] s"
  using nt
proof (induction fn i e s rule: chunk_body.induct)
  case (1 fn i e s)
  show ?case
  proof (cases "i < e")
    case True
    then have lt: "unat i < unat e" by (simp add: word_less_nat_alt)
    obtain s' where f: "fn i s = (s', False)" using 1(2) by (metis prod.collapse)
    have "chunk_body fn i e s = chunk_body fn (i + 1) e s'" using True f by (subst chunk_body.simps) simp
    moreover have "[unat i..<unat e] = unat i # [unat (i + 1)..<unat e]"
      using lt by (simp add: unat_succ_below [OF lt] upt_conv_Cons)
    ultimately show ?thesis using 1(1) [OF True f [symmetric] refl] 1(2) f by simp
  next
    case False
    then have "unat e \<le> unat i" by (simp add: word_less_nat_alt)
    then show ?thesis using False by (subst chunk_body.simps) simp
  qed
qed

section \<open>The loop\<close>

definition chunk_task :: "(size_t \<Rightarrow> 's body) \<Rightarrow> nat \<times> nat \<Rightarrow> 's body" where
  "chunk_task fn ab = chunk_body fn (of_nat (fst ab)) (of_nat (snd ab))"

lemma unat_plus_below: "unat (a :: u64) + unat b < 2 ^ 64 \<Longrightarrow> unat (a + b) = unat a + unat b"
  by (subst unat_add_noflow) simp_all

lemma of_nat_min_unat: "unat (a :: u64) \<le> m \<Longrightarrow> m < 2 ^ 64 \<Longrightarrow> of_nat (min m (unat b)) = min (of_nat m) (b :: u64)"
  by (cases "m \<le> unat b") (auto simp: min_def word_le_nat_alt unat_of_nat)

lemma ParallelFor_loop_spec:
  assumes "client_inv (length (chunk_bounds (unat cb) (unat last') (unat g)) + n) p" and "set ids \<subseteq> known p"
    and "0 < g" and "unat last' + unat g < 2 ^ 64"
  shows "\<exists>news st t' q js. ParallelFor_loop sc last' g fn cb ids (t, p) = Some (st, t', q) \<and> status_ok st \<and> client_inv n q \<and>
     length news = length (chunk_bounds (unat cb) (unat last') (unat g)) \<and>
     pshared q = run_bodies js (pshared p) \<and>
     mset js + mset (live_jobs q) = mset (live_jobs p) + mset (zip news (map (chunk_task fn) (chunk_bounds (unat cb) (unat last') (unat g)))) \<and>
     (set ids \<union> set news) \<inter> fst ` set (live_jobs q) = {}"
  using assms(1,2)
proof (induction "unat last' - unat cb" arbitrary: cb ids t p rule: less_induct)
  case less
  have g0: "0 < unat g" using assms(3) by (simp add: word_gt_0 unat_gt_0)
  show ?case
  proof (cases "cb < last'")
    case False
    then have e: "chunk_bounds (unat cb) (unat last') (unat g) = []" by (simp add: chunk_bounds.simps word_less_nat_alt)
    have inv: "client_inv n p" using less.prems(1) e by simp
    show ?thesis
    proof (cases "ids = []")
      case True
      then show ?thesis using False e inv
        by (subst ParallelFor_loop.simps) (auto intro!: exI [of _ "[]"])
    next
      case ne: False
      obtain st t' q where w: "client_WaitBatch sc ids (t, p) = Some (st, t', q)" "client_inv n q" "served p q"
        "set ids \<subseteq> known p \<longrightarrow> status_ok st" "status_ok st \<longrightarrow> set ids \<inter> fst ` set (live_jobs q) = {}"
        using client_WaitBatch_served [OF inv, of sc ids t] by blast
      obtain js where "pshared q = run_bodies js (pshared p)" "mset js + mset (live_jobs q) = mset (live_jobs p)"
        using w(3) by (auto simp: served_def)
      moreover have "ParallelFor_loop sc last' g fn cb ids (t, p) = Some (st, t', q)"
        using False ne w(1) by (subst ParallelFor_loop.simps) simp
      ultimately show ?thesis using w(2,4,5) less.prems(2) e
        by (intro exI [of _ "[]"] exI [of _ st] exI [of _ t'] exI [of _ q] exI [of _ js]) auto
    qed
  next
    case True
    then have lt: "unat cb < unat last'" by (simp add: word_less_nat_alt)
    then have sum: "unat (cb + g) = unat cb + unat g" using assms(4) by (intro unat_plus_below) linarith
    let ?cs = "chunk_bounds (unat cb + unat g) (unat last') (unat g)"
    have cs: "chunk_bounds (unat cb) (unat last') (unat g) = (unat cb, min (unat cb + unat g) (unat last')) # ?cs"
      using lt g0 by (subst chunk_bounds.simps) simp
    let ?body = "chunk_body fn cb (min (cb + g) last')"
    have body: "chunk_task fn (unat cb, min (unat cb + unat g) (unat last')) = ?body"
      by (simp add: chunk_task_def min_def word_le_nat_alt sum [symmetric] del: of_nat_add)
    have inv: "client_inv (Suc (length ?cs + n)) p" using less.prems(1) cs by simp
    obtain i t1 p1 js1 where s1: "client_SubmitEx sc (Some ?body) default_submit_options (t, p) = (Result_value i, t1, p1)"
      "client_inv (length ?cs + n) p1" "i \<in> known p1" "known p \<subseteq> known p1" "pshared p1 = run_bodies js1 (pshared p)"
      "mset js1 + mset (live_jobs p1) = add_mset (i, ?body) (mset (live_jobs p))"
      using client_SubmitEx_served [OF inv, of sc ?body default_submit_options t] by blast
    have kn: "set (ids @ [i]) \<subseteq> known p1" using less.prems(2) s1(3,4) by auto
    have dec: "unat last' - unat (cb + g) < unat last' - unat cb" using lt g0 sum by linarith
    obtain news st t' q js where ih: "ParallelFor_loop sc last' g fn (cb + g) (ids @ [i]) (t1, p1) = Some (st, t', q)"
      "status_ok st" "client_inv n q" "length news = length ?cs" "pshared q = run_bodies js (pshared p1)"
      "mset js + mset (live_jobs q) = mset (live_jobs p1) + mset (zip news (map (chunk_task fn) ?cs))"
      "(set (ids @ [i]) \<union> set news) \<inter> fst ` set (live_jobs q) = {}"
      using less.hyps [OF dec, of p1 "ids @ [i]" t1] s1(2) kn unfolding sum by blast
    have "ParallelFor_loop sc last' g fn cb ids (t, p) = Some (st, t', q)"
      using True s1(1) ih(1) by (subst ParallelFor_loop.simps) simp
    moreover have "mset (js1 @ js) + mset (live_jobs q) = mset (live_jobs p) + mset (zip (i # news) (map (chunk_task fn) (chunk_bounds (unat cb) (unat last') (unat g))))"
    proof -
      have "mset (js1 @ js) + mset (live_jobs q) = mset js1 + (mset js + mset (live_jobs q))" by simp
      also have "\<dots> = (mset js1 + mset (live_jobs p1)) + mset (zip news (map (chunk_task fn) ?cs))" unfolding ih(6) by simp
      finally show ?thesis unfolding s1(6) cs by (simp add: body)
    qed
    ultimately show ?thesis using ih s1(5) cs
      by (intro exI [of _ "i # news"] exI [of _ st] exI [of _ t'] exI [of _ q] exI [of _ "js1 @ js"]) auto
  qed
qed

text \<open>The chunks of a range, run in any order by bodies that do not throw, apply the function once to
  every index.\<close>

lemma run_chunks:
  assumes nt: "\<forall>i s. \<not> snd (fn i s)" and b: "\<forall>(a, b)\<in>set cs. a < 2 ^ 64 \<and> b < 2 ^ 64"
  shows "run_bodies (zip ids (map (chunk_task fn) cs)) s
    = fold (\<lambda>j s. fst (fn (of_nat j) s)) (concat (map (\<lambda>(a, b). [a..<b]) (take (length ids) cs))) s"
  using b
proof (induction cs arbitrary: ids s)
  case (Cons ab cs)
  obtain a b where ab: "ab = (a, b)" by (metis surj_pair)
  show ?case
  proof (cases ids)
    case (Cons i js)
    have "unat (of_nat a :: u64) = a" "unat (of_nat b :: u64) = b" using Cons.prems ab by (simp_all add: unat_of_nat)
    then show ?thesis
      using Cons.IH Cons.prems Cons chunk_body_no_throw [OF nt, of "of_nat a" "of_nat b" s] by (simp add: ab chunk_task_def)
  qed simp
qed simp

lemma chunk_bounds_below: "(a', b') \<in> set (chunk_bounds a b g) \<Longrightarrow> a' < b \<and> b' \<le> b"
  by (induction a b g rule: chunk_bounds.induct) (subst (asm) (2) chunk_bounds.simps, auto split: if_splits)

lemma perm_chunks:
  assumes js: "mset js = mset (zip news (map (chunk_task fn) cs))" and len: "length news = length cs"
    and nt: "\<forall>i s. \<not> snd (fn i s)" and b: "\<forall>(a, b)\<in>set cs. a < 2 ^ 64 \<and> b < 2 ^ 64"
  shows "\<exists>xs. mset xs = mset (concat (map (\<lambda>(a, b). [a..<b]) cs)) \<and> run_bodies js s = fold (\<lambda>j s. fst (fn (of_nat j) s)) xs s"
proof -
  let ?f = "\<lambda>(i, c). (i :: TaskId, chunk_task fn c)"
  have "zip news (map (chunk_task fn) cs) = map ?f (zip news cs)" by (simp add: zip_map2)
  then have "mset js = image_mset ?f (mset (zip news cs))" using js by (simp flip: mset_map)
  from mset_eq_image [OF this] obtain ys where ys: "mset ys = mset (zip news cs)" "js = map ?f ys" by blast
  have js': "js = zip (map fst ys) (map (chunk_task fn) (map snd ys))"
    unfolding ys(2) by (induction ys) auto
  have "mset (map snd ys) = mset (map snd (zip news cs))" using ys(1) by (metis mset_map)
  then have sn: "mset (map snd ys) = mset cs" using len by simp
  then have b': "\<forall>(a, b)\<in>set (map snd ys). a < 2 ^ 64 \<and> b < 2 ^ 64" using b mset_eq_setD by blast
  let ?xs = "concat (map (\<lambda>(a, b). [a..<b]) (map snd ys))"
  have "run_bodies js s = fold (\<lambda>j s. fst (fn (of_nat j) s)) ?xs s"
    unfolding js' run_chunks [OF nt b'] by simp
  moreover have "mset ?xs = mset (concat (map (\<lambda>(a, b). [a..<b]) cs))"
  proof -
    have "mset (concat (map f as)) = \<Sum>\<^sub># (image_mset (mset \<circ> f) (mset as))" for f :: "nat \<times> nat \<Rightarrow> nat list" and as
      by (induction as) auto
    then show ?thesis using sn by metis
  qed
  ultimately show ?thesis by blast
qed

text \<open>C19: \<open>ParallelFor\<close> over a range with \<open>end + grain < 2 ^ 64\<close>, on a pool with an unbounded queue that can keep
  the results of all chunks, under every schedule: it returns ok, and when the function does not throw
  it has been applied exactly once to every index of \<open>[begin, end)\<close> and to nothing else.\<close>

theorem ParallelFor_covers:
  assumes "client_inv (length (chunk_bounds (unat range_begin) (unat range_end) (unat (max grain 1)))) p" and "live_jobs p = []"
    and "range_begin \<le> range_end" and "unat range_end + unat (max grain 1) < 2 ^ 64" and "\<forall>i s. \<not> snd (fn i s)"
  shows "\<exists>st t' q xs. ParallelFor sc range_begin range_end grain (Some fn) (t, p) = Some (st, t', q) \<and> status_ok st \<and>
     mset xs = mset [unat range_begin..<unat range_end] \<and>
     pshared q = fold (\<lambda>j s. fst (fn (of_nat j) s)) xs (pshared p)"
proof (cases "range_begin = range_end")
  case True
  then show ?thesis by (auto simp: ParallelFor_def intro: exI [of _ "[]"])
next
  case False
  let ?g = "max grain 1"
  let ?cs = "chunk_bounds (unat range_begin) (unat range_end) (unat ?g)"
  have ge: "1 \<le> grain" if "grain \<noteq> 0" using that by (simp add: word_le_nat_alt Suc_le_eq unat_gt_0)
  have g: "(if grain = 0 then 1 else grain) = ?g" "0 < ?g"
  proof -
    show "(if grain = 0 then 1 else grain) = ?g"
      using ge by (cases "grain = 0") (simp_all add: max_absorb1 max_absorb2)
    show "0 < ?g" by (rule less_le_trans [OF _ max.cobounded2]) simp
  qed
  have inv: "client_inv (length ?cs + 0) p" using assms(1) by simp
  obtain news st t' q js where r: "ParallelFor_loop sc range_end ?g fn range_begin [] (t, p) = Some (st, t', q)" "status_ok st"
    "length news = length ?cs" "pshared q = run_bodies js (pshared p)"
    "mset js + mset (live_jobs q) = mset (zip news (map (chunk_task fn) ?cs))" "set news \<inter> fst ` set (live_jobs q) = {}"
    using ParallelFor_loop_spec [OF inv _ g(2) assms(4), of "[]" sc fn t] assms(2) by auto
  have "set (live_jobs q) \<subseteq> set (zip news (map (chunk_task fn) ?cs))" using arg_cong [OF r(5), of set_mset] by auto
  then have "fst ` set (live_jobs q) \<subseteq> set news" by (force dest: set_zip_leftD)
  then have "live_jobs q = []" using r(6) by (metis Int_absorb2 inf_commute image_is_empty set_empty2)
  then have js: "mset js = mset (zip news (map (chunk_task fn) ?cs))" using r(5) by simp
  have bd: "\<forall>(a, b)\<in>set ?cs. a < 2 ^ 64 \<and> b < 2 ^ 64"
  proof (intro ballI, clarify)
    fix a b assume "(a, b) \<in> set ?cs"
    then have "a < unat range_end" "b \<le> unat range_end" using chunk_bounds_below by blast+
    moreover have "unat range_end < 2 ^ 64" using assms(4) by linarith
    ultimately show "a < 2 ^ 64 \<and> b < 2 ^ 64" by linarith
  qed
  have "0 < unat ?g" using g(2) by (simp add: word_less_nat_alt)
  from perm_chunks [OF js r(3) assms(5) bd, of "pshared p"] obtain xs where
    "mset xs = mset [unat range_begin..<unat range_end]" "run_bodies js (pshared p) = fold (\<lambda>j s. fst (fn (of_nat j) s)) xs (pshared p)"
    unfolding chunk_bounds_cover [OF \<open>0 < unat ?g\<close>] by blast
  moreover have "ParallelFor sc range_begin range_end grain (Some fn) (t, p) = Some (st, t', q)"
    using r(1) g(1) False leD [OF assms(3)] by (simp add: ParallelFor_def)
  ultimately show ?thesis using r(2,4) by auto
qed

theorem ParallelFor_covers_witness:
  "\<exists>st t' q xs. ParallelFor \<lparr>burst = (\<lambda>t. 1), turn = (\<lambda>t. t)\<rparr> 2 9 3 (Some (\<lambda>i s. (s + unat i, False))) (0, new_pool 0 demo_options 0)
       = Some (st, t', q) \<and> status_ok st \<and> mset xs = mset [2..<9] \<and>
     pshared q = fold (\<lambda>j s. fst ((\<lambda>i s. (s + unat i, False)) (of_nat j :: size_t) s)) xs (0 :: nat)"
proof -
  let ?p = "new_pool 0 demo_options 0 :: nat pool"
  have cap: "xo_queue_capacity demo_options = 0" by (simp add: demo_options_def)
  have m: "max 3 1 = (3 :: size_t)" by (simp add: max_def word_le_nat_alt)
  have "length (chunk_bounds 2 9 3) \<le> 65536" by (simp add: chunk_bounds.simps)
  then have inv: "client_inv (length (chunk_bounds (unat (2 :: size_t)) (unat (9 :: size_t)) (unat (max 3 1 :: size_t)))) ?p"
    using client_inv_new(1) [OF cap] by (simp add: m)
  have "pshared ?p = 0" by (simp add: new_pool_def)
  then show ?thesis
    using ParallelFor_covers [OF inv client_inv_new(2) [OF cap, of 0], of "\<lambda>i s. (s + unat i, False)"
        "\<lparr>burst = (\<lambda>t. 1), turn = (\<lambda>t. t)\<rparr>" 0] by (simp add: m word_le_nat_alt)
qed

section \<open>Wrap-around\<close>

text \<open>While the pool accepts every task, the loop counter alone decides how long the loop runs.\<close>

definition open_pool :: "'s pool \<Rightarrow> bool" where
  "open_pool p \<longleftrightarrow> \<not> stopping (px p) \<and> xo_queue_capacity (xoptions (px p)) = 0"

lemma worker_step_open: "worker_step p q \<Longrightarrow> open_pool p \<Longrightarrow> open_pool q"
proof -
  assume "worker_step p q" and o: "open_pool p"
  then have "exec_step p q" "pworkers q \<noteq> pworkers p" by (auto simp: worker_step_def)
  then show ?thesis
  proof cases
    case (work_pick k j e)
    obtain i where "e = (px p)\<lparr>tasks := erase_at i (tasks (px p)), active_workers := active_workers (px p) + 1\<rparr>"
      by (rule worker_pick_effect [OF work_pick(4)])
    then show ?thesis using o by (simp add: open_pool_def work_pick(1))
  next
    case (work_begin k i f key e)
    then show ?thesis using o by (auto simp: open_pool_def task_begin_def split: option.splits)
  next
    case (work_skip k i f key e)
    then have "stopping e = stopping (px p)" "xoptions e = xoptions (px p)" by (auto simp: task_begin_def split: option.splits)
    then show ?thesis using o by (simp add: open_pool_def work_skip(1))
  qed (use o in \<open>simp_all add: open_pool_def plain_done_def worker_finish_def Let_def\<close>)
qed

lemma moves_open: "open_pool (snd c) \<Longrightarrow> open_pool (snd (moves sc n c))"
proof (induction sc n c rule: moves.induct)
  case (2 sc n t p)
  then show ?case by (auto split: option.splits dest: next_move_step worker_step_open)
qed simp

lemma client_SubmitEx_open:
  assumes "open_pool p"
  shows "\<exists>i t' q. client_SubmitEx sc (Some f) opts (t, p) = (Result_value i, t', q) \<and> open_pool q"
proof -
  obtain t1 p1 where b: "before_call sc (t, p) = (t1, p1)" by (metis surj_pair)
  have o: "open_pool p1" using moves_open [of "(t, p)" sc "burst sc t"] assms b by (simp add: before_call_def)
  obtain i e2 where rg: "register_task (so_serial_key opts) (px p1) = (i, e2)" by (metis surj_pair)
  have e2: "stopping e2 = stopping (px p1)" "xoptions e2 = xoptions (px p1)"
    using rg by (auto simp: register_task_def NextTaskIdLocked_def put_state_def Let_def split: if_splits)
  obtain st e3 where en: "Enqueue (TrackedJob i f (so_serial_key opts)) opts e2 = (st, e3)" by (metis surj_pair)
  have e3: "status_ok st" "stopping e3 = stopping e2" "xoptions e3 = xoptions e2"
    using en o e2 by (auto simp: Enqueue_def Let_def open_pool_def split: if_splits)
  then have "client_SubmitEx sc (Some f) opts (t, p) = (Result_value i, t1, p1\<lparr>px := e3\<rparr>)"
    by (simp add: client_SubmitEx_def b SubmitEx_def rg en)
  then show ?thesis using o e2 e3 by (auto simp: open_pool_def)
qed

lemma ParallelFor_loop_diverges:
  assumes "ParallelFor_loop sc range_end g fn cb ids c = Some y"
  shows "\<not> (open_pool (snd c) \<and> cb < range_end \<and> cb + g < range_end \<and> cb + g + g = cb)"
proof (rule ParallelFor_loop.raw_induct [where P = "\<lambda>sc range_end g fn cb ids c y. \<not> (open_pool (snd c) \<and> cb < range_end \<and>
    cb + g < range_end \<and> cb + g + g = cb)", OF _ assms], goal_cases)
  case (1 loop sc range_end g fn cb ids c y)
  show ?case
  proof
    assume a: "open_pool (snd c) \<and> cb < range_end \<and> cb + g < range_end \<and> cb + g + g = cb"
    obtain t p where c: "c = (t, p)" by (metis surj_pair)
    obtain i t' q where s: "client_SubmitEx sc (Some (chunk_body fn cb (min (cb + g) range_end))) default_submit_options (t, p)
        = (Result_value i, t', q)" "open_pool q"
      using client_SubmitEx_open [of p sc "chunk_body fn cb (min (cb + g) range_end)" default_submit_options t] a c by auto
    have l: "loop sc range_end g fn (cb + g) (ids @ [i]) (t', q) = Some y" using 1(2) a s(1) by (simp add: c Let_def)
    have "cb + g + g < range_end" "cb + g + g + g = cb + g" using a by argo+
    then show False using 1(1) [OF l] a s(2) unfolding snd_conv by blast
  qed
qed



end
