(* ===== verification/CK_Allocator.thy ===== *)
theory CK_Allocator
  imports CK_Status "HOL-Library.AList"
begin

text \<open>
  The allocators (\<open>src/memory/system_allocator.cpp\<close>, \<open>mimalloc_allocator.cpp\<close>, \<open>tbb_allocator.cpp\<close>,
  interface \<open>include/corekit/memory/iallocator.hpp\<close>). Each class keeps counters and a table of the
  sizes of its live blocks around a C library. The libraries (\<open>posix_memalign\<close>, \<open>mi_malloc_aligned\<close>,
  \<open>scalable_aligned_malloc\<close> and their \<open>free\<close>) are parameters: functions on an abstract heap \<open>'h\<close> that
  \<open>malloc_ok\<close> describes by the blocks that are live in it. An operation is atomic here; the global
  allocator calls it under its mutex. The counters are atomics of 64 bits. \<open>CK_Global_Allocator\<close> models
  the process-wide allocator on top.
\<close>

section \<open>Data\<close>

type_synonym ptr = u64

datatype AllocBackend = kSystem | kTbbScalable | kMimalloc

record AllocatorCaps =
  supports_aligned_alloc :: bool
  supports_runtime_switch :: bool
  thread_safe :: bool

record AllocatorStats =
  as_alloc_count :: u64
  as_free_count :: u64
  as_alloc_fail_count :: u64
  as_bytes_in_use :: u64
  as_bytes_peak :: u64

record Allocator =
  al_backend :: AllocBackend
  al_count :: u64
  al_free :: u64
  al_fail :: u64
  al_in_use :: u64
  al_peak :: u64
  al_sizes :: "(ptr \<times> size_t) list"

record 'h MallocApi =
  malloc_aligned :: "size_t \<Rightarrow> size_t \<Rightarrow> 'h \<Rightarrow> ptr \<times> 'h"
  free_ptr :: "ptr \<Rightarrow> 'h \<Rightarrow> 'h"

definition mem_status :: "StatusCode \<Rightarrow> string \<Rightarrow> Status" where
  "mem_status code message = Status_FromModule code message kMemory 0"

definition IsPowerOfTwo :: "size_t \<Rightarrow> bool" where
  "IsPowerOfTwo x \<longleftrightarrow> x \<noteq> 0 \<and> x AND (x - 1) = 0"

definition sizeof_ptr :: size_t where
  "sizeof_ptr = 8"

section \<open>The system allocator\<close>

definition SystemAllocator :: Allocator where
  "SystemAllocator = \<lparr>al_backend = kSystem, al_count = 0, al_free = 0, al_fail = 0, al_in_use = 0, al_peak = 0, al_sizes = []\<rparr>"

definition sys_Caps :: AllocatorCaps where
  "sys_Caps = \<lparr>supports_aligned_alloc = True, supports_runtime_switch = False, thread_safe = True\<rparr>"

definition sys_Stats :: "Allocator \<Rightarrow> AllocatorStats" where
  "sys_Stats a = \<lparr>as_alloc_count = al_count a, as_free_count = al_free a, as_alloc_fail_count = al_fail a,
     as_bytes_in_use = al_in_use a, as_bytes_peak = al_peak a\<rparr>"

definition sys_ResetStats :: "Allocator \<Rightarrow> Allocator" where
  "sys_ResetStats a =
     (let live = fold (\<lambda>(p, s) acc. acc + s) (al_sizes a) 0
      in a\<lparr>al_count := 0, al_free := 0, al_fail := 0, al_in_use := live, al_peak := live\<rparr>)"

definition sys_RecordAllocFailure :: "Allocator \<Rightarrow> Allocator" where
  "sys_RecordAllocFailure a = a\<lparr>al_fail := al_fail a + 1\<rparr>"

definition sys_RecordAllocSuccess :: "ptr \<Rightarrow> size_t \<Rightarrow> Allocator \<Rightarrow> Allocator" where
  "sys_RecordAllocSuccess p sz a =
     (let now = al_in_use a + sz
      in a\<lparr>al_count := al_count a + 1, al_sizes := AList.update p sz (al_sizes a), al_in_use := now,
           al_peak := (if now > al_peak a then now else al_peak a)\<rparr>)"

definition sys_RecordDeallocate :: "ptr \<Rightarrow> Allocator \<Rightarrow> Allocator" where
  "sys_RecordDeallocate p a =
     (let released = (case map_of (al_sizes a) p of Some s \<Rightarrow> s | None \<Rightarrow> 0);
          a1 = a\<lparr>al_sizes := AList.delete p (al_sizes a), al_free := al_free a + 1\<rparr>
      in if released > 0
         then a1\<lparr>al_in_use := (if al_in_use a1 > released then al_in_use a1 - released else 0)\<rparr>
         else a1)"

definition sys_SetBackend :: "AllocBackend \<Rightarrow> Allocator \<Rightarrow> Status \<times> Allocator" where
  "sys_SetBackend backend a =
     (if backend \<noteq> kSystem
      then (mem_status kUnsupported ''Only kSystem backend is implemented in current stage'', a)
      else (Status_Ok, a\<lparr>al_backend := backend\<rparr>))"

definition sys_Allocate :: "'h MallocApi \<Rightarrow> size_t \<Rightarrow> size_t \<Rightarrow> Allocator \<Rightarrow> 'h \<Rightarrow> ptr Result \<times> Allocator \<times> 'h" where
  "sys_Allocate api sz alignment a h =
     (if al_backend a \<noteq> kSystem
      then (Result_status 0 (mem_status kUnsupported ''Selected backend is not implemented''), sys_RecordAllocFailure a, h)
      else if sz = 0
      then (Result_status 0 (mem_status kInvalidArgument ''size must be > 0''), sys_RecordAllocFailure a, h)
      else if alignment < sizeof_ptr \<or> \<not> IsPowerOfTwo alignment
      then (Result_status 0 (mem_status kInvalidArgument ''alignment must be power-of-two and >= sizeof(void*)''),
            sys_RecordAllocFailure a, h)
      else let (p, h') = malloc_aligned api sz alignment h
           in if p = 0
              then (Result_status 0 (mem_status kInternalError ''posix_memalign failed''), sys_RecordAllocFailure a, h')
              else (Result_value p, sys_RecordAllocSuccess p sz a, h'))"

definition sys_Deallocate :: "'h MallocApi \<Rightarrow> ptr \<Rightarrow> Allocator \<Rightarrow> 'h \<Rightarrow> Status \<times> Allocator \<times> 'h" where
  "sys_Deallocate api p a h =
     (if p = 0 then (Status_Ok, a, h)
      else (Status_Ok, sys_RecordDeallocate p a, free_ptr api p h))"

section \<open>The mimalloc allocator\<close>

definition MimallocAllocator :: Allocator where
  "MimallocAllocator = \<lparr>al_backend = kMimalloc, al_count = 0, al_free = 0, al_fail = 0, al_in_use = 0, al_peak = 0, al_sizes = []\<rparr>"

definition mi_Caps :: AllocatorCaps where
  "mi_Caps = \<lparr>supports_aligned_alloc = True, supports_runtime_switch = False, thread_safe = True\<rparr>"

definition mi_Stats :: "Allocator \<Rightarrow> AllocatorStats" where
  "mi_Stats a = \<lparr>as_alloc_count = al_count a, as_free_count = al_free a, as_alloc_fail_count = al_fail a,
     as_bytes_in_use = al_in_use a, as_bytes_peak = al_peak a\<rparr>"

definition mi_ResetStats :: "Allocator \<Rightarrow> Allocator" where
  "mi_ResetStats a =
     (let live = fold (\<lambda>(p, s) acc. acc + s) (al_sizes a) 0
      in a\<lparr>al_count := 0, al_free := 0, al_fail := 0, al_in_use := live, al_peak := live\<rparr>)"

definition mi_RecordAllocFailure :: "Allocator \<Rightarrow> Allocator" where
  "mi_RecordAllocFailure a = a\<lparr>al_fail := al_fail a + 1\<rparr>"

definition mi_RecordAllocSuccess :: "ptr \<Rightarrow> size_t \<Rightarrow> Allocator \<Rightarrow> Allocator" where
  "mi_RecordAllocSuccess p sz a =
     (let now = al_in_use a + sz
      in a\<lparr>al_count := al_count a + 1, al_sizes := AList.update p sz (al_sizes a), al_in_use := now,
           al_peak := (if now > al_peak a then now else al_peak a)\<rparr>)"

definition mi_RecordDeallocate :: "ptr \<Rightarrow> Allocator \<Rightarrow> Allocator" where
  "mi_RecordDeallocate p a =
     (let released = (case map_of (al_sizes a) p of Some s \<Rightarrow> s | None \<Rightarrow> 0);
          a1 = a\<lparr>al_sizes := AList.delete p (al_sizes a), al_free := al_free a + 1\<rparr>
      in if released > 0
         then a1\<lparr>al_in_use := (if al_in_use a1 > released then al_in_use a1 - released else 0)\<rparr>
         else a1)"

definition mi_SetBackend :: "AllocBackend \<Rightarrow> Allocator \<Rightarrow> Status \<times> Allocator" where
  "mi_SetBackend backend a =
     (if backend \<noteq> kMimalloc
      then (mem_status kUnsupported ''MimallocAllocator only supports kMimalloc backend'', a)
      else (Status_Ok, a))"

definition mi_Allocate :: "'h MallocApi \<Rightarrow> size_t \<Rightarrow> size_t \<Rightarrow> Allocator \<Rightarrow> 'h \<Rightarrow> ptr Result \<times> Allocator \<times> 'h" where
  "mi_Allocate api sz alignment a h =
     (if sz = 0
      then (Result_status 0 (mem_status kInvalidArgument ''size must be > 0''), mi_RecordAllocFailure a, h)
      else if alignment < sizeof_ptr \<or> \<not> IsPowerOfTwo alignment
      then (Result_status 0 (mem_status kInvalidArgument ''alignment must be power-of-two and >= sizeof(void*)''),
            mi_RecordAllocFailure a, h)
      else let (p, h') = malloc_aligned api sz alignment h
           in if p = 0
              then (Result_status 0 (mem_status kInternalError ''mi_malloc_aligned failed''), mi_RecordAllocFailure a, h')
              else (Result_value p, mi_RecordAllocSuccess p sz a, h'))"

definition mi_Deallocate :: "'h MallocApi \<Rightarrow> ptr \<Rightarrow> Allocator \<Rightarrow> 'h \<Rightarrow> Status \<times> Allocator \<times> 'h" where
  "mi_Deallocate api p a h =
     (if p = 0 then (Status_Ok, a, h)
      else (Status_Ok, mi_RecordDeallocate p a, free_ptr api p h))"

section \<open>The TBB allocator\<close>

definition TbbAllocator :: Allocator where
  "TbbAllocator = \<lparr>al_backend = kTbbScalable, al_count = 0, al_free = 0, al_fail = 0, al_in_use = 0, al_peak = 0, al_sizes = []\<rparr>"

definition tbb_Caps :: AllocatorCaps where
  "tbb_Caps = \<lparr>supports_aligned_alloc = True, supports_runtime_switch = False, thread_safe = True\<rparr>"

definition tbb_Stats :: "Allocator \<Rightarrow> AllocatorStats" where
  "tbb_Stats a = \<lparr>as_alloc_count = al_count a, as_free_count = al_free a, as_alloc_fail_count = al_fail a,
     as_bytes_in_use = al_in_use a, as_bytes_peak = al_peak a\<rparr>"

definition tbb_ResetStats :: "Allocator \<Rightarrow> Allocator" where
  "tbb_ResetStats a =
     (let live = fold (\<lambda>(p, s) acc. acc + s) (al_sizes a) 0
      in a\<lparr>al_count := 0, al_free := 0, al_fail := 0, al_in_use := live, al_peak := live\<rparr>)"

definition tbb_RecordAllocFailure :: "Allocator \<Rightarrow> Allocator" where
  "tbb_RecordAllocFailure a = a\<lparr>al_fail := al_fail a + 1\<rparr>"

definition tbb_RecordAllocSuccess :: "ptr \<Rightarrow> size_t \<Rightarrow> Allocator \<Rightarrow> Allocator" where
  "tbb_RecordAllocSuccess p sz a =
     (let now = al_in_use a + sz
      in a\<lparr>al_count := al_count a + 1, al_sizes := AList.update p sz (al_sizes a), al_in_use := now,
           al_peak := (if now > al_peak a then now else al_peak a)\<rparr>)"

definition tbb_RecordDeallocate :: "ptr \<Rightarrow> Allocator \<Rightarrow> Allocator" where
  "tbb_RecordDeallocate p a =
     (let released = (case map_of (al_sizes a) p of Some s \<Rightarrow> s | None \<Rightarrow> 0);
          a1 = a\<lparr>al_sizes := AList.delete p (al_sizes a), al_free := al_free a + 1\<rparr>
      in if released > 0
         then a1\<lparr>al_in_use := (if al_in_use a1 > released then al_in_use a1 - released else 0)\<rparr>
         else a1)"

definition tbb_SetBackend :: "AllocBackend \<Rightarrow> Allocator \<Rightarrow> Status \<times> Allocator" where
  "tbb_SetBackend backend a =
     (if backend \<noteq> kTbbScalable
      then (mem_status kUnsupported ''TbbAllocator only supports kTbbScalable backend'', a)
      else (Status_Ok, a))"

definition tbb_Allocate :: "'h MallocApi \<Rightarrow> size_t \<Rightarrow> size_t \<Rightarrow> Allocator \<Rightarrow> 'h \<Rightarrow> ptr Result \<times> Allocator \<times> 'h" where
  "tbb_Allocate api sz alignment a h =
     (if sz = 0
      then (Result_status 0 (mem_status kInvalidArgument ''size must be > 0''), tbb_RecordAllocFailure a, h)
      else if alignment < sizeof_ptr \<or> \<not> IsPowerOfTwo alignment
      then (Result_status 0 (mem_status kInvalidArgument ''alignment must be power-of-two and >= sizeof(void*)''),
            tbb_RecordAllocFailure a, h)
      else let (p, h') = malloc_aligned api sz alignment h
           in if p = 0
              then (Result_status 0 (mem_status kInternalError ''scalable_aligned_malloc failed''), tbb_RecordAllocFailure a, h')
              else (Result_value p, tbb_RecordAllocSuccess p sz a, h'))"

definition tbb_Deallocate :: "'h MallocApi \<Rightarrow> ptr \<Rightarrow> Allocator \<Rightarrow> 'h \<Rightarrow> Status \<times> Allocator \<times> 'h" where
  "tbb_Deallocate api p a h =
     (if p = 0 then (Status_Ok, a, h)
      else (Status_Ok, tbb_RecordDeallocate p a, free_ptr api p h))"

end
