(* ===== verification/CK_Allocator_Spec.thy ===== *)
theory CK_Allocator_Spec
  imports CK_Allocator
begin

text \<open>
  The contract of an allocator as its clients use it, the description of the C libraries it rests
  on, and the proof that the three allocators provide it.
\<close>

section \<open>Blocks\<close>

type_synonym blocks = "ptr \<rightharpoonup> size_t"

definition block_bytes :: "blocks \<Rightarrow> nat" where
  "block_bytes m = (\<Sum>p\<in>dom m. unat (the (m p)))"

lemma block_bytes_empty [simp]: "block_bytes Map.empty = 0"
  by (simp add: block_bytes_def)

lemma block_bytes_new:
  assumes "finite (dom m)" and "m p = None"
  shows "block_bytes (m(p \<mapsto> s)) = block_bytes m + unat s"
proof -
  have "(\<Sum>q\<in>dom m. unat (the ((m(p \<mapsto> s)) q))) = (\<Sum>q\<in>dom m. unat (the (m q)))"
    using assms(2) by (intro sum.cong) auto
  then show ?thesis using assms by (simp add: block_bytes_def domIff)
qed

lemma block_bytes_remove:
  assumes "finite (dom m)" and "m p = Some s"
  shows "block_bytes m = block_bytes (m(p := None)) + unat s"
proof -
  have m: "m = (m(p := None))(p \<mapsto> s)" using assms(2) by auto
  have "block_bytes ((m(p := None))(p \<mapsto> s)) = block_bytes (m(p := None)) + unat s"
    by (rule block_bytes_new) (use assms(1) in auto)
  then show ?thesis using m by simp
qed

lemma block_bytes_mono: "finite (dom m') \<Longrightarrow> m \<subseteq>\<^sub>m m' \<Longrightarrow> block_bytes m \<le> block_bytes m'"
proof -
  assume f: "finite (dom m')" and s: "m \<subseteq>\<^sub>m m'"
  have "block_bytes m = (\<Sum>p\<in>dom m. unat (the (m' p)))"
    unfolding block_bytes_def using s by (intro sum.cong) (auto simp: map_le_def)
  also have "\<dots> \<le> block_bytes m'"
    unfolding block_bytes_def using f map_le_implies_dom_le [OF s] by (intro sum_mono2) auto
  finally show ?thesis .
qed

lemma block_bytes_list:
  "distinct (map fst xs) \<Longrightarrow> block_bytes (map_of xs) = sum_list (map (unat \<circ> snd) xs)"
proof (induction xs)
  case (Cons x xs)
  obtain q s where x: "x = (q, s)" by (metis surj_pair)
  then have "map_of xs q = None" using Cons.prems by (auto simp: map_of_eq_None_iff)
  from block_bytes_new [OF finite_dom_map_of this, of s] show ?case using Cons by (simp add: x fun_upd_def add.commute)
qed simp

section \<open>The C library\<close>

text \<open>What the allocators rely on of an aligned \<open>malloc\<close> and its \<open>free\<close>: \<open>live h\<close> are the blocks the library
  has handed out in the heap \<open>h\<close>. A result is \<open>NULL\<close> or a new block at an aligned address; all
  blocks together are smaller than the address space; \<open>free\<close> gives back a live block.\<close>

definition malloc_ok :: "'h MallocApi \<Rightarrow> ('h \<Rightarrow> blocks) \<Rightarrow> bool" where
  "malloc_ok api live \<longleftrightarrow>
     (\<forall>h. finite (dom (live h)) \<and> block_bytes (live h) < 2 ^ 64) \<and>
     (\<forall>sz al h p h'. malloc_aligned api sz al h = (p, h') \<longrightarrow>
        (if p = 0 then live h' = live h
         else live h p = None \<and> live h' = (live h)(p \<mapsto> sz) \<and> unat al dvd unat p)) \<and>
     (\<forall>p h. live h p \<noteq> None \<longrightarrow> live (free_ptr api p h) = (live h)(p := None))"

section \<open>The contract of an allocator\<close>

text \<open>\<open>owned a\<close> are the blocks obtained through the allocator and not given back.\<close>

locale allocator =
  fixes allocate :: "size_t \<Rightarrow> size_t \<Rightarrow> 'a \<Rightarrow> 'h \<Rightarrow> ptr Result \<times> 'a \<times> 'h"
    and deallocate :: "ptr \<Rightarrow> 'a \<Rightarrow> 'h \<Rightarrow> Status \<times> 'a \<times> 'h"
    and in_use :: "'a \<Rightarrow> u64"
    and owned :: "'a \<Rightarrow> blocks"
    and ainv :: "'a \<Rightarrow> 'h \<Rightarrow> bool"
  assumes allocate_law: "ainv a h \<Longrightarrow> allocate sz al a h = (r, a', h') \<Longrightarrow>
      ainv a' h' \<and>
      (if result_ok r
       then res_value r \<noteq> 0 \<and> owned a (res_value r) = None \<and> owned a' = (owned a)(res_value r \<mapsto> sz) \<and>
            0 < sz \<and> unat al dvd unat (res_value r)
       else owned a' = owned a)"
    and deallocate_law: "ainv a h \<Longrightarrow> owned a p \<noteq> None \<Longrightarrow> deallocate p a h = (st, a', h') \<Longrightarrow>
      status_ok st \<and> ainv a' h' \<and> owned a' = (owned a)(p := None)"
    and in_use_law: "ainv a h \<Longrightarrow> finite (dom (owned a)) \<and> unat (in_use a) = block_bytes (owned a)
      \<and> (\<forall>p s. owned a p = Some s \<longrightarrow> 0 < s \<and> p \<noteq> 0)"
begin

text \<open>The counter of bytes is zero exactly when no block is owned.\<close>

lemma in_use_zero: "ainv a h \<Longrightarrow> in_use a = 0 \<longleftrightarrow> owned a = Map.empty"
proof -
  assume inv: "ainv a h"
  note l = in_use_law [OF inv]
  have "in_use a = 0 \<longleftrightarrow> block_bytes (owned a) = 0" using l by (metis unat_eq_zero)
  also have "\<dots> \<longleftrightarrow> (\<forall>p\<in>dom (owned a). unat (the (owned a p)) = 0)"
    using l by (simp add: block_bytes_def)
  also have "\<dots> \<longleftrightarrow> dom (owned a) = {}"
    using l by (metis domD domIff empty_iff equals0I option.sel unat_eq_zero word_gt_0)
  finally show ?thesis by simp
qed

text \<open>A block that is allocated and given back leaves the allocator with the blocks it had.\<close>

lemma allocate_deallocate:
  assumes "ainv a h" and "allocate sz al a h = (r, a1, h1)" and "result_ok r" and "deallocate (res_value r) a1 h1 = (st, a2, h2)"
  shows "ainv a2 h2 \<and> owned a2 = owned a \<and> in_use a2 = in_use a"
proof -
  have 1: "ainv a1 h1" "owned a1 = (owned a)(res_value r \<mapsto> sz)" "owned a (res_value r) = None"
    using allocate_law [OF assms(1,2)] assms(3) by auto
  have 2: "ainv a2 h2" "owned a2 = (owned a1)(res_value r := None)"
    using deallocate_law [OF 1(1) _ assms(4)] 1(2) by auto
  then have o: "owned a2 = owned a" using 1 by auto
  have "unat (in_use a2) = unat (in_use a)" using in_use_law [OF 2(1)] in_use_law [OF assms(1)] o by simp
  then show ?thesis using 2 o by (simp add: word_unat_eq_iff)
qed

end

section \<open>The three allocators\<close>

definition alloc_inv :: "blocks \<Rightarrow> Allocator \<Rightarrow> bool" where
  "alloc_inv m a \<longleftrightarrow> distinct (map fst (al_sizes a)) \<and> map_of (al_sizes a) \<subseteq>\<^sub>m m \<and>
     unat (al_in_use a) = block_bytes (map_of (al_sizes a)) \<and> al_in_use a \<le> al_peak a \<and>
     (\<forall>p s. map_of (al_sizes a) p = Some s \<longrightarrow> 0 < s \<and> p \<noteq> 0)"

definition owned_blocks :: "Allocator \<Rightarrow> blocks" where
  "owned_blocks a = map_of (al_sizes a)"

lemma alloc_inv_failure: "alloc_inv m (sys_RecordAllocFailure a) \<longleftrightarrow> alloc_inv m a"
  by (simp add: alloc_inv_def sys_RecordAllocFailure_def)

lemma alloc_inv_success:
  assumes inv: "alloc_inv m a" and m: "m p = None" "finite (dom m)" "block_bytes (m(p \<mapsto> sz)) < 2 ^ 64" "0 < sz" "p \<noteq> 0"
  shows "alloc_inv (m(p \<mapsto> sz)) (sys_RecordAllocSuccess p sz a)"
    and "owned_blocks (sys_RecordAllocSuccess p sz a) = (owned_blocks a)(p \<mapsto> sz)"
proof -
  let ?a = "sys_RecordAllocSuccess p sz a"
  have n: "map_of (al_sizes a) p = None" using inv m(1) unfolding alloc_inv_def map_le_def by (metis domIff)
  have o: "map_of (al_sizes ?a) = (map_of (al_sizes a))(p \<mapsto> sz)"
    by (simp add: sys_RecordAllocSuccess_def Let_def update_conv')
  then show "owned_blocks ?a = (owned_blocks a)(p \<mapsto> sz)" by (simp add: owned_blocks_def)
  have le: "map_of (al_sizes ?a) \<subseteq>\<^sub>m m(p \<mapsto> sz)" using inv unfolding o alloc_inv_def by (simp add: map_le_def)
  have b: "block_bytes (map_of (al_sizes ?a)) = block_bytes (map_of (al_sizes a)) + unat sz"
    unfolding o by (rule block_bytes_new [OF finite_dom_map_of n])
  have "block_bytes (map_of (al_sizes ?a)) \<le> block_bytes (m(p \<mapsto> sz))"
    by (rule block_bytes_mono [OF _ le]) (use m(2) in simp)
  then have nw: "unat (al_in_use a) + unat sz < 2 ^ 64" using b m(3) inv unfolding alloc_inv_def by linarith
  then have u: "unat (al_in_use a + sz) = unat (al_in_use a) + unat sz" by (intro unat_add_noflow) simp
  have "distinct (map fst (al_sizes ?a))"
    using inv by (simp add: sys_RecordAllocSuccess_def Let_def alloc_inv_def distinct_update)
  moreover have "al_in_use ?a = al_in_use a + sz" "al_in_use ?a \<le> al_peak ?a"
    by (auto simp: sys_RecordAllocSuccess_def Let_def)
  moreover have "unat (al_in_use a) = block_bytes (map_of (al_sizes a))" using inv by (simp add: alloc_inv_def)
  moreover have "\<forall>q s. map_of (al_sizes ?a) q = Some s \<longrightarrow> 0 < s \<and> q \<noteq> 0"
    using inv m(4,5) unfolding o alloc_inv_def by auto
  ultimately show "alloc_inv (m(p \<mapsto> sz)) ?a" using le b u unfolding alloc_inv_def by simp
qed

lemma alloc_inv_dealloc:
  assumes inv: "alloc_inv m a" and p: "owned_blocks a p \<noteq> None"
  shows "alloc_inv (m(p := None)) (sys_RecordDeallocate p a)"
    and "owned_blocks (sys_RecordDeallocate p a) = (owned_blocks a)(p := None)"
proof -
  let ?a = "sys_RecordDeallocate p a"
  obtain s where s: "map_of (al_sizes a) p = Some s" using p by (auto simp: owned_blocks_def)
  have pos: "0 < s" using inv s by (auto simp: alloc_inv_def)
  have o: "map_of (al_sizes ?a) = (map_of (al_sizes a))(p := None)"
    using s pos by (simp add: sys_RecordDeallocate_def Let_def delete_conv' restrict_complement_singleton_eq)
  then show "owned_blocks ?a = (owned_blocks a)(p := None)" by (simp add: owned_blocks_def)
  have b: "block_bytes (map_of (al_sizes a)) = block_bytes (map_of (al_sizes ?a)) + unat s"
    unfolding o by (rule block_bytes_remove [OF finite_dom_map_of s])
  have use: "unat (al_in_use a) = block_bytes (map_of (al_sizes a))" "al_in_use a \<le> al_peak a"
    using inv by (auto simp: alloc_inv_def)
  have iu: "al_in_use ?a = (if al_in_use a > s then al_in_use a - s else 0)" "al_peak ?a = al_peak a"
    using s pos by (simp_all add: sys_RecordDeallocate_def Let_def)
  have u: "unat (al_in_use ?a) = block_bytes (map_of (al_sizes ?a)) \<and> al_in_use ?a \<le> al_peak ?a"
  proof (cases "s < al_in_use a")
    case True
    then have "unat (al_in_use a - s) = unat (al_in_use a) - unat s" by (simp add: unat_sub)
    then have uu: "unat (al_in_use a - s) = block_bytes (map_of (al_sizes ?a))" using b use(1) by simp
    then have "al_in_use a - s \<le> al_peak a" using b use unfolding word_le_nat_alt by linarith
    then show ?thesis using True uu iu by simp
  next
    case False
    then have "unat (al_in_use a) \<le> unat s" by (simp add: word_less_nat_alt)
    then show ?thesis using False b use iu by simp
  qed
  have "distinct (map fst (al_sizes ?a))"
    using inv s pos by (simp add: sys_RecordDeallocate_def Let_def alloc_inv_def distinct_delete)
  moreover have "map_of (al_sizes ?a) \<subseteq>\<^sub>m m(p := None)" using inv unfolding o alloc_inv_def by (auto simp: map_le_def)
  ultimately show "alloc_inv (m(p := None)) ?a" using u inv unfolding o alloc_inv_def by auto
qed

lemma reset_live: "fold (\<lambda>(p, s) acc. acc + s) xs (k :: u64) = k + of_nat (sum_list (map (unat \<circ> snd) xs))"
  by (induction xs arbitrary: k) (auto simp: algebra_simps)

lemma alloc_inv_reset:
  assumes inv: "alloc_inv m a"
  shows "alloc_inv m (sys_ResetStats a)" and "owned_blocks (sys_ResetStats a) = owned_blocks a"
    and "al_in_use (sys_ResetStats a) = al_in_use a"
proof -
  have d: "distinct (map fst (al_sizes a))" "unat (al_in_use a) = block_bytes (map_of (al_sizes a))"
    using inv by (auto simp: alloc_inv_def)
  then have "fold (\<lambda>(p, s) acc. acc + s) (al_sizes a) 0 = al_in_use a"
    unfolding reset_live block_bytes_list [OF d(1), symmetric] by (simp flip: d(2))
  then show "al_in_use (sys_ResetStats a) = al_in_use a" and "alloc_inv m (sys_ResetStats a)"
    and "owned_blocks (sys_ResetStats a) = owned_blocks a"
    using inv by (simp_all add: sys_ResetStats_def Let_def alloc_inv_def owned_blocks_def)
qed

text \<open>The other two classes repeat the text of the bookkeeping.\<close>

lemma mi_same:
  "mi_Stats = sys_Stats" "mi_ResetStats = sys_ResetStats" "mi_RecordAllocFailure = sys_RecordAllocFailure"
  "mi_RecordAllocSuccess = sys_RecordAllocSuccess" "mi_RecordDeallocate = sys_RecordDeallocate"
  "mi_Deallocate = sys_Deallocate"
  by (intro ext; simp add: mi_Stats_def sys_Stats_def mi_ResetStats_def sys_ResetStats_def mi_RecordAllocFailure_def
      sys_RecordAllocFailure_def mi_RecordAllocSuccess_def sys_RecordAllocSuccess_def mi_RecordDeallocate_def
      sys_RecordDeallocate_def mi_Deallocate_def sys_Deallocate_def)+

lemma tbb_same:
  "tbb_Stats = sys_Stats" "tbb_ResetStats = sys_ResetStats" "tbb_RecordAllocFailure = sys_RecordAllocFailure"
  "tbb_RecordAllocSuccess = sys_RecordAllocSuccess" "tbb_RecordDeallocate = sys_RecordDeallocate"
  "tbb_Deallocate = sys_Deallocate"
  by (intro ext; simp add: tbb_Stats_def sys_Stats_def tbb_ResetStats_def sys_ResetStats_def tbb_RecordAllocFailure_def
      sys_RecordAllocFailure_def tbb_RecordAllocSuccess_def sys_RecordAllocSuccess_def tbb_RecordDeallocate_def
      sys_RecordDeallocate_def tbb_Deallocate_def sys_Deallocate_def)+

definition sys_ainv :: "'h MallocApi \<Rightarrow> ('h \<Rightarrow> blocks) \<Rightarrow> Allocator \<Rightarrow> 'h \<Rightarrow> bool" where
  "sys_ainv api live a h \<longleftrightarrow> malloc_ok api live \<and> alloc_inv (live h) a"

text \<open>The three \<open>Allocate\<close> differ in a guard and in messages.\<close>

definition allocate_shape ::
    "'h MallocApi \<Rightarrow> size_t \<Rightarrow> size_t \<Rightarrow> Allocator \<Rightarrow> 'h \<Rightarrow> ptr Result \<times> Allocator \<times> 'h \<Rightarrow> bool" where
  "allocate_shape api sz al a h res \<longleftrightarrow>
     (let (r, a', h') = res in
        \<not> result_ok r \<and> a' = sys_RecordAllocFailure a \<and> (h' = h \<or> malloc_aligned api sz al h = (0, h')) \<or>
        (\<exists>p. 0 < sz \<and> malloc_aligned api sz al h = (p, h') \<and> p \<noteq> 0 \<and> r = Result_value p \<and> a' = sys_RecordAllocSuccess p sz a))"

lemma allocate_shapes:
  "allocate_shape api sz al a h (sys_Allocate api sz al a h)"
  "allocate_shape api sz al a h (mi_Allocate api sz al a h)"
  "allocate_shape api sz al a h (tbb_Allocate api sz al a h)"
  by (auto simp: allocate_shape_def sys_Allocate_def mi_Allocate_def tbb_Allocate_def mi_same tbb_same mem_status_def
      word_gt_0 Let_def split: prod.splits)

lemma allocate_shape_law:
  assumes inv: "sys_ainv api live a h" and sh: "allocate_shape api sz al a h (r, a', h')"
  shows "sys_ainv api live a' h' \<and>
      (if result_ok r
       then res_value r \<noteq> 0 \<and> owned_blocks a (res_value r) = None \<and> owned_blocks a' = (owned_blocks a)(res_value r \<mapsto> sz) \<and>
            0 < sz \<and> unat al dvd unat (res_value r)
       else owned_blocks a' = owned_blocks a)"
proof -
  have ok: "malloc_ok api live" and ai: "alloc_inv (live h) a" using inv by (auto simp: sys_ainv_def)
  from sh consider (fail) "\<not> result_ok r" "a' = sys_RecordAllocFailure a" "h' = h \<or> malloc_aligned api sz al h = (0, h')"
    | (done') p where "0 < sz" "malloc_aligned api sz al h = (p, h')" "p \<noteq> 0" "r = Result_value p" "a' = sys_RecordAllocSuccess p sz a"
    by (auto simp: allocate_shape_def Let_def)
  then show ?thesis
  proof cases
    case fail
    have "live h' = live h" using fail(3) ok unfolding malloc_ok_def by metis
    moreover have "owned_blocks a' = owned_blocks a" by (simp add: fail(2) owned_blocks_def sys_RecordAllocFailure_def)
    ultimately show ?thesis using fail(1,2) ok ai by (simp add: sys_ainv_def alloc_inv_failure)
  next
    case done'
    have l: "live h p = None" "live h' = (live h)(p \<mapsto> sz)" "unat al dvd unat p"
      using ok done'(2,3) unfolding malloc_ok_def by metis+
    have "finite (dom (live h))" "block_bytes ((live h)(p \<mapsto> sz)) < 2 ^ 64"
      using ok l(2) unfolding malloc_ok_def by metis+
    note s = alloc_inv_success [OF ai l(1) this done'(1,3)]
    have "owned_blocks a p = None" using ai l(1) unfolding alloc_inv_def owned_blocks_def map_le_def by (metis domIff)
    then show ?thesis using done' s l ok by (simp add: sys_ainv_def)
  qed
qed

lemma deallocate_shared_law:
  assumes inv: "sys_ainv api live a h" and p: "owned_blocks a p \<noteq> None" and d: "sys_Deallocate api p a h = (st, a', h')"
  shows "status_ok st \<and> sys_ainv api live a' h' \<and> owned_blocks a' = (owned_blocks a)(p := None)"
proof -
  have ok: "malloc_ok api live" and ai: "alloc_inv (live h) a" using inv by (auto simp: sys_ainv_def)
  have p0: "p \<noteq> 0" using ai p unfolding alloc_inv_def owned_blocks_def by blast
  have "live h p \<noteq> None" using ai p unfolding alloc_inv_def owned_blocks_def map_le_def by (metis domIff)
  then have "live (free_ptr api p h) = (live h)(p := None)" using ok unfolding malloc_ok_def by metis
  then show ?thesis using d p0 alloc_inv_dealloc [OF ai p] ok by (auto simp: sys_Deallocate_def sys_ainv_def)
qed

lemma in_use_shared_law:
  "sys_ainv api live a h \<Longrightarrow> finite (dom (owned_blocks a)) \<and> unat (al_in_use a) = block_bytes (owned_blocks a)
    \<and> (\<forall>p s. owned_blocks a p = Some s \<longrightarrow> 0 < s \<and> p \<noteq> 0)"
  by (auto simp: sys_ainv_def alloc_inv_def owned_blocks_def finite_dom_map_of)

interpretation sys: allocator "sys_Allocate api" "sys_Deallocate api" al_in_use owned_blocks "sys_ainv api live" for api live
proof
  fix a h sz al r a' h'
  assume inv: "sys_ainv api live a h" and e: "sys_Allocate api sz al a h = (r, a', h')"
  show "sys_ainv api live a' h' \<and> (if result_ok r then res_value r \<noteq> 0 \<and> owned_blocks a (res_value r) = None \<and>
      owned_blocks a' = (owned_blocks a)(res_value r \<mapsto> sz) \<and> 0 < sz \<and> unat al dvd unat (res_value r)
    else owned_blocks a' = owned_blocks a)"
    using allocate_shape_law [OF inv] allocate_shapes(1) [of api sz al a h] e by simp
qed (erule (2) deallocate_shared_law, erule in_use_shared_law)

interpretation mi: allocator "mi_Allocate api" "mi_Deallocate api" al_in_use owned_blocks "sys_ainv api live" for api live
proof
  fix a h sz al r a' h'
  assume inv: "sys_ainv api live a h" and e: "mi_Allocate api sz al a h = (r, a', h')"
  show "sys_ainv api live a' h' \<and> (if result_ok r then res_value r \<noteq> 0 \<and> owned_blocks a (res_value r) = None \<and>
      owned_blocks a' = (owned_blocks a)(res_value r \<mapsto> sz) \<and> 0 < sz \<and> unat al dvd unat (res_value r)
    else owned_blocks a' = owned_blocks a)"
    using allocate_shape_law [OF inv] allocate_shapes(2) [of api sz al a h] e by simp
qed (simp only: mi_same, erule (2) deallocate_shared_law, erule in_use_shared_law)

interpretation tbb: allocator "tbb_Allocate api" "tbb_Deallocate api" al_in_use owned_blocks "sys_ainv api live" for api live
proof
  fix a h sz al r a' h'
  assume inv: "sys_ainv api live a h" and e: "tbb_Allocate api sz al a h = (r, a', h')"
  show "sys_ainv api live a' h' \<and> (if result_ok r then res_value r \<noteq> 0 \<and> owned_blocks a (res_value r) = None \<and>
      owned_blocks a' = (owned_blocks a)(res_value r \<mapsto> sz) \<and> 0 < sz \<and> unat al dvd unat (res_value r)
    else owned_blocks a' = owned_blocks a)"
    using allocate_shape_law [OF inv] allocate_shapes(3) [of api sz al a h] e by simp
qed (simp only: tbb_same, erule (2) deallocate_shared_law, erule in_use_shared_law)

end
