(* ===== verification/CK_Json.thy ===== *)
theory CK_Json
  imports CK_Status
begin

text \<open>
  JSON documents as the configuration code sees them, and the codec
  (\<open>src/json/json_codec.cpp\<close>, \<open>include/corekit/json/i_json.hpp\<close>). The text format is that of the bundled
  JSON library: its parser and printer are parameters, a parser that returns the message of its
  exception or a document, and a printer that does the same. The file system is a map from paths to
  contents together with the set of paths that can be opened for writing.
\<close>

section \<open>Documents\<close>

text \<open>Numbers are stored as signed, unsigned or floating-point; no code reads a floating-point value.\<close>

datatype Json = JNull | JBool bool | JInt int | JUnsigned u64 | JFloat | JString string
  | JArray "Json list" | JObject "(string \<times> Json) list"

fun is_object :: "Json \<Rightarrow> bool" where
  "is_object (JObject m) = True"
| "is_object j = False"

fun is_string :: "Json \<Rightarrow> bool" where
  "is_string (JString s) = True"
| "is_string j = False"

fun is_boolean :: "Json \<Rightarrow> bool" where
  "is_boolean (JBool b) = True"
| "is_boolean j = False"

fun is_number_unsigned :: "Json \<Rightarrow> bool" where
  "is_number_unsigned (JUnsigned n) = True"
| "is_number_unsigned j = False"

fun is_number_integer :: "Json \<Rightarrow> bool" where
  "is_number_integer (JInt n) = True"
| "is_number_integer (JUnsigned n) = True"
| "is_number_integer j = False"

text \<open>\<open>contains\<close> is false on values that are not objects; \<open>j[key]\<close> is used only after \<open>contains\<close>.\<close>

fun json_get :: "Json \<Rightarrow> string \<Rightarrow> Json option" where
  "json_get (JObject m) key = map_of m key"
| "json_get j key = None"

definition json_contains :: "Json \<Rightarrow> string \<Rightarrow> bool" where
  "json_contains j key \<longleftrightarrow> json_get j key \<noteq> None"

fun get_string :: "Json \<Rightarrow> string" where
  "get_string (JString s) = s"
| "get_string j = []"

fun get_bool :: "Json \<Rightarrow> bool" where
  "get_bool (JBool b) = b"
| "get_bool j = False"

fun get_unsigned :: "Json \<Rightarrow> u64" where
  "get_unsigned (JUnsigned n) = n"
| "get_unsigned j = 0"

fun get_integer :: "Json \<Rightarrow> int" where
  "get_integer (JInt n) = n"
| "get_integer (JUnsigned n) = uint n"
| "get_integer j = 0"

section \<open>The codec\<close>

type_synonym json_parser = "string \<Rightarrow> string + Json"
type_synonym json_printer = "Json \<Rightarrow> int \<Rightarrow> string + string"

record files =
  contents :: "string \<Rightarrow> string option"
  writable :: "string \<Rightarrow> bool"

definition Json_Parse :: "json_parser \<Rightarrow> string \<Rightarrow> Json Result" where
  "Json_Parse parse text =
     (case parse text of
        Inr j \<Rightarrow> Result_value j
      | Inl what \<Rightarrow> Result_status JNull (mkStatus kInvalidArgument (''json parse failed: '' @ what)))"

definition Json_LoadFile :: "json_parser \<Rightarrow> files \<Rightarrow> string \<Rightarrow> Json Result" where
  "Json_LoadFile parse fs path =
     (case contents fs path of
        None \<Rightarrow> Result_status JNull (mkStatus kNotFound ''json file not found'')
      | Some text \<Rightarrow> Json_Parse parse text)"

text \<open>\<open>std::ios::trunc\<close>: the file is emptied when it is opened, before the document is printed.\<close>

definition Json_SaveFile :: "json_printer \<Rightarrow> files \<Rightarrow> string \<Rightarrow> Json \<Rightarrow> int \<Rightarrow> Status \<times> files" where
  "Json_SaveFile dump fs path v indent =
     (if \<not> writable fs path then (mkStatus kIoError ''open json file for write failed'', fs)
      else case dump v indent of
             Inr text \<Rightarrow> (Status_Ok, fs\<lparr>contents := (contents fs)(path \<mapsto> text @ [CHR 0x0A])\<rparr>)
           | Inl what \<Rightarrow> (mkStatus kIoError (''json write failed: '' @ what), fs\<lparr>contents := (contents fs)(path \<mapsto> [])\<rparr>))"

definition Json_Dump :: "json_printer \<Rightarrow> Json \<Rightarrow> int \<Rightarrow> string" where
  "Json_Dump dump v indent = (case dump v indent of Inr text \<Rightarrow> text | Inl what \<Rightarrow> [])"

text \<open>A document that prints to a text the parser reads back, with trailing white space allowed, survives
  \<open>SaveFile\<close> and \<open>LoadFile\<close>.\<close>

lemma save_load:
  assumes "writable fs path" and "dump v indent = Inr text" and "parse (text @ [CHR 0x0A]) = Inr v"
  shows "\<exists>fs'. Json_SaveFile dump fs path v indent = (Status_Ok, fs') \<and> Json_LoadFile parse fs' path = Result_value v"
  using assms by (simp add: Json_SaveFile_def Json_LoadFile_def Json_Parse_def)

end
