(* ===== verification/CK_Global_Allocator.thy ===== *)
theory CK_Global_Allocator
  imports CK_Allocator_Spec CK_Json
begin

text \<open>
  The process-wide allocator (\<open>src/memory/global_allocator.cpp\<close>, \<open>include/corekit/memory/i_global_allocator.hpp\<close>).
  Its two function-local statics are a record. Every public operation holds \<open>ConfigureMu\<close> for its
  whole run, so it is one step. The build flags that enable the optional backends are a parameter.
\<close>

section \<open>State\<close>

record GlobalAllocatorOptions =
  go_backend :: AllocBackend
  strict_backend :: bool

datatype IAllocator = SysA Allocator | MiA Allocator | TbbA Allocator

record Global =
  g_allocator :: "IAllocator option"
  g_options :: GlobalAllocatorOptions

record Build =
  enable_mimalloc :: bool
  enable_tbbmalloc :: bool

record 'h Libs =
  lib_posix :: "'h MallocApi"
  lib_mimalloc :: "'h MallocApi"
  lib_tbb :: "'h MallocApi"

definition default_global_options :: GlobalAllocatorOptions where
  "default_global_options = \<lparr>go_backend = kSystem, strict_backend = True\<rparr>"

definition initial_global :: Global where
  "initial_global = \<lparr>g_allocator = Some (SysA SystemAllocator), g_options = default_global_options\<rparr>"

text \<open>Virtual dispatch.\<close>

fun ia_core :: "IAllocator \<Rightarrow> Allocator" where
  "ia_core (SysA a) = a"
| "ia_core (MiA a) = a"
| "ia_core (TbbA a) = a"

fun ia_Allocate :: "'h Libs \<Rightarrow> size_t \<Rightarrow> size_t \<Rightarrow> IAllocator \<Rightarrow> 'h \<Rightarrow> ptr Result \<times> IAllocator \<times> 'h" where
  "ia_Allocate libs sz al (SysA a) h = (let (r, a', h') = sys_Allocate (lib_posix libs) sz al a h in (r, SysA a', h'))"
| "ia_Allocate libs sz al (MiA a) h = (let (r, a', h') = mi_Allocate (lib_mimalloc libs) sz al a h in (r, MiA a', h'))"
| "ia_Allocate libs sz al (TbbA a) h = (let (r, a', h') = tbb_Allocate (lib_tbb libs) sz al a h in (r, TbbA a', h'))"

fun ia_Deallocate :: "'h Libs \<Rightarrow> ptr \<Rightarrow> IAllocator \<Rightarrow> 'h \<Rightarrow> Status \<times> IAllocator \<times> 'h" where
  "ia_Deallocate libs p (SysA a) h = (let (s, a', h') = sys_Deallocate (lib_posix libs) p a h in (s, SysA a', h'))"
| "ia_Deallocate libs p (MiA a) h = (let (s, a', h') = mi_Deallocate (lib_mimalloc libs) p a h in (s, MiA a', h'))"
| "ia_Deallocate libs p (TbbA a) h = (let (s, a', h') = tbb_Deallocate (lib_tbb libs) p a h in (s, TbbA a', h'))"

fun ia_Stats :: "IAllocator \<Rightarrow> AllocatorStats" where
  "ia_Stats (SysA a) = sys_Stats a"
| "ia_Stats (MiA a) = mi_Stats a"
| "ia_Stats (TbbA a) = tbb_Stats a"

fun ia_Caps :: "IAllocator \<Rightarrow> AllocatorCaps" where
  "ia_Caps (SysA a) = sys_Caps"
| "ia_Caps (MiA a) = mi_Caps"
| "ia_Caps (TbbA a) = tbb_Caps"

fun ia_ResetStats :: "IAllocator \<Rightarrow> IAllocator" where
  "ia_ResetStats (SysA a) = SysA (sys_ResetStats a)"
| "ia_ResetStats (MiA a) = MiA (mi_ResetStats a)"
| "ia_ResetStats (TbbA a) = TbbA (tbb_ResetStats a)"

fun ia_BackendName :: "IAllocator \<Rightarrow> string" where
  "ia_BackendName (SysA a) = ''system''"
| "ia_BackendName (MiA a) = ''mimalloc''"
| "ia_BackendName (TbbA a) = ''tbb''"

section \<open>Operations\<close>

definition EnsureAllocatorLocked :: "Global \<Rightarrow> IAllocator \<times> Global" where
  "EnsureAllocatorLocked g =
     (case g_allocator g of
        Some a \<Rightarrow> (a, g)
      | None \<Rightarrow> (SysA SystemAllocator,
                 g\<lparr>g_allocator := Some (SysA SystemAllocator), g_options := (g_options g)\<lparr>go_backend := kSystem\<rparr>\<rparr>))"

definition CreateAllocator :: "Build \<Rightarrow> AllocBackend \<Rightarrow> IAllocator Result" where
  "CreateAllocator build backend =
     (case backend of
        kSystem \<Rightarrow> Result_value (SysA SystemAllocator)
      | kMimalloc \<Rightarrow> if enable_mimalloc build then Result_value (MiA MimallocAllocator)
                    else Result_status (SysA SystemAllocator) (mem_status kUnsupported ''Requested backend is not enabled in this build'')
      | kTbbScalable \<Rightarrow> if enable_tbbmalloc build then Result_value (TbbA TbbAllocator)
                    else Result_status (SysA SystemAllocator) (mem_status kUnsupported ''Requested backend is not enabled in this build''))"

definition ParseBackend :: "string \<Rightarrow> Status + AllocBackend" where
  "ParseBackend v =
     (if v = ''system'' then Inr kSystem
      else if v = ''tbb'' \<or> v = ''tbb_scalable'' \<or> v = ''tbbscalable'' then Inr kTbbScalable
      else if v = ''mimalloc'' \<or> v = ''mi'' then Inr kMimalloc
      else Inl (mem_status kInvalidArgument ''memory.backend is invalid''))"

fun BackendDisplayName :: "AllocBackend \<Rightarrow> string" where
  "BackendDisplayName kSystem = ''system''"
| "BackendDisplayName kMimalloc = ''mimalloc''"
| "BackendDisplayName kTbbScalable = ''tbb''"

fun IsBackendEnabled :: "Build \<Rightarrow> AllocBackend \<Rightarrow> bool" where
  "IsBackendEnabled build kSystem = True"
| "IsBackendEnabled build kMimalloc = enable_mimalloc build"
| "IsBackendEnabled build kTbbScalable = enable_tbbmalloc build"

definition Configure :: "Build \<Rightarrow> GlobalAllocatorOptions \<Rightarrow> Global \<Rightarrow> Status \<times> Global" where
  "Configure build opts g0 =
     (let (current, g) = EnsureAllocatorLocked g0
      in if go_backend opts \<noteq> go_backend (g_options g) then
           if as_bytes_in_use (ia_Stats current) \<noteq> 0
           then (mem_status kWouldBlock ''cannot switch allocator backend while memory is still in use'', g)
           else
             let created = CreateAllocator build (go_backend opts)
             in if \<not> result_ok created then
                  if strict_backend opts then (res_status created, g)
                  else
                    let fallback = CreateAllocator build kSystem
                    in if \<not> result_ok fallback then (res_status fallback, g)
                       else (Status_Ok, g\<lparr>g_allocator := Some (res_value fallback), g_options := opts\<lparr>go_backend := kSystem\<rparr>\<rparr>)
                else (Status_Ok, g\<lparr>g_allocator := Some (res_value created), g_options := opts\<rparr>)
         else (Status_Ok, g\<lparr>g_options := opts\<rparr>))"

definition ConfigureFromFile :: "json_parser \<Rightarrow> files \<Rightarrow> Build \<Rightarrow> string \<Rightarrow> Global \<Rightarrow> Status \<times> Global" where
  "ConfigureFromFile parse fs build path g =
     (let loaded = Json_LoadFile parse fs path; root = res_value loaded
      in if \<not> result_ok loaded then (res_status loaded, g)
         else if \<not> is_object root then (mem_status kInvalidArgument ''root JSON must be object'', g)
         else
           let memory = (case json_get root ''memory'' of Some m \<Rightarrow> m | None \<Rightarrow> root)
           in if json_contains root ''memory'' \<and> \<not> is_object memory
              then (mem_status kInvalidArgument ''memory must be JSON object'', g)
              else
                let backend = (case json_get memory ''backend'' of
                        None \<Rightarrow> Inr (g_options g)
                      | Some b \<Rightarrow> if \<not> is_string b then Inl (mem_status kInvalidArgument ''memory.backend must be string'')
                                 else (case ParseBackend (get_string b) of
                                         Inl st \<Rightarrow> Inl st
                                       | Inr bk \<Rightarrow> Inr ((g_options g)\<lparr>go_backend := bk\<rparr>)))
                in case backend of
                     Inl st \<Rightarrow> (st, g)
                   | Inr opts \<Rightarrow>
                       (case json_get memory ''strict_backend'' of
                          None \<Rightarrow> Configure build opts g
                        | Some b \<Rightarrow>
                            if \<not> is_boolean b then (mem_status kInvalidArgument ''memory.strict_backend must be boolean'', g)
                            else Configure build (opts\<lparr>strict_backend := get_bool b\<rparr>) g))"

definition Global_Allocate :: "'h Libs \<Rightarrow> size_t \<Rightarrow> size_t \<Rightarrow> Global \<Rightarrow> 'h \<Rightarrow> ptr Result \<times> Global \<times> 'h" where
  "Global_Allocate libs sz alignment g0 h =
     (let (a, g) = EnsureAllocatorLocked g0; (r, a', h') = ia_Allocate libs sz alignment a h
      in (r, g\<lparr>g_allocator := Some a'\<rparr>, h'))"

definition Global_Deallocate :: "'h Libs \<Rightarrow> ptr \<Rightarrow> Global \<Rightarrow> 'h \<Rightarrow> Status \<times> Global \<times> 'h" where
  "Global_Deallocate libs p g0 h =
     (let (a, g) = EnsureAllocatorLocked g0; (s, a', h') = ia_Deallocate libs p a h
      in (s, g\<lparr>g_allocator := Some a'\<rparr>, h'))"

definition CurrentBackend :: "Global \<Rightarrow> AllocBackend" where
  "CurrentBackend g = go_backend (g_options g)"

definition CurrentBackendName :: "Global \<Rightarrow> string \<times> Global" where
  "CurrentBackendName g0 = (let (a, g) = EnsureAllocatorLocked g0 in (ia_BackendName a, g))"

definition CurrentCaps :: "Global \<Rightarrow> AllocatorCaps \<times> Global" where
  "CurrentCaps g0 = (let (a, g) = EnsureAllocatorLocked g0 in (ia_Caps a, g))"

definition CurrentStats :: "Global \<Rightarrow> AllocatorStats \<times> Global" where
  "CurrentStats g0 = (let (a, g) = EnsureAllocatorLocked g0 in (ia_Stats a, g))"

definition ResetCurrentStats :: "Global \<Rightarrow> Global" where
  "ResetCurrentStats g0 = (let (a, g) = EnsureAllocatorLocked g0 in g\<lparr>g_allocator := Some (ia_ResetStats a)\<rparr>)"

definition GlobalAllocOrNull :: "'h Libs \<Rightarrow> size_t \<Rightarrow> size_t \<Rightarrow> Global \<Rightarrow> 'h \<Rightarrow> ptr \<times> Global \<times> 'h" where
  "GlobalAllocOrNull libs sz alignment g h =
     (let (r, g', h') = Global_Allocate libs sz (if alignment < sizeof_ptr then sizeof_ptr else alignment) g h
      in (if result_ok r then res_value r else 0, g', h'))"

definition GlobalFreeIgnore :: "'h Libs \<Rightarrow> ptr \<Rightarrow> Global \<Rightarrow> 'h \<Rightarrow> Global \<times> 'h" where
  "GlobalFreeIgnore libs p g h = snd (Global_Deallocate libs p g h)"

text \<open>\<open>GlobalNew\<close> and \<open>GlobalDelete\<close> for an object of the given size and alignment; the constructor may throw.\<close>

definition GlobalNew :: "'h Libs \<Rightarrow> size_t \<Rightarrow> size_t \<Rightarrow> bool \<Rightarrow> Global \<Rightarrow> 'h \<Rightarrow> ptr \<times> Global \<times> 'h" where
  "GlobalNew libs sizeof_T alignof_T ctor_throws g h =
     (let (raw, g1, h1) = GlobalAllocOrNull libs sizeof_T alignof_T g h
      in if raw = 0 then (0, g1, h1)
         else if ctor_throws then (let (g2, h2) = GlobalFreeIgnore libs raw g1 h1 in (0, g2, h2))
         else (raw, g1, h1))"

definition GlobalDelete :: "'h Libs \<Rightarrow> ptr \<Rightarrow> Global \<Rightarrow> 'h \<Rightarrow> Global \<times> 'h" where
  "GlobalDelete libs p g h = (if p = 0 then (g, h) else GlobalFreeIgnore libs p g h)"

section \<open>The global allocator is an allocator\<close>

fun ia_kind :: "IAllocator \<Rightarrow> AllocBackend" where
  "ia_kind (SysA a) = kSystem"
| "ia_kind (MiA a) = kMimalloc"
| "ia_kind (TbbA a) = kTbbScalable"

fun lib_of :: "'h Libs \<Rightarrow> AllocBackend \<Rightarrow> 'h MallocApi" where
  "lib_of libs kSystem = lib_posix libs"
| "lib_of libs kMimalloc = lib_mimalloc libs"
| "lib_of libs kTbbScalable = lib_tbb libs"

text \<open>Each library has its own live blocks.\<close>

definition libs_ok :: "'h Libs \<Rightarrow> (AllocBackend \<Rightarrow> 'h \<Rightarrow> blocks) \<Rightarrow> bool" where
  "libs_ok libs lv \<longleftrightarrow> (\<forall>b. malloc_ok (lib_of libs b) (lv b))"

definition g_current :: "Global \<Rightarrow> IAllocator" where
  "g_current g = fst (EnsureAllocatorLocked g)"

definition g_owned :: "Global \<Rightarrow> blocks" where
  "g_owned g = owned_blocks (ia_core (g_current g))"

definition g_in_use :: "Global \<Rightarrow> u64" where
  "g_in_use g = al_in_use (ia_core (g_current g))"

definition g_backend :: "Global \<Rightarrow> AllocBackend" where
  "g_backend g = ia_kind (g_current g)"

definition ia_inv :: "'h Libs \<Rightarrow> (AllocBackend \<Rightarrow> 'h \<Rightarrow> blocks) \<Rightarrow> IAllocator \<Rightarrow> 'h \<Rightarrow> bool" where
  "ia_inv libs lv a h \<longleftrightarrow> sys_ainv (lib_of libs (ia_kind a)) (lv (ia_kind a)) (ia_core a) h"

definition g_inv :: "'h Libs \<Rightarrow> (AllocBackend \<Rightarrow> 'h \<Rightarrow> blocks) \<Rightarrow> Global \<Rightarrow> 'h \<Rightarrow> bool" where
  "g_inv libs lv g h \<longleftrightarrow> libs_ok libs lv \<and> ia_inv libs lv (g_current g) h \<and>
     (g_allocator g = None \<or> g_backend g = go_backend (g_options g))"

lemma ensure_simps:
  "EnsureAllocatorLocked g = (a, g') \<Longrightarrow> a = g_current g \<and> g_allocator g' = Some a \<and> (g_allocator g = None \<longrightarrow> go_backend (g_options g') = kSystem)
     \<and> (g_allocator g \<noteq> None \<longrightarrow> g' = g) \<and> strict_backend (g_options g') = strict_backend (g_options g)"
  by (auto simp: EnsureAllocatorLocked_def g_current_def split: option.splits)

lemma current_None: "g_allocator g = None \<Longrightarrow> g_current g = SysA SystemAllocator"
  by (simp add: g_current_def EnsureAllocatorLocked_def)

lemma current_Some: "g_allocator g = Some a \<Longrightarrow> g_current g = a"
  by (simp add: g_current_def EnsureAllocatorLocked_def)

lemma ensure_inv:
  assumes "g_inv libs lv g h" and "EnsureAllocatorLocked g = (a, g')"
  shows "a = g_current g" and "g_current g' = a" and "g_allocator g' = Some a"
    and "ia_kind a = go_backend (g_options g')" and "libs_ok libs lv" and "ia_inv libs lv a h"
proof -
  note e = ensure_simps [OF assms(2)]
  show "a = g_current g" and al: "g_allocator g' = Some a" using e by auto
  then show "g_current g' = a" by (simp add: current_Some)
  show "ia_kind a = go_backend (g_options g')"
    using assms(1) e by (cases "g_allocator g") (auto simp: g_inv_def g_backend_def current_None)
  show "libs_ok libs lv" and "ia_inv libs lv a h" using assms(1) e by (auto simp: g_inv_def)
qed

lemma ia_allocate_law:
  assumes inv: "ia_inv libs lv a h" and e: "ia_Allocate libs sz al a h = (r, a', h')"
  shows "ia_inv libs lv a' h' \<and> ia_kind a' = ia_kind a \<and>
      (if result_ok r
       then res_value r \<noteq> 0 \<and> owned_blocks (ia_core a) (res_value r) = None \<and>
            owned_blocks (ia_core a') = (owned_blocks (ia_core a))(res_value r \<mapsto> sz) \<and> 0 < sz \<and> unat al dvd unat (res_value r)
       else owned_blocks (ia_core a') = owned_blocks (ia_core a))"
proof (cases a)
  case (SysA c)
  then show ?thesis using inv e sys.allocate_law [of "lib_posix libs" "lv kSystem" c h sz al]
    by (auto simp: ia_inv_def split: prod.splits)
next
  case (MiA c)
  then show ?thesis using inv e mi.allocate_law [of "lib_mimalloc libs" "lv kMimalloc" c h sz al]
    by (auto simp: ia_inv_def split: prod.splits)
next
  case (TbbA c)
  then show ?thesis using inv e tbb.allocate_law [of "lib_tbb libs" "lv kTbbScalable" c h sz al]
    by (auto simp: ia_inv_def split: prod.splits)
qed

lemma ia_deallocate_law:
  assumes inv: "ia_inv libs lv a h" and p: "owned_blocks (ia_core a) p \<noteq> None" and e: "ia_Deallocate libs p a h = (s, a', h')"
  shows "status_ok s \<and> ia_inv libs lv a' h' \<and> ia_kind a' = ia_kind a \<and> owned_blocks (ia_core a') = (owned_blocks (ia_core a))(p := None)"
proof (cases a)
  case (SysA c)
  then show ?thesis using inv p e sys.deallocate_law [of "lib_posix libs" "lv kSystem" c h p]
    by (auto simp: ia_inv_def split: prod.splits)
next
  case (MiA c)
  then show ?thesis using inv p e mi.deallocate_law [of "lib_mimalloc libs" "lv kMimalloc" c h p]
    by (auto simp: ia_inv_def split: prod.splits)
next
  case (TbbA c)
  then show ?thesis using inv p e tbb.deallocate_law [of "lib_tbb libs" "lv kTbbScalable" c h p]
    by (auto simp: ia_inv_def split: prod.splits)
qed

interpretation glob: allocator "Global_Allocate libs" "Global_Deallocate libs" g_in_use g_owned "g_inv libs lv" for libs lv
proof
  fix g h sz al r g' h'
  assume inv: "g_inv libs lv g h" and e: "Global_Allocate libs sz al g h = (r, g', h')"
  obtain a g1 where en: "EnsureAllocatorLocked g = (a, g1)" by (metis surj_pair)
  obtain r1 a' h1 where al: "ia_Allocate libs sz al a h = (r1, a', h1)" by (metis prod_cases3)
  note ei = ensure_inv [OF inv en]
  have g': "r = r1" "g' = g1\<lparr>g_allocator := Some a'\<rparr>" "h' = h1" using e en al by (auto simp: Global_Allocate_def)
  note law = ia_allocate_law [OF ei(6) al]
  then have gi: "g_inv libs lv g' h'" using ei g' by (simp add: g_inv_def g_backend_def current_Some)
  have o: "g_owned g = owned_blocks (ia_core a)" "g_owned g' = owned_blocks (ia_core a')"
    using ei(1) g' by (simp_all add: g_owned_def current_Some)
  show "g_inv libs lv g' h' \<and> (if result_ok r then res_value r \<noteq> 0 \<and> g_owned g (res_value r) = None \<and>
      g_owned g' = (g_owned g)(res_value r \<mapsto> sz) \<and> 0 < sz \<and> unat al dvd unat (res_value r) else g_owned g' = g_owned g)"
    using law gi unfolding o g'(1) by blast
next
  fix g h p s g' h'
  assume inv: "g_inv libs lv g h" and p: "g_owned g p \<noteq> None" and e: "Global_Deallocate libs p g h = (s, g', h')"
  obtain a g1 where en: "EnsureAllocatorLocked g = (a, g1)" by (metis surj_pair)
  obtain s1 a' h1 where al: "ia_Deallocate libs p a h = (s1, a', h1)" by (metis prod_cases3)
  note ei = ensure_inv [OF inv en]
  have g': "s = s1" "g' = g1\<lparr>g_allocator := Some a'\<rparr>" "h' = h1" using e en al by (auto simp: Global_Deallocate_def)
  have "owned_blocks (ia_core a) p \<noteq> None" using p ei(1) by (simp add: g_owned_def)
  note law = ia_deallocate_law [OF ei(6) this al]
  then have "g_inv libs lv g' h'" using ei g' by (simp add: g_inv_def g_backend_def current_Some)
  then show "status_ok s \<and> g_inv libs lv g' h' \<and> g_owned g' = (g_owned g)(p := None)"
    using law ei(1) g' by (simp add: g_owned_def current_Some)
next
  fix g h
  assume "g_inv libs lv g h"
  then show "finite (dom (g_owned g)) \<and> unat (g_in_use g) = block_bytes (g_owned g) \<and> (\<forall>p s. g_owned g p = Some s \<longrightarrow> 0 < s \<and> p \<noteq> 0)"
    unfolding g_inv_def ia_inv_def g_owned_def g_in_use_def by (elim conjE) (rule in_use_shared_law)
qed

section \<open>Switching the backend\<close>

lemma CreateAllocator_fresh:
  "CreateAllocator build b = r \<Longrightarrow> result_ok r \<Longrightarrow>
     ia_kind (res_value r) = b \<and> al_sizes (ia_core (res_value r)) = [] \<and> al_in_use (ia_core (res_value r)) = 0 \<and>
     al_peak (ia_core (res_value r)) = 0"
  by (cases b) (auto simp: CreateAllocator_def SystemAllocator_def MimallocAllocator_def TbbAllocator_def mem_status_def split: if_splits)

lemma ia_inv_fresh:
  assumes "libs_ok libs lv" and "al_sizes (ia_core a) = []" and "al_in_use (ia_core a) = 0" and "al_peak (ia_core a) = 0"
  shows "ia_inv libs lv a h"
  using assms by (simp add: ia_inv_def sys_ainv_def alloc_inv_def libs_ok_def map_le_def)

lemma Stats_in_use: "as_bytes_in_use (ia_Stats a) = al_in_use (ia_core a)"
  by (cases a) (simp_all add: mi_same tbb_same sys_Stats_def)

text \<open>Every outcome of \<open>Configure\<close>.\<close>

lemma Configure_cases:
  assumes inv: "g_inv libs lv g h" and c: "Configure build opts g = (st, g')"
  shows "g_inv libs lv g' h"
    and "g_owned g' = g_owned g"
    and "g_backend g' \<noteq> g_backend g \<Longrightarrow> g_owned g = Map.empty"
    and "status_ok st \<Longrightarrow> CurrentBackend g' = g_backend g'"
    and "go_backend opts \<noteq> g_backend g \<Longrightarrow> g_owned g \<noteq> Map.empty \<Longrightarrow> st_code st = kWouldBlock \<and> g_backend g' = g_backend g"
    and "go_backend opts = g_backend g \<or> g_owned g = Map.empty \<Longrightarrow>
       (if IsBackendEnabled build (go_backend opts) \<or> go_backend opts = g_backend g then status_ok st \<and> g_backend g' = go_backend opts
        else if strict_backend opts then st_code st = kUnsupported \<and> g_backend g' = g_backend g
        else status_ok st \<and> g_backend g' = kSystem)"
proof -
  obtain a g1 where en: "EnsureAllocatorLocked g = (a, g1)" by (metis surj_pair)
  note ei = ensure_inv [OF inv en]
  have zero: "al_in_use (ia_core a) = 0 \<longleftrightarrow> g_owned g = Map.empty"
    using glob.in_use_zero [OF inv] ei(1) by (simp add: g_in_use_def)
  have bk: "ia_kind a = g_backend g" "go_backend (g_options g1) = g_backend g" using ei(1,4) by (simp_all add: g_backend_def)
  have own1: "g_owned g1 = g_owned g" "g_backend g1 = g_backend g" using ei(1,2) by (simp_all add: g_owned_def g_backend_def)
  have inv1: "g_inv libs lv g1 h" using ei by (simp add: g_inv_def g_backend_def)
  have fresh: "g_inv libs lv (g1\<lparr>g_allocator := Some (res_value r), g_options := o'\<rparr>) h \<and>
      g_owned (g1\<lparr>g_allocator := Some (res_value r), g_options := o'\<rparr>) = Map.empty \<and>
      g_backend (g1\<lparr>g_allocator := Some (res_value r), g_options := o'\<rparr>) = b"
    if "CreateAllocator build b = r" "result_ok r" "go_backend o' = b" for r b o'
    using CreateAllocator_fresh [OF that(1,2)] ia_inv_fresh [OF ei(5), of "res_value r" h] that(3) ei(5)
    by (simp add: g_inv_def g_backend_def g_owned_def owned_blocks_def current_Some)
  have en_ok: "result_ok (CreateAllocator build b) \<longleftrightarrow> IsBackendEnabled build b" for b
    by (cases b) (auto simp: CreateAllocator_def mem_status_def)
  have sys: "result_ok (CreateAllocator build kSystem)" by (simp add: CreateAllocator_def)
  have unsup: "st_code (res_status (CreateAllocator build b)) = kUnsupported" if "\<not> result_ok (CreateAllocator build b)" for b
    using that by (cases b) (auto simp: CreateAllocator_def mem_status_def split: if_splits)
  consider (same) "go_backend opts = g_backend g" "st = Status_Ok" "g' = g1\<lparr>g_options := opts\<rparr>"
    | (busy) "go_backend opts \<noteq> g_backend g" "g_owned g \<noteq> Map.empty" "st_code st = kWouldBlock" "g' = g1"
    | (new) "go_backend opts \<noteq> g_backend g" "g_owned g = Map.empty" "IsBackendEnabled build (go_backend opts)" "st = Status_Ok"
        "g' = g1\<lparr>g_allocator := Some (res_value (CreateAllocator build (go_backend opts))), g_options := opts\<rparr>"
    | (strict) "go_backend opts \<noteq> g_backend g" "g_owned g = Map.empty" "\<not> IsBackendEnabled build (go_backend opts)" "strict_backend opts"
        "st_code st = kUnsupported" "g' = g1"
    | (fallback) "go_backend opts \<noteq> g_backend g" "g_owned g = Map.empty" "\<not> IsBackendEnabled build (go_backend opts)" "\<not> strict_backend opts"
        "st = Status_Ok" "g' = g1\<lparr>g_allocator := Some (res_value (CreateAllocator build kSystem)), g_options := opts\<lparr>go_backend := kSystem\<rparr>\<rparr>"
    using c sys unsup zero bk en_ok unfolding Configure_def en
    by (auto simp: Let_def Stats_in_use mem_status_def split: if_splits)
  then have "g_inv libs lv g' h \<and> g_owned g' = g_owned g \<and> (g_backend g' \<noteq> g_backend g \<longrightarrow> g_owned g = Map.empty) \<and>
     (status_ok st \<longrightarrow> CurrentBackend g' = g_backend g') \<and>
     (go_backend opts \<noteq> g_backend g \<longrightarrow> g_owned g \<noteq> Map.empty \<longrightarrow> st_code st = kWouldBlock \<and> g_backend g' = g_backend g) \<and>
     (go_backend opts = g_backend g \<or> g_owned g = Map.empty \<longrightarrow>
       (if IsBackendEnabled build (go_backend opts) \<or> go_backend opts = g_backend g then status_ok st \<and> g_backend g' = go_backend opts
        else if strict_backend opts then st_code st = kUnsupported \<and> g_backend g' = g_backend g
        else status_ok st \<and> g_backend g' = kSystem))"
  proof cases
    case same
    have cur: "g_current g' = a" using ei(3) same(3) by (simp add: current_Some)
    then have "g_backend g' = g_backend g" "g_owned g' = g_owned g" using ei(1) by (simp_all add: g_backend_def g_owned_def)
    moreover have "g_inv libs lv g' h" using ei cur same bk by (simp add: g_inv_def g_backend_def)
    ultimately show ?thesis using same by (simp add: CurrentBackend_def)
  next
    case busy
    then show ?thesis using inv1 own1 by (auto simp: status_ok_def)
  next
    case new
    then show ?thesis using fresh [of "go_backend opts" _ opts, OF refl] en_ok by (simp add: CurrentBackend_def)
  next
    case strict
    then show ?thesis using inv1 own1 by (auto simp: status_ok_def)
  next
    case fallback
    then show ?thesis using fresh [of kSystem _ "opts\<lparr>go_backend := kSystem\<rparr>", OF refl] sys by (simp add: CurrentBackend_def)
  qed
  then show "g_inv libs lv g' h"
    and "g_owned g' = g_owned g"
    and "g_backend g' \<noteq> g_backend g \<Longrightarrow> g_owned g = Map.empty"
    and "status_ok st \<Longrightarrow> CurrentBackend g' = g_backend g'"
    and "go_backend opts \<noteq> g_backend g \<Longrightarrow> g_owned g \<noteq> Map.empty \<Longrightarrow> st_code st = kWouldBlock \<and> g_backend g' = g_backend g"
    and "go_backend opts = g_backend g \<or> g_owned g = Map.empty \<Longrightarrow>
       (if IsBackendEnabled build (go_backend opts) \<or> go_backend opts = g_backend g then status_ok st \<and> g_backend g' = go_backend opts
        else if strict_backend opts then st_code st = kUnsupported \<and> g_backend g' = g_backend g
        else status_ok st \<and> g_backend g' = kSystem)"
    by blast+
qed

section \<open>Runs of the global allocator\<close>

datatype gop = GAlloc size_t size_t | GFree ptr | GConfigure GlobalAllocatorOptions | GReset

text \<open>A run; giving back a pointer that is neither \<open>NULL\<close> nor owned is outside the contract.\<close>

fun g_step :: "'h Libs \<Rightarrow> Build \<Rightarrow> gop \<Rightarrow> Global \<times> 'h \<Rightarrow> (Global \<times> 'h) option" where
  "g_step libs build (GAlloc sz al) (g, h) = Some (snd (Global_Allocate libs sz al g h))"
| "g_step libs build (GFree p) (g, h) =
     (if p = 0 \<or> g_owned g p \<noteq> None then Some (snd (Global_Deallocate libs p g h)) else None)"
| "g_step libs build (GConfigure opts) (g, h) = Some (snd (Configure build opts g), h)"
| "g_step libs build GReset (g, h) = Some (ResetCurrentStats g, h)"

fun g_run :: "'h Libs \<Rightarrow> Build \<Rightarrow> gop list \<Rightarrow> Global \<times> 'h \<Rightarrow> (Global \<times> 'h) option" where
  "g_run libs build [] s = Some s"
| "g_run libs build (op # ops) s = (case g_step libs build op s of None \<Rightarrow> None | Some s' \<Rightarrow> g_run libs build ops s')"

lemma ia_reset:
  assumes "ia_inv libs lv a h"
  shows "ia_inv libs lv (ia_ResetStats a) h \<and> ia_kind (ia_ResetStats a) = ia_kind a \<and>
     owned_blocks (ia_core (ia_ResetStats a)) = owned_blocks (ia_core a)"
  using assms alloc_inv_reset by (cases a) (auto simp: ia_inv_def sys_ainv_def mi_same tbb_same)

lemma g_step_inv:
  assumes inv: "g_inv libs lv g h" and s: "g_step libs build op (g, h) = Some (g', h')"
  shows "g_inv libs lv g' h'"
proof (cases op)
  case (GAlloc sz al)
  then show ?thesis using s glob.allocate_law [OF inv] by (metis g_step.simps(1) option.inject prod.collapse)
next
  case (GFree p)
  show ?thesis
  proof (cases "p = 0")
    case True
    obtain a g1 where en: "EnsureAllocatorLocked g = (a, g1)" by (metis surj_pair)
    note ei = ensure_inv [OF inv en]
    have d: "ia_Deallocate libs 0 a h = (Status_Ok, a, h)"
      by (cases a) (simp_all add: sys_Deallocate_def mi_Deallocate_def tbb_Deallocate_def)
    then have "g' = g1\<lparr>g_allocator := Some a\<rparr>" "h' = h" using s GFree True en by (auto simp: Global_Deallocate_def)
    then show ?thesis using ei by (simp add: g_inv_def g_backend_def current_Some)
  next
    case False
    then show ?thesis using s GFree glob.deallocate_law [OF inv, of p]
      by (metis g_step.simps(2) option.distinct(1) option.inject prod.collapse)
  qed
next
  case (GConfigure opts)
  then show ?thesis using s Configure_cases(1) [OF inv] by (metis Pair_inject g_step.simps(3) option.inject prod.collapse)
next
  case GReset
  obtain a g1 where en: "EnsureAllocatorLocked g = (a, g1)" by (metis surj_pair)
  note ei = ensure_inv [OF inv en]
  show ?thesis using s GReset ei ia_reset [OF ei(6)] en by (auto simp: ResetCurrentStats_def g_inv_def g_backend_def current_Some)
qed

lemma g_run_inv: "g_inv libs lv g h \<Longrightarrow> g_run libs build ops (g, h) = Some (g', h') \<Longrightarrow> g_inv libs lv g' h'"
proof (induction ops arbitrary: g h)
  case (Cons op ops)
  then obtain g1 h1 where "g_step libs build op (g, h) = Some (g1, h1)" "g_run libs build ops (g1, h1) = Some (g', h')"
    by (auto split: option.splits)
  then show ?case using Cons.IH g_step_inv [OF Cons.prems(1)] by blast
qed simp

lemma g_inv_initial: "libs_ok libs lv \<Longrightarrow> g_inv libs lv initial_global h"
  unfolding g_inv_def
  by (auto simp: initial_global_def default_global_options_def g_backend_def current_Some SystemAllocator_def intro!: ia_inv_fresh)

text \<open>C18: In every run of the global allocator over C libraries that behave as \<open>malloc\<close> and \<open>free\<close> do: the
  blocks that clients own are live in the library of the backend that is current, so every block is
  given back to the library it came from; \<open>bytes_in_use\<close> is the sum of their sizes; and \<open>Configure\<close>
  refuses to change the backend exactly while a block is owned.\<close>

theorem global_allocator_safe:
  assumes "libs_ok libs lv" and "g_run libs build ops (initial_global, h) = Some (g, h')"
  shows "g_owned g \<subseteq>\<^sub>m lv (g_backend g) h' \<and> unat (as_bytes_in_use (fst (CurrentStats g))) = block_bytes (g_owned g) \<and>
     (go_backend opts \<noteq> g_backend g \<and> g_owned g \<noteq> Map.empty \<longrightarrow>
        st_code (fst (Configure build opts g)) = kWouldBlock \<and> g_backend (snd (Configure build opts g)) = g_backend g) \<and>
     (g_owned g = Map.empty \<and> IsBackendEnabled build (go_backend opts) \<longrightarrow>
        status_ok (fst (Configure build opts g)) \<and> g_backend (snd (Configure build opts g)) = go_backend opts)"
proof -
  have inv: "g_inv libs lv g h'" by (rule g_run_inv [OF g_inv_initial [OF assms(1)] assms(2)])
  then have "g_owned g \<subseteq>\<^sub>m lv (g_backend g) h'"
    by (auto simp: g_inv_def ia_inv_def sys_ainv_def alloc_inv_def g_owned_def owned_blocks_def g_backend_def)
  moreover have "as_bytes_in_use (fst (CurrentStats g)) = g_in_use g"
    by (simp add: CurrentStats_def g_in_use_def g_current_def Stats_in_use split: prod.splits)
  moreover have "unat (g_in_use g) = block_bytes (g_owned g)" using glob.in_use_law [OF inv] by blast
  moreover have c: "Configure build opts g = (fst (Configure build opts g), snd (Configure build opts g))" by simp
  ultimately show ?thesis using Configure_cases(5,6) [OF inv c] by auto
qed

text \<open>A heap of two pages, each of which holds one block of up to 255 bytes. It satisfies the hypotheses on
  the C libraries.\<close>

type_synonym pages = "u8 \<times> u8"

definition page_malloc :: "size_t \<Rightarrow> size_t \<Rightarrow> pages \<Rightarrow> ptr \<times> pages" where
  "page_malloc sz al h =
     (if sz = 0 \<or> 255 < sz \<or> \<not> unat al dvd 4096 then (0, h)
      else if fst h = 0 then (4096, (ucast sz, snd h))
      else if snd h = 0 then (8192, (fst h, ucast sz))
      else (0, h))"

definition page_free :: "ptr \<Rightarrow> pages \<Rightarrow> pages" where
  "page_free p h = (if p = 4096 then (0, snd h) else if p = 8192 then (fst h, 0) else h)"

definition page_live :: "pages \<Rightarrow> blocks" where
  "page_live h = (\<lambda>p. if p = 4096 \<and> fst h \<noteq> 0 then Some (ucast (fst h)) else if p = 8192 \<and> snd h \<noteq> 0 then Some (ucast (snd h)) else None)"

definition page_api :: "pages MallocApi" where
  "page_api = \<lparr>malloc_aligned = page_malloc, free_ptr = page_free\<rparr>"

definition page_libs :: "pages Libs" where
  "page_libs = \<lparr>lib_posix = page_api, lib_mimalloc = page_api, lib_tbb = page_api\<rparr>"

lemma unat_lt_u8: "unat (x :: u8) < 256"
  using unsigned_less [of x] by simp

lemma unat_page_size: "unat (ucast (x :: u8) :: u64) = unat x"
proof -
  have "unat x < 256" by (rule unat_lt_u8)
  then show ?thesis by (simp add: unsigned_ucast_eq take_bit_eq_mod)
qed

lemma ucast_page_size:
  "0 < (sz :: u64) \<Longrightarrow> sz \<le> 255 \<Longrightarrow> ucast (ucast sz :: u8) = sz \<and> (ucast sz :: u8) \<noteq> 0"
proof -
  assume "0 < sz" "sz \<le> 255"
  then have "unat sz \<le> 255" "0 < unat sz" by (simp_all add: word_le_nat_alt word_less_nat_alt)
  then have u: "unat (ucast sz :: u8) = unat sz" "0 < unat sz" by (simp_all add: unsigned_ucast_eq take_bit_eq_mod)
  then have "unat (ucast (ucast sz :: u8) :: u64) = unat sz" by (simp only: unat_page_size)
  moreover have "(ucast sz :: u8) \<noteq> 0" using u by (metis unat_0 less_irrefl)
  ultimately show ?thesis by (simp only: word_unat_eq_iff simp_thms)
qed

lemma page_live_bounds: "finite (dom (page_live h)) \<and> block_bytes (page_live h) < 2 ^ 64"
proof -
  have sub: "dom (page_live h) \<subseteq> {4096, 8192}" by (auto simp: page_live_def split: if_splits)
  then have fin: "finite (dom (page_live h))" by (rule finite_subset) simp
  have "unat (the (page_live h p)) \<le> 256" if "p \<in> dom (page_live h)" for p
    using that unat_lt_u8 [of "fst h"] unat_lt_u8 [of "snd h"]
    by (auto simp: page_live_def unat_page_size split: if_splits)
  then have "block_bytes (page_live h) \<le> card (dom (page_live h)) * 256"
    unfolding block_bytes_def by (metis (no_types, lifting) of_nat_id sum_bounded_above)
  also have "\<dots> \<le> card {4096 :: ptr, 8192} * 256" using card_mono [OF _ sub] by simp
  finally show ?thesis using fin by simp
qed

lemma page_malloc_live:
  assumes "page_malloc sz al h = (p, h')"
  shows "if p = 0 then page_live h' = page_live h
         else page_live h p = None \<and> page_live h' = (page_live h)(p \<mapsto> sz) \<and> unat al dvd unat p"
proof (cases "sz = 0 \<or> 255 < sz \<or> \<not> unat al dvd 4096 \<or> fst h \<noteq> 0 \<and> snd h \<noteq> 0")
  case True
  then have "p = 0 \<and> h' = h" using assms by (auto simp: page_malloc_def split: if_splits)
  then show ?thesis by simp
next
  case False
  then have u: "ucast (ucast sz :: u8) = sz" "(ucast sz :: u8) \<noteq> 0" and d: "unat al dvd 4096"
    using ucast_page_size [of sz] by (auto simp: word_gt_0 not_less)
  have "unat al dvd 4096 * 2" by (rule dvd_mult2 [OF d])
  then show ?thesis using assms False u d by (auto simp: page_malloc_def page_live_def fun_eq_iff split: if_splits)
qed

lemma page_libs_ok: "libs_ok page_libs (\<lambda>_. page_live)"
proof -
  have "page_live (page_free p h) = (page_live h)(p := None)" for p h
    by (auto simp: page_live_def page_free_def fun_eq_iff)
  then have "malloc_ok page_api page_live"
    using page_live_bounds page_malloc_live by (simp add: malloc_ok_def page_api_def)
  moreover have "lib_of page_libs b = page_api" for b by (cases b) (simp_all add: page_libs_def)
  ultimately show ?thesis by (simp add: libs_ok_def)
qed

lemmas global_run_eval = initial_global_def default_global_options_def Global_Allocate_def Global_Deallocate_def
  EnsureAllocatorLocked_def Configure_def CreateAllocator_def g_owned_def g_current_def owned_blocks_def g_backend_def
  sys_Allocate_def sys_Deallocate_def sys_RecordAllocSuccess_def sys_RecordDeallocate_def sys_Stats_def SystemAllocator_def
  mi_Allocate_def mi_Stats_def mi_RecordAllocSuccess_def MimallocAllocator_def
  IsPowerOfTwo_def sizeof_ptr_def page_libs_def page_api_def page_malloc_def page_free_def mem_status_def Let_def

text \<open>A block is allocated, freed, the backend is switched to mimalloc, and a block is allocated there.\<close>

definition demo_ops :: "gop list" where
  "demo_ops = [GAlloc 100 8, GConfigure \<lparr>go_backend = kMimalloc, strict_backend = True\<rparr>, GFree 4096,
     GConfigure \<lparr>go_backend = kMimalloc, strict_backend = True\<rparr>, GAlloc 40 16]"

definition demo_build :: Build where
  "demo_build = \<lparr>enable_mimalloc = True, enable_tbbmalloc = False\<rparr>"

lemma demo_run:
  "g_run page_libs demo_build demo_ops (initial_global, (0, 0)) =
     Some (\<lparr>g_allocator = Some (MiA \<lparr>al_backend = kMimalloc, al_count = 1, al_free = 0, al_fail = 0, al_in_use = 40, al_peak = 40,
              al_sizes = [(4096, 40)]\<rparr>),
            g_options = \<lparr>go_backend = kMimalloc, strict_backend = True\<rparr>\<rparr>, (40, 0))"
  by (simp add: demo_ops_def demo_build_def global_run_eval)

theorem global_allocator_safe_witness:
  "\<exists>g h'. g_run page_libs demo_build demo_ops (initial_global, (0, 0)) = Some (g, h') \<and>
     g_owned g = [4096 \<mapsto> 40] \<and> g_owned g \<subseteq>\<^sub>m page_live h' \<and>
     st_code (fst (Configure demo_build default_global_options g)) = kWouldBlock"
  using global_allocator_safe [OF page_libs_ok demo_run, of default_global_options]
  by (auto simp: demo_run g_owned_def g_current_def EnsureAllocatorLocked_def owned_blocks_def g_backend_def default_global_options_def)

end
