(* ===== verification/CK_ObjectPool.thy ===== *)
theory CK_ObjectPool
  imports CK_Global_Allocator
begin

text \<open>
  The object pool (\<open>src/memory/basic_object_pool_impl.hpp\<close>) and the allocator adaptor of its containers
  (\<open>src/memory/global_stl_allocator.hpp\<close>). Objects live in blocks of the global allocator. The type \<open>T\<close> is
  given by its size and alignment; whether its constructor throws, and which insertion into the
  pool's own containers throws, are inputs of an operation (\<open>faults\<close>). The memory of the containers
  themselves is not represented. Every operation holds the pool's mutex, so it is one step.
\<close>

section \<open>The adaptor\<close>

record ObjType =
  sizeof_T :: size_t
  alignof_T :: size_t

text \<open>\<open>None\<close> stands for \<open>std::bad_alloc\<close>.\<close>

definition stl_allocate :: "'h Libs \<Rightarrow> ObjType \<Rightarrow> size_t \<Rightarrow> Global \<Rightarrow> 'h \<Rightarrow> ptr option \<times> Global \<times> 'h" where
  "stl_allocate libs T n g h =
     (if n = 0 then (Some 0, g, h)
      else if n > (- 1) div sizeof_T T then (None, g, h)
      else
        let bytes = n * sizeof_T T;
            alignment = (if alignof_T T < sizeof_ptr then sizeof_ptr else alignof_T T);
            (r, g', h') = Global_Allocate libs bytes alignment g h
        in if \<not> result_ok r \<or> res_value r = 0 then (None, g', h') else (Some (res_value r), g', h'))"

definition stl_deallocate :: "'h Libs \<Rightarrow> ptr \<Rightarrow> Global \<Rightarrow> 'h \<Rightarrow> Global \<times> 'h" where
  "stl_deallocate libs p g h = snd (Global_Deallocate libs p g h)"

text \<open>The product is computed only when it does not overflow, so the block holds \<open>n\<close> elements.\<close>

lemma stl_allocate_holds:
  assumes inv: "g_inv libs lv g h" and a: "stl_allocate libs T n g h = (Some p, g', h')" and n: "n \<noteq> 0"
  shows "\<exists>bytes. g_owned g p = None \<and> g_owned g' = (g_owned g)(p \<mapsto> bytes) \<and> unat bytes = unat n * unat (sizeof_T T)"
proof -
  let ?s = "sizeof_T T"
  have g: "n \<le> (- 1) div ?s" using a n by (auto simp: stl_allocate_def not_less split: if_splits)
  then have "unat n \<le> unat (- 1 :: size_t) div unat ?s" by (simp add: word_le_nat_alt unat_div)
  then have "unat n * unat ?s \<le> unat (- 1 :: size_t)"
    by (meson div_times_less_eq_dividend le_trans mult_le_mono1)
  then have "unat n * unat ?s < 2 ^ LENGTH(64)" by (rule le_less_trans) (rule unsigned_less)
  then have "unat (n * ?s) = unat n * unat ?s" by (rule unat_mult_noflow)
  moreover obtain r where "Global_Allocate libs (n * ?s) (if alignof_T T < sizeof_ptr then sizeof_ptr else alignof_T T) g h = (r, g', h')"
      "result_ok r" "res_value r = p"
    using a n g by (auto simp: stl_allocate_def Let_def split: if_splits prod.splits)
  ultimately show ?thesis using glob.allocate_law [OF inv] by metis
qed

section \<open>The pool\<close>

record ObjectPool =
  op_max_cached :: size_t
  op_all :: "ptr list"
  op_free :: "ptr list"
  op_all_set :: "ptr set"
  op_free_set :: "ptr set"

text \<open>The exceptions of one creation: does the constructor throw, and how many insertions into the
  containers succeed before one throws (\<open>None\<close>: none throws).\<close>

type_synonym faults = "bool \<times> nat option"

abbreviation no_faults :: faults where
  "no_faults \<equiv> (False, None)"

definition inserted :: "nat option \<Rightarrow> nat \<Rightarrow> bool" where
  "inserted f k \<longleftrightarrow> (case f of None \<Rightarrow> True | Some n \<Rightarrow> k < n)"

definition BasicObjectPool :: "size_t \<Rightarrow> ObjectPool" where
  "BasicObjectPool max_cached = \<lparr>op_max_cached = max_cached, op_all = [], op_free = [], op_all_set = {}, op_free_set = {}\<rparr>"

definition CreateOne :: "'h Libs \<Rightarrow> ObjType \<Rightarrow> bool \<Rightarrow> Global \<Rightarrow> 'h \<Rightarrow> ptr Result \<times> Global \<times> 'h" where
  "CreateOne libs T ctor_throws g h =
     (let alignment = (if alignof_T T < sizeof_ptr then sizeof_ptr else alignof_T T);
          (mem, g1, h1) = Global_Allocate libs (sizeof_T T) alignment g h
      in if \<not> result_ok mem \<or> res_value mem = 0
         then (Result_status 0 (mem_status kInternalError ''pool allocate failed''), g1, h1)
         else if ctor_throws
         then (let (st, g2, h2) = Global_Deallocate libs (res_value mem) g1 h1
               in (Result_status 0 (mem_status kInternalError ''pool object construction failed''), g2, h2))
         else (Result_value (res_value mem), g1, h1))"

definition DestroyOne :: "'h Libs \<Rightarrow> ptr \<Rightarrow> Global \<Rightarrow> 'h \<Rightarrow> Global \<times> 'h" where
  "DestroyOne libs obj g h = (if obj = 0 then (g, h) else snd (Global_Deallocate libs obj g h))"

definition EraseFromAll :: "ptr \<Rightarrow> ObjectPool \<Rightarrow> ObjectPool" where
  "EraseFromAll p o' = o'\<lparr>op_all_set := op_all_set o' - {p}, op_all := remove1 p (op_all o')\<rparr>"

fun destroy_all :: "'h Libs \<Rightarrow> ptr list \<Rightarrow> Global \<Rightarrow> 'h \<Rightarrow> Global \<times> 'h" where
  "destroy_all libs [] g h = (g, h)"
| "destroy_all libs (q # qs) g h = (let (g1, h1) = DestroyOne libs q g h in destroy_all libs qs g1 h1)"

definition op_destructor :: "'h Libs \<Rightarrow> ObjectPool \<Rightarrow> Global \<Rightarrow> 'h \<Rightarrow> Global \<times> 'h" where
  "op_destructor libs o' g h = destroy_all libs (op_all o') g h"

text \<open>The loop of \<open>Reserve\<close>, with \<open>n\<close> rounds left.\<close>

fun Reserve_loop :: "'h Libs \<Rightarrow> ObjType \<Rightarrow> (nat \<Rightarrow> faults) \<Rightarrow> nat \<Rightarrow> ObjectPool \<Rightarrow> Global \<Rightarrow> 'h \<Rightarrow> Status \<times> ObjectPool \<times> Global \<times> 'h" where
  "Reserve_loop libs T env 0 o' g h = (Status_Ok, o', g, h)"
| "Reserve_loop libs T env (Suc n) o' g h =
     (let (created, g1, h1) = CreateOne libs T (fst (env n)) g h; p = res_value created; f = snd (env n)
      in if \<not> result_ok created then (res_status created, o', g1, h1)
         else
           let o1 = (if inserted f 0 then o'\<lparr>op_all := op_all o' @ [p]\<rparr> else o');
               o2 = (if inserted f 1 then o1\<lparr>op_all_set := insert p (op_all_set o1)\<rparr> else o1);
               o3 = (if inserted f 2 then o2\<lparr>op_free := op_free o2 @ [p]\<rparr> else o2);
               o4 = (if inserted f 3 then o3\<lparr>op_free_set := insert p (op_free_set o3)\<rparr> else o3)
           in if inserted f 3 then Reserve_loop libs T env n o4 g1 h1
              else
                let o5 = EraseFromAll p o4;
                    o6 = o5\<lparr>op_free_set := op_free_set o5 - {p}, op_free := remove1 p (op_free o5)\<rparr>;
                    (g2, h2) = DestroyOne libs p g1 h1
                in (mem_status kInternalError ''pool bookkeeping failed in Reserve'', o6, g2, h2))"

definition Reserve :: "'h Libs \<Rightarrow> ObjType \<Rightarrow> (nat \<Rightarrow> faults) \<Rightarrow> size_t \<Rightarrow> ObjectPool \<Rightarrow> Global \<Rightarrow> 'h \<Rightarrow> Status \<times> ObjectPool \<times> Global \<times> 'h" where
  "Reserve libs T env n o' g h = Reserve_loop libs T env (unat n) o' g h"

definition Acquire :: "'h Libs \<Rightarrow> ObjType \<Rightarrow> faults \<Rightarrow> ObjectPool \<Rightarrow> Global \<Rightarrow> 'h \<Rightarrow> ptr Result \<times> ObjectPool \<times> Global \<times> 'h" where
  "Acquire libs T f o' g h =
     (if op_free o' \<noteq> []
      then let obj = last (op_free o')
           in (Result_value obj, o'\<lparr>op_free := butlast (op_free o'), op_free_set := op_free_set o' - {obj}\<rparr>, g, h)
      else
        let (created, g1, h1) = CreateOne libs T (fst f) g h; p = res_value created
        in if \<not> result_ok created then (created, o', g1, h1)
           else
             let o1 = (if inserted (snd f) 0 then o'\<lparr>op_all := op_all o' @ [p]\<rparr> else o');
                 o2 = (if inserted (snd f) 1 then o1\<lparr>op_all_set := insert p (op_all_set o1)\<rparr> else o1)
             in if inserted (snd f) 1 then (Result_value p, o2, g1, h1)
                else let (g2, h2) = DestroyOne libs p g1 h1
                     in (Result_status 0 (mem_status kInternalError ''pool bookkeeping failed in Acquire''), EraseFromAll p o2, g2, h2))"

definition ReleaseObject :: "'h Libs \<Rightarrow> nat option \<Rightarrow> ptr \<Rightarrow> ObjectPool \<Rightarrow> Global \<Rightarrow> 'h \<Rightarrow> Status \<times> ObjectPool \<times> Global \<times> 'h" where
  "ReleaseObject libs f obj o' g h =
     (if obj = 0 then (mem_status kInvalidArgument ''obj is null'', o', g, h)
      else if obj \<notin> op_all_set o' then (mem_status kInvalidArgument ''object does not belong to this pool'', o', g, h)
      else if obj \<in> op_free_set o' then (mem_status kInvalidArgument ''object already released'', o', g, h)
      else if length (op_free o') \<ge> unat (op_max_cached o')
      then (let (g1, h1) = DestroyOne libs obj g h in (Status_Ok, EraseFromAll obj o', g1, h1))
      else
        let o1 = (if inserted f 0 then o'\<lparr>op_free := op_free o' @ [obj]\<rparr> else o');
            o2 = (if inserted f 1 then o1\<lparr>op_free_set := insert obj (op_free_set o1)\<rparr> else o1)
        in if inserted f 1 then (Status_Ok, o2, g, h)
           else (mem_status kInternalError ''pool bookkeeping failed in ReleaseObject'', o2, g, h))"

definition Available :: "ObjectPool \<Rightarrow> nat" where
  "Available o' = length (op_free o')"

definition TotalAllocated :: "ObjectPool \<Rightarrow> nat" where
  "TotalAllocated o' = length (op_all o')"

function Trim_loop :: "'h Libs \<Rightarrow> nat \<Rightarrow> ObjectPool \<Rightarrow> Global \<Rightarrow> 'h \<Rightarrow> ObjectPool \<times> Global \<times> 'h" where
  "Trim_loop libs keep_free o' g h =
     (if length (op_free o') > keep_free
      then let p = last (op_free o');
               o1 = o'\<lparr>op_free := butlast (op_free o'), op_free_set := op_free_set o' - {p}\<rparr>;
               (g1, h1) = DestroyOne libs p g h
           in Trim_loop libs keep_free (EraseFromAll p o1) g1 h1
      else (o', g, h))"
  by pat_completeness auto
termination
  by (relation "measure (\<lambda>(libs, k, o', g, h). length (op_free o'))") (auto simp: EraseFromAll_def)

declare Trim_loop.simps [simp del]

definition Trim :: "'h Libs \<Rightarrow> size_t \<Rightarrow> ObjectPool \<Rightarrow> Global \<Rightarrow> 'h \<Rightarrow> Status \<times> ObjectPool \<times> Global \<times> 'h" where
  "Trim libs keep_free o' g h = (Status_Ok, Trim_loop libs (unat keep_free) o' g h)"

definition op_Clear :: "'h Libs \<Rightarrow> ObjectPool \<Rightarrow> Global \<Rightarrow> 'h \<Rightarrow> Status \<times> ObjectPool \<times> Global \<times> 'h" where
  "op_Clear libs o' g h =
     (if length (op_free o') \<noteq> length (op_all o')
      then (mem_status kWouldBlock ''cannot clear pool while objects are still acquired'', o', g, h)
      else (let (g1, h1) = destroy_all libs (op_all o') g h
            in (Status_Ok, o'\<lparr>op_all := [], op_free := [], op_all_set := {}, op_free_set := {}\<rparr>, g1, h1)))"

section \<open>Invariant\<close>

text \<open>\<open>base\<close> are the blocks of the global allocator that belong to others.\<close>

definition pool_blocks :: "ObjType \<Rightarrow> blocks \<Rightarrow> ObjectPool \<Rightarrow> blocks" where
  "pool_blocks T base o' = (\<lambda>q. if q \<in> op_all_set o' then Some (sizeof_T T) else base q)"

definition op_inv :: "ObjType \<Rightarrow> blocks \<Rightarrow> ObjectPool \<Rightarrow> bool" where
  "op_inv T base o' \<longleftrightarrow> distinct (op_all o') \<and> set (op_all o') = op_all_set o' \<and> distinct (op_free o') \<and>
     set (op_free o') = op_free_set o' \<and> op_free_set o' \<subseteq> op_all_set o' \<and> (\<forall>q\<in>op_all_set o'. base q = None)"

definition pool_ok :: "'h Libs \<Rightarrow> (AllocBackend \<Rightarrow> 'h \<Rightarrow> blocks) \<Rightarrow> ObjType \<Rightarrow> blocks \<Rightarrow> ObjectPool \<times> Global \<times> 'h \<Rightarrow> bool" where
  "pool_ok libs lv T base w \<longleftrightarrow>
     (case w of (o', g, h) \<Rightarrow> op_inv T base o' \<and> g_inv libs lv g h \<and> g_owned g = pool_blocks T base o')"

text \<open>The objects that clients hold.\<close>

definition acquired :: "ObjectPool \<Rightarrow> ptr set" where
  "acquired o' = op_all_set o' - op_free_set o'"

lemma CreateOne_law:
  assumes inv: "g_inv libs lv g h" and c: "CreateOne libs T ct g h = (r, g', h')"
  shows "g_inv libs lv g' h' \<and>
     (if result_ok r then res_value r \<noteq> 0 \<and> g_owned g (res_value r) = None \<and> g_owned g' = (g_owned g)(res_value r \<mapsto> sizeof_T T)
      else g_owned g' = g_owned g)"
proof -
  let ?al = "if alignof_T T < sizeof_ptr then sizeof_ptr else alignof_T T"
  obtain m g1 h1 where m: "Global_Allocate libs (sizeof_T T) ?al g h = (m, g1, h1)" by (metis prod_cases3)
  note law = glob.allocate_law [OF inv m]
  show ?thesis
  proof (cases "result_ok m \<and> ct")
    case False
    then show ?thesis using c m law by (auto simp: CreateOne_def Let_def mem_status_def split: if_splits)
  next
    case True
    obtain st g2 h2 where d: "Global_Deallocate libs (res_value m) g1 h1 = (st, g2, h2)" by (metis prod_cases3)
    have "g_inv libs lv g2 h2 \<and> g_owned g2 = g_owned g"
      using glob.allocate_deallocate [OF inv m _ d] True by blast
    then show ?thesis using c m d True law by (auto simp: CreateOne_def Let_def mem_status_def)
  qed
qed

lemma DestroyOne_law:
  assumes inv: "g_inv libs lv g h" and o: "g_owned g q \<noteq> None" and d: "DestroyOne libs q g h = (g', h')"
  shows "g_inv libs lv g' h' \<and> g_owned g' = (g_owned g)(q := None)"
proof -
  have "q \<noteq> 0" using glob.in_use_law [OF inv] o by blast
  then obtain st where "Global_Deallocate libs q g h = (st, g', h')" using d unfolding DestroyOne_def by (metis prod.collapse)
  then show ?thesis using glob.deallocate_law [OF inv o] by blast
qed

lemma destroy_all_law:
  "g_inv libs lv g h \<Longrightarrow> distinct qs \<Longrightarrow> \<forall>q\<in>set qs. g_owned g q \<noteq> None \<Longrightarrow> destroy_all libs qs g h = (g', h') \<Longrightarrow>
     g_inv libs lv g' h' \<and> g_owned g' = (\<lambda>q. if q \<in> set qs then None else g_owned g q)"
proof (induction qs arbitrary: g h)
  case (Cons q qs)
  obtain g1 h1 where d: "DestroyOne libs q g h = (g1, h1)" by (metis surj_pair)
  have "g_owned g q \<noteq> None" using Cons.prems(3) by simp
  note l = DestroyOne_law [OF Cons.prems(1) this d]
  have r: "destroy_all libs qs g1 h1 = (g', h')" using Cons.prems(4) d by simp
  have "\<forall>q'\<in>set qs. g_owned g1 q' \<noteq> None" using l Cons.prems(2,3) by auto
  from Cons.IH [OF _ _ this r] show ?case using l Cons.prems(2) by (auto simp: fun_eq_iff)
qed (auto simp: fun_eq_iff)

lemma pool_ok_nonzero: "pool_ok libs lv T base (o', g, h) \<Longrightarrow> q \<in> op_all_set o' \<Longrightarrow> q \<noteq> 0 \<and> g_owned g q = Some (sizeof_T T)"
proof -
  assume ok: "pool_ok libs lv T base (o', g, h)" and q: "q \<in> op_all_set o'"
  then have o: "g_owned g q = Some (sizeof_T T)" and i: "g_inv libs lv g h" by (auto simp: pool_ok_def pool_blocks_def)
  then show ?thesis using glob.in_use_law [OF i] by blast
qed

text \<open>Adding a created object to \<open>all_\<close>, and destroying one that is in no container.\<close>

lemma pool_ok_created:
  assumes ok: "pool_ok libs lv T base (o', g, h)" and c: "CreateOne libs T ct g h = (r, g1, h1)" and r: "result_ok r"
  shows "pool_ok libs lv T base (o'\<lparr>op_all := op_all o' @ [res_value r], op_all_set := insert (res_value r) (op_all_set o')\<rparr>, g1, h1)"
    and "res_value r \<notin> op_all_set o'" and "base (res_value r) = None"
    and "DestroyOne libs (res_value r) g1 h1 = (g2, h2) \<Longrightarrow> pool_ok libs lv T base (o', g2, h2)"
proof -
  let ?p = "res_value r"
  have i: "g_inv libs lv g h" "op_inv T base o'" "g_owned g = pool_blocks T base o'" using ok by (auto simp: pool_ok_def)
  have l: "g_inv libs lv g1 h1" "g_owned g ?p = None" "g_owned g1 = (g_owned g)(?p \<mapsto> sizeof_T T)"
    using CreateOne_law [OF i(1) c] r by auto
  show n: "?p \<notin> op_all_set o'" "base ?p = None" using l(2) unfolding i(3) by (auto simp: pool_blocks_def split: if_splits)
  have "g_owned g1 = pool_blocks T base (o'\<lparr>op_all := op_all o' @ [?p], op_all_set := insert ?p (op_all_set o')\<rparr>)"
    unfolding l(3) i(3) by (auto simp: pool_blocks_def fun_eq_iff)
  moreover have "op_inv T base (o'\<lparr>op_all := op_all o' @ [?p], op_all_set := insert ?p (op_all_set o')\<rparr>)"
    using i(2) n by (auto simp: op_inv_def)
  ultimately show "pool_ok libs lv T base (o'\<lparr>op_all := op_all o' @ [?p], op_all_set := insert ?p (op_all_set o')\<rparr>, g1, h1)"
    using l(1) by (simp add: pool_ok_def)
  assume d: "DestroyOne libs ?p g1 h1 = (g2, h2)"
  have "g_owned g1 ?p \<noteq> None" by (simp add: l(3))
  from DestroyOne_law [OF l(1) this d] have "g_inv libs lv g2 h2" "g_owned g2 = g_owned g" using l(2,3) by auto
  then show "pool_ok libs lv T base (o', g2, h2)" using i by (simp add: pool_ok_def)
qed

lemma pool_ok_destroy:
  assumes ok: "pool_ok libs lv T base (o', g, h)" and q: "q \<in> op_all_set o'" and d: "DestroyOne libs q g h = (g1, h1)"
    and nf: "q \<notin> op_free_set o'"
  shows "pool_ok libs lv T base (EraseFromAll q o', g1, h1)"
proof -
  have i: "g_inv libs lv g h" "op_inv T base o'" "g_owned g = pool_blocks T base o'" using ok by (auto simp: pool_ok_def)
  have "g_owned g q \<noteq> None" using q unfolding i(3) by (simp add: pool_blocks_def)
  note l = DestroyOne_law [OF i(1) this d]
  have "base q = None" using i(2) q by (simp add: op_inv_def)
  then have "g_owned g1 = pool_blocks T base (EraseFromAll q o')"
    using l unfolding i(3) by (auto simp: pool_blocks_def EraseFromAll_def fun_eq_iff)
  moreover have "op_inv T base (EraseFromAll q o')"
    using i(2) nf by (auto simp: op_inv_def EraseFromAll_def)
  ultimately show ?thesis using l by (simp add: pool_ok_def)
qed

lemma pop_free:
  assumes "op_inv T base o'" and "op_free o' \<noteq> []"
  shows "last (op_free o') \<in> op_free_set o'" and "set (butlast (op_free o')) = op_free_set o' - {last (op_free o')}"
    and "distinct (butlast (op_free o'))"
proof -
  have e: "butlast (op_free o') @ [last (op_free o')] = op_free o'" using assms(2) by simp
  have d: "distinct (butlast (op_free o') @ [last (op_free o')])" and s: "set (butlast (op_free o') @ [last (op_free o')]) = op_free_set o'"
    unfolding e using assms(1) by (auto simp: op_inv_def)
  show "last (op_free o') \<in> op_free_set o'" "set (butlast (op_free o')) = op_free_set o' - {last (op_free o')}"
    "distinct (butlast (op_free o'))" using d s by auto
qed

lemma pool_ok_pop:
  assumes ok: "pool_ok libs lv T base (o', g, h)" and ne: "op_free o' \<noteq> []"
  shows "pool_ok libs lv T base (o'\<lparr>op_free := butlast (op_free o'), op_free_set := op_free_set o' - {last (op_free o')}\<rparr>, g, h)"
proof -
  have i: "op_inv T base o'" using ok by (simp add: pool_ok_def)
  show ?thesis using ok pop_free [OF i ne] by (auto simp: pool_ok_def op_inv_def pool_blocks_def)
qed

section \<open>What every operation does\<close>

lemma inserted_mono: "inserted f k \<Longrightarrow> j \<le> k \<Longrightarrow> inserted f j"
  by (auto simp: inserted_def split: option.splits)

text \<open>The handlers of exceptions restore the containers.\<close>

lemma EraseFromAll_undo:
  assumes "p \<notin> set (op_all o')" and "p \<notin> op_all_set o'"
  shows "EraseFromAll p o' = o'" and "EraseFromAll p (o'\<lparr>op_all := op_all o' @ [p]\<rparr>) = o'"
    and "EraseFromAll p (o'\<lparr>op_all := op_all o' @ [p], op_all_set := insert p (op_all_set o')\<rparr>) = o'"
  using assms by (cases o'; simp add: EraseFromAll_def remove1_idem remove1_append)+

lemma Acquire_law:
  assumes ok: "pool_ok libs lv T base (o', g, h)" and a: "Acquire libs T f o' g h = (r, o1, g1, h1)"
  shows "pool_ok libs lv T base (o1, g1, h1) \<and>
     (if result_ok r then res_value r \<notin> acquired o' \<and> acquired o1 = insert (res_value r) (acquired o') else acquired o1 = acquired o')"
proof (cases "op_free o' = []")
  case False
  have i: "op_inv T base o'" using ok by (simp add: pool_ok_def)
  have "r = Result_value (last (op_free o'))" "g1 = g" "h1 = h"
    "o1 = o'\<lparr>op_free := butlast (op_free o'), op_free_set := op_free_set o' - {last (op_free o')}\<rparr>"
    using a False by (auto simp: Acquire_def Let_def)
  moreover have "last (op_free o') \<in> op_all_set o'" using pop_free(1) [OF i False] i by (auto simp: op_inv_def)
  ultimately show ?thesis using pool_ok_pop [OF ok False] pop_free(1) [OF i False] by (auto simp: acquired_def)
next
  case True
  obtain c gc hc where c: "CreateOne libs T (fst f) g h = (c, gc, hc)" by (metis prod_cases3)
  have i: "g_inv libs lv g h" "op_inv T base o'" "g_owned g = pool_blocks T base o'" using ok by (auto simp: pool_ok_def)
  show ?thesis
  proof (cases "result_ok c")
    case False
    have "pool_ok libs lv T base (o', gc, hc)" using CreateOne_law [OF i(1) c] False i by (auto simp: pool_ok_def)
    then show ?thesis using a True False c by (auto simp: Acquire_def Let_def)
  next
    case cok: True
    let ?p = "res_value c"
    note p = pool_ok_created [OF ok c cok]
    have fs: "?p \<notin> op_free_set o'" using p(2) i(2) by (auto simp: op_inv_def)
    show ?thesis
    proof (cases "inserted (snd f) 1")
      case ins: True
      have "r = Result_value ?p" "g1 = gc" "h1 = hc"
        "o1 = o'\<lparr>op_all := op_all o' @ [?p], op_all_set := insert ?p (op_all_set o')\<rparr>"
        using a True c cok ins inserted_mono [OF ins, of 0] by (auto simp: Acquire_def Let_def)
      then show ?thesis using p(1,2) fs by (auto simp: acquired_def)
    next
      case nins: False
      obtain g2 h2 where d: "DestroyOne libs ?p gc hc = (g2, h2)" by (metis surj_pair)
      have "?p \<notin> set (op_all o')" using p(2) i(2) by (simp add: op_inv_def)
      note u = EraseFromAll_undo [OF this p(2)]
      have "\<not> result_ok r \<and> g1 = g2 \<and> h1 = h2 \<and> o1 = o'"
        using a unfolding Acquire_def
        by (cases "inserted (snd f) 0") (simp_all add: Let_def True c cok nins [simplified] d u mem_status_def, auto)
      then show ?thesis using p(4) [OF d] by (simp add: acquired_def)
    qed
  qed
qed

lemma ReleaseObject_law:
  assumes ok: "pool_ok libs lv T base (o', g, h)" and f: "f \<noteq> Some 1" and a: "ReleaseObject libs f obj o' g h = (st, o1, g1, h1)"
  shows "pool_ok libs lv T base (o1, g1, h1) \<and>
     (if obj \<notin> acquired o' then st_code st = kInvalidArgument \<and> (o1, g1, h1) = (o', g, h)
      else if status_ok st then acquired o1 = acquired o' - {obj}
      else f \<noteq> None \<and> (o1, g1, h1) = (o', g, h))"
proof (cases "obj \<in> acquired o'")
  case False
  then show ?thesis using ok a pool_ok_nonzero [OF ok, of 0]
    by (auto simp: ReleaseObject_def acquired_def mem_status_def split: if_splits)
next
  case True
  then have n: "obj \<noteq> 0" "obj \<in> op_all_set o'" "obj \<notin> op_free_set o'" using pool_ok_nonzero [OF ok] by (auto simp: acquired_def)
  have i: "op_inv T base o'" using ok by (simp add: pool_ok_def)
  show ?thesis
  proof (cases "unat (op_max_cached o') \<le> length (op_free o')")
    case full: True
    obtain g2 h2 where d: "DestroyOne libs obj g h = (g2, h2)" by (metis surj_pair)
    have "acquired (EraseFromAll obj o') = acquired o' - {obj}" by (auto simp: acquired_def EraseFromAll_def)
    then show ?thesis using a n full d pool_ok_destroy [OF ok n(2) d n(3)] True by (auto simp: ReleaseObject_def)
  next
    case False
    have "pool_ok libs lv T base (o'\<lparr>op_free := op_free o' @ [obj], op_free_set := insert obj (op_free_set o')\<rparr>, g, h)"
      using ok n i by (auto simp: pool_ok_def op_inv_def pool_blocks_def)
    moreover have "inserted f 1 \<longrightarrow> inserted f 0" "\<not> inserted f 1 \<longrightarrow> \<not> inserted f 0" "\<not> inserted f 1 \<longrightarrow> f \<noteq> None"
      using f by (auto simp: inserted_def split: option.splits)
    ultimately show ?thesis using a n False ok True
      by (auto simp: ReleaseObject_def acquired_def Let_def mem_status_def split: if_splits)
  qed
qed

lemma Reserve_loop_law:
  "pool_ok libs lv T base (o', g, h) \<Longrightarrow> Reserve_loop libs T env n o' g h = (st, o1, g1, h1) \<Longrightarrow>
     pool_ok libs lv T base (o1, g1, h1) \<and> acquired o1 = acquired o' \<and> (status_ok st \<longrightarrow> length (op_free o1) = length (op_free o') + n)"
proof (induction n arbitrary: o' g h)
  case (Suc n)
  obtain c gc hc where c: "CreateOne libs T (fst (env n)) g h = (c, gc, hc)" by (metis prod_cases3)
  have i: "g_inv libs lv g h" "op_inv T base o'" "g_owned g = pool_blocks T base o'" using Suc.prems(1) by (auto simp: pool_ok_def)
  show ?case
  proof (cases "result_ok c")
    case False
    have "\<not> status_ok (res_status c)" using False c
      by (auto simp: CreateOne_def Let_def mem_status_def split: if_splits prod.splits)
    moreover have "pool_ok libs lv T base (o', gc, hc)" using CreateOne_law [OF i(1) c] False i by (auto simp: pool_ok_def)
    ultimately show ?thesis using Suc.prems(2) False c by (auto simp: Let_def)
  next
    case cok: True
    let ?p = "res_value c" and ?f = "snd (env n)"
    note p = pool_ok_created [OF Suc.prems(1) c cok]
    have fs: "?p \<notin> op_free_set o'" using p(2) i(2) by (auto simp: op_inv_def)
    show ?thesis
    proof (cases "inserted ?f 3")
      case ins: True
      let ?o = "o'\<lparr>op_all := op_all o' @ [?p], op_all_set := insert ?p (op_all_set o'), op_free := op_free o' @ [?p],
                   op_free_set := insert ?p (op_free_set o')\<rparr>"
      have ok: "pool_ok libs lv T base (?o, gc, hc)"
        using p(1) fs i(2) by (auto simp: pool_ok_def op_inv_def pool_blocks_def)
      have "Reserve_loop libs T env n ?o gc hc = (st, o1, g1, h1)"
        using Suc.prems(2) c cok ins inserted_mono [OF ins, of 0] inserted_mono [OF ins, of 1] inserted_mono [OF ins, of 2]
        by (simp add: Let_def)
      from Suc.IH [OF ok this] show ?thesis using fs p(2) by (auto simp: acquired_def)
    next
      case nins: False
      obtain g2 h2 where d: "DestroyOne libs ?p gc hc = (g2, h2)" by (metis surj_pair)
      have ns: "?p \<notin> set (op_all o')" "?p \<notin> set (op_free o')" using p(2) fs i(2) by (simp_all add: op_inv_def)
      from nins have "?f = Some 0 \<or> ?f = Some 1 \<or> ?f = Some 2 \<or> ?f = Some 3"
        by (auto simp: inserted_def not_less le_Suc_eq numeral_eq_Suc split: option.splits)
      then have "\<not> status_ok st \<and> g1 = g2 \<and> h1 = h2 \<and> o1 = o'"
        using Suc.prems(2) ns p(2) fs
        by (cases o') (elim disjE; auto simp: Let_def c cok d inserted_def EraseFromAll_def remove1_append remove1_idem mem_status_def)
      then show ?thesis using p(4) [OF d] by simp
    qed
  qed
qed auto

lemma Trim_loop_law:
  "pool_ok libs lv T base (o', g, h) \<Longrightarrow> Trim_loop libs keep o' g h = (o1, g1, h1) \<Longrightarrow>
     pool_ok libs lv T base (o1, g1, h1) \<and> acquired o1 = acquired o' \<and> length (op_free o1) = min keep (length (op_free o'))"
proof (induction libs keep o' g h rule: Trim_loop.induct)
  case (1 libs keep o' g h)
  show ?case
  proof (cases "length (op_free o') > keep")
    case False
    then show ?thesis using "1.prems" by (simp add: Trim_loop.simps [of libs keep o'] min_def)
  next
    case True
    then have ne: "op_free o' \<noteq> []" by auto
    let ?p = "last (op_free o')" and ?o1 = "o'\<lparr>op_free := butlast (op_free o'), op_free_set := op_free_set o' - {last (op_free o')}\<rparr>"
    obtain g2 h2 where d: "DestroyOne libs ?p g h = (g2, h2)" by (metis surj_pair)
    have i: "op_inv T base o'" using "1.prems"(1) by (simp add: pool_ok_def)
    have mem: "?p \<in> op_all_set ?o1" "?p \<notin> op_free_set ?o1" "?p \<in> op_free_set o'"
      using pop_free(1) [OF i ne] i by (auto simp: op_inv_def)
    have ok: "pool_ok libs lv T base (EraseFromAll ?p ?o1, g2, h2)"
      by (rule pool_ok_destroy [OF pool_ok_pop [OF "1.prems"(1) ne] mem(1) d mem(2)])
    have "Trim_loop libs keep (EraseFromAll ?p ?o1) g2 h2 = (o1, g1, h1)"
      using "1.prems"(2) True d by (simp add: Trim_loop.simps [of libs keep o'] Let_def)
    from "1.IH" [OF True refl refl d [symmetric] refl ok this]
    have "pool_ok libs lv T base (o1, g1, h1)" "acquired o1 = acquired (EraseFromAll ?p ?o1)"
      "length (op_free o1) = min keep (length (op_free (EraseFromAll ?p ?o1)))" by auto
    then show ?thesis using mem True by (auto simp: acquired_def EraseFromAll_def)
  qed
qed

lemma op_destructor_law:
  assumes ok: "pool_ok libs lv T base (o', g, h)" and d: "destroy_all libs (op_all o') g h = (g1, h1)"
  shows "g_inv libs lv g1 h1 \<and> g_owned g1 = base"
proof -
  have i: "op_inv T base o'" "g_inv libs lv g h" "g_owned g = pool_blocks T base o'" using ok by (auto simp: pool_ok_def)
  have s: "set (op_all o') = op_all_set o'" "distinct (op_all o')" using i(1) by (simp_all add: op_inv_def)
  then have "\<forall>q\<in>set (op_all o'). g_owned g q \<noteq> None" using i(3) by (simp add: pool_blocks_def)
  from destroy_all_law [OF i(2) s(2) this d] show ?thesis
    using i(1) unfolding i(3) s(1) by (auto simp: pool_blocks_def op_inv_def fun_eq_iff)
qed

lemma op_Clear_law:
  assumes ok: "pool_ok libs lv T base (o', g, h)" and c: "op_Clear libs o' g h = (st, o1, g1, h1)"
  shows "pool_ok libs lv T base (o1, g1, h1) \<and>
     (if acquired o' = {} then status_ok st \<and> op_all o1 = [] \<and> g_owned g1 = base \<and> acquired o1 = {}
      else st_code st = kWouldBlock \<and> (o1, g1, h1) = (o', g, h))"
proof -
  have i: "op_inv T base o'" using ok by (auto simp: pool_ok_def)
  have "length (op_free o') = card (op_free_set o')" "length (op_all o') = card (op_all_set o')"
    "finite (op_all_set o')" "op_free_set o' \<subseteq> op_all_set o'"
    using i unfolding op_inv_def by (metis distinct_card, metis distinct_card, metis List.finite_set, blast)
  then have eq: "length (op_free o') = length (op_all o') \<longleftrightarrow> acquired o' = {}"
    unfolding acquired_def by (metis Diff_cancel Diff_eq_empty_iff card_subset_eq subset_antisym)
  obtain g2 h2 where d: "destroy_all libs (op_all o') g h = (g2, h2)" by (metis surj_pair)
  note l = op_destructor_law [OF ok d]
  have "pool_ok libs lv T base (o'\<lparr>op_all := [], op_free := [], op_all_set := {}, op_free_set := {}\<rparr>, g2, h2)"
    using l by (simp add: pool_ok_def op_inv_def pool_blocks_def fun_eq_iff)
  then show ?thesis using c d eq l ok by (auto simp: op_Clear_def acquired_def mem_status_def split: if_splits)
qed

section \<open>Runs\<close>

datatype pool_op = PReserve size_t "nat \<Rightarrow> faults" | PAcquire faults | PRelease ptr "nat option" | PTrim size_t | PClear

text \<open>A run keeps the set of the objects that its clients hold, as they see it from the results.\<close>

fun op_step :: "'h Libs \<Rightarrow> ObjType \<Rightarrow> pool_op \<Rightarrow> (ObjectPool \<times> Global \<times> 'h) \<times> ptr set \<Rightarrow> (ObjectPool \<times> Global \<times> 'h) \<times> ptr set" where
  "op_step libs T (PReserve n env) ((o', g, h), held) = (snd (Reserve libs T env n o' g h), held)"
| "op_step libs T (PAcquire f) ((o', g, h), held) =
     (let (r, w) = Acquire libs T f o' g h in (w, if result_ok r then insert (res_value r) held else held))"
| "op_step libs T (PRelease q f) ((o', g, h), held) =
     (let (st, w) = ReleaseObject libs f q o' g h in (w, if status_ok st then held - {q} else held))"
| "op_step libs T (PTrim n) ((o', g, h), held) = (snd (Trim libs n o' g h), held)"
| "op_step libs T PClear ((o', g, h), held) = (snd (op_Clear libs o' g h), held)"

fun op_run :: "'h Libs \<Rightarrow> ObjType \<Rightarrow> pool_op list \<Rightarrow> (ObjectPool \<times> Global \<times> 'h) \<times> ptr set \<Rightarrow> (ObjectPool \<times> Global \<times> 'h) \<times> ptr set" where
  "op_run libs T [] s = s"
| "op_run libs T (op # ops) s = op_run libs T ops (op_step libs T op s)"

text \<open>Every exception but one is harmless: the second insertion of \<open>ReleaseObject\<close>.\<close>

fun harmless :: "pool_op \<Rightarrow> bool" where
  "harmless (PRelease q f) \<longleftrightarrow> f \<noteq> Some 1"
| "harmless op \<longleftrightarrow> True"

lemma op_step_law:
  assumes ok: "pool_ok libs lv T base (o', g, h)" and c: "harmless op" and s: "op_step libs T op ((o', g, h), acquired o') = (w, held)"
  shows "pool_ok libs lv T base w \<and> held = acquired (fst w)"
proof (cases op)
  case (PReserve n env)
  obtain st o1 g1 h1 where e: "Reserve_loop libs T env (unat n) o' g h = (st, o1, g1, h1)" by (metis prod_cases4)
  have "w = (o1, g1, h1)" "held = acquired o'" using s unfolding PReserve by (simp_all add: Reserve_def e)
  then show ?thesis using Reserve_loop_law [OF ok e] by simp
next
  case (PAcquire f)
  obtain r o1 g1 h1 where e: "Acquire libs T f o' g h = (r, o1, g1, h1)" by (metis prod_cases4)
  have "w = (o1, g1, h1)" "held = (if result_ok r then insert (res_value r) (acquired o') else acquired o')"
    using s unfolding PAcquire by (simp_all add: e)
  then show ?thesis using Acquire_law [OF ok e] by (cases "result_ok r") simp_all
next
  case (PRelease q f)
  obtain st o1 g1 h1 where e: "ReleaseObject libs f q o' g h = (st, o1, g1, h1)" by (metis prod_cases4)
  have "f \<noteq> Some 1" using c PRelease by simp
  note rl = ReleaseObject_law [OF ok this e]
  have l: "acquired o1 = (if status_ok st then acquired o' - {q} else acquired o')"
  proof (cases "q \<in> acquired o'")
    case True
    then show ?thesis using rl by (cases "status_ok st") simp_all
  next
    case False
    then show ?thesis using rl by simp
  qed
  have "w = (o1, g1, h1)" "held = (if status_ok st then acquired o' - {q} else acquired o')"
    using s unfolding PRelease by (simp_all add: e)
  then show ?thesis using rl l by simp
next
  case (PTrim n)
  obtain o1 g1 h1 where e: "Trim_loop libs (unat n) o' g h = (o1, g1, h1)" by (metis prod_cases3)
  have "w = (o1, g1, h1)" "held = acquired o'" using s unfolding PTrim by (simp_all add: Trim_def e)
  then show ?thesis using Trim_loop_law [OF ok e] by simp
next
  case PClear
  obtain st o1 g1 h1 where e: "op_Clear libs o' g h = (st, o1, g1, h1)" by (metis prod_cases4)
  have "w = (o1, g1, h1)" "held = acquired o'" using s unfolding PClear by (simp_all add: e)
  then show ?thesis using op_Clear_law [OF ok e] ok by (cases "acquired o' = {}") simp_all
qed

lemma op_run_law:
  "pool_ok libs lv T base w \<Longrightarrow> \<forall>op\<in>set ops. harmless op \<Longrightarrow> op_run libs T ops (w, acquired (fst w)) = (w', held) \<Longrightarrow>
     pool_ok libs lv T base w' \<and> held = acquired (fst w')"
proof (induction ops arbitrary: w)
  case (Cons op ops)
  obtain o' g h where w: "w = (o', g, h)" by (metis prod_cases3)
  obtain w1 held1 where s: "op_step libs T op (w, acquired (fst w)) = (w1, held1)" by (metis surj_pair)
  have "pool_ok libs lv T base w1 \<and> held1 = acquired (fst w1)"
    using op_step_law [of libs lv T base o' g h op w1 held1] Cons.prems(1,2) s w by simp
  then show ?case using Cons.IH [of w1] Cons.prems(2,3) s by simp
qed simp

lemma pool_ok_new: "g_inv libs lv g h \<Longrightarrow> pool_ok libs lv T (g_owned g) (BasicObjectPool m, g, h) \<and> acquired (BasicObjectPool m) = {}"
  by (auto simp: pool_ok_def op_inv_def pool_blocks_def BasicObjectPool_def acquired_def)

text \<open>C10: In every run of an object pool on the global allocator (with all exceptions but one, the
  last insertion of a release) \<open>Acquire\<close> returns an object that no client holds and that is
  a live block of the size of \<open>T\<close>; a release is accepted exactly for a held object, and anything else is
  refused and changes nothing; \<open>Clear\<close> succeeds exactly when no object is held; and the destructor gives
  back exactly the blocks of the pool.\<close>

theorem object_pool_exclusive:
  assumes "g_inv libs lv g0 h0" and "\<forall>op\<in>set ops. harmless op"
    and "op_run libs T ops ((BasicObjectPool max_cached, g0, h0), {}) = ((o', g, h), held)"
  shows "(case Acquire libs T f o' g h of (r, o1, g1, h1) \<Rightarrow>
            result_ok r \<longrightarrow> res_value r \<notin> held \<and> g_owned g1 (res_value r) = Some (sizeof_T T)) \<and>
     (case ReleaseObject libs None q o' g h of (st, w) \<Rightarrow>
            if q \<in> held then status_ok st else st_code st = kInvalidArgument \<and> w = (o', g, h)) \<and>
     (status_ok (fst (op_Clear libs o' g h)) \<longleftrightarrow> held = {}) \<and>
     g_owned (fst (op_destructor libs o' g h)) = g_owned g0"
proof -
  have ok: "pool_ok libs lv T (g_owned g0) (o', g, h)" and held: "held = acquired o'"
    using op_run_law [of libs lv T "g_owned g0" "(BasicObjectPool max_cached, g0, h0)" ops "(o', g, h)" held]
      pool_ok_new [OF assms(1), of T max_cached] assms(2,3) by simp_all
  obtain r o1 g1 h1 where a: "Acquire libs T f o' g h = (r, o1, g1, h1)" by (metis prod_cases4)
  note al = Acquire_law [OF ok a]
  have "res_value r \<in> op_all_set o1" if "result_ok r" using al that by (auto simp: acquired_def)
  then have 1: "result_ok r \<longrightarrow> res_value r \<notin> held \<and> g_owned g1 (res_value r) = Some (sizeof_T T)"
    using al pool_ok_nonzero [of libs lv T "g_owned g0" o1 g1 h1] held by metis
  obtain st o2 g2 h2 where b: "ReleaseObject libs None q o' g h = (st, o2, g2, h2)" by (metis prod_cases4)
  have 2: "if q \<in> held then status_ok st else st_code st = kInvalidArgument \<and> (o2, g2, h2) = (o', g, h)"
    using ReleaseObject_law [OF ok _ b] held by (auto split: if_splits)
  obtain sc o3 g3 h3 where c: "op_Clear libs o' g h = (sc, o3, g3, h3)" by (metis prod_cases4)
  have 3: "status_ok sc \<longleftrightarrow> held = {}" using op_Clear_law [OF ok c] held by (auto simp: status_ok_def split: if_splits)
  obtain g4 h4 where d: "destroy_all libs (op_all o') g h = (g4, h4)" by (metis surj_pair)
  have "g_owned g4 = g_owned g0" using op_destructor_law [OF ok d] by blast
  then show ?thesis using 1 2 3 a b c d by (simp add: op_destructor_def)
qed

lemma global_initial_page: "g_inv page_libs (\<lambda>_. page_live) initial_global (0, 0)"
  by (rule g_inv_initial [OF page_libs_ok])

lemmas pool_eval = BasicObjectPool_def Acquire_def ReleaseObject_def CreateOne_def inserted_def EraseFromAll_def DestroyOne_def
  page_live_def g_in_use_def

definition demo_type :: ObjType where
  "demo_type = \<lparr>sizeof_T = 24, alignof_T = 8\<rparr>"

theorem object_pool_exclusive_witness:
  "\<exists>o' g h. op_run page_libs demo_type [PAcquire no_faults, PAcquire no_faults, PRelease 4096 None]
      ((BasicObjectPool 8, initial_global, (0, 0)), {}) = ((o', g, h), {8192}) \<and>
     (case Acquire page_libs demo_type no_faults o' g h of (r, o1, g1, h1) \<Rightarrow> result_ok r \<and> res_value r \<notin> {8192}) \<and>
     \<not> status_ok (fst (op_Clear page_libs o' g h)) \<and>
     g_owned (fst (op_destructor page_libs o' g h)) = Map.empty"
proof -
  let ?ops = "[PAcquire no_faults, PAcquire no_faults, PRelease 4096 None]"
  obtain o' g h where r: "op_run page_libs demo_type ?ops ((BasicObjectPool 8, initial_global, (0, 0)), {}) = ((o', g, h), {8192})"
      "op_free o' = [4096]"
    by (simp add: pool_eval demo_type_def global_run_eval insert_Diff_if)
  have cl: "\<forall>op\<in>set ?ops. harmless op" by simp
  note t = object_pool_exclusive [OF global_initial_page cl r(1), of no_faults 0]
  have "g_owned initial_global = Map.empty" by (simp add: global_run_eval)
  moreover have "result_ok (fst (Acquire page_libs demo_type no_faults o' g h))" by (simp add: Acquire_def r(2) Let_def)
  ultimately show ?thesis using t r(1) by (auto split: prod.splits)
qed

text \<open>C39: The one exception that breaks the pool. When the insertion into \<open>free_set_\<close> throws in \<open>ReleaseObject\<close>,
  the object stays in \<open>free_\<close> but is not in \<open>free_set_\<close>: the caller is told that the release failed, a
  second release is accepted, and the next two \<open>Acquire\<close> return the same object.\<close>

theorem ReleaseObject_fault_aliases:
  assumes "obj \<noteq> 0" and "obj \<in> acquired o'" and "length (op_free o') + 1 < unat (op_max_cached o')"
    and "ReleaseObject libs (Some 1) obj o' g h = (st1, o1, g1, h1)" and "ReleaseObject libs None obj o1 g1 h1 = (st2, o2, g2, h2)"
    and "Acquire libs T f o2 g2 h2 = (r3, o3, g3, h3)" and "Acquire libs T f' o3 g3 h3 = (r4, o4, g4, h4)"
  shows "st_code st1 = kInternalError \<and> status_ok st2 \<and> r3 = Result_value obj \<and> r4 = Result_value obj"
proof -
  have m: "obj \<in> op_all_set o'" "obj \<notin> op_free_set o'" using assms(2) by (auto simp: acquired_def)
  have 1: "st_code st1 = kInternalError" "o1 = o'\<lparr>op_free := op_free o' @ [obj]\<rparr>" "g1 = g" "h1 = h"
    using assms(1,3,4) m by (auto simp: ReleaseObject_def inserted_def mem_status_def)
  have 2: "status_ok st2" "op_free o2 = op_free o' @ [obj, obj]"
    using assms(1,3,5) m 1 by (auto simp: ReleaseObject_def inserted_def)
  have 3: "r3 = Result_value obj" "op_free o3 = op_free o' @ [obj]" using assms(6) 2(2) by (auto simp: Acquire_def butlast_append)
  then show ?thesis using assms(7) 1(1) 2(1) by (auto simp: Acquire_def)
qed

theorem ReleaseObject_fault_aliases_witness:
  "\<exists>o' g h st1 o1 g1 h1 st2 o2 g2 h2 r3 o3 g3 h3 r4 w4.
     Acquire page_libs demo_type no_faults (BasicObjectPool 8) initial_global (0, 0) = (Result_value 4096, o', g, h) \<and>
     ReleaseObject page_libs (Some 1) 4096 o' g h = (st1, o1, g1, h1) \<and> ReleaseObject page_libs None 4096 o1 g1 h1 = (st2, o2, g2, h2) \<and>
     Acquire page_libs demo_type no_faults o2 g2 h2 = (r3, o3, g3, h3) \<and> Acquire page_libs demo_type no_faults o3 g3 h3 = (r4, w4) \<and>
     st_code st1 = kInternalError \<and> status_ok st2 \<and> r3 = Result_value 4096 \<and> r4 = Result_value 4096"
proof -
  obtain o' g h where a: "Acquire page_libs demo_type no_faults (BasicObjectPool 8) initial_global (0, 0) = (Result_value 4096, o', g, h)"
      "4096 \<in> acquired o'" "op_free o' = []" "op_max_cached o' = 8"
    by (simp add: pool_eval demo_type_def global_run_eval acquired_def)
  obtain st1 o1 g1 h1 where 1: "ReleaseObject page_libs (Some 1) 4096 o' g h = (st1, o1, g1, h1)" by (metis prod_cases4)
  obtain st2 o2 g2 h2 where 2: "ReleaseObject page_libs None 4096 o1 g1 h1 = (st2, o2, g2, h2)" by (metis prod_cases4)
  obtain r3 o3 g3 h3 where 3: "Acquire page_libs demo_type no_faults o2 g2 h2 = (r3, o3, g3, h3)" by (metis prod_cases4)
  obtain r4 o4 g4 h4 where 4: "Acquire page_libs demo_type no_faults o3 g3 h3 = (r4, o4, g4, h4)" by (metis prod_cases4)
  have "st_code st1 = kInternalError \<and> status_ok st2 \<and> r3 = Result_value 4096 \<and> r4 = Result_value 4096"
    by (rule ReleaseObject_fault_aliases [OF _ a(2) _ 1 2 3 4]) (simp_all add: a(3,4))
  then show ?thesis using a(1) 1 2 3 4 by blast
qed

end
