(* ===== verification/CK_SlabPool.thy ===== *)
theory CK_SlabPool
  imports CK_Global_Allocator
begin

text \<open>
  The hierarchical memory pool (\<open>src/memory/slab_pool_impl.hpp\<close>, interface
  \<open>include/corekit/memory/i_memory_pool.hpp\<close>). A pool cuts blocks of the global allocator into slots of
  ten sizes; every slot starts with a header. The memory is a record: \<open>hdrs\<close> is the header object at an
  address and \<open>bytes\<close> the other bytes. A \<open>Block\<close> object lives in a cell of a deque; its address is a
  number that is never used again, so that a header may hold the address of a cell that is gone.
  Reading or writing such a cell has no result (\<open>None\<close>): it stands for undefined behaviour. The pools of a
  process are a list, and a pool names its parent and children by their positions in it. The operations
  run one after another; the counters are 64-bit atomics.
\<close>

section \<open>Data\<close>

record PoolStats =
  ps_alloc_count :: u64
  ps_free_count :: u64
  ps_bytes_in_use :: u64
  ps_bytes_peak :: u64
  ps_bytes_limit :: u64
  ps_block_count :: u64
  ps_slab_hits :: u64
  ps_slab_misses :: u64

record PoolConfig =
  pc_name :: string
  pc_block_size :: size_t
  pc_max_bytes :: size_t
  pc_max_cached_blocks :: size_t
  pc_enable_guard_bytes :: bool
  pc_thread_safe :: bool

definition default_PoolConfig :: PoolConfig where
  "default_PoolConfig = \<lparr>pc_name = ''default'', pc_block_size = 65536, pc_max_bytes = 0, pc_max_cached_blocks = 64,
     pc_enable_guard_bytes = False, pc_thread_safe = True\<rparr>"

definition kNumSizeClasses :: nat where
  "kNumSizeClasses = 10"

definition kSizeClasses :: "size_t list" where
  "kSizeClasses = [8, 16, 32, 64, 128, 256, 512, 1024, 2048, 4096]"

definition kGuardPattern :: u8 where
  "kGuardPattern = 0xFD"

definition kGuardSize :: size_t where
  "kGuardSize = 8"

definition kSlabMagic :: u32 where
  "kSlabMagic = 0xC0EE0AAB"

text \<open>The loop of \<open>SizeClassIndex\<close> from class \<open>i\<close> on.\<close>

fun class_search :: "nat \<Rightarrow> size_t list \<Rightarrow> size_t \<Rightarrow> nat" where
  "class_search i [] sz = kNumSizeClasses"
| "class_search i (c # cs) sz = (if sz \<le> c then i else class_search (Suc i) cs sz)"

definition SizeClassIndex :: "size_t \<Rightarrow> nat" where
  "SizeClassIndex sz = class_search 0 kSizeClasses sz"

record SlabHeader =
  magic :: u32
  class_index :: u16
  hflags :: u16
  user_size :: size_t
  block_owner :: "nat option"

definition sizeof_SlabHeader :: size_t where
  "sizeof_SlabHeader = 24"

definition HeaderFromUser :: "ptr \<Rightarrow> ptr" where
  "HeaderFromUser p = p - sizeof_SlabHeader"

definition UserFromHeader :: "ptr \<Rightarrow> ptr" where
  "UserFromHeader hdr = hdr + sizeof_SlabHeader"

record Block =
  bk_base :: ptr
  bk_total_bytes :: size_t
  bk_slab_size :: size_t
  bk_slab_count :: size_t
  bk_used_count :: size_t

record AtomicStats =
  st_alloc_count :: u64
  st_free_count :: u64
  st_bytes_in_use :: u64
  st_bytes_peak :: u64
  st_slab_hits :: u64
  st_slab_misses :: u64

record SlabPool =
  sp_config :: PoolConfig
  sp_inited :: bool
  sp_parent :: "nat option"
  sp_stats :: AtomicStats
  sp_blocks :: "(nat \<times> Block) list list"
  sp_free_lists :: "ptr list list"
  sp_large :: "ptr list"
  sp_children :: "nat list"
  sp_next_cell :: nat

record 'h Mem =
  hdrs :: "ptr \<Rightarrow> SlabHeader"
  bytes :: "ptr \<Rightarrow> u8"
  mglob :: Global
  mheap :: 'h

definition zero_header :: SlabHeader where
  "zero_header = \<lparr>magic = 0, class_index = 0, hflags = 0, user_size = 0, block_owner = None\<rparr>"

definition SlabPoolImpl :: "nat option \<Rightarrow> SlabPool" where
  "SlabPoolImpl parent =
     \<lparr>sp_config = default_PoolConfig, sp_inited = False, sp_parent = parent,
      sp_stats = \<lparr>st_alloc_count = 0, st_free_count = 0, st_bytes_in_use = 0, st_bytes_peak = 0, st_slab_hits = 0, st_slab_misses = 0\<rparr>,
      sp_blocks = replicate kNumSizeClasses [], sp_free_lists = replicate kNumSizeClasses [], sp_large = [], sp_children = [],
      sp_next_cell = 0\<rparr>"

section \<open>Blocks and slots\<close>

definition in_range :: "ptr \<Rightarrow> size_t \<Rightarrow> ptr \<Rightarrow> bool" where
  "in_range p n q \<longleftrightarrow> q - p < n"

definition memset_bytes :: "ptr \<Rightarrow> u8 \<Rightarrow> size_t \<Rightarrow> 'h Mem \<Rightarrow> 'h Mem" where
  "memset_bytes p v n m = m\<lparr>bytes := (\<lambda>q. if in_range p n q then v else bytes m q)\<rparr>"

text \<open>\<open>std::memset (raw, 0, n)\<close> on a new block, which holds headers and bytes.\<close>

definition memset_block :: "ptr \<Rightarrow> size_t \<Rightarrow> 'h Mem \<Rightarrow> 'h Mem" where
  "memset_block p n m = (memset_bytes p 0 n m)\<lparr>hdrs := (\<lambda>q. if in_range p n q then zero_header else hdrs m q)\<rparr>"

definition set_header :: "ptr \<Rightarrow> SlabHeader \<Rightarrow> 'h Mem \<Rightarrow> 'h Mem" where
  "set_header p hdr m = m\<lparr>hdrs := (hdrs m)(p := hdr)\<rparr>"

definition slot_at :: "Block \<Rightarrow> nat \<Rightarrow> ptr" where
  "slot_at b i = bk_base b + of_nat i * bk_slab_size b"

definition block_slots :: "Block \<Rightarrow> ptr list" where
  "block_slots b = map (slot_at b) [0..<unat (bk_slab_count b)]"

text \<open>A write through a \<open>Block*\<close>.\<close>

definition update_block :: "nat \<Rightarrow> (Block \<Rightarrow> Block) \<Rightarrow> SlabPool \<Rightarrow> SlabPool option" where
  "update_block a f s =
     (if a \<in> set (map fst (concat (sp_blocks s)))
      then Some (s\<lparr>sp_blocks := map (map (\<lambda>(x, b). if x = a then (x, f b) else (x, b))) (sp_blocks s)\<rparr>)
      else None)"

definition update_owner :: "nat option \<Rightarrow> (Block \<Rightarrow> Block) \<Rightarrow> SlabPool \<Rightarrow> SlabPool option" where
  "update_owner ow f s = (case ow of None \<Rightarrow> Some s | Some a \<Rightarrow> update_block a f s)"

definition WriteGuard :: "ptr \<Rightarrow> size_t \<Rightarrow> size_t \<Rightarrow> 'h Mem \<Rightarrow> 'h Mem" where
  "WriteGuard user_ptr usize slab_data_size m =
     (let guard_len = slab_data_size - usize; len = (if guard_len > kGuardSize then kGuardSize else guard_len)
      in memset_bytes (user_ptr + usize) kGuardPattern len m)"

definition ValidateGuard :: "ptr \<Rightarrow> size_t \<Rightarrow> 'h Mem \<Rightarrow> bool" where
  "ValidateGuard user_ptr usize m =
     (\<forall>i \<in> set [0..<unat kGuardSize]. bytes m (user_ptr + usize + of_nat i) = kGuardPattern)"

section \<open>Operations of one pool\<close>

definition pool_Init :: "PoolConfig \<Rightarrow> SlabPool \<Rightarrow> Status \<times> SlabPool" where
  "pool_Init config s =
     (if sp_inited s then (mkStatus kAlreadyInitialized ''pool already initialized'', s)
      else (Status_Ok, s\<lparr>sp_config := config, sp_inited := True\<rparr>))"

definition slab_bytes :: "SlabPool \<Rightarrow> nat \<Rightarrow> size_t" where
  "slab_bytes s c = sizeof_SlabHeader + kSizeClasses ! c + (if pc_enable_guard_bytes (sp_config s) then kGuardSize else 0)"

definition guard_flag :: "SlabPool \<Rightarrow> u16" where
  "guard_flag s = (if pc_enable_guard_bytes (sp_config s) then 1 else 0)"

definition write_guard_if :: "SlabPool \<Rightarrow> ptr \<Rightarrow> size_t \<Rightarrow> size_t \<Rightarrow> 'h Mem \<Rightarrow> 'h Mem" where
  "write_guard_if s p usize data m = (if pc_enable_guard_bytes (sp_config s) then WriteGuard p usize data m else m)"

text \<open>The branch of \<open>AllocFromSlab\<close> that takes a slot from the free list.\<close>

definition alloc_free_slot :: "nat \<Rightarrow> size_t \<Rightarrow> SlabPool \<Rightarrow> 'h Mem \<Rightarrow> (ptr \<times> SlabPool \<times> 'h Mem) option" where
  "alloc_free_slot c usize s m =
     (let slot = last (sp_free_lists s ! c);
          s1 = s\<lparr>sp_free_lists := (sp_free_lists s)[c := butlast (sp_free_lists s ! c)]\<rparr>;
          hdr = (hdrs m slot)\<lparr>magic := kSlabMagic, class_index := of_nat c, hflags := guard_flag s, user_size := usize\<rparr>;
          m1 = write_guard_if s (UserFromHeader slot) usize (kSizeClasses ! c) (set_header slot hdr m)
      in case update_owner (block_owner hdr) (\<lambda>b. b\<lparr>bk_used_count := bk_used_count b + 1\<rparr>) s1 of
           None \<Rightarrow> None
         | Some s2 \<Rightarrow> Some (UserFromHeader slot,
                       s2\<lparr>sp_stats := (sp_stats s2)\<lparr>st_slab_hits := st_slab_hits (sp_stats s2) + 1\<rparr>\<rparr>, m1))"

text \<open>Slots 1 to N-1 of a new block: each gets its owner and goes to the free list.\<close>

definition populate :: "Block \<Rightarrow> nat \<Rightarrow> 'h Mem \<Rightarrow> ptr list \<times> 'h Mem" where
  "populate blk cell m =
     (let slots = map (slot_at blk) [1..<unat (bk_slab_count blk)]
      in (slots, fold (\<lambda>p m. set_header p ((hdrs m p)\<lparr>block_owner := Some cell\<rparr>) m) slots m))"

definition alloc_new_block :: "'h Libs \<Rightarrow> nat \<Rightarrow> size_t \<Rightarrow> SlabPool \<Rightarrow> 'h Mem \<Rightarrow> ptr \<times> SlabPool \<times> 'h Mem" where
  "alloc_new_block libs c usize s m =
     (let ss = slab_bytes s c; bs = pc_block_size (sp_config s); n = bs div ss
      in if n = 0 then (0, s, m)
         else
           let (raw, g', h') = GlobalAllocOrNull libs bs sizeof_ptr (mglob m) (mheap m);
               m0 = m\<lparr>mglob := g', mheap := h'\<rparr>
           in if raw = 0 then (0, s, m0)
              else
                let m1 = memset_block raw bs m0;
                    blk = \<lparr>bk_base = raw, bk_total_bytes = bs, bk_slab_size = ss, bk_slab_count = n, bk_used_count = 1\<rparr>;
                    cell = sp_next_cell s;
                    (slots, m2) = populate blk cell m1;
                    hdr = (hdrs m2 raw)\<lparr>magic := kSlabMagic, class_index := of_nat c, hflags := guard_flag s, user_size := usize,
                            block_owner := Some cell\<rparr>;
                    m3 = write_guard_if s (UserFromHeader raw) usize (kSizeClasses ! c) (set_header raw hdr m2)
                in (UserFromHeader raw,
                    s\<lparr>sp_blocks := (sp_blocks s)[c := sp_blocks s ! c @ [(cell, blk)]], sp_next_cell := Suc cell,
                      sp_free_lists := (sp_free_lists s)[c := sp_free_lists s ! c @ slots],
                      sp_stats := (sp_stats s)\<lparr>st_slab_misses := st_slab_misses (sp_stats s) + 1\<rparr>\<rparr>, m3))"

definition AllocFromSlab :: "'h Libs \<Rightarrow> nat \<Rightarrow> size_t \<Rightarrow> SlabPool \<Rightarrow> 'h Mem \<Rightarrow> (ptr \<times> SlabPool \<times> 'h Mem) option" where
  "AllocFromSlab libs c usize s m =
     (if sp_free_lists s ! c \<noteq> [] then alloc_free_slot c usize s m else Some (alloc_new_block libs c usize s m))"

definition AllocLarge :: "'h Libs \<Rightarrow> size_t \<Rightarrow> size_t \<Rightarrow> SlabPool \<Rightarrow> 'h Mem \<Rightarrow> ptr \<times> SlabPool \<times> 'h Mem" where
  "AllocLarge libs sz alignment s m =
     (let total = sizeof_SlabHeader + sz + (if pc_enable_guard_bytes (sp_config s) then kGuardSize else 0);
          align = (if alignment < sizeof_ptr then sizeof_ptr else alignment);
          (raw, g', h') = GlobalAllocOrNull libs total align (mglob m) (mheap m);
          m0 = m\<lparr>mglob := g', mheap := h'\<rparr>
      in if raw = 0 then (0, s, m0)
         else
           let hdr = \<lparr>magic = kSlabMagic, class_index = 0xFFFF, hflags = guard_flag s, user_size = sz, block_owner = None\<rparr>;
               m1 = write_guard_if s (UserFromHeader raw) sz sz (set_header raw hdr m0)
           in (UserFromHeader raw, s\<lparr>sp_large := sp_large s @ [raw]\<rparr>, m1))"

definition count_alloc :: "size_t \<Rightarrow> SlabPool \<Rightarrow> SlabPool" where
  "count_alloc sz s =
     (let st = sp_stats s; in_use = st_bytes_in_use st + sz
      in s\<lparr>sp_stats := st\<lparr>st_alloc_count := st_alloc_count st + 1, st_bytes_in_use := in_use,
              st_bytes_peak := (if in_use > st_bytes_peak st then in_use else st_bytes_peak st)\<rparr>\<rparr>)"

text \<open>\<open>AllocAligned\<close> without the update of the parent's counter.\<close>

definition pool_AllocAligned :: "'h Libs \<Rightarrow> size_t \<Rightarrow> size_t \<Rightarrow> SlabPool \<Rightarrow> 'h Mem \<Rightarrow> (ptr \<times> SlabPool \<times> 'h Mem) option" where
  "pool_AllocAligned libs sz alignment s m =
     (if sz = 0 \<or> \<not> sp_inited s then Some (0, s, m)
      else if pc_max_bytes (sp_config s) > 0 \<and> st_bytes_in_use (sp_stats s) + sz > pc_max_bytes (sp_config s) then Some (0, s, m)
      else
        let c = SizeClassIndex sz
        in case (if c < kNumSizeClasses then AllocFromSlab libs c sz s m else Some (AllocLarge libs sz alignment s m)) of
             None \<Rightarrow> None
           | Some (p, s1, m1) \<Rightarrow> Some (p, if p \<noteq> 0 then count_alloc sz s1 else s1, m1))"

definition FreeToSlab :: "ptr \<Rightarrow> SlabPool \<Rightarrow> 'h Mem \<Rightarrow> (SlabPool \<times> 'h Mem) option" where
  "FreeToSlab hp s m =
     (let hdr = hdrs m hp; c = unat (class_index hdr)
      in if c \<ge> kNumSizeClasses then Some (s, m)
         else case update_owner (block_owner hdr)
                (\<lambda>b. b\<lparr>bk_used_count := (if bk_used_count b > 0 then bk_used_count b - 1 else bk_used_count b)\<rparr>) s of
             None \<Rightarrow> None
           | Some s1 \<Rightarrow> Some (s1\<lparr>sp_free_lists := (sp_free_lists s1)[c := sp_free_lists s1 ! c @ [hp]]\<rparr>,
                             set_header hp (hdr\<lparr>magic := 0\<rparr>) m))"

text \<open>The entry of the vector is overwritten by the last one, which is then removed.\<close>

fun swap_remove :: "ptr \<Rightarrow> ptr list \<Rightarrow> ptr list" where
  "swap_remove p [] = []"
| "swap_remove p (x # xs) =
     (if x = p then (if xs = [] then [] else last xs # butlast xs) else x # swap_remove p xs)"

definition FreeLarge :: "'h Libs \<Rightarrow> ptr \<Rightarrow> SlabPool \<Rightarrow> 'h Mem \<Rightarrow> SlabPool \<times> 'h Mem" where
  "FreeLarge libs raw s m =
     (let m1 = set_header raw ((hdrs m raw)\<lparr>magic := 0\<rparr>) m;
          (g', h') = GlobalFreeIgnore libs raw (mglob m1) (mheap m1)
      in (s\<lparr>sp_large := swap_remove raw (sp_large s)\<rparr>, m1\<lparr>mglob := g', mheap := h'\<rparr>))"

definition sub_floor :: "u64 \<Rightarrow> u64 \<Rightarrow> u64" where
  "sub_floor cur freed = (if cur > freed then cur - freed else 0)"

definition count_free :: "size_t \<Rightarrow> SlabPool \<Rightarrow> SlabPool" where
  "count_free freed s =
     (let st = sp_stats s
      in s\<lparr>sp_stats := st\<lparr>st_free_count := st_free_count st + 1, st_bytes_in_use := sub_floor (st_bytes_in_use st) freed\<rparr>\<rparr>)"

text \<open>\<open>Free\<close> without the update of the parent's counter; the result holds the freed size when something was
  freed. The result of \<open>ValidateGuard\<close> is not used by the code.\<close>

definition pool_Free :: "'h Libs \<Rightarrow> ptr \<Rightarrow> SlabPool \<Rightarrow> 'h Mem \<Rightarrow> (size_t option \<times> SlabPool \<times> 'h Mem) option" where
  "pool_Free libs p s m =
     (if p = 0 \<or> \<not> sp_inited s then Some (None, s, m)
      else
        let hp = HeaderFromUser p; hdr = hdrs m hp
        in if magic hdr \<noteq> kSlabMagic then Some (None, s, m)
           else
             let valid = (hflags hdr AND 1 \<noteq> 0 \<longrightarrow> ValidateGuard p (user_size hdr) m);
                 freed = user_size hdr
             in if class_index hdr = 0xFFFF
                then (let (s1, m1) = FreeLarge libs hp s m in Some (Some freed, count_free freed s1, m1))
                else (case FreeToSlab hp s m of None \<Rightarrow> None | Some (s1, m1) \<Rightarrow> Some (Some freed, count_free freed s1, m1)))"

definition pool_Stats :: "SlabPool \<Rightarrow> PoolStats" where
  "pool_Stats s =
     (let st = sp_stats s
      in \<lparr>ps_alloc_count = st_alloc_count st, ps_free_count = st_free_count st, ps_bytes_in_use = st_bytes_in_use st,
          ps_bytes_peak = st_bytes_peak st, ps_bytes_limit = pc_max_bytes (sp_config s),
          ps_block_count = of_nat (sum_list (map length (sp_blocks s))), ps_slab_hits = st_slab_hits st, ps_slab_misses = st_slab_misses st\<rparr>)"

definition pool_Owns :: "ptr \<Rightarrow> 'h Mem \<Rightarrow> bool" where
  "pool_Owns p m \<longleftrightarrow> p \<noteq> 0 \<and> magic (hdrs m (HeaderFromUser p)) = kSlabMagic"

text \<open>\<open>RebuildFreeList\<close> for the block in the cell: its slots that are not in use, with the cell as owner.\<close>

definition RebuildFreeList :: "nat \<times> Block \<Rightarrow> ptr list \<times> 'h Mem \<Rightarrow> ptr list \<times> 'h Mem" where
  "RebuildFreeList cb fm =
     fold (\<lambda>p (fl, m). if magic (hdrs m p) \<noteq> kSlabMagic
                       then (fl @ [p], set_header p ((hdrs m p)\<lparr>block_owner := Some (fst cb)\<rparr>) m) else (fl, m))
       (block_slots (snd cb)) fm"

text \<open>The first loop of \<open>Shrink\<close> over a deque.\<close>

fun shrink_blocks :: "'h Libs \<Rightarrow> (nat \<times> Block) list \<Rightarrow> 'h Mem \<Rightarrow> Block list \<times> 'h Mem" where
  "shrink_blocks libs [] m = ([], m)"
| "shrink_blocks libs (cb # cbs) m =
     (if bk_used_count (snd cb) = 0
      then let (g', h') = GlobalFreeIgnore libs (bk_base (snd cb)) (mglob m) (mheap m)
           in shrink_blocks libs cbs (m\<lparr>mglob := g', mheap := h'\<rparr>)
      else let (kept, m') = shrink_blocks libs cbs m in (snd cb # kept, m'))"

text \<open>The blocks that stay are copied to cells of a new deque.\<close>

definition shrink_class :: "'h Libs \<Rightarrow> nat \<Rightarrow> SlabPool \<times> 'h Mem \<Rightarrow> SlabPool \<times> 'h Mem" where
  "shrink_class libs c sm =
     (let (s, m) = sm;
          (kept, m1) = shrink_blocks libs (sp_blocks s ! c) m;
          blocks = zip [sp_next_cell s..<sp_next_cell s + length kept] kept;
          (fl, m2) = fold RebuildFreeList blocks ([], m1)
      in (s\<lparr>sp_blocks := (sp_blocks s)[c := blocks], sp_free_lists := (sp_free_lists s)[c := fl],
            sp_next_cell := sp_next_cell s + length kept\<rparr>, m2))"

definition pool_Shrink :: "'h Libs \<Rightarrow> SlabPool \<Rightarrow> 'h Mem \<Rightarrow> SlabPool \<times> 'h Mem" where
  "pool_Shrink libs s m = fold (shrink_class libs) [0..<kNumSizeClasses] (s, m)"

fun free_each :: "'h Libs \<Rightarrow> ptr list \<Rightarrow> 'h Mem \<Rightarrow> 'h Mem" where
  "free_each libs [] m = m"
| "free_each libs (p # ps) m =
     (let (g', h') = GlobalFreeIgnore libs p (mglob m) (mheap m) in free_each libs ps (m\<lparr>mglob := g', mheap := h'\<rparr>))"

text \<open>The destructor, without its children.\<close>

definition pool_destroy :: "'h Libs \<Rightarrow> SlabPool \<Rightarrow> 'h Mem \<Rightarrow> 'h Mem" where
  "pool_destroy libs s m = free_each libs (map (bk_base \<circ> snd) (concat (sp_blocks s))) (free_each libs (sp_large s) m)"

section \<open>Pools with their parents\<close>

record 'h World =
  pools :: "SlabPool list"
  wmem :: "'h Mem"

definition parent_add :: "nat option \<Rightarrow> (u64 \<Rightarrow> u64) \<Rightarrow> SlabPool list \<Rightarrow> SlabPool list" where
  "parent_add par f ps =
     (case par of None \<Rightarrow> ps
      | Some j \<Rightarrow> ps[j := (ps ! j)\<lparr>sp_stats := (sp_stats (ps ! j))\<lparr>st_bytes_in_use := f (st_bytes_in_use (sp_stats (ps ! j)))\<rparr>\<rparr>])"

definition AllocAligned :: "'h Libs \<Rightarrow> nat \<Rightarrow> size_t \<Rightarrow> size_t \<Rightarrow> 'h World \<Rightarrow> (ptr \<times> 'h World) option" where
  "AllocAligned libs i sz alignment w =
     (case pool_AllocAligned libs sz alignment (pools w ! i) (wmem w) of
        None \<Rightarrow> None
      | Some (p, s, m) \<Rightarrow>
          let ps = (pools w)[i := s]
          in Some (p, w\<lparr>pools := (if p \<noteq> 0 then parent_add (sp_parent s) (\<lambda>v. v + sz) ps else ps), wmem := m\<rparr>))"

definition Alloc :: "'h Libs \<Rightarrow> nat \<Rightarrow> size_t \<Rightarrow> 'h World \<Rightarrow> (ptr \<times> 'h World) option" where
  "Alloc libs i sz w = AllocAligned libs i sz sizeof_ptr w"

definition Free :: "'h Libs \<Rightarrow> nat \<Rightarrow> ptr \<Rightarrow> 'h World \<Rightarrow> 'h World option" where
  "Free libs i p w =
     (case pool_Free libs p (pools w ! i) (wmem w) of
        None \<Rightarrow> None
      | Some (freed, s, m) \<Rightarrow>
          let ps = (pools w)[i := s]
          in Some (w\<lparr>pools := (case freed of None \<Rightarrow> ps | Some n \<Rightarrow> parent_add (sp_parent s) (\<lambda>v. sub_floor v n) ps), wmem := m\<rparr>))"

text \<open>\<open>CreateChild\<close>; the flag says whether \<open>new\<close> returned memory.\<close>

definition CreateChild :: "bool \<Rightarrow> nat \<Rightarrow> PoolConfig \<Rightarrow> 'h World \<Rightarrow> nat Result \<times> 'h World" where
  "CreateChild new_ok i config w =
     (if \<not> sp_inited (pools w ! i) then (Result_status 0 (mkStatus kNotInitialized ''parent pool not initialized''), w)
      else if \<not> new_ok then (Result_status 0 (mkStatus kInternalError ''failed to allocate child pool''), w)
      else
        let (st, child) = pool_Init config (SlabPoolImpl (Some i)); j = length (pools w)
        in if \<not> status_ok st then (Result_status 0 st, w)
           else (Result_value j, w\<lparr>pools := (pools w)[i := (pools w ! i)\<lparr>sp_children := sp_children (pools w ! i) @ [j]\<rparr>] @ [child]\<rparr>))"

text \<open>\<open>PoolNew\<close> and \<open>PoolDelete\<close>; the flag says whether the constructor throws.\<close>

definition PoolNew :: "'h Libs \<Rightarrow> nat \<Rightarrow> size_t \<Rightarrow> bool \<Rightarrow> 'h World \<Rightarrow> (ptr \<times> 'h World) option" where
  "PoolNew libs i sizeof_obj ctor_throws w =
     (case Alloc libs i sizeof_obj w of
        None \<Rightarrow> None
      | Some (raw, w1) \<Rightarrow>
          if raw = 0 then Some (0, w1)
          else if ctor_throws then (case Free libs i raw w1 of None \<Rightarrow> None | Some w2 \<Rightarrow> Some (0, w2))
          else Some (raw, w1))"

definition PoolDelete :: "'h Libs \<Rightarrow> nat \<Rightarrow> ptr \<Rightarrow> 'h World \<Rightarrow> 'h World option" where
  "PoolDelete libs i p w = (if p = 0 then Some w else Free libs i p w)"

text \<open>\<open>delete\<close> of a pool: its own memory first, then its children. The fuel bounds the depth of the hierarchy; a
  child has a larger position than its parent, so the number of pools is enough.\<close>

fun delete_pool :: "'h Libs \<Rightarrow> nat \<Rightarrow> nat \<Rightarrow> 'h World \<Rightarrow> 'h World option" where
  "delete_pool libs 0 i w = None"
| "delete_pool libs (Suc fuel) i w =
     fold (\<lambda>j acc. case acc of None \<Rightarrow> None | Some w \<Rightarrow> delete_pool libs fuel j w) (sp_children (pools w ! i))
       (Some (w\<lparr>wmem := pool_destroy libs (pools w ! i) (wmem w)\<rparr>))"

definition tree_ordered :: "SlabPool list \<Rightarrow> bool" where
  "tree_ordered ps \<longleftrightarrow> (\<forall>i<length ps. \<forall>j\<in>set (sp_children (ps ! i)). i < j \<and> j < length ps)"

lemma tree_orderedD: "tree_ordered ps \<Longrightarrow> i < length ps \<Longrightarrow> j \<in> set (sp_children (ps ! i)) \<Longrightarrow> i < j \<and> j < length ps"
  unfolding tree_ordered_def by blast

lemma delete_pool_pools: "delete_pool libs fuel i w = Some w' \<Longrightarrow> pools w' = pools w"
proof (induction fuel arbitrary: i w w')
  case (Suc fuel)
  have "fold (\<lambda>j acc. case acc of None \<Rightarrow> None | Some w \<Rightarrow> delete_pool libs fuel j w) js acc = Some w' \<Longrightarrow>
      \<exists>v. acc = Some v \<and> pools w' = pools v" for js acc w'
  proof (induction js arbitrary: acc)
    case (Cons j js)
    then obtain v where v: "(case acc of None \<Rightarrow> None | Some w \<Rightarrow> delete_pool libs fuel j w) = Some v" "pools w' = pools v" by fastforce
    then obtain x where "acc = Some x" "delete_pool libs fuel j x = Some v" by (cases acc) simp_all
    then show ?case using v(2) Suc.IH by metis
  qed simp
  from this [OF Suc.prems [unfolded delete_pool.simps]] show ?case by auto
qed simp

lemma delete_pool_total:
  "tree_ordered (pools w) \<Longrightarrow> i < length (pools w) \<Longrightarrow> length (pools w) - i \<le> fuel \<Longrightarrow> \<exists>w'. delete_pool libs fuel i w = Some w'"
proof (induction fuel arbitrary: i w)
  case (Suc fuel)
  have "set js \<subseteq> {i<..<length (pools w)} \<Longrightarrow> pools v = pools w \<Longrightarrow>
      \<exists>w'. fold (\<lambda>j acc. case acc of None \<Rightarrow> None | Some w \<Rightarrow> delete_pool libs fuel j w) js (Some v) = Some w'" for js v
  proof (induction js arbitrary: v)
    case (Cons j js)
    have "\<exists>v'. delete_pool libs fuel j v = Some v'"
    proof (rule Suc.IH)
      have j: "i < j" "j < length (pools w)" using Cons.prems(1) by auto
      show "tree_ordered (pools v)" "j < length (pools v)" using Suc.prems(1) j Cons.prems(2) by simp_all
      show "length (pools v) - j \<le> fuel" using Suc.prems(3) j Cons.prems(2) by simp
    qed
    then obtain v' where v': "delete_pool libs fuel j v = Some v'" by blast
    moreover have "pools v' = pools w" using delete_pool_pools [OF v'] Cons.prems(2) by simp
    ultimately show ?case using Cons by auto
  qed simp
  moreover have "set (sp_children (pools w ! i)) \<subseteq> {i<..<length (pools w)}" using tree_orderedD [OF Suc.prems(1,2)] by auto
  ultimately show ?case by simp
qed simp

lemma CreateChild_ordered:
  assumes "tree_ordered (pools w)" and "i < length (pools w)" and "CreateChild ok i config w = (r, w')"
  shows "tree_ordered (pools w')"
proof (cases "sp_inited (pools w ! i) \<and> ok")
  case True
  let ?p = "(pools w ! i)\<lparr>sp_children := sp_children (pools w ! i) @ [length (pools w)]\<rparr>"
  have w': "pools w' = (pools w)[i := ?p] @ [snd (pool_Init config (SlabPoolImpl (Some i)))]"
    using assms(3) True by (auto simp: CreateChild_def Let_def pool_Init_def SlabPoolImpl_def)
  have "sp_children (snd (pool_Init config (SlabPoolImpl (Some i)))) = []" by (simp add: pool_Init_def SlabPoolImpl_def)
  moreover have "i < k \<and> k < Suc (length (pools w))" if "k \<in> set (sp_children ?p)" for k
    using that tree_orderedD [OF assms(1,2), of k] assms(2) by auto
  moreover have "l < k \<and> k < Suc (length (pools w))" if "l < length (pools w)" "k \<in> set (sp_children (pools w ! l))" for k l
    using tree_orderedD [OF assms(1) that] by simp
  ultimately show ?thesis unfolding tree_ordered_def w' by (simp add: nth_append nth_list_update)
next
  case False
  then have "w' = w" using assms(3) by (auto simp: CreateChild_def split: if_splits)
  then show ?thesis using assms(1) by simp
qed

end
