(* ===== verification/CK_SlabPool_Inv.thy ===== *)
theory CK_SlabPool_Inv
  imports CK_SlabPool "HOL-Library.Multiset"
begin

text \<open>
  The invariant of a memory pool, in four parts: where its blocks are and who owns them (\<open>placed\<close>), what
  the headers of its slots say (\<open>headers_ok\<close>), which slots are on the free lists (\<open>free_ok\<close>), and the counter of bytes
  (\<open>counted\<close>). The operations of a pool keep it, with the exception of \<open>Shrink\<close> while slots are in use.
\<close>

section \<open>Lists of lists\<close>

lemma concat_nth_in: "i < length xss \<Longrightarrow> x \<in> set (xss ! i) \<Longrightarrow> x \<in> set (concat xss)"
  by (metis concat_eq_concat_iff nth_mem set_concat UN_I)

lemma concat_unique:
  "distinct (map f (concat xss)) \<Longrightarrow> i < length xss \<Longrightarrow> j < length xss \<Longrightarrow> x \<in> set (xss ! i) \<Longrightarrow> y \<in> set (xss ! j) \<Longrightarrow>
     f x = f y \<Longrightarrow> i = j \<and> x = y"
proof (induction xss arbitrary: i j)
  case (Cons xs xss)
  have d: "distinct (map f xs)" "distinct (map f (concat xss))" "f ` set xs \<inter> f ` set (concat xss) = {}"
    using Cons.prems(1) by auto
  have sep: False if "u \<in> set xs" "k < length xss" "v \<in> set (xss ! k)" "f u = f v" for u v k
    using d(3) that concat_nth_in [OF that(2,3)] by blast
  show ?case
  proof (cases i)
    case 0
    show ?thesis
    proof (cases j)
      case 0
      then show ?thesis using \<open>i = 0\<close> Cons.prems d(1) by (auto simp: distinct_map inj_on_def)
    next
      case (Suc k)
      then show ?thesis using sep [of x k y] Cons.prems \<open>i = 0\<close> by auto
    qed
  next
    case i: (Suc l)
    show ?thesis
    proof (cases j)
      case 0
      then show ?thesis using sep [of y l x] Cons.prems i by auto
    next
      case (Suc k)
      then show ?thesis using Cons.IH [OF d(2), of l k] Cons.prems i by auto
    qed
  qed
qed simp

lemma set_concat_update:
  "c < length xss \<Longrightarrow> mset (concat (xss[c := ys])) + mset (xss ! c) = mset (concat xss) + mset ys"
proof (induction xss arbitrary: c)
  case (Cons xs xss)
  then show ?case by (cases c) (auto simp: ac_simps)
qed simp

section \<open>Addresses\<close>

text \<open>The blocks of a heap do not overlap and do not pass the end of the address space.\<close>

definition spaced :: "blocks \<Rightarrow> bool" where
  "spaced m \<longleftrightarrow> (\<forall>p s. m p = Some s \<longrightarrow> unat p + unat s \<le> 2 ^ 64) \<and>
     (\<forall>p q s t. m p = Some s \<longrightarrow> m q = Some t \<longrightarrow> p \<noteq> q \<longrightarrow> unat p + unat s \<le> unat q \<or> unat q + unat t \<le> unat p)"

definition libs_spaced :: "(AllocBackend \<Rightarrow> 'h \<Rightarrow> blocks) \<Rightarrow> bool" where
  "libs_spaced lv \<longleftrightarrow> (\<forall>b h. spaced (lv b h))"

lemma g_owned_live: "g_inv libs lv g h \<Longrightarrow> g_owned g \<subseteq>\<^sub>m lv (g_backend g) h"
  by (auto simp: g_inv_def ia_inv_def sys_ainv_def alloc_inv_def g_owned_def owned_blocks_def g_backend_def)

lemma spaced_mono: "spaced m' \<Longrightarrow> m \<subseteq>\<^sub>m m' \<Longrightarrow> spaced m"
  unfolding spaced_def map_le_def by (metis domI)

lemma g_owned_spaced: "g_inv libs lv g h \<Longrightarrow> libs_spaced lv \<Longrightarrow> spaced (g_owned g)"
  using g_owned_live spaced_mono libs_spaced_def by metis

lemma size_class_bounds: "c < kNumSizeClasses \<Longrightarrow> 8 \<le> unat (kSizeClasses ! c) \<and> unat (kSizeClasses ! c) \<le> 4096"
proof -
  assume "c < kNumSizeClasses"
  then have "kSizeClasses ! c \<in> set kSizeClasses" by (intro nth_mem) (simp add: kSizeClasses_def kNumSizeClasses_def)
  then show ?thesis by (auto simp: kSizeClasses_def)
qed

lemma slab_bytes_unat:
  "c < kNumSizeClasses \<Longrightarrow>
     unat (slab_bytes s c) = 24 + unat (kSizeClasses ! c) + (if pc_enable_guard_bytes (sp_config s) then 8 else 0)"
  using size_class_bounds [of c]
  by (simp add: slab_bytes_def sizeof_SlabHeader_def kGuardSize_def unat_add_noflow)

text \<open>The slots of a block lie one after another within it.\<close>

lemma slot_addr:
  assumes "bk_slab_count b = bs div bk_slab_size b" and "unat (bk_base b) + unat bs \<le> 2 ^ 64" and "i < unat (bk_slab_count b)"
    and "0 < bk_slab_size b"
  shows "unat (slot_at b i) = unat (bk_base b) + i * unat (bk_slab_size b)"
    and "unat (slot_at b i) + unat (bk_slab_size b) \<le> unat (bk_base b) + unat bs"
proof -
  let ?z = "unat (bk_slab_size b)"
  have z: "0 < ?z" using assms(4) by (simp add: word_less_nat_alt)
  have "Suc i \<le> unat bs div ?z" using assms(1,3) by (simp add: unat_div)
  then have "Suc i * ?z \<le> unat bs" by (metis div_times_less_eq_dividend le_trans mult_le_mono1)
  then have le: "i * ?z + ?z \<le> unat bs" by simp
  then have lt: "unat (bk_base b) + i * ?z < 2 ^ 64" using assms(2) z by linarith
  have "i < 2 ^ 64" by (rule less_trans [OF assms(3)]) simp
  then have ui: "unat (of_nat i :: size_t) = i" by (simp add: unat_of_nat)
  have "unat (of_nat i * bk_slab_size b) = i * ?z" using lt ui by (subst unat_mult_noflow) simp_all
  then show a: "unat (slot_at b i) = unat (bk_base b) + i * ?z" using lt by (simp add: slot_at_def unat_add_noflow)
  show "unat (slot_at b i) + ?z \<le> unat (bk_base b) + unat bs" using a le by simp
qed

lemma block_slots_distinct:
  assumes "bk_slab_count b = bs div bk_slab_size b" and "unat (bk_base b) + unat bs \<le> 2 ^ 64" and "0 < bk_slab_size b"
  shows "distinct (block_slots b)"
proof -
  have z: "0 < unat (bk_slab_size b)" using assms(3) by (simp add: word_less_nat_alt)
  have "inj_on (slot_at b) {0..<unat (bk_slab_count b)}"
  proof (rule inj_onI)
    fix x y
    assume x: "x \<in> {0..<unat (bk_slab_count b)}" and y: "y \<in> {0..<unat (bk_slab_count b)}" and e: "slot_at b x = slot_at b y"
    have "unat (bk_base b) + x * unat (bk_slab_size b) = unat (bk_base b) + y * unat (bk_slab_size b)"
      using slot_addr(1) [OF assms(1,2) _ assms(3)] x y e by (metis atLeastLessThan_iff)
    then show "x = y" using z by simp
  qed
  then show ?thesis by (simp add: block_slots_def distinct_map)
qed

lemma user_header [simp]: "HeaderFromUser (UserFromHeader p) = p" "UserFromHeader (HeaderFromUser p) = p"
  by (simp_all add: HeaderFromUser_def UserFromHeader_def)

section \<open>The invariant\<close>

definition in_use :: "'h Mem \<Rightarrow> ptr \<Rightarrow> bool" where
  "in_use m p \<longleftrightarrow> magic (hdrs m p) = kSlabMagic"

definition bases :: "SlabPool \<Rightarrow> ptr list" where
  "bases s = map (bk_base \<circ> snd) (concat (sp_blocks s))"

definition cells :: "SlabPool \<Rightarrow> nat list" where
  "cells s = map fst (concat (sp_blocks s))"

text \<open>\<open>p\<close> is a slot of the block \<open>b\<close> of class \<open>c\<close> in cell \<open>a\<close>.\<close>

definition slot_of :: "SlabPool \<Rightarrow> nat \<Rightarrow> nat \<Rightarrow> Block \<Rightarrow> ptr \<Rightarrow> bool" where
  "slot_of s c a b p \<longleftrightarrow> c < kNumSizeClasses \<and> (a, b) \<in> set (sp_blocks s ! c) \<and> p \<in> set (block_slots b)"

definition block_shape :: "SlabPool \<Rightarrow> nat \<Rightarrow> Block \<Rightarrow> bool" where
  "block_shape s c b \<longleftrightarrow> bk_slab_size b = slab_bytes s c \<and> bk_slab_count b = pc_block_size (sp_config s) div slab_bytes s c \<and>
     bk_slab_count b \<noteq> 0"

definition placed :: "blocks \<Rightarrow> blocks \<Rightarrow> SlabPool \<Rightarrow> bool" where
  "placed base own s \<longleftrightarrow>
     length (sp_blocks s) = kNumSizeClasses \<and> distinct (cells s) \<and> (\<forall>a\<in>set (cells s). a < sp_next_cell s) \<and>
     distinct (bases s @ sp_large s) \<and>
     (\<forall>c<kNumSizeClasses. \<forall>(a, b)\<in>set (sp_blocks s ! c). block_shape s c b) \<and>
     (\<forall>q\<in>set (bases s). own q = Some (pc_block_size (sp_config s))) \<and>
     (\<forall>q\<in>set (sp_large s). own q \<noteq> None) \<and>
     (\<forall>q. if q \<in> set (bases s @ sp_large s) then base q = None else own q = base q)"

definition header_ok :: "SlabPool \<Rightarrow> 'h Mem \<Rightarrow> nat \<Rightarrow> nat \<Rightarrow> ptr \<Rightarrow> bool" where
  "header_ok s m c a p \<longleftrightarrow> block_owner (hdrs m p) = Some a \<and>
     (in_use m p \<longrightarrow> class_index (hdrs m p) = of_nat c \<and> 0 < user_size (hdrs m p) \<and> user_size (hdrs m p) \<le> kSizeClasses ! c)"

definition guard_bytes :: "SlabPool \<Rightarrow> nat" where
  "guard_bytes s = (if pc_enable_guard_bytes (sp_config s) then 8 else 0)"

definition large_ok :: "blocks \<Rightarrow> SlabPool \<Rightarrow> 'h Mem \<Rightarrow> ptr \<Rightarrow> bool" where
  "large_ok own s m q \<longleftrightarrow> in_use m q \<and> class_index (hdrs m q) = 0xFFFF \<and> 0 < user_size (hdrs m q) \<and>
     4096 < user_size (hdrs m q) \<and> (\<exists>n. own q = Some n \<and> unat n = 24 + unat (user_size (hdrs m q)) + guard_bytes s)"

definition headers_ok :: "blocks \<Rightarrow> SlabPool \<Rightarrow> 'h Mem \<Rightarrow> bool" where
  "headers_ok own s m \<longleftrightarrow>
     (\<forall>c a b. c < kNumSizeClasses \<longrightarrow> (a, b) \<in> set (sp_blocks s ! c) \<longrightarrow>
        unat (bk_used_count b) = length (filter (in_use m) (block_slots b))) \<and>
     (\<forall>c a b p. slot_of s c a b p \<longrightarrow> header_ok s m c a p) \<and>
     (\<forall>q\<in>set (sp_large s). large_ok own s m q)"

definition free_ok :: "SlabPool \<Rightarrow> 'h Mem \<Rightarrow> bool" where
  "free_ok s m \<longleftrightarrow> length (sp_free_lists s) = kNumSizeClasses \<and>
     (\<forall>c<kNumSizeClasses. distinct (sp_free_lists s ! c) \<and>
        (\<forall>p. p \<in> set (sp_free_lists s ! c) \<longleftrightarrow> (\<exists>a b. slot_of s c a b p) \<and> \<not> in_use m p))"

text \<open>The memory that clients hold: from the user pointer to its size.\<close>

definition live_header :: "SlabPool \<Rightarrow> 'h Mem \<Rightarrow> ptr \<Rightarrow> bool" where
  "live_header s m q \<longleftrightarrow> q \<in> set (sp_large s) \<or> (\<exists>c a b. slot_of s c a b q) \<and> in_use m q"

definition live_out :: "SlabPool \<Rightarrow> 'h Mem \<Rightarrow> blocks" where
  "live_out s m = (\<lambda>u. let q = HeaderFromUser u in if live_header s m q then Some (user_size (hdrs m q)) else None)"

definition counted :: "SlabPool \<Rightarrow> 'h Mem \<Rightarrow> bool" where
  "counted s m \<longleftrightarrow> unat (st_bytes_in_use (sp_stats s)) = block_bytes (live_out s m) \<and>
     (0 < pc_max_bytes (sp_config s) \<longrightarrow> st_bytes_in_use (sp_stats s) \<le> pc_max_bytes (sp_config s))"

definition slab_inv :: "'h Libs \<Rightarrow> (AllocBackend \<Rightarrow> 'h \<Rightarrow> blocks) \<Rightarrow> blocks \<Rightarrow> SlabPool \<Rightarrow> 'h Mem \<Rightarrow> bool" where
  "slab_inv libs lv base s m \<longleftrightarrow> g_inv libs lv (mglob m) (mheap m) \<and> libs_spaced lv \<and> sp_inited s \<and>
     placed base (g_owned (mglob m)) s \<and> headers_ok (g_owned (mglob m)) s m \<and> free_ok s m"

section \<open>Slots are apart\<close>

lemma placed_block:
  assumes "placed base own s" and "c < kNumSizeClasses" and "(a, b) \<in> set (sp_blocks s ! c)"
  shows "block_shape s c b" and "own (bk_base b) = Some (pc_block_size (sp_config s))" and "bk_base b \<in> set (bases s)"
    and "a \<in> set (cells s)" and "0 < bk_slab_size b"
proof -
  have i: "(a, b) \<in> set (concat (sp_blocks s))"
    by (rule concat_nth_in [of c]) (use assms in \<open>simp_all add: placed_def\<close>)
  then show bs: "bk_base b \<in> set (bases s)" and "a \<in> set (cells s)" by (force simp: bases_def cells_def)+
  show "own (bk_base b) = Some (pc_block_size (sp_config s))" using assms(1) bs by (auto simp: placed_def)
  show sh: "block_shape s c b" using assms unfolding placed_def by blast
  have "0 < unat (slab_bytes s c)" using slab_bytes_unat [OF assms(2), of s] by simp
  then show "0 < bk_slab_size b" using sh by (simp add: block_shape_def word_gt_0 unat_eq_zero [symmetric])
qed

lemma slot_bounds:
  assumes "placed base own s" and "spaced own" and "slot_of s c a b p"
  shows "unat (bk_base b) \<le> unat p" and "unat p + unat (slab_bytes s c) \<le> unat (bk_base b) + unat (pc_block_size (sp_config s))"
    and "unat (bk_base b) + unat (pc_block_size (sp_config s)) \<le> 2 ^ 64"
    and "distinct (block_slots b)"
proof -
  have c: "c < kNumSizeClasses" "(a, b) \<in> set (sp_blocks s ! c)" "p \<in> set (block_slots b)" using assms(3) by (auto simp: slot_of_def)
  note pb = placed_block [OF assms(1) c(1,2)]
  show top: "unat (bk_base b) + unat (pc_block_size (sp_config s)) \<le> 2 ^ 64" using assms(2) pb(2) unfolding spaced_def by blast
  have cnt: "bk_slab_count b = pc_block_size (sp_config s) div bk_slab_size b" and ss: "bk_slab_size b = slab_bytes s c"
    using pb(1) by (simp_all add: block_shape_def)
  obtain i where i: "i < unat (bk_slab_count b)" "p = slot_at b i" using c(3) by (auto simp: block_slots_def)
  note ad = slot_addr [OF cnt top i(1) pb(5)]
  show "unat (bk_base b) \<le> unat p" using ad(1) i(2) by simp
  show "unat p + unat (slab_bytes s c) \<le> unat (bk_base b) + unat (pc_block_size (sp_config s))" using ad(2) i(2) ss by simp
  show "distinct (block_slots b)" by (rule block_slots_distinct [OF cnt top pb(5)])
qed

lemma slot_unique:
  assumes pl: "placed base own s" and sp: "spaced own" and 1: "slot_of s c a b p" and 2: "slot_of s c' a' b' p"
  shows "c = c' \<and> a = a' \<and> b = b'"
proof -
  have in1: "c < kNumSizeClasses" "(a, b) \<in> set (sp_blocks s ! c)" and in2: "c' < kNumSizeClasses" "(a', b') \<in> set (sp_blocks s ! c')"
    using 1 2 by (auto simp: slot_of_def)
  note b1 = slot_bounds [OF pl sp 1] and b2 = slot_bounds [OF pl sp 2]
  note p1 = placed_block [OF pl in1] and p2 = placed_block [OF pl in2]
  have pos: "0 < unat (slab_bytes s c)" "0 < unat (slab_bytes s c')"
    using slab_bytes_unat [OF in1(1), of s] slab_bytes_unat [OF in2(1), of s] by simp_all
  have "bk_base b = bk_base b'"
  proof (rule ccontr)
    assume "bk_base b \<noteq> bk_base b'"
    then have "unat (bk_base b) + unat (pc_block_size (sp_config s)) \<le> unat (bk_base b') \<or>
        unat (bk_base b') + unat (pc_block_size (sp_config s)) \<le> unat (bk_base b)"
      using sp p1(2) p2(2) unfolding spaced_def by blast
    then show False using b1(1,2) b2(1,2) pos by linarith
  qed
  moreover have "distinct (map (bk_base \<circ> snd) (concat (sp_blocks s)))" "length (sp_blocks s) = kNumSizeClasses"
    using pl by (simp_all add: placed_def bases_def)
  ultimately show ?thesis using concat_unique [of "bk_base \<circ> snd" "sp_blocks s" c c' "(a, b)" "(a', b')"] in1 in2 by auto
qed

lemma slot_not_large:
  assumes pl: "placed base own s" and sp: "spaced own" and 1: "slot_of s c a b p"
  shows "p \<notin> set (sp_large s)"
proof
  assume l: "p \<in> set (sp_large s)"
  have in1: "c < kNumSizeClasses" "(a, b) \<in> set (sp_blocks s ! c)" using 1 by (auto simp: slot_of_def)
  note p1 = placed_block [OF pl in1] and b1 = slot_bounds [OF pl sp 1]
  have "0 < unat (slab_bytes s c)" using slab_bytes_unat [OF in1(1), of s] by simp
  obtain n where n: "own p = Some n" using pl l unfolding placed_def by blast
  have "p \<noteq> bk_base b" using pl l p1(3) unfolding placed_def by auto
  then have "unat p + unat n \<le> unat (bk_base b) \<or> unat (bk_base b) + unat (pc_block_size (sp_config s)) \<le> unat p"
    using sp n p1(2) unfolding spaced_def by blast
  moreover have "unat p \<noteq> unat (bk_base b)" using \<open>p \<noteq> bk_base b\<close> by (simp add: word_unat_eq_iff)
  ultimately show False using b1(1,2) \<open>0 < unat (slab_bytes s c)\<close> by linarith
qed

lemma slots_apart:
  assumes pl: "placed base own s" and sp: "spaced own" and 1: "slot_of s c a b p" and 2: "slot_of s c a b q" and lt: "unat p < unat q"
  shows "unat p + unat (slab_bytes s c) \<le> unat q"
proof -
  have c: "c < kNumSizeClasses" "(a, b) \<in> set (sp_blocks s ! c)" using 1 by (auto simp: slot_of_def)
  note pb = placed_block [OF pl c]
  have cnt: "bk_slab_count b = pc_block_size (sp_config s) div bk_slab_size b" and ss: "bk_slab_size b = slab_bytes s c"
    using pb(1) by (simp_all add: block_shape_def)
  obtain i j where ij: "i < unat (bk_slab_count b)" "p = slot_at b i" "j < unat (bk_slab_count b)" "q = slot_at b j"
    using 1 2 by (auto simp: slot_of_def block_slots_def)
  note a = slot_addr(1) [OF cnt slot_bounds(3) [OF pl sp 1] _ pb(5)]
  have "i * unat (slab_bytes s c) < j * unat (slab_bytes s c)" using lt a [OF ij(1)] a [OF ij(3)] ij(2,4) ss by simp
  then have "Suc i \<le> j" by simp
  then have "Suc i * unat (slab_bytes s c) \<le> j * unat (slab_bytes s c)" by (rule mult_le_mono1)
  then show ?thesis using a [OF ij(1)] a [OF ij(3)] ij(2,4) ss by simp
qed

text \<open>A live header with the block of the global allocator that holds it.\<close>

lemma live_header_in:
  assumes inv: "slab_inv libs lv base s m" and q: "live_header s m q"
  shows "\<exists>p n. g_owned (mglob m) p = Some n \<and> unat p \<le> unat q \<and> unat q + 24 + unat (user_size (hdrs m q)) \<le> unat p + unat n \<and>
    unat p + unat n \<le> 2 ^ 64 \<and> 0 < user_size (hdrs m q) \<and> (q \<in> set (sp_large s) \<and> p = q \<or> (\<exists>c a b. slot_of s c a b q \<and> p = bk_base b))"
proof -
  let ?own = "g_owned (mglob m)"
  have sp: "spaced ?own" and pl: "placed base ?own s" and hd: "headers_ok ?own s m"
    using inv g_owned_spaced by (auto simp: slab_inv_def)
  from q consider (large) "q \<in> set (sp_large s)" | (slot) c a b where "slot_of s c a b q" "in_use m q" by (auto simp: live_header_def)
  then show ?thesis
  proof cases
    case large
    then obtain n where n: "?own q = Some n" "unat n = 24 + unat (user_size (hdrs m q)) + guard_bytes s" "0 < user_size (hdrs m q)"
      using hd by (auto simp: headers_ok_def large_ok_def)
    then have "unat q + unat n \<le> 2 ^ 64" using sp unfolding spaced_def by blast
    then show ?thesis using n large by (intro exI [of _ q] exI [of _ n]) simp
  next
    case (slot c a b)
    have c: "c < kNumSizeClasses" "(a, b) \<in> set (sp_blocks s ! c)" using slot by (auto simp: slot_of_def)
    note pb = placed_block [OF pl c] and sb = slot_bounds [OF pl sp slot(1)]
    have "header_ok s m c a q" using hd slot(1) by (auto simp: headers_ok_def)
    then have u: "0 < user_size (hdrs m q)" "unat (user_size (hdrs m q)) \<le> unat (kSizeClasses ! c)"
      using slot(2) by (auto simp: header_ok_def word_le_nat_alt)
    then have "unat q + 24 + unat (user_size (hdrs m q)) \<le> unat (bk_base b) + unat (pc_block_size (sp_config s))"
      using sb(2) slab_bytes_unat [OF c(1), of s] by linarith
    then show ?thesis using pb(2) sb(1,3) u(1) slot(1)
      by (intro exI [of _ "bk_base b"] exI [of _ "pc_block_size (sp_config s)"]) auto
  qed
qed

lemma live_headers_apart:
  assumes inv: "slab_inv libs lv base s m" and p: "live_header s m p" and q: "live_header s m q" and lt: "unat p < unat q"
  shows "unat p + 24 + unat (user_size (hdrs m p)) \<le> unat q"
proof -
  let ?own = "g_owned (mglob m)"
  have sp: "spaced ?own" and pl: "placed base ?own s" and hd: "headers_ok ?own s m"
    using inv g_owned_spaced by (auto simp: slab_inv_def)
  obtain p0 n0 where p0: "?own p0 = Some n0" "unat p0 \<le> unat p" "unat p + 24 + unat (user_size (hdrs m p)) \<le> unat p0 + unat n0"
      "p \<in> set (sp_large s) \<and> p0 = p \<or> (\<exists>c a b. slot_of s c a b p \<and> p0 = bk_base b)"
    using live_header_in [OF inv p] by blast
  obtain q0 n1 where q0: "?own q0 = Some n1" "unat q0 \<le> unat q" "unat q + 24 + unat (user_size (hdrs m q)) \<le> unat q0 + unat n1"
      "q \<in> set (sp_large s) \<and> q0 = q \<or> (\<exists>c a b. slot_of s c a b q \<and> q0 = bk_base b)"
    using live_header_in [OF inv q] by blast
  show ?thesis
  proof (cases "p0 = q0")
    case False
    then have "unat p0 + unat n0 \<le> unat q0 \<or> unat q0 + unat n1 \<le> unat p0" using sp p0(1) q0(1) unfolding spaced_def by blast
    then show ?thesis using p0(2,3) q0(2,3) lt by linarith
  next
    case same: True
    have "set (bases s) \<inter> set (sp_large s) = {}" using pl by (auto simp: placed_def)
    then have large_base: "bk_base b \<notin> set (sp_large s)" if "slot_of s c a b x" for c a b x
      using placed_block(3) [OF pl] that by (auto simp: slot_of_def)
    have "p \<noteq> q" using lt by auto
    then obtain c a b c' a' b' where 1: "slot_of s c a b p" "p0 = bk_base b" and 2: "slot_of s c' a' b' q" "q0 = bk_base b'"
      using p0(4) q0(4) same large_base by metis
    have in1: "c < kNumSizeClasses" "(a, b) \<in> set (sp_blocks s ! c)" and in2: "c' < kNumSizeClasses" "(a', b') \<in> set (sp_blocks s ! c')"
      using 1 2 by (auto simp: slot_of_def)
    have "distinct (map (bk_base \<circ> snd) (concat (sp_blocks s)))" "length (sp_blocks s) = kNumSizeClasses"
      using pl by (simp_all add: placed_def bases_def)
    then have "c = c' \<and> (a, b) = (a', b')"
      using concat_unique [of "bk_base \<circ> snd" "sp_blocks s" c c' "(a, b)" "(a', b')"] in1 in2 same 1 2 by simp
    then have ap: "unat p + unat (slab_bytes s c) \<le> unat q" using slots_apart [OF pl sp 1(1) _ lt] 2(1) by simp
    have "in_use m p" using p slot_not_large [OF pl sp 1(1)] by (auto simp: live_header_def)
    then have "unat (user_size (hdrs m p)) \<le> unat (kSizeClasses ! c)"
      using hd 1(1) unfolding headers_ok_def header_ok_def by (simp add: word_le_nat_alt)
    then show ?thesis using ap slab_bytes_unat [OF in1(1), of s] by linarith
  qed
qed

section \<open>The memory that clients hold\<close>

definition region :: "ptr \<Rightarrow> size_t \<Rightarrow> nat set" where
  "region u n = {unat u..<unat u + unat n}"

lemma live_out_header:
  "live_out s m u = Some n \<longleftrightarrow> live_header s m (HeaderFromUser u) \<and> n = user_size (hdrs m (HeaderFromUser u))"
  by (auto simp: live_out_def Let_def)

lemma live_out_Some:
  assumes inv: "slab_inv libs lv base s m" and u: "live_out s m u = Some n"
  shows "unat u = unat (HeaderFromUser u) + 24" and "0 < n" and "unat u + unat n \<le> 2 ^ 64" and "u \<noteq> 0"
    and "\<exists>p k. g_owned (mglob m) p = Some k \<and> region u n \<subseteq> region p k"
proof -
  let ?q = "HeaderFromUser u"
  have q: "live_header s m ?q" and n: "n = user_size (hdrs m ?q)" using u by (auto simp: live_out_header)
  obtain p k where p: "g_owned (mglob m) p = Some k" "unat p \<le> unat ?q" "unat ?q + 24 + unat n \<le> unat p + unat k"
      "unat p + unat k \<le> 2 ^ 64" and n0: "0 < n"
    using live_header_in [OF inv q] n by blast
  show "0 < n" by (rule n0)
  then have "0 < unat n" by (simp add: word_less_nat_alt)
  then have "unat ?q + 24 < 2 ^ 64" using p(3,4) by linarith
  then have "unat (?q + 24) = unat ?q + 24" by (subst unat_add_noflow) simp_all
  moreover have "?q + 24 = u" by (simp add: HeaderFromUser_def sizeof_SlabHeader_def)
  ultimately show eq: "unat u = unat ?q + 24" by simp
  show "unat u + unat n \<le> 2 ^ 64" using eq p(3,4) by linarith
  show "u \<noteq> 0" using eq by auto
  have "region u n \<subseteq> region p k" using eq p(2,3) by (auto simp: region_def)
  then show "\<exists>p k. g_owned (mglob m) p = Some k \<and> region u n \<subseteq> region p k" using p(1) by blast
qed

lemma live_out_disjoint:
  assumes inv: "slab_inv libs lv base s m" and u: "live_out s m u = Some n" and v: "live_out s m v = Some k" and ne: "u \<noteq> v"
  shows "region u n \<inter> region v k = {}"
proof -
  have "live_header s m (HeaderFromUser u)" "live_header s m (HeaderFromUser v)" "n = user_size (hdrs m (HeaderFromUser u))"
    "k = user_size (hdrs m (HeaderFromUser v))" using u v by (auto simp: live_out_header)
  moreover have "unat (HeaderFromUser u) \<noteq> unat (HeaderFromUser v)" using ne by (simp add: HeaderFromUser_def word_unat_eq_iff [symmetric])
  ultimately show ?thesis
    using live_headers_apart [OF inv, of "HeaderFromUser u" "HeaderFromUser v"] live_headers_apart [OF inv, of "HeaderFromUser v" "HeaderFromUser u"]
      live_out_Some(1) [OF inv u] live_out_Some(1) [OF inv v]
    by (cases "unat (HeaderFromUser u) < unat (HeaderFromUser v)") (auto simp: region_def)
qed

text \<open>Disjoint regions of the address space: their sizes add up to less than its size.\<close>

lemma live_out_bytes:
  assumes inv: "slab_inv libs lv base s m"
  shows "finite (dom (live_out s m))" and "block_bytes (live_out s m) < 2 ^ 64"
proof -
  let ?o = "live_out s m"
  show fin: "finite (dom ?o)" by simp
  have "block_bytes ?o = (\<Sum>u\<in>dom ?o. card (region u (the (?o u))))" by (simp add: block_bytes_def region_def)
  also have "\<dots> = card (\<Union>u\<in>dom ?o. region u (the (?o u)))"
  proof (rule card_UN_disjoint [symmetric])
    show "\<forall>u\<in>dom ?o. \<forall>v\<in>dom ?o. u \<noteq> v \<longrightarrow> region u (the (?o u)) \<inter> region v (the (?o v)) = {}"
      using live_out_disjoint [OF inv] by (metis domD option.sel)
  qed (use fin in \<open>simp_all add: region_def\<close>)
  also have "\<dots> \<le> card {24 :: nat..<2 ^ 64}"
  proof (rule card_mono)
    show "(\<Union>u\<in>dom ?o. region u (the (?o u))) \<subseteq> {24..<2 ^ 64}"
      using live_out_Some(1,3) [OF inv] by (fastforce simp: region_def)
  qed simp
  finally show "block_bytes ?o < 2 ^ 64" by simp
qed

end
