(* ===== verification/CK_SlabPool_Ops.thy ===== *)
theory CK_SlabPool_Ops
  imports CK_SlabPool_Inv
begin

text \<open>The operations of a memory pool keep its invariant, and what they do to the memory clients hold.\<close>

section \<open>One slot changes\<close>

lemma filter_flip:
  "distinct xs \<Longrightarrow> p \<in> set xs \<Longrightarrow> \<not> Q p \<Longrightarrow> Q' p \<Longrightarrow> (\<And>x. x \<noteq> p \<Longrightarrow> Q' x = Q x) \<Longrightarrow>
     length (filter Q' xs) = Suc (length (filter Q xs))"
proof (induction xs)
  case (Cons x xs)
  show ?case
  proof (cases "x = p")
    case True
    then have "filter Q' xs = filter Q xs" using Cons.prems(1,5) by (intro filter_cong refl) (metis distinct.simps(2))
    then show ?thesis using True Cons.prems by simp
  next
    case False
    then show ?thesis using Cons by simp
  qed
qed simp

definition with_used :: "nat \<Rightarrow> (Block \<Rightarrow> size_t) \<Rightarrow> nat \<Rightarrow> Block \<Rightarrow> Block" where
  "with_used a k x b = (if x = a then b\<lparr>bk_used_count := k b\<rparr> else b)"

lemma with_used_simps [simp]:
  "block_slots (with_used a k x b) = block_slots b" "bk_base (with_used a k x b) = bk_base b"
  "bk_slab_size (with_used a k x b) = bk_slab_size b" "bk_slab_count (with_used a k x b) = bk_slab_count b"
  "bk_used_count (with_used a k x b) = (if x = a then k b else bk_used_count b)"
  by (simp_all add: with_used_def block_slots_def slot_at_def)

definition set_used :: "nat \<Rightarrow> (Block \<Rightarrow> size_t) \<Rightarrow> SlabPool \<Rightarrow> SlabPool" where
  "set_used a k s = s\<lparr>sp_blocks := map (map (\<lambda>(x, b). (x, with_used a k x b))) (sp_blocks s)\<rparr>"

lemma update_block_used:
  "update_block a (\<lambda>b. b\<lparr>bk_used_count := k b\<rparr>) s = (if a \<in> set (cells s) then Some (set_used a k s) else None)"
proof -
  have "(\<lambda>(x, b). if x = a then (x, b\<lparr>bk_used_count := k b\<rparr>) else (x, b)) = (\<lambda>(x, b). (x, with_used a k x b))"
    by (auto simp: with_used_def fun_eq_iff)
  then show ?thesis by (simp add: update_block_def set_used_def cells_def)
qed

lemma set_used_block:
  "c < length (sp_blocks s) \<Longrightarrow>
     (x, b') \<in> set (sp_blocks (set_used a k s) ! c) \<longleftrightarrow> (\<exists>b. (x, b) \<in> set (sp_blocks s ! c) \<and> b' = with_used a k x b)"
  by (force simp: set_used_def)

lemma map_concat_same: "(\<And>y. f (g y) = f y) \<Longrightarrow> map f (concat (map (map g) xss)) = map f (concat xss)"
  by (induction xss) auto

lemma set_used_same:
  "cells (set_used a k s) = cells s" "bases (set_used a k s) = bases s" "length (sp_blocks (set_used a k s)) = length (sp_blocks s)"
  "sp_config (set_used a k s) = sp_config s" "sp_large (set_used a k s) = sp_large s" "sp_next_cell (set_used a k s) = sp_next_cell s"
  "sp_inited (set_used a k s) = sp_inited s" "sp_free_lists (set_used a k s) = sp_free_lists s" "sp_stats (set_used a k s) = sp_stats s"
proof -
  show "cells (set_used a k s) = cells s"
    unfolding cells_def set_used_def by (simp, rule map_concat_same) (simp add: case_prod_unfold)
  show "bases (set_used a k s) = bases s"
    unfolding bases_def set_used_def by (simp, rule map_concat_same) (simp add: case_prod_unfold)
qed (simp_all add: set_used_def)

lemma set_used_slot:
  assumes "length (sp_blocks s) = kNumSizeClasses"
  shows "slot_of (set_used a k s) c x b' p \<longleftrightarrow> (\<exists>b. slot_of s c x b p \<and> b' = with_used a k x b)"
  using assms set_used_block [of c s x b' a k] unfolding slot_of_def by (metis with_used_simps(1))

lemma set_used_placed:
  assumes "placed base own s"
  shows "placed base own (set_used a k s)"
proof -
  have "block_shape (set_used a k s) c b'" if c: "c < kNumSizeClasses" and i: "(x, b') \<in> set (sp_blocks (set_used a k s) ! c)" for c x b'
  proof -
    have "c < length (sp_blocks s)" using c assms by (simp add: placed_def)
    then obtain b where "(x, b) \<in> set (sp_blocks s ! c)" "b' = with_used a k x b"
      using i by (auto simp: set_used_block)
    then show ?thesis using placed_block(1) [OF assms c] by (auto simp: block_shape_def slab_bytes_def set_used_same)
  qed
  then show ?thesis using assms unfolding placed_def set_used_same by auto
qed

text \<open>The state after a change of one slot: its header, its block's counter, the free list of its class.\<close>

definition same_heap :: "'h Mem \<Rightarrow> 'h Mem \<Rightarrow> bool" where
  "same_heap m m' \<longleftrightarrow> mglob m' = mglob m \<and> mheap m' = mheap m"

lemma slot_change:
  assumes inv: "slab_inv libs lv base s m" and p: "slot_of s c a b p"
    and h: "hdrs m' = (hdrs m)(p := hdr)" and sh: "same_heap m m'"
    and s': "s' = (set_used a k s)\<lparr>sp_free_lists := (sp_free_lists s)[c := fl]\<rparr>"
    and hok: "header_ok s m' c a p" and cnt: "unat (k b) = length (filter (in_use m') (block_slots b))"
    and fl: "distinct fl" "\<And>q. q \<in> set fl \<longleftrightarrow> (if q = p then \<not> in_use m' p else q \<in> set (sp_free_lists s ! c))"
  shows "slab_inv libs lv base s' m'"
    and "live_header s' m' q \<longleftrightarrow> (if q = p then in_use m' p else live_header s m q)"
proof -
  let ?own = "g_owned (mglob m)"
  have sp: "spaced ?own" and pl: "placed base ?own s" and hd: "headers_ok ?own s m" and fr: "free_ok s m"
    using inv g_owned_spaced by (auto simp: slab_inv_def)
  have len: "length (sp_blocks s) = kNumSizeClasses" "length (sp_free_lists s) = kNumSizeClasses"
    using pl fr by (auto simp: placed_def free_ok_def)
  have c: "c < kNumSizeClasses" using p by (simp add: slot_of_def)
  have other: "in_use m' x = in_use m x" "hdrs m' x = hdrs m x" if "x \<noteq> p" for x using that h by (auto simp: in_use_def)
  have so: "slot_of s' c' x b' q \<longleftrightarrow> (\<exists>b0. slot_of s c' x b0 q \<and> b' = with_used a k x b0)" for c' x b' q
    using set_used_slot [OF len(1), of a k c' x b' q] by (simp add: s' slot_of_def)
  have some: "(\<exists>x b'. slot_of s' c' x b' q) \<longleftrightarrow> (\<exists>x b'. slot_of s c' x b' q)" for c' q using so by blast
  have eq: "sp_large s' = sp_large s" "sp_config s' = sp_config s" by (simp_all add: s' set_used_same)
  have pn: "p \<notin> set (sp_large s)" by (rule slot_not_large [OF pl sp p])
  have plc: "placed base ?own s'" using set_used_placed [OF pl, of a k]
    by (simp add: s' placed_def cells_def bases_def block_shape_def slab_bytes_def)
  have used: "unat (bk_used_count b') = length (filter (in_use m') (block_slots b'))"
    if c': "c' < kNumSizeClasses" and i: "(x, b') \<in> set (sp_blocks s' ! c')" for c' x b'
  proof -
    obtain b0 where b0: "(x, b0) \<in> set (sp_blocks s ! c')" "b' = with_used a k x b0"
      using c' i len set_used_block [of c' s x b' a k] by (auto simp: s')
    show ?thesis
    proof (cases "x = a")
      case True
      have "distinct (map fst (concat (sp_blocks s)))" using pl by (simp add: placed_def cells_def)
      then have "c' = c \<and> (x, b0) = (a, b)"
        using concat_unique [of fst "sp_blocks s" c' c "(x, b0)" "(a, b)"] b0(1) c' p True len by (simp add: slot_of_def)
      then show ?thesis using cnt b0(2) True by simp
    next
      case False
      have "q \<noteq> p" if "q \<in> set (block_slots b0)" for q
        using slot_unique [OF pl sp p, of c' x b0] False b0(1) that \<open>c' < kNumSizeClasses\<close> by (auto simp: slot_of_def)
      then have "filter (in_use m') (block_slots b0) = filter (in_use m) (block_slots b0)" using other by (intro filter_cong) auto
      moreover have "unat (bk_used_count b0) = length (filter (in_use m) (block_slots b0))"
        using hd b0(1) c' unfolding headers_ok_def by blast
      ultimately show ?thesis using b0(2) False by simp
    qed
  qed
  have hdr_ok: "header_ok s' m' c' x q" if sl: "slot_of s' c' x b' q" for c' x b' q
  proof (cases "q = p")
    case True
    obtain b0 where "slot_of s c' x b0 p" using sl True so by blast
    then have "c' = c \<and> x = a" using slot_unique [OF pl sp p] by blast
    then show ?thesis using hok True by (simp add: header_ok_def)
  next
    case False
    obtain b0 where "slot_of s c' x b0 q" using sl so by blast
    then have "header_ok s m c' x q" using hd unfolding headers_ok_def by blast
    then show ?thesis using other [OF False] by (simp add: header_ok_def in_use_def)
  qed
  have "large_ok ?own s' m' q" if "q \<in> set (sp_large s')" for q
  proof -
    have "q \<noteq> p" "large_ok ?own s m q" using that pn hd eq by (auto simp: headers_ok_def)
    then show ?thesis using other eq by (simp add: large_ok_def guard_bytes_def in_use_def)
  qed
  then have hds: "headers_ok ?own s' m'" using used hdr_ok unfolding headers_ok_def by blast
  have "free_ok s' m'"
    unfolding free_ok_def
  proof (intro conjI allI impI)
    show "length (sp_free_lists s') = kNumSizeClasses" using len by (simp add: s')
    fix c' assume c': "c' < kNumSizeClasses"
    have f: "distinct (sp_free_lists s ! c')" "\<And>q. q \<in> set (sp_free_lists s ! c') \<longleftrightarrow> (\<exists>a b. slot_of s c' a b q) \<and> \<not> in_use m q"
      using fr c' by (auto simp: free_ok_def)
    show "distinct (sp_free_lists s' ! c')" using f(1) fl(1) c' len by (cases "c' = c") (simp_all add: s')
    fix q
    show "q \<in> set (sp_free_lists s' ! c') \<longleftrightarrow> (\<exists>a b. slot_of s' c' a b q) \<and> \<not> in_use m' q"
    proof (cases "c' = c")
      case True
      then show ?thesis using fl(2) f(2) some other p c len by (auto simp: s')
    next
      case False
      then have "\<not> slot_of s c' x b0 p" for x b0 using slot_unique [OF pl sp p] by blast
      then show ?thesis using False f(2) some other by (cases "q = p") (auto simp: s')
    qed
  qed
  then show "slab_inv libs lv base s' m'"
    using inv plc hds sh by (simp add: slab_inv_def same_heap_def s' set_used_same)
  show "live_header s' m' q \<longleftrightarrow> (if q = p then in_use m' p else live_header s m q)"
    using some other p pn eq by (auto simp: live_header_def)
qed

section \<open>Small allocations\<close>

lemma stats_irrelevant [simp]:
  "slab_inv libs lv base (s\<lparr>sp_stats := x\<rparr>) m = slab_inv libs lv base s m" "live_header (s\<lparr>sp_stats := x\<rparr>) m = live_header s m"
  "live_out (s\<lparr>sp_stats := x\<rparr>) m = live_out s m"
  by (simp_all add: slab_inv_def placed_def cells_def bases_def block_shape_def slab_bytes_def headers_ok_def header_ok_def slot_of_def
      large_ok_def guard_bytes_def free_ok_def live_header_def live_out_def fun_eq_iff)

lemma write_guard_same [simp]:
  "hdrs (write_guard_if s p n d m) = hdrs m" "same_heap m (write_guard_if s p n d m)"
  "mglob (write_guard_if s p n d m) = mglob m" "mheap (write_guard_if s p n d m) = mheap m"
  by (simp_all add: write_guard_if_def WriteGuard_def memset_bytes_def Let_def same_heap_def)

lemma set_header_same [simp]:
  "hdrs (set_header p hdr m) = (hdrs m)(p := hdr)" "mglob (set_header p hdr m) = mglob m" "mheap (set_header p hdr m) = mheap m"
  by (simp_all add: set_header_def)

lemma live_out_change:
  assumes "\<And>q. live_header s' m' q \<longleftrightarrow> (if q = p then b else live_header s m q)" and "\<And>q. q \<noteq> p \<Longrightarrow> hdrs m' q = hdrs m q"
  shows "live_out s' m' = (live_out s m)(UserFromHeader p := (if b then Some (user_size (hdrs m' p)) else None))"
proof
  fix u
  show "live_out s' m' u = ((live_out s m)(UserFromHeader p := (if b then Some (user_size (hdrs m' p)) else None))) u"
  proof (cases "HeaderFromUser u = p")
    case True
    then have "u = UserFromHeader p" by auto
    then show ?thesis using assms(1) by (simp add: live_out_def)
  next
    case False
    then have "u \<noteq> UserFromHeader p" by auto
    then show ?thesis using assms False by (simp add: live_out_def Let_def)
  qed
qed

lemma alloc_free_slot_law:
  assumes inv: "slab_inv libs lv base s m" and c: "c < kNumSizeClasses" and ne: "sp_free_lists s ! c \<noteq> []"
    and sz: "0 < usize" "usize \<le> kSizeClasses ! c"
  shows "\<exists>u s' m'. alloc_free_slot c usize s m = Some (u, s', m') \<and> slab_inv libs lv base s' m' \<and> live_out s m u = None \<and>
    live_out s' m' = (live_out s m)(u \<mapsto> usize) \<and> st_bytes_in_use (sp_stats s') = st_bytes_in_use (sp_stats s) \<and>
    sp_config s' = sp_config s \<and> u \<noteq> 0"
proof -
  let ?p = "last (sp_free_lists s ! c)" and ?own = "g_owned (mglob m)"
  have sp: "spaced ?own" and pl: "placed base ?own s" and hd: "headers_ok ?own s m" and fr: "free_ok s m"
    using inv g_owned_spaced by (auto simp: slab_inv_def)
  have app: "butlast (sp_free_lists s ! c) @ [?p] = sp_free_lists s ! c" using ne by simp
  have dis: "distinct (butlast (sp_free_lists s ! c) @ [?p])" and mem: "\<And>q. q \<in> set (sp_free_lists s ! c) \<longleftrightarrow> (\<exists>a b. slot_of s c a b q) \<and> \<not> in_use m q"
    unfolding app using fr c by (auto simp: free_ok_def)
  have "?p \<in> set (sp_free_lists s ! c)" using ne by simp
  then obtain a b where so: "slot_of s c a b ?p" and nu: "\<not> in_use m ?p" using mem by blast
  have ow: "block_owner (hdrs m ?p) = Some a" using hd so unfolding headers_ok_def header_ok_def by blast
  have ab: "(a, b) \<in> set (sp_blocks s ! c)" using so by (simp add: slot_of_def)
  note pb = placed_block [OF pl c ab] and sb = slot_bounds [OF pl sp so]
  let ?hdr = "(hdrs m ?p)\<lparr>magic := kSlabMagic, class_index := of_nat c, hflags := guard_flag s, user_size := usize\<rparr>"
  let ?m1 = "write_guard_if s (UserFromHeader ?p) usize (kSizeClasses ! c) (set_header ?p ?hdr m)"
  let ?s1 = "(set_used a (\<lambda>b. bk_used_count b + 1) s)\<lparr>sp_free_lists := (sp_free_lists s)[c := butlast (sp_free_lists s ! c)]\<rparr>"
  let ?s2 = "?s1\<lparr>sp_stats := (sp_stats s)\<lparr>st_slab_hits := st_slab_hits (sp_stats s) + 1\<rparr>\<rparr>"
  have s1: "set_used a k (s\<lparr>sp_free_lists := x\<rparr>) = (set_used a k s)\<lparr>sp_free_lists := x\<rparr>" for k x by (simp add: set_used_def)
  have cl: "cells (s\<lparr>sp_free_lists := x\<rparr>) = cells s" for x by (simp add: cells_def)
  have res: "alloc_free_slot c usize s m = Some (UserFromHeader ?p, ?s2, ?m1)"
    using ow pb(4) by (simp add: alloc_free_slot_def Let_def update_owner_def update_block_used s1 cl set_used_same)
  have iu: "in_use ?m1 ?p" by (simp add: in_use_def)
  have cnt: "length (filter (in_use ?m1) (block_slots b)) = Suc (length (filter (in_use m) (block_slots b)))"
    by (rule filter_flip [of _ ?p]) (use sb(4) nu iu so in \<open>auto simp: slot_of_def in_use_def\<close>)
  have used: "unat (bk_used_count b) = length (filter (in_use m) (block_slots b))" using hd ab c unfolding headers_ok_def by blast
  have "length (filter (in_use ?m1) (block_slots b)) \<le> length (block_slots b)" by (rule length_filter_le)
  also have "\<dots> = unat (bk_slab_count b)" by (simp add: block_slots_def)
  finally have "Suc (unat (bk_used_count b)) \<le> unat (bk_slab_count b)" using cnt used by simp
  then have "unat (bk_used_count b + 1) = unat (bk_used_count b) + 1" by (intro unat_succ_below [of _ "bk_slab_count b"]) simp
  then have k: "unat (bk_used_count b + 1) = length (filter (in_use ?m1) (block_slots b))" using cnt used by simp
  have hok: "header_ok s ?m1 c a ?p" using ow sz by (simp add: header_ok_def)
  have fl: "q \<in> set (butlast (sp_free_lists s ! c)) \<longleftrightarrow> (if q = ?p then \<not> in_use ?m1 ?p else q \<in> set (sp_free_lists s ! c))" for q
  proof -
    have "set (sp_free_lists s ! c) = insert ?p (set (butlast (sp_free_lists s ! c)))" by (metis Un_insert_right app empty_set list.simps(15) set_append sup_bot_right)
    then show ?thesis using iu dis by auto
  qed
  have sh: "same_heap m ?m1" by (simp add: same_heap_def)
  have hh: "hdrs ?m1 = (hdrs m)(?p := ?hdr)" and db: "distinct (butlast (sp_free_lists s ! c))" using dis by simp_all
  note ch = slot_change [where k = "\<lambda>b. bk_used_count b + 1" and fl = "butlast (sp_free_lists s ! c)", OF inv so hh sh refl hok k db fl]
  have i: "slab_inv libs lv base ?s1 ?m1" and l: "\<And>q. live_header ?s1 ?m1 q \<longleftrightarrow> (if q = ?p then in_use ?m1 ?p else live_header s m q)"
    by (rule ch(1), rule ch(2))
  have lo: "live_out ?s1 ?m1 = (live_out s m)(UserFromHeader ?p \<mapsto> usize)"
    using live_out_change [OF l] iu by simp
  have no: "live_out s m (UserFromHeader ?p) = None"
    using slot_not_large [OF pl sp so] nu by (auto simp: live_out_def live_header_def)
  have "UserFromHeader ?p \<noteq> 0" using live_out_Some(4) [OF i, of "UserFromHeader ?p" usize] lo by simp
  then show ?thesis using res i lo no by (auto simp: set_used_same)
qed

lemma FreeToSlab_law:
  assumes inv: "slab_inv libs lv base s m" and so: "slot_of s c a b p" and iu: "in_use m p"
  shows "\<exists>s' m'. FreeToSlab p s m = Some (s', m') \<and> slab_inv libs lv base s' m' \<and>
    live_out s' m' = (live_out s m)(UserFromHeader p := None) \<and> sp_stats s' = sp_stats s \<and> sp_config s' = sp_config s"
proof -
  let ?own = "g_owned (mglob m)"
  have sp: "spaced ?own" and pl: "placed base ?own s" and hd: "headers_ok ?own s m" and fr: "free_ok s m"
    using inv g_owned_spaced by (auto simp: slab_inv_def)
  have c: "c < kNumSizeClasses" "(a, b) \<in> set (sp_blocks s ! c)" "p \<in> set (block_slots b)" using so by (simp_all add: slot_of_def)
  note pb = placed_block [OF pl c(1,2)] and sb = slot_bounds [OF pl sp so]
  have ho: "header_ok s m c a p" using hd so unfolding headers_ok_def by blast
  have ci: "unat (class_index (hdrs m p)) = c"
    using ho iu c(1) by (simp add: header_ok_def unat_of_nat kNumSizeClasses_def)
  let ?k = "\<lambda>b. if bk_used_count b > 0 then bk_used_count b - 1 else bk_used_count b"
  let ?m' = "set_header p ((hdrs m p)\<lparr>magic := 0\<rparr>) m"
  let ?s' = "(set_used a ?k s)\<lparr>sp_free_lists := (sp_free_lists s)[c := sp_free_lists s ! c @ [p]]\<rparr>"
  have res: "FreeToSlab p s m = Some (?s', ?m')"
    using ho pb(4) c(1) by (simp add: FreeToSlab_def Let_def ci header_ok_def update_owner_def update_block_used set_used_same)
  have nu: "\<not> in_use ?m' p" by (simp add: in_use_def kSlabMagic_def)
  have cnt: "length (filter (in_use m) (block_slots b)) = Suc (length (filter (in_use ?m') (block_slots b)))"
    by (rule filter_flip [of _ p]) (use sb(4) c(3) nu iu in \<open>auto simp: in_use_def\<close>)
  have "unat (bk_used_count b) = length (filter (in_use m) (block_slots b))" using hd c(1,2) unfolding headers_ok_def by blast
  then have u: "unat (bk_used_count b) = Suc (length (filter (in_use ?m') (block_slots b)))" using cnt by simp
  then have "0 < bk_used_count b" by (simp add: word_less_nat_alt)
  then have k: "unat (?k b) = length (filter (in_use ?m') (block_slots b))" using u by (simp add: unat_minus_one)
  have hok: "header_ok s ?m' c a p" using ho nu by (simp add: header_ok_def)
  have mem: "\<And>q. q \<in> set (sp_free_lists s ! c) \<longleftrightarrow> (\<exists>a b. slot_of s c a b q) \<and> \<not> in_use m q" and dis: "distinct (sp_free_lists s ! c)"
    using fr c(1) by (auto simp: free_ok_def)
  have fl: "q \<in> set (sp_free_lists s ! c @ [p]) \<longleftrightarrow> (if q = p then \<not> in_use ?m' p else q \<in> set (sp_free_lists s ! c))" for q
    using nu by auto
  have dl: "distinct (sp_free_lists s ! c @ [p])" using dis mem iu by auto
  have sh: "same_heap m ?m'" by (simp add: same_heap_def)
  have hh: "hdrs ?m' = (hdrs m)(p := (hdrs m p)\<lparr>magic := 0\<rparr>)" by simp
  note ch = slot_change [where k = ?k and fl = "sp_free_lists s ! c @ [p]", OF inv so hh sh refl hok k dl fl]
  have "live_out ?s' ?m' = (live_out s m)(UserFromHeader p := None)"
    using live_out_change [OF ch(2)] nu by simp
  then show ?thesis using res ch(1) by (auto simp: set_used_same)
qed

end
