(* ===== verification/CK_SlabPool_Blocks.thy ===== *)
theory CK_SlabPool_Blocks
  imports CK_SlabPool_Ops
begin

text \<open>The operations of a memory pool that obtain blocks from the global allocator and give them back.\<close>

section \<open>The global allocator under a pool\<close>

lemma GlobalAllocOrNull_law:
  assumes inv: "g_inv libs lv g h" and a: "GlobalAllocOrNull libs sz al g h = (raw, g', h')"
  shows "g_inv libs lv g' h' \<and>
     (if raw = 0 then g_owned g' = g_owned g else g_owned g raw = None \<and> g_owned g' = (g_owned g)(raw \<mapsto> sz) \<and> 0 < sz)"
proof -
  let ?al = "if al < sizeof_ptr then sizeof_ptr else al"
  obtain r g1 h1 where r: "Global_Allocate libs sz ?al g h = (r, g1, h1)" by (metis prod_cases3)
  have "raw = (if result_ok r then res_value r else 0)" "g' = g1" "h' = h1" using a r by (auto simp: GlobalAllocOrNull_def)
  then show ?thesis using glob.allocate_law [OF inv r] by (cases "result_ok r") auto
qed

lemma GlobalFreeIgnore_law:
  assumes inv: "g_inv libs lv g h" and p: "g_owned g p \<noteq> None" and f: "GlobalFreeIgnore libs p g h = (g', h')"
  shows "g_inv libs lv g' h' \<and> g_owned g' = (g_owned g)(p := None)"
proof -
  obtain st where "Global_Deallocate libs p g h = (st, g', h')" using f unfolding GlobalFreeIgnore_def by (metis prod.collapse)
  then show ?thesis using glob.deallocate_law [OF inv p] by blast
qed

lemma slab_inv_heap:
  assumes "slab_inv libs lv base s m" and "g_inv libs lv g' h'" and "g_owned g' = g_owned (mglob m)"
  shows "slab_inv libs lv base s (m\<lparr>mglob := g', mheap := h'\<rparr>)" and "live_out s (m\<lparr>mglob := g', mheap := h'\<rparr>) = live_out s m"
proof -
  have iu: "in_use (m\<lparr>mglob := g', mheap := h'\<rparr>) = in_use m" by (simp add: in_use_def fun_eq_iff)
  show "slab_inv libs lv base s (m\<lparr>mglob := g', mheap := h'\<rparr>)"
    using assms unfolding slab_inv_def headers_ok_def header_ok_def large_ok_def free_ok_def iu by simp
  show "live_out s (m\<lparr>mglob := g', mheap := h'\<rparr>) = live_out s m" by (simp add: live_out_def live_header_def iu Let_def fun_eq_iff)
qed

section \<open>A new block\<close>

lemma in_range_unat: "unat p + unat n \<le> 2 ^ 64 \<Longrightarrow> in_range p n q \<longleftrightarrow> unat p \<le> unat q \<and> unat q < unat p + unat n"
proof (cases "unat p \<le> unat q")
  case True
  then show ?thesis by (auto simp: in_range_def word_less_nat_alt unat_sub word_le_nat_alt)
next
  case False
  assume top: "unat p + unat n \<le> 2 ^ 64"
  have "unat (q - p) = 2 ^ 64 + unat q - unat p" using False by (simp add: unat_sub_if')
  then have "\<not> unat (q - p) < unat n" using top False by linarith
  then show ?thesis using False by (simp add: in_range_def word_less_nat_alt)
qed

lemma concat_append_mset:
  "c < length xss \<Longrightarrow> mset (concat (xss[c := xss ! c @ [x]])) = add_mset x (mset (concat xss))"
  using set_concat_update [of c xss "xss ! c @ [x]"] by simp

lemma map_concat_append:
  assumes "c < length xss"
  shows "distinct (map f (concat (xss[c := xss ! c @ [x]]))) \<longleftrightarrow> distinct (map f (concat xss)) \<and> f x \<notin> f ` set (concat xss)"
    and "set (concat (xss[c := xss ! c @ [x]])) = insert x (set (concat xss))"
proof -
  have m: "mset (concat (xss[c := xss ! c @ [x]])) = mset (x # concat xss)" using concat_append_mset [OF assms] by simp
  then show "set (concat (xss[c := xss ! c @ [x]])) = insert x (set (concat xss))" by (metis list.simps(15) mset_eq_setD)
  have "mset (map f (concat (xss[c := xss ! c @ [x]]))) = mset (map f (x # concat xss))" using m by (metis mset_map)
  then have "distinct (map f (concat (xss[c := xss ! c @ [x]]))) \<longleftrightarrow> distinct (map f (x # concat xss))" by (rule mset_eq_imp_distinct_iff)
  then show "distinct (map f (concat (xss[c := xss ! c @ [x]]))) \<longleftrightarrow> distinct (map f (concat xss)) \<and> f x \<notin> f ` set (concat xss)"
    by (auto simp del: set_concat)
qed

lemma populate_same:
  assumes "populate blk cell m = (slots, m')"
  shows "slots = map (slot_at blk) [1..<unat (bk_slab_count blk)]" and "mglob m' = mglob m" and "mheap m' = mheap m"
    and "hdrs m' q = (if q \<in> set slots then (hdrs m q)\<lparr>block_owner := Some cell\<rparr> else hdrs m q)"
proof -
  let ?f = "\<lambda>p m. set_header p ((hdrs m p)\<lparr>block_owner := Some cell\<rparr>) m"
  have f: "mglob (fold ?f ps m) = mglob m \<and> mheap (fold ?f ps m) = mheap m \<and>
      hdrs (fold ?f ps m) q = (if q \<in> set ps then (hdrs m q)\<lparr>block_owner := Some cell\<rparr> else hdrs m q)" for ps
    by (induction ps arbitrary: m) auto
  show "slots = map (slot_at blk) [1..<unat (bk_slab_count blk)]" using assms by (simp add: populate_def Let_def)
  then show "mglob m' = mglob m" "mheap m' = mheap m" "hdrs m' q = (if q \<in> set slots then (hdrs m q)\<lparr>block_owner := Some cell\<rparr> else hdrs m q)"
    using assms f unfolding populate_def Let_def by auto
qed

lemma memset_block_same:
  "hdrs (memset_block p n m) q = (if in_range p n q then zero_header else hdrs m q)"
  "mglob (memset_block p n m) = mglob m" "mheap (memset_block p n m) = mheap m"
  by (simp_all add: memset_block_def memset_bytes_def)

text \<open>A new block with its first slot in use, seen through its effects.\<close>

lemma block_added:
  assumes inv: "slab_inv libs lv base s m" and c: "c < kNumSizeClasses" and fl: "sp_free_lists s ! c = []"
    and g': "g_inv libs lv g' h'" and new: "g_owned (mglob m) raw = None" "g_owned g' = (g_owned (mglob m))(raw \<mapsto> pc_block_size (sp_config s))"
    and blk: "block_shape s c blk" "bk_base blk = raw" "bk_used_count blk = 1"
    and m': "mglob m' = g'" "mheap m' = h'"
    and old: "\<And>q. \<not> in_range raw (pc_block_size (sp_config s)) q \<Longrightarrow> hdrs m' q = hdrs m q"
    and slots: "\<And>q. q \<in> set (block_slots blk) \<Longrightarrow> header_ok s m' c (sp_next_cell s) q \<and> (in_use m' q \<longleftrightarrow> q = raw)"
    and s': "s' = s\<lparr>sp_blocks := (sp_blocks s)[c := sp_blocks s ! c @ [(sp_next_cell s, blk)]], sp_next_cell := Suc (sp_next_cell s),
               sp_free_lists := (sp_free_lists s)[c := tl (block_slots blk)]\<rparr>"
  shows "slab_inv libs lv base s' m'"
    and "live_header s' m' q \<longleftrightarrow> q = raw \<or> live_header s m q"
    and "\<not> live_header s m raw"
    and "live_header s m q \<Longrightarrow> hdrs m' q = hdrs m q"
proof -
  let ?own = "g_owned (mglob m)" and ?bs = "pc_block_size (sp_config s)" and ?cell = "sp_next_cell s"
  have sp: "spaced ?own" and pl: "placed base ?own s" and hd: "headers_ok ?own s m" and fr: "free_ok s m" and ls: "libs_spaced lv"
    using inv g_owned_spaced by (auto simp: slab_inv_def)
  have sp': "spaced (g_owned g')" by (rule g_owned_spaced [OF g' ls])
  have top: "unat raw + unat ?bs \<le> 2 ^ 64" using sp' new(2) unfolding spaced_def by (metis fun_upd_same)
  have len: "length (sp_blocks s) = kNumSizeClasses" "length (sp_free_lists s) = kNumSizeClasses" using pl fr by (auto simp: placed_def free_ok_def)
  have ss: "0 < bk_slab_size blk" using slab_bytes_unat [OF c, of s] blk(1) by (simp add: block_shape_def word_gt_0 unat_eq_zero [symmetric])
  have cnt: "bk_slab_count blk = ?bs div bk_slab_size blk" using blk(1) by (simp add: block_shape_def)
  have n0: "0 < unat (bk_slab_count blk)" using blk(1) unfolding block_shape_def by (metis neq0_conv unat_eq_zero)
  have bsl: "block_slots blk = raw # map (slot_at blk) [1..<unat (bk_slab_count blk)]"
    using n0 blk(2) by (simp add: block_slots_def upt_conv_Cons slot_at_def)
  have top': "unat (bk_base blk) + unat ?bs \<le> 2 ^ 64" using top blk(2) by simp
  have dsl: "distinct (block_slots blk)" by (rule block_slots_distinct [OF cnt top' ss])
  have unowned: "q \<noteq> raw" if "?own q \<noteq> None" for q using that new(1) by auto
  have apart: "unat raw + unat ?bs \<le> unat q \<or> unat q + unat n \<le> unat raw" if "?own q = Some n" for q n
  proof -
    have "g_owned g' q = Some n" "g_owned g' raw = Some ?bs" "q \<noteq> raw" using that unowned [of q] new(2) by auto
    then show ?thesis using sp' unfolding spaced_def by (metis)
  qed
  have slot_out: "\<not> in_range raw ?bs q" if so: "slot_of s c' a b q" for c' a b q
  proof -
    have "c' < kNumSizeClasses" "(a, b) \<in> set (sp_blocks s ! c')" using so by (auto simp: slot_of_def)
    note ap = apart [OF placed_block(2) [OF pl this]]
    have "0 < unat (slab_bytes s c')" using slab_bytes_unat [of c' s] so by (simp add: slot_of_def)
    then show ?thesis using ap slot_bounds(1,2) [OF pl sp so] unfolding in_range_unat [OF top] by linarith
  qed
  have large_out: "\<not> in_range raw ?bs q" if l: "q \<in> set (sp_large s)" for q
  proof -
    obtain n where n: "?own q = Some n" "unat n = 24 + unat (user_size (hdrs m q)) + guard_bytes s"
      using hd l by (auto simp: headers_ok_def large_ok_def)
    then show ?thesis using apart [OF n(1)] unfolding in_range_unat [OF top] by linarith
  qed
  have raw_in: "in_range raw ?bs raw"
  proof -
    have "0 < unat ?bs div unat (bk_slab_size blk)" using n0 unfolding cnt by (simp add: unat_div)
    then have "?bs \<noteq> 0" by (metis div_0 less_irrefl unat_0)
    then show ?thesis by (simp add: in_range_def word_gt_0)
  qed
  show raw_new: "\<not> live_header s m raw" using raw_in slot_out large_out by (auto simp: live_header_def)
  have so: "slot_of s' c' a b q \<longleftrightarrow> slot_of s c' a b q \<or> c' = c \<and> a = ?cell \<and> b = blk \<and> q \<in> set (block_slots blk)" for c' a b q
    using c len by (cases "c' = c") (auto simp: slot_of_def s')
  have old_slot: "hdrs m' q = hdrs m q" "in_use m' q = in_use m q" if "slot_of s c' a b q" for c' a b q
    using old [OF slot_out [OF that]] by (simp_all add: in_use_def)
  have old_large: "hdrs m' q = hdrs m q" "in_use m' q = in_use m q" if "q \<in> set (sp_large s)" for q
    using old [OF large_out [OF that]] by (simp_all add: in_use_def)
  show "live_header s m q \<Longrightarrow> hdrs m' q = hdrs m q" using old_slot old_large by (auto simp: live_header_def)
  have raw_slot: "raw \<in> set (block_slots blk)" using bsl by simp
  show lh: "live_header s' m' q \<longleftrightarrow> q = raw \<or> live_header s m q"
    using so slots raw_slot old_slot(2) unfolding live_header_def by (auto simp: s')
  have cs: "set (cells s') = insert ?cell (set (cells s))" "distinct (cells s')"
    "set (bases s') = insert raw (set (bases s))" "distinct (bases s')"
  proof -
    have cl: "c < length (sp_blocks s)" using c len by simp
    have "?cell \<notin> set (cells s)" "raw \<notin> set (bases s)" "distinct (cells s)" "distinct (bases s)"
      using pl new(1) unfolding placed_def by (blast, force, simp_all)
    then show "set (cells s') = insert ?cell (set (cells s))" "distinct (cells s')"
      "set (bases s') = insert raw (set (bases s))" "distinct (bases s')"
      using map_concat_append(1) [OF cl, of fst "(?cell, blk)"] map_concat_append(1) [OF cl, of "bk_base \<circ> snd" "(?cell, blk)"]
        map_concat_append(2) [OF cl, of "(?cell, blk)"] blk(2)
      by (simp_all add: s' cells_def bases_def del: set_concat)
  qed
  have rl: "raw \<notin> set (sp_large s)" and br: "base raw = None"
    using pl new(1) unfolding placed_def by (blast, metis)
  have lg: "sp_large s' = sp_large s" by (simp add: s')
  have "placed base (g_owned g') s'"
    unfolding placed_def
  proof (intro conjI)
    show "length (sp_blocks s') = kNumSizeClasses" using len by (simp add: s')
    show "distinct (cells s')" by (rule cs(2))
    show "\<forall>a\<in>set (cells s'). a < sp_next_cell s'" using pl unfolding cs(1) by (auto simp: placed_def s')
    show "distinct (bases s' @ sp_large s')" using pl cs(3,4) rl by (auto simp: placed_def s')
    show "\<forall>c<kNumSizeClasses. \<forall>(a, b)\<in>set (sp_blocks s' ! c). block_shape s' c b"
    proof (intro allI impI ballI)
      fix c' ab assume c': "c' < kNumSizeClasses" "ab \<in> set (sp_blocks s' ! c')"
      have sh: "block_shape s' = block_shape s" by (simp add: fun_eq_iff block_shape_def slab_bytes_def s')
      have "ab \<in> set (sp_blocks s ! c') \<or> c' = c \<and> ab = (?cell, blk)" using c' c len by (cases "c' = c") (auto simp: s')
      then show "case ab of (a, b) \<Rightarrow> block_shape s' c' b"
        using placed_block(1) [OF pl c'(1)] blk(1) unfolding sh by (cases ab) auto
    qed
    show "\<forall>q\<in>set (bases s'). g_owned g' q = Some (pc_block_size (sp_config s'))"
      using pl unfolding cs(3) new(2) by (auto simp: placed_def s')
    show "\<forall>q\<in>set (sp_large s'). g_owned g' q \<noteq> None" using pl unfolding new(2) by (auto simp: placed_def s')
    show "\<forall>q. if q \<in> set (bases s' @ sp_large s') then base q = None else g_owned g' q = base q"
    proof
      fix q
      have "if q \<in> set (bases s @ sp_large s) then base q = None else ?own q = base q" using pl unfolding placed_def by blast
      then show "if q \<in> set (bases s' @ sp_large s') then base q = None else g_owned g' q = base q"
        using br lg by (auto simp: cs(3) new(2) split: if_splits)
    qed
  qed
  moreover have "headers_ok (g_owned g') s' m'"
    unfolding headers_ok_def
  proof (intro conjI allI impI ballI)
    fix c' a b assume c': "c' < kNumSizeClasses" and i: "(a, b) \<in> set (sp_blocks s' ! c')"
    show "unat (bk_used_count b) = length (filter (in_use m') (block_slots b))"
    proof (cases "(a, b) \<in> set (sp_blocks s ! c')")
      case True
      have "filter (in_use m') (block_slots b) = filter (in_use m) (block_slots b)"
        by (intro filter_cong refl) (use old_slot(2) [of c' a b] c' True in \<open>simp add: slot_of_def\<close>)
      then show ?thesis using hd c' True unfolding headers_ok_def by metis
    next
      case False
      then have "b = blk" using i c len by (cases "c' = c") (auto simp: s')
      moreover have "filter (in_use m') (block_slots blk) = [raw]"
      proof -
        have "filter (in_use m') (block_slots blk) = filter (\<lambda>q. q = raw) (block_slots blk)"
          by (intro filter_cong refl) (use slots in blast)
        also have "\<dots> = [raw]" using dsl unfolding bsl by (auto simp: filter_empty_conv)
        finally show ?thesis .
      qed
      ultimately show ?thesis using blk(3) by simp
    qed
  next
    fix c' a b q assume "slot_of s' c' a b q"
    then consider (old) "slot_of s c' a b q" | (new) "c' = c" "a = ?cell" "q \<in> set (block_slots blk)" using so by blast
    then show "header_ok s' m' c' a q"
    proof cases
      case old
      then have "header_ok s m c' a q" using hd unfolding headers_ok_def by blast
      then show ?thesis using old_slot [OF old] by (simp add: header_ok_def)
    next
      case new
      have "header_ok s m' c ?cell q" using slots new(3) by blast
      then show ?thesis using new(1,2) by (simp add: header_ok_def)
    qed
  next
    fix q assume "q \<in> set (sp_large s')"
    then have l: "q \<in> set (sp_large s)" by (simp add: s')
    then have "large_ok ?own s m q" using hd unfolding headers_ok_def by blast
    then show "large_ok (g_owned g') s' m' q" using old_large [OF l] rl l unfolding large_ok_def new(2) by (auto simp: s' guard_bytes_def)
  qed
  moreover have "free_ok s' m'"
    unfolding free_ok_def
  proof (intro conjI allI impI)
    show "length (sp_free_lists s') = kNumSizeClasses" using len by (simp add: s')
    fix c' assume c': "c' < kNumSizeClasses"
    have f: "distinct (sp_free_lists s ! c')" "\<And>q. q \<in> set (sp_free_lists s ! c') \<longleftrightarrow> (\<exists>a b. slot_of s c' a b q) \<and> \<not> in_use m q"
      using fr c' by (auto simp: free_ok_def)
    show "distinct (sp_free_lists s' ! c')" using f(1) dsl c' len by (cases "c' = c") (simp_all add: s' distinct_tl)
    fix q
    have tlq: "q \<in> set (tl (block_slots blk)) \<longleftrightarrow> q \<in> set (block_slots blk) \<and> q \<noteq> raw" using dsl unfolding bsl by auto
    show "q \<in> set (sp_free_lists s' ! c') \<longleftrightarrow> (\<exists>a b. slot_of s' c' a b q) \<and> \<not> in_use m' q"
    proof (cases "c' = c")
      case True
      have "\<not> (\<exists>a b. slot_of s c a b q \<and> \<not> in_use m q)" using f(2) [of q] fl True by auto
      then show ?thesis using True so tlq slots old_slot(2) c len by (auto simp: s')
    next
      case False
      then show ?thesis using so f(2) old_slot(2) by (auto simp: s')
    qed
  qed
  ultimately show "slab_inv libs lv base s' m'" using inv g' m' by (simp add: slab_inv_def s')
qed

text \<open>What an allocation of \<open>sz\<close> bytes that returned \<open>u\<close> did to the memory clients hold.\<close>

definition alloc_outcome :: "'h Libs \<Rightarrow> (AllocBackend \<Rightarrow> 'h \<Rightarrow> blocks) \<Rightarrow> blocks \<Rightarrow> size_t \<Rightarrow> SlabPool \<Rightarrow> 'h Mem \<Rightarrow> ptr \<Rightarrow> SlabPool \<Rightarrow> 'h Mem \<Rightarrow> bool" where
  "alloc_outcome libs lv base sz s m u s' m' \<longleftrightarrow> slab_inv libs lv base s' m' \<and>
     st_bytes_in_use (sp_stats s') = st_bytes_in_use (sp_stats s) \<and> sp_config s' = sp_config s \<and>
     (if u = 0 then live_out s' m' = live_out s m else live_out s m u = None \<and> live_out s' m' = (live_out s m)(u \<mapsto> sz))"

lemma alloc_new_block_law:
  assumes inv: "slab_inv libs lv base s m" and c: "c < kNumSizeClasses" and fl: "sp_free_lists s ! c = []"
    and sz: "0 < usize" "usize \<le> kSizeClasses ! c" and a: "alloc_new_block libs c usize s m = (u, s', m')"
  shows "alloc_outcome libs lv base usize s m u s' m'"
proof -
  let ?ss = "slab_bytes s c" and ?bs = "pc_block_size (sp_config s)" and ?cell = "sp_next_cell s"
  let ?n = "?bs div ?ss"
  have gi: "g_inv libs lv (mglob m) (mheap m)" and ls: "libs_spaced lv" using inv by (auto simp: slab_inv_def)
  obtain raw g' h' where al: "GlobalAllocOrNull libs ?bs sizeof_ptr (mglob m) (mheap m) = (raw, g', h')" by (metis prod_cases3)
  note law = GlobalAllocOrNull_law [OF gi al]
  consider (none) "?n = 0" "u = 0" "s' = s" "m' = m" | (null) "?n \<noteq> 0" "raw = 0" "u = 0" "s' = s" "m' = m\<lparr>mglob := g', mheap := h'\<rparr>"
    | (block) "?n \<noteq> 0" "raw \<noteq> 0" using a al by (auto simp: alloc_new_block_def Let_def split: if_splits)
  then show ?thesis
  proof cases
    case none
    then show ?thesis using inv by (simp add: alloc_outcome_def)
  next
    case null
    then show ?thesis using slab_inv_heap [OF inv, of g' h'] law by (simp add: alloc_outcome_def)
  next
    case block
    let ?blk = "\<lparr>bk_base = raw, bk_total_bytes = ?bs, bk_slab_size = ?ss, bk_slab_count = ?n, bk_used_count = 1\<rparr>"
    let ?m1 = "memset_block raw ?bs (m\<lparr>mglob := g', mheap := h'\<rparr>)"
    obtain slots m2 where pop: "populate ?blk ?cell ?m1 = (slots, m2)" by (metis surj_pair)
    note ps = populate_same [OF pop]
    let ?hdr = "(hdrs m2 raw)\<lparr>magic := kSlabMagic, class_index := of_nat c, hflags := guard_flag s, user_size := usize, block_owner := Some ?cell\<rparr>"
    have res: "u = UserFromHeader raw" "m' = write_guard_if s (UserFromHeader raw) usize (kSizeClasses ! c) (set_header raw ?hdr m2)"
      "s' = (s\<lparr>sp_blocks := (sp_blocks s)[c := sp_blocks s ! c @ [(?cell, ?blk)]], sp_next_cell := Suc ?cell,
          sp_free_lists := (sp_free_lists s)[c := slots]\<rparr>)\<lparr>sp_stats := (sp_stats s)\<lparr>st_slab_misses := st_slab_misses (sp_stats s) + 1\<rparr>\<rparr>"
      using a block al pop fl by (auto simp: alloc_new_block_def Let_def split: prod.splits)
    have new: "g_inv libs lv g' h'" "g_owned (mglob m) raw = None" "g_owned g' = (g_owned (mglob m))(raw \<mapsto> ?bs)"
      using law block by auto
    have top: "unat raw + unat ?bs \<le> 2 ^ 64"
      using g_owned_spaced [OF new(1) ls] new(3) unfolding spaced_def by (metis fun_upd_same)
    have n0: "0 < unat ?n" using block(1) by (metis neq0_conv unat_eq_zero)
    have ss: "0 < ?ss" using slab_bytes_unat [OF c, of s] by (simp add: word_gt_0 unat_eq_zero [symmetric])
    have bsl: "block_slots ?blk = raw # slots"
      unfolding ps(1) using n0 by (simp add: block_slots_def upt_conv_Cons slot_at_def)
    have in_blk: "in_range raw ?bs q" if q: "q \<in> set (block_slots ?blk)" for q
    proof -
      obtain i where i: "i < unat ?n" "q = slot_at ?blk i" using q by (auto simp: block_slots_def)
      have "0 < unat ?ss" using ss by (simp add: word_less_nat_alt)
      then show ?thesis using slot_addr [of ?blk ?bs i] i top ss unfolding in_range_unat [OF top] by auto
    qed
    have sh: "block_shape s c ?blk" using block(1) by (simp add: block_shape_def)
    have dsl: "distinct (block_slots ?blk)" using block_slots_distinct [of ?blk ?bs] top ss by simp
    have hd: "hdrs m' q = (if q = raw then ?hdr else if q \<in> set slots then zero_header\<lparr>block_owner := Some ?cell\<rparr>
        else if in_range raw ?bs q then zero_header else hdrs m q)" for q
      using ps(4) [of q] in_blk [of q] bsl by (auto simp: res(2) memset_block_same)
    have old: "hdrs m' q = hdrs m q" if "\<not> in_range raw ?bs q" for q using hd [of q] in_blk [of q] bsl that by auto
    have z: "magic zero_header \<noteq> kSlabMagic" by (simp add: zero_header_def kSlabMagic_def)
    have sl: "header_ok s m' c ?cell q \<and> (in_use m' q \<longleftrightarrow> q = raw)" if "q \<in> set (block_slots ?blk)" for q
      using hd [of q] that bsl sz z by (auto simp: header_ok_def in_use_def)
    have tl: "slots = tl (block_slots ?blk)" using bsl by simp
    have mg: "mglob m' = g'" "mheap m' = h'" using ps(2,3) by (simp_all add: res(2) memset_block_same)
    let ?s1 = "s\<lparr>sp_blocks := (sp_blocks s)[c := sp_blocks s ! c @ [(?cell, ?blk)]], sp_next_cell := Suc ?cell,
          sp_free_lists := (sp_free_lists s)[c := tl (block_slots ?blk)]\<rparr>"
    have bb: "bk_base ?blk = raw" "bk_used_count ?blk = 1" by simp_all
    note ad = block_added [OF inv c fl new sh bb mg old sl refl]
    have si: "slab_inv libs lv base s' m'" using ad(1) unfolding res(3) tl by simp
    have lo: "live_out s' m' = (live_out s m)(u \<mapsto> usize)"
    proof -
      have lh: "live_header s' m' q \<longleftrightarrow> q = raw \<or> live_header s m q" for q using ad(2) unfolding res(3) tl by simp
      have uh: "user_size (hdrs m' raw) = usize" using hd [of raw] by simp
      show ?thesis
      proof
        fix v
        show "live_out s' m' v = ((live_out s m)(u \<mapsto> usize)) v"
        proof (cases "HeaderFromUser v = raw")
          case True
          then have "v = u" using res(1) by auto
          then show ?thesis using lh uh res(1) by (simp add: live_out_def)
        next
          case False
          then have "v \<noteq> u" using res(1) by auto
          then show ?thesis using False lh ad(4) by (simp add: live_out_def Let_def)
        qed
      qed
    qed
    have "live_out s m u = None" using ad(3) by (simp add: live_out_def res(1))
    moreover have "u \<noteq> 0" using live_out_Some(4) [OF si, of u usize] lo by simp
    ultimately show ?thesis using si lo by (simp add: alloc_outcome_def res(3))
  qed
qed

section \<open>Large allocations\<close>

lemma large_change:
  assumes inv: "slab_inv libs lv base s m" and g': "g_inv libs lv (mglob m') (mheap m')"
    and own: "\<And>q. q \<noteq> raw \<Longrightarrow> g_owned (mglob m') q = g_owned (mglob m) q"
    and hd: "\<And>q. q \<noteq> raw \<Longrightarrow> hdrs m' q = hdrs m q"
    and free: "base raw = None" "raw \<notin> set (bases s)" "\<And>c a b. \<not> slot_of s c a b raw"
    and l': "distinct l'" "set l' - {raw} = set (sp_large s) - {raw}"
    and cases: "if raw \<in> set l' then large_ok (g_owned (mglob m')) s m' raw else g_owned (mglob m') raw = None"
  shows "slab_inv libs lv base (s\<lparr>sp_large := l'\<rparr>) m'"
    and "live_header (s\<lparr>sp_large := l'\<rparr>) m' q \<longleftrightarrow> (if q = raw then raw \<in> set l' else live_header s m q)"
proof -
  let ?own = "g_owned (mglob m)" and ?own' = "g_owned (mglob m')" and ?s' = "s\<lparr>sp_large := l'\<rparr>"
  have pl: "placed base ?own s" and ho: "headers_ok ?own s m" and fr: "free_ok s m" using inv by (auto simp: slab_inv_def)
  have mem: "q \<in> set l' \<longleftrightarrow> q \<in> set (sp_large s)" if "q \<noteq> raw" for q using l'(2) that by blast
  have so: "slot_of ?s' = slot_of s" by (simp add: fun_eq_iff slot_of_def)
  have bs: "bases ?s' = bases s" "cells ?s' = cells s" by (simp_all add: bases_def cells_def)
  have iu: "in_use m' q = in_use m q" if "q \<noteq> raw" for q using hd [OF that] by (simp add: in_use_def)
  have slot_ne: "q \<noteq> raw" if "slot_of s c a b q" for c a b q using free(3) that by auto
  have bl: "set (bases s) \<inter> set l' = {}"
  proof -
    have "set (bases s) \<inter> set (sp_large s) = {}" using pl by (simp add: placed_def)
    moreover have "set l' \<subseteq> insert raw (set (sp_large s))" using l'(2) by auto
    ultimately show ?thesis using free(2) by auto
  qed
  have "placed base ?own' ?s'"
    unfolding placed_def bs
  proof (intro conjI)
    show "distinct (bases s @ sp_large ?s')" using pl bl l'(1) by (simp add: placed_def)
    show "\<forall>c<kNumSizeClasses. \<forall>(a, b)\<in>set (sp_blocks ?s' ! c). block_shape ?s' c b"
      using pl by (simp add: placed_def block_shape_def slab_bytes_def)
    show "\<forall>q\<in>set (bases s). ?own' q = Some (pc_block_size (sp_config ?s'))"
    proof
      fix q assume "q \<in> set (bases s)"
      then show "?own' q = Some (pc_block_size (sp_config ?s'))" using own [of q] free(2) pl by (auto simp: placed_def)
    qed
    show "\<forall>q\<in>set (sp_large ?s'). ?own' q \<noteq> None"
    proof
      fix q assume q: "q \<in> set (sp_large ?s')"
      then show "?own' q \<noteq> None"
      proof (cases "q = raw")
        case True
        then show ?thesis using q cases by (auto simp: large_ok_def)
      next
        case False
        then have "q \<in> set (sp_large s)" using q mem by simp
        then show ?thesis using pl own [OF False] unfolding placed_def by metis
      qed
    qed
    show "\<forall>q. if q \<in> set (bases s @ sp_large ?s') then base q = None else ?own' q = base q"
    proof
      fix q
      have "if q \<in> set (bases s @ sp_large s) then base q = None else ?own q = base q" using pl unfolding placed_def by blast
      then show "if q \<in> set (bases s @ sp_large ?s') then base q = None else ?own' q = base q"
        using own [of q] mem [of q] free(1) cases by (cases "q = raw") (auto split: if_splits)
    qed
  qed (use pl in \<open>simp_all add: placed_def\<close>)
  moreover have "headers_ok ?own' ?s' m'"
    unfolding headers_ok_def so
  proof (intro conjI allI impI ballI)
    fix c a b assume c: "c < kNumSizeClasses" "(a, b) \<in> set (sp_blocks ?s' ! c)"
    have "filter (in_use m') (block_slots b) = filter (in_use m) (block_slots b)"
      by (intro filter_cong refl) (use c iu slot_ne [of c a b] in \<open>simp add: slot_of_def\<close>)
    moreover have "unat (bk_used_count b) = length (filter (in_use m) (block_slots b))"
      using ho c unfolding headers_ok_def by simp
    ultimately show "unat (bk_used_count b) = length (filter (in_use m') (block_slots b))" by simp
  next
    fix c a b p assume sl: "slot_of s c a b p"
    then have "header_ok s m c a p" using ho unfolding headers_ok_def by blast
    then show "header_ok ?s' m' c a p" using hd [OF slot_ne [OF sl]] iu [OF slot_ne [OF sl]] by (simp add: header_ok_def)
  next
    fix q assume q: "q \<in> set (sp_large ?s')"
    show "large_ok ?own' ?s' m' q"
    proof (cases "q = raw")
      case True
      then show ?thesis using q cases by (simp add: large_ok_def guard_bytes_def)
    next
      case False
      then have "large_ok ?own s m q" using q mem ho by (simp add: headers_ok_def)
      then show ?thesis using hd [OF False] iu [OF False] own [OF False] by (simp add: large_ok_def guard_bytes_def)
    qed
  qed
  moreover have "free_ok ?s' m'"
  proof -
    have "(\<exists>a b. slot_of s c a b p) \<and> \<not> in_use m' p \<longleftrightarrow> (\<exists>a b. slot_of s c a b p) \<and> \<not> in_use m p" for c p
      using iu slot_ne by blast
    then show ?thesis using fr unfolding free_ok_def so by simp
  qed
  ultimately show "slab_inv libs lv base ?s' m'" using inv g' by (simp add: slab_inv_def)
  show "live_header ?s' m' q \<longleftrightarrow> (if q = raw then raw \<in> set l' else live_header s m q)"
    using mem [of q] iu [of q] free(3) by (auto simp: live_header_def so)
qed

lemma AllocLarge_law:
  assumes inv: "slab_inv libs lv base s m" and sz: "0 < sz" "unat sz + 32 < 2 ^ 64" "4096 < sz" and a: "AllocLarge libs sz al s m = (u, s', m')"
  shows "alloc_outcome libs lv base sz s m u s' m'"
proof -
  let ?total = "sizeof_SlabHeader + sz + (if pc_enable_guard_bytes (sp_config s) then kGuardSize else 0)"
  let ?al = "if al < sizeof_ptr then sizeof_ptr else al" and ?own = "g_owned (mglob m)"
  have gi: "g_inv libs lv (mglob m) (mheap m)" and ls: "libs_spaced lv" and pl: "placed base ?own s" and sp: "spaced ?own"
    using inv g_owned_spaced by (auto simp: slab_inv_def)
  obtain raw g' h' where ga: "GlobalAllocOrNull libs ?total ?al (mglob m) (mheap m) = (raw, g', h')" by (metis prod_cases3)
  note law = GlobalAllocOrNull_law [OF gi ga]
  have tot: "unat ?total = 24 + unat sz + guard_bytes s"
  proof -
    have "unat (sizeof_SlabHeader + sz) = 24 + unat sz" using sz(2) by (simp add: sizeof_SlabHeader_def unat_add_noflow)
    then show ?thesis using sz(2) by (simp add: guard_bytes_def kGuardSize_def unat_add_noflow)
  qed
  show ?thesis
  proof (cases "raw = 0")
    case True
    then have "u = 0" "s' = s" "m' = m\<lparr>mglob := g', mheap := h'\<rparr>" using a ga by (auto simp: AllocLarge_def Let_def split: if_splits)
    then show ?thesis using slab_inv_heap [OF inv, of g' h'] law True by (simp add: alloc_outcome_def)
  next
    case False
    let ?hdr = "\<lparr>magic = kSlabMagic, class_index = 0xFFFF, hflags = guard_flag s, user_size = sz, block_owner = None\<rparr>"
    have res: "u = UserFromHeader raw" "s' = s\<lparr>sp_large := sp_large s @ [raw]\<rparr>"
      "m' = write_guard_if s (UserFromHeader raw) sz sz (set_header raw ?hdr (m\<lparr>mglob := g', mheap := h'\<rparr>))"
      using a ga False by (auto simp: AllocLarge_def Let_def split: if_splits)
    have new: "g_inv libs lv g' h'" "?own raw = None" "g_owned g' = ?own(raw \<mapsto> ?total)" using law False by auto
    have mg: "mglob m' = g'" "mheap m' = h'" by (simp_all add: res(3))
    have nb: "raw \<notin> set (bases s)" "raw \<notin> set (sp_large s)" "base raw = None"
      using pl new(2) unfolding placed_def by (force, blast, metis)
    have ns: "\<not> slot_of s c a b raw" for c a b
    proof
      assume so: "slot_of s c a b raw"
      then have c: "c < kNumSizeClasses" "(a, b) \<in> set (sp_blocks s ! c)" by (auto simp: slot_of_def)
      note pb = placed_block [OF pl c] and sb = slot_bounds(1,2) [OF pl sp so]
      have "raw \<noteq> bk_base b" using pb(3) nb(1) by auto
      then have "unat (bk_base b) + unat (pc_block_size (sp_config s)) \<le> unat raw \<or> unat raw + unat ?total \<le> unat (bk_base b)"
        using g_owned_spaced [OF new(1) ls] pb(2) new(2) unfolding new(3) spaced_def by (metis fun_upd_other fun_upd_same)
      moreover have "unat (bk_base b) \<noteq> unat raw" using \<open>raw \<noteq> bk_base b\<close> by (simp add: word_unat_eq_iff)
      ultimately show False using sb slab_bytes_unat [OF c(1), of s] by linarith
    qed
    have cs: "if raw \<in> set (sp_large s @ [raw]) then large_ok (g_owned (mglob m')) s m' raw else g_owned (mglob m') raw = None"
      using sz(1,3) tot by (simp add: large_ok_def mg new(3) in_use_def res(3))
    have ow: "g_owned (mglob m') q = ?own q" "hdrs m' q = hdrs m q" if "q \<noteq> raw" for q
      using that by (simp_all add: mg new(3)) (simp add: res(3))
    have d: "distinct (sp_large s @ [raw])" "set (sp_large s @ [raw]) - {raw} = set (sp_large s) - {raw}"
      using pl nb(2) by (auto simp: placed_def)
    have g2: "g_inv libs lv (mglob m') (mheap m')" using new(1) mg by simp
    note ch = large_change [OF inv g2 ow nb(3) nb(1) ns d cs]
    have si: "slab_inv libs lv base s' m'" using ch(1) res(2) by simp
    have us: "user_size (hdrs m' raw) = sz" by (simp add: res(3))
    have lh: "live_header s' m' q \<longleftrightarrow> (if q = raw then True else live_header s m q)" for q
      using ch(2) [of q] by (simp add: res(2))
    have lo: "live_out s' m' = (live_out s m)(u \<mapsto> sz)" using live_out_change [OF lh ow(2)] us res(1) by simp
    have "\<not> live_header s m raw" using nb(2) ns by (auto simp: live_header_def)
    then have "live_out s m u = None" by (simp add: live_out_def res(1))
    moreover have "u \<noteq> 0" using live_out_Some(4) [OF si, of u sz] lo by simp
    ultimately show ?thesis using si lo by (simp add: alloc_outcome_def res(2))
  qed
qed

lemma swap_remove_mset: "p \<in> set xs \<Longrightarrow> add_mset p (mset (swap_remove p xs)) = mset xs"
proof (induction xs)
  case (Cons x xs)
  show ?case
  proof (cases "x = p \<and> xs \<noteq> []")
    case True
    then have "add_mset (last xs) (mset (butlast xs)) = mset xs" by (metis append_butlast_last_id mset_append mset_single_iff_right union_mset_add_mset_right add.right_neutral mset.simps)
    then show ?thesis using True by simp
  next
    case False
    then show ?thesis using Cons by auto
  qed
qed simp

lemma FreeLarge_law:
  assumes inv: "slab_inv libs lv base s m" and l: "raw \<in> set (sp_large s)" and f: "FreeLarge libs raw s m = (s', m')"
  shows "slab_inv libs lv base s' m' \<and> live_out s' m' = (live_out s m)(UserFromHeader raw := None) \<and> sp_stats s' = sp_stats s \<and>
     sp_config s' = sp_config s"
proof -
  let ?own = "g_owned (mglob m)"
  have gi: "g_inv libs lv (mglob m) (mheap m)" and pl: "placed base ?own s" and sp: "spaced ?own"
    using inv g_owned_spaced by (auto simp: slab_inv_def)
  obtain g' h' where gf: "GlobalFreeIgnore libs raw (mglob m) (mheap m) = (g', h')" by (metis surj_pair)
  have "?own raw \<noteq> None" using pl l unfolding placed_def by blast
  note law = GlobalFreeIgnore_law [OF gi this gf]
  have res: "s' = s\<lparr>sp_large := swap_remove raw (sp_large s)\<rparr>"
    "m' = (set_header raw ((hdrs m raw)\<lparr>magic := 0\<rparr>) m)\<lparr>mglob := g', mheap := h'\<rparr>"
    using f gf by (auto simp: FreeLarge_def Let_def)
  have ms: "mset (sp_large s) = mset (raw # swap_remove raw (sp_large s))" using swap_remove_mset [OF l] by simp
  have "distinct (sp_large s)" using pl by (simp add: placed_def)
  then have "distinct (raw # swap_remove raw (sp_large s))" using mset_eq_imp_distinct_iff [OF ms] by blast
  moreover have "set (sp_large s) = set (raw # swap_remove raw (sp_large s))" by (rule mset_eq_setD [OF ms])
  ultimately have d: "distinct (swap_remove raw (sp_large s))" "raw \<notin> set (swap_remove raw (sp_large s))"
      "set (swap_remove raw (sp_large s)) - {raw} = set (sp_large s) - {raw}" by auto
  have nb: "base raw = None" "raw \<notin> set (bases s)" using pl l unfolding placed_def by (metis UnCI set_append, auto)
  have ns: "\<not> slot_of s c a b raw" for c a b using slot_not_large [OF pl sp] l by blast
  have mg: "mglob m' = g'" "mheap m' = h'" by (simp_all add: res(2))
  have ow: "g_owned (mglob m') q = ?own q" "hdrs m' q = hdrs m q" if "q \<noteq> raw" for q
    using that law by (simp_all add: mg) (simp add: res(2))
  have cs: "if raw \<in> set (swap_remove raw (sp_large s)) then large_ok (g_owned (mglob m')) s m' raw else g_owned (mglob m') raw = None"
    using d(2) law by (simp add: mg)
  have g2: "g_inv libs lv (mglob m') (mheap m')" using law mg by simp
  note ch = large_change [OF inv g2 ow nb ns d(1,3) cs]
  have lh: "live_header s' m' q \<longleftrightarrow> (if q = raw then False else live_header s m q)" for q using ch(2) [of q] d(2) by (simp add: res(1))
  show ?thesis using live_out_change [OF lh ow(2)] ch(1) by (simp add: res(1))
qed

end
