(* ===== verification/CK_SlabPool_Props.thy ===== *)
theory CK_SlabPool_Props
  imports CK_SlabPool_Blocks
begin

text \<open>
  The properties of the memory pool: runs of allocations and releases are safe, exact in their
  accounting and within the budget; the destructor gives everything back; and two ways in which the
  code fails, a request near the end of the size type and \<open>Shrink\<close> while slots are in use.
\<close>

section \<open>Allocation and release\<close>

lemma class_search_spec:
  "class_search i cs sz = r \<Longrightarrow> i + length cs = kNumSizeClasses \<Longrightarrow> r < kNumSizeClasses \<Longrightarrow>
     i \<le> r \<and> sz \<le> cs ! (r - i) \<and> (\<forall>j<r - i. cs ! j < sz)"
proof (induction cs arbitrary: i)
  case (Cons c cs)
  show ?case
  proof (cases "sz \<le> c")
    case True
    then show ?thesis using Cons.prems by simp
  next
    case False
    then have "Suc i \<le> r \<and> sz \<le> cs ! (r - Suc i) \<and> (\<forall>j<r - Suc i. cs ! j < sz)" using Cons by simp
    moreover from this have "r - i = Suc (r - Suc i)" by (simp add: Suc_diff_Suc Suc_le_eq)
    ultimately show ?thesis using False by (auto simp: nth_Cons not_le split: nat.splits)
  qed
qed simp

lemma SizeClassIndex_spec:
  assumes "SizeClassIndex sz = c"
  shows "c < kNumSizeClasses \<Longrightarrow> sz \<le> kSizeClasses ! c \<and> (\<forall>j<c. kSizeClasses ! j < sz)"
    and "c < kNumSizeClasses \<longleftrightarrow> sz \<le> 4096"
proof -
  show "c < kNumSizeClasses \<Longrightarrow> sz \<le> kSizeClasses ! c \<and> (\<forall>j<c. kSizeClasses ! j < sz)"
    using class_search_spec [of 0 kSizeClasses sz c] assms by (simp add: SizeClassIndex_def kSizeClasses_def kNumSizeClasses_def)
  show "c < kNumSizeClasses \<longleftrightarrow> sz \<le> 4096"
    using assms by (auto simp: SizeClassIndex_def kSizeClasses_def kNumSizeClasses_def word_le_nat_alt split: if_splits)
qed

lemma count_alloc_counted:
  assumes inv: "slab_inv libs lv base s' m'" and cn: "counted s m" and sz: "live_out s m u = None" "live_out s' m' = (live_out s m)(u \<mapsto> sz)"
    and st: "st_bytes_in_use (sp_stats s') = st_bytes_in_use (sp_stats s)" "sp_config s' = sp_config s"
    and budget: "\<not> (pc_max_bytes (sp_config s) > 0 \<and> st_bytes_in_use (sp_stats s) + sz > pc_max_bytes (sp_config s))"
  shows "counted (count_alloc sz s') m'"
proof -
  have f: "finite (dom (live_out s m))" by simp
  have b: "block_bytes (live_out s' m') = block_bytes (live_out s m) + unat sz" unfolding sz(2) by (rule block_bytes_new [OF f sz(1)])
  have "unat (st_bytes_in_use (sp_stats s)) + unat sz < 2 ^ 64"
    using live_out_bytes(2) [OF inv] cn b by (simp add: counted_def)
  then have "unat (st_bytes_in_use (sp_stats s) + sz) = unat (st_bytes_in_use (sp_stats s)) + unat sz" by (intro unat_add_noflow) simp
  moreover have "live_out (count_alloc sz s') m' = live_out s' m'" by (simp add: count_alloc_def Let_def)
  ultimately show ?thesis using cn b st budget by (auto simp: counted_def count_alloc_def Let_def not_less)
qed

lemma pool_AllocAligned_law:
  assumes inv: "slab_inv libs lv base s m" and cn: "counted s m" and sz: "unat sz + 32 < 2 ^ 64"
  shows "\<exists>u s' m'. pool_AllocAligned libs sz al s m = Some (u, s', m') \<and> slab_inv libs lv base s' m' \<and> counted s' m' \<and>
    sp_config s' = sp_config s \<and>
    (if u = 0 then live_out s' m' = live_out s m else live_out s m u = None \<and> live_out s' m' = (live_out s m)(u \<mapsto> sz))"
proof -
  let ?over = "pc_max_bytes (sp_config s) > 0 \<and> st_bytes_in_use (sp_stats s) + sz > pc_max_bytes (sp_config s)"
  let ?c = "SizeClassIndex sz"
  have ini: "sp_inited s" using inv by (simp add: slab_inv_def)
  show ?thesis
  proof (cases "sz = 0 \<or> ?over")
    case True
    then show ?thesis using inv cn ini by (auto simp: pool_AllocAligned_def)
  next
    case False
    then have pos: "0 < sz" and bud: "\<not> ?over" by (auto simp: word_gt_0)
    have "\<exists>u s1 m1. (if ?c < kNumSizeClasses then AllocFromSlab libs ?c sz s m else Some (AllocLarge libs sz al s m)) = Some (u, s1, m1) \<and>
      alloc_outcome libs lv base sz s m u s1 m1"
    proof (cases "?c < kNumSizeClasses")
      case c: True
      have le: "sz \<le> kSizeClasses ! ?c" using SizeClassIndex_spec(1) [OF refl c] by blast
      show ?thesis
      proof (cases "sp_free_lists s ! ?c = []")
        case True
        obtain u s1 m1 where a: "alloc_new_block libs ?c sz s m = (u, s1, m1)" by (metis prod_cases3)
        show ?thesis using alloc_new_block_law [OF inv c True pos le a] a c True by (simp add: AllocFromSlab_def)
      next
        case False
        obtain u s1 m1 where a: "alloc_free_slot ?c sz s m = Some (u, s1, m1)" "slab_inv libs lv base s1 m1" "live_out s m u = None"
            "live_out s1 m1 = (live_out s m)(u \<mapsto> sz)" "st_bytes_in_use (sp_stats s1) = st_bytes_in_use (sp_stats s)"
            "sp_config s1 = sp_config s" "u \<noteq> 0"
          using alloc_free_slot_law [OF inv c False pos le] by blast
        then show ?thesis using c False by (simp add: AllocFromSlab_def alloc_outcome_def)
      qed
    next
      case False
      obtain u s1 m1 where a: "AllocLarge libs sz al s m = (u, s1, m1)" by (metis prod_cases3)
      have "4096 < sz" using SizeClassIndex_spec(2) [OF refl, of sz] False by simp
      from AllocLarge_law [OF inv pos sz this a] show ?thesis using a False by simp
    qed
    then obtain u s1 m1 where r: "(if ?c < kNumSizeClasses then AllocFromSlab libs ?c sz s m else Some (AllocLarge libs sz al s m)) = Some (u, s1, m1)"
      and out: "alloc_outcome libs lv base sz s m u s1 m1" by blast
    have pa: "pool_AllocAligned libs sz al s m = Some (u, if u \<noteq> 0 then count_alloc sz s1 else s1, m1)"
      unfolding pool_AllocAligned_def Let_def r using False ini by auto
    show ?thesis
    proof (cases "u = 0")
      case True
      then show ?thesis using pa out cn by (auto simp: alloc_outcome_def counted_def)
    next
      case False
      have o: "slab_inv libs lv base s1 m1" "live_out s m u = None" "live_out s1 m1 = (live_out s m)(u \<mapsto> sz)"
        "st_bytes_in_use (sp_stats s1) = st_bytes_in_use (sp_stats s)" "sp_config s1 = sp_config s"
        using out False by (simp_all add: alloc_outcome_def)
      have e: "slab_inv libs lv base (count_alloc sz s1) m1" "live_out (count_alloc sz s1) m1 = live_out s1 m1"
        "sp_config (count_alloc sz s1) = sp_config s1" using o(1) by (simp_all add: count_alloc_def Let_def)
      show ?thesis using pa False o e count_alloc_counted [OF o(1) cn o(2-5) bud] by auto
    qed
  qed
qed

lemma pool_Free_law:
  assumes inv: "slab_inv libs lv base s m" and cn: "counted s m" and u: "live_out s m u = Some n"
  shows "\<exists>s' m'. pool_Free libs u s m = Some (Some n, s', m') \<and> slab_inv libs lv base s' m' \<and> counted s' m' \<and>
    sp_config s' = sp_config s \<and> live_out s' m' = (live_out s m)(u := None)"
proof -
  let ?q = "HeaderFromUser u"
  have ini: "sp_inited s" and ho: "headers_ok (g_owned (mglob m)) s m" using inv by (auto simp: slab_inv_def)
  have q: "live_header s m ?q" and n: "n = user_size (hdrs m ?q)" using u by (auto simp: live_out_header)
  have u0: "u \<noteq> 0" by (rule live_out_Some(4) [OF inv u])
  have "\<exists>s1 m1. pool_Free libs u s m = Some (Some n, count_free n s1, m1) \<and> slab_inv libs lv base s1 m1 \<and>
      live_out s1 m1 = (live_out s m)(u := None) \<and> sp_stats s1 = sp_stats s \<and> sp_config s1 = sp_config s"
  proof (cases "?q \<in> set (sp_large s)")
    case True
    have "large_ok (g_owned (mglob m)) s m ?q" using ho True by (simp add: headers_ok_def)
    moreover obtain s1 m1 where f: "FreeLarge libs ?q s m = (s1, m1)" by (metis surj_pair)
    ultimately show ?thesis using FreeLarge_law [OF inv True f] u0 ini n
      by (auto simp: pool_Free_def large_ok_def in_use_def Let_def)
  next
    case False
    then obtain c a b where so: "slot_of s c a b ?q" and iu: "in_use m ?q" using q by (auto simp: live_header_def)
    have ci: "class_index (hdrs m ?q) = of_nat c" and c: "c < kNumSizeClasses"
      using ho so iu unfolding headers_ok_def header_ok_def by (blast, simp add: slot_of_def)
    have "unat (of_nat c :: u16) = c" using c by (simp add: unat_of_nat kNumSizeClasses_def)
    then have "class_index (hdrs m ?q) \<noteq> 0xFFFF" using ci c by (auto simp: kNumSizeClasses_def)
    then show ?thesis using FreeToSlab_law [OF inv so iu] u0 ini n iu
      by (auto simp: pool_Free_def in_use_def Let_def)
  qed
  then obtain s1 m1 where r: "pool_Free libs u s m = Some (Some n, count_free n s1, m1)" "slab_inv libs lv base s1 m1"
      "live_out s1 m1 = (live_out s m)(u := None)" "sp_stats s1 = sp_stats s" "sp_config s1 = sp_config s" by blast
  let ?i = "st_bytes_in_use (sp_stats s)"
  have b: "block_bytes (live_out s m) = block_bytes (live_out s1 m1) + unat n"
    unfolding r(3) by (rule block_bytes_remove [of "live_out s m" u n]) (simp_all add: u)
  have sf: "unat (sub_floor ?i n) = block_bytes (live_out s1 m1) \<and> sub_floor ?i n \<le> ?i"
  proof (cases "?i > n")
    case True
    then have "unat (?i - n) = unat ?i - unat n" by (simp add: unat_sub)
    then show ?thesis using True b cn by (simp add: sub_floor_def counted_def word_le_nat_alt)
  next
    case False
    then have "unat ?i \<le> unat n" by (simp add: word_less_nat_alt)
    then show ?thesis using False b cn by (simp add: sub_floor_def counted_def)
  qed
  have "counted (count_free n s1) m1"
    using sf cn r(4,5) by (auto simp: counted_def count_free_def Let_def)
  then show ?thesis using r by (intro exI [of _ "count_free n s1"] exI [of _ m1]) (simp add: count_free_def Let_def)
qed

section \<open>Giving blocks back\<close>

lemma free_each_law:
  "g_inv libs lv (mglob m) (mheap m) \<Longrightarrow> distinct ps \<Longrightarrow> \<forall>p\<in>set ps. g_owned (mglob m) p \<noteq> None \<Longrightarrow>
     (let m' = free_each libs ps m in g_inv libs lv (mglob m') (mheap m') \<and> hdrs m' = hdrs m \<and>
       g_owned (mglob m') = (\<lambda>q. if q \<in> set ps then None else g_owned (mglob m) q))"
proof (induction ps arbitrary: m)
  case (Cons p ps)
  obtain g' h' where f: "GlobalFreeIgnore libs p (mglob m) (mheap m) = (g', h')" by (metis surj_pair)
  have "g_owned (mglob m) p \<noteq> None" using Cons.prems(3) by simp
  note l = GlobalFreeIgnore_law [OF Cons.prems(1) this f]
  let ?m1 = "m\<lparr>mglob := g', mheap := h'\<rparr>"
  have "g_inv libs lv (mglob ?m1) (mheap ?m1)" "distinct ps" "\<forall>p\<in>set ps. g_owned (mglob ?m1) p \<noteq> None"
    using l Cons.prems by auto
  note ih = Cons.IH [OF this]
  have e: "free_each libs (p # ps) m = free_each libs ps ?m1" using f by simp
  show ?case unfolding e using ih l Cons.prems(2) by (auto simp: Let_def fun_eq_iff)
qed (simp add: fun_eq_iff)

lemma pool_destroy_law:
  assumes inv: "slab_inv libs lv base s m"
  shows "g_owned (mglob (pool_destroy libs s m)) = base"
proof -
  let ?own = "g_owned (mglob m)" and ?m1 = "free_each libs (sp_large s) m"
  have gi: "g_inv libs lv (mglob m) (mheap m)" and pl: "placed base ?own s" using inv by (auto simp: slab_inv_def)
  have d: "distinct (bases s)" "distinct (sp_large s)" "set (bases s) \<inter> set (sp_large s) = {}" using pl by (auto simp: placed_def)
  have "\<forall>p\<in>set (sp_large s). ?own p \<noteq> None" using pl unfolding placed_def by blast
  from free_each_law [OF gi d(2) this]
  have 1: "g_inv libs lv (mglob ?m1) (mheap ?m1)" "g_owned (mglob ?m1) = (\<lambda>q. if q \<in> set (sp_large s) then None else ?own q)"
    by (simp_all add: Let_def)
  have "\<forall>p\<in>set (bases s). g_owned (mglob ?m1) p \<noteq> None" using pl d(3) unfolding 1(2) placed_def by auto
  from free_each_law [OF 1(1) d(1) this]
  have 2: "g_owned (mglob (pool_destroy libs s m)) = (\<lambda>q. if q \<in> set (bases s) then None else g_owned (mglob ?m1) q)"
    by (simp add: Let_def pool_destroy_def bases_def)
  show ?thesis
  proof
    fix q
    have "if q \<in> set (bases s @ sp_large s) then base q = None else ?own q = base q" using pl unfolding placed_def by blast
    then show "g_owned (mglob (pool_destroy libs s m)) q = base q" unfolding 2 1(2) by (auto split: if_splits)
  qed
qed

lemma shrink_blocks_idle:
  "\<forall>cb\<in>set cbs. bk_used_count (snd cb) = 0 \<Longrightarrow> shrink_blocks libs cbs m = ([], free_each libs (map (bk_base \<circ> snd) cbs) m)"
  by (induction cbs arbitrary: m) (auto simp: Let_def split: prod.splits)

lemma concat_class_removed:
  assumes "c < length xss"
  shows "mset (map f (concat xss)) = mset (map f (concat (xss[c := []])) @ map f (xss ! c))"
  using arg_cong [OF set_concat_update [OF assms, of "[]"], of "image_mset f"] by simp

text \<open>A class without slots in use loses its blocks.\<close>

lemma shrink_class_idle:
  assumes inv: "slab_inv libs lv base s m" and c: "c < kNumSizeClasses" and idle: "\<forall>a b p. slot_of s c a b p \<longrightarrow> \<not> in_use m p"
    and r: "shrink_class libs c (s, m) = (s', m')"
  shows "slab_inv libs lv base s' m'" and "live_header s' m' = live_header s m" and "hdrs m' = hdrs m" and "sp_stats s' = sp_stats s"
    and "sp_config s' = sp_config s" and "\<And>c' a b p. slot_of s' c' a b p \<Longrightarrow> slot_of s c' a b p"
proof -
  let ?own = "g_owned (mglob m)" and ?rem = "map (bk_base \<circ> snd) (sp_blocks s ! c)"
  have gi: "g_inv libs lv (mglob m) (mheap m)" and pl: "placed base ?own s" and ho: "headers_ok ?own s m" and fr: "free_ok s m"
    and ls: "libs_spaced lv" using inv by (auto simp: slab_inv_def)
  have len: "length (sp_blocks s) = kNumSizeClasses" "length (sp_free_lists s) = kNumSizeClasses" using pl fr by (auto simp: placed_def free_ok_def)
  then have cl: "c < length (sp_blocks s)" using c by simp
  have "bk_used_count (snd cb) = 0" if cb: "cb \<in> set (sp_blocks s ! c)" for cb
  proof -
    have "\<forall>p\<in>set (block_slots (snd cb)). \<not> in_use m p" using idle cb c unfolding slot_of_def by (metis prod.collapse)
    then have "filter (in_use m) (block_slots (snd cb)) = []" by (simp add: filter_empty_conv)
    moreover have "unat (bk_used_count (snd cb)) = length (filter (in_use m) (block_slots (snd cb)))"
      using ho c cb unfolding headers_ok_def by (metis prod.collapse)
    ultimately show ?thesis by (simp add: unat_eq_zero)
  qed
  then have sb: "shrink_blocks libs (sp_blocks s ! c) m = ([], free_each libs ?rem m)" by (intro shrink_blocks_idle) blast
  have res: "s' = s\<lparr>sp_blocks := (sp_blocks s)[c := []], sp_free_lists := (sp_free_lists s)[c := []]\<rparr>" "m' = free_each libs ?rem m"
    using r sb by (auto simp: shrink_class_def Let_def)
  have mc: "mset (cells s) = mset (cells s' @ map fst (sp_blocks s ! c))" and mb: "mset (bases s) = mset (bases s' @ ?rem)"
    using concat_class_removed [OF cl] by (simp_all add: cells_def bases_def res(1))
  have ss: "set (cells s) = set (cells s') \<union> set (map fst (sp_blocks s ! c))" "set (bases s) = set (bases s') \<union> set ?rem"
    using mset_eq_setD [OF mc] mset_eq_setD [OF mb] by simp_all
  have "distinct (cells s)" "distinct (bases s)" "set (bases s) \<inter> set (sp_large s) = {}" "distinct (sp_large s)" using pl by (auto simp: placed_def)
  then have d: "distinct (cells s')" "distinct (bases s' @ sp_large s)" "distinct ?rem" "set (bases s') \<inter> set ?rem = {}" "set ?rem \<inter> set (sp_large s) = {}"
    using mset_eq_imp_distinct_iff [OF mc] mset_eq_imp_distinct_iff [OF mb] ss(2) by auto
  have ob: "\<forall>p\<in>set (bases s). ?own p = Some (pc_block_size (sp_config s))" using pl by (simp add: placed_def)
  then have "\<forall>p\<in>set ?rem. ?own p \<noteq> None" using ss(2) by auto
  from free_each_law [OF gi d(3) this]
  have g': "g_inv libs lv (mglob m') (mheap m')" and hm: "hdrs m' = hdrs m"
    and own': "g_owned (mglob m') = (\<lambda>q. if q \<in> set ?rem then None else ?own q)" unfolding res(2) Let_def by blast+
  show "hdrs m' = hdrs m" by (rule hm)
  show "sp_stats s' = sp_stats s" "sp_config s' = sp_config s" by (simp_all add: res(1))
  have iu: "in_use m' = in_use m" by (simp add: fun_eq_iff in_use_def hm)
  have so: "slot_of s' c' a b p \<longleftrightarrow> slot_of s c' a b p \<and> c' \<noteq> c" for c' a b p
    using c len by (cases "c' = c") (auto simp: slot_of_def res(1))
  then show "\<And>c' a b p. slot_of s' c' a b p \<Longrightarrow> slot_of s c' a b p" by blast
  show "live_header s' m' = live_header s m"
  proof
    fix q
    have "sp_large s' = sp_large s" by (simp add: res(1))
    moreover have "(\<exists>c' a b. slot_of s' c' a b q) \<and> in_use m q \<longleftrightarrow> (\<exists>c' a b. slot_of s c' a b q) \<and> in_use m q"
      using so idle by metis
    ultimately show "live_header s' m' q = live_header s m q" by (simp add: live_header_def iu)
  qed
  have blk: "(a, b) \<in> set (sp_blocks s ! c')" if "c' < kNumSizeClasses" "(a, b) \<in> set (sp_blocks s' ! c')" for c' a b
    using that len by (cases "c' = c") (auto simp: res(1))
  have "placed base (g_owned (mglob m')) s'"
    unfolding placed_def
  proof (intro conjI)
    show "length (sp_blocks s') = kNumSizeClasses" using len by (simp add: res(1))
    show "distinct (cells s')" by (rule d(1))
    show "\<forall>a\<in>set (cells s'). a < sp_next_cell s'" using pl ss(1) by (auto simp: placed_def res(1))
    show "distinct (bases s' @ sp_large s')" using d(2) by (simp add: res(1))
    have sh: "block_shape s' = block_shape s" by (simp add: fun_eq_iff block_shape_def slab_bytes_def res(1))
    show "\<forall>c<kNumSizeClasses. \<forall>(a, b)\<in>set (sp_blocks s' ! c). block_shape s' c b"
      unfolding sh using placed_block(1) [OF pl] blk by blast
    show "\<forall>q\<in>set (bases s'). g_owned (mglob m') q = Some (pc_block_size (sp_config s'))"
      using ob ss(2) d(4) unfolding own' by (auto simp: res(1))
    show "\<forall>q\<in>set (sp_large s'). g_owned (mglob m') q \<noteq> None"
    proof
      fix q assume "q \<in> set (sp_large s')"
      then have "q \<in> set (sp_large s)" by (simp add: res(1))
      then show "g_owned (mglob m') q \<noteq> None" using pl d(5) unfolding own' placed_def by auto
    qed
    show "\<forall>q. if q \<in> set (bases s' @ sp_large s') then base q = None else g_owned (mglob m') q = base q"
    proof
      fix q
      have "if q \<in> set (bases s @ sp_large s) then base q = None else ?own q = base q" using pl unfolding placed_def by blast
      moreover have "sp_large s' = sp_large s" by (simp add: res(1))
      ultimately show "if q \<in> set (bases s' @ sp_large s') then base q = None else g_owned (mglob m') q = base q"
        using ss(2) d(4,5) unfolding own' by (auto split: if_splits)
    qed
  qed
  moreover have "headers_ok (g_owned (mglob m')) s' m'"
    unfolding headers_ok_def iu
  proof (intro conjI allI impI ballI)
    fix c' a b assume "c' < kNumSizeClasses" "(a, b) \<in> set (sp_blocks s' ! c')"
    then show "unat (bk_used_count b) = length (filter (in_use m) (block_slots b))" using ho blk unfolding headers_ok_def by metis
  next
    fix c' a b p assume "slot_of s' c' a b p"
    then have "header_ok s m c' a p" using ho so unfolding headers_ok_def by blast
    then show "header_ok s' m' c' a p" by (simp add: header_ok_def iu hm)
  next
    fix q assume "q \<in> set (sp_large s')"
    then have q: "q \<in> set (sp_large s)" by (simp add: res(1))
    then have "large_ok ?own s m q" using ho unfolding headers_ok_def by blast
    then show "large_ok (g_owned (mglob m')) s' m' q" using d(5) q by (auto simp: large_ok_def iu hm own' guard_bytes_def res(1))
  qed
  moreover have "free_ok s' m'"
    unfolding free_ok_def iu so
  proof (intro conjI allI impI)
    show "length (sp_free_lists s') = kNumSizeClasses" using len by (simp add: res(1))
    fix c' assume c': "c' < kNumSizeClasses"
    have f: "distinct (sp_free_lists s ! c')" "\<And>q. q \<in> set (sp_free_lists s ! c') \<longleftrightarrow> (\<exists>a b. slot_of s c' a b q) \<and> \<not> in_use m q"
      using fr c' by (auto simp: free_ok_def)
    show "distinct (sp_free_lists s' ! c')" using f(1) c' len by (cases "c' = c") (simp_all add: res(1))
    show "p \<in> set (sp_free_lists s' ! c') \<longleftrightarrow> (\<exists>a b. slot_of s c' a b p \<and> c' \<noteq> c) \<and> \<not> in_use m p" for p
      using f(2) c' len by (cases "c' = c") (simp_all add: res(1))
  qed
  ultimately show "slab_inv libs lv base s' m'" using inv g' by (simp add: slab_inv_def res(1))
qed

lemma Shrink_idle:
  "slab_inv libs lv base s m \<Longrightarrow> (\<And>c a b p. slot_of s c a b p \<Longrightarrow> \<not> in_use m p) \<Longrightarrow> set cs \<subseteq> {..<kNumSizeClasses} \<Longrightarrow>
     fold (shrink_class libs) cs (s, m) = (s', m') \<Longrightarrow>
     slab_inv libs lv base s' m' \<and> live_out s' m' = live_out s m \<and> sp_stats s' = sp_stats s \<and> sp_config s' = sp_config s"
proof (induction cs arbitrary: s m)
  case (Cons c cs)
  obtain s1 m1 where r: "shrink_class libs c (s, m) = (s1, m1)" by (metis surj_pair)
  have c: "c < kNumSizeClasses" using Cons.prems(3) by simp
  have "\<forall>a b p. slot_of s c a b p \<longrightarrow> \<not> in_use m p" using Cons.prems(2) by blast
  note l = shrink_class_idle [OF Cons.prems(1) c this r]
  have "\<not> in_use m1 p" if "slot_of s1 c' a b p" for c' a b p
    using Cons.prems(2) l(6) [OF that] l(3) by (metis in_use_def)
  moreover have "fold (shrink_class libs) cs (s1, m1) = (s', m')" using Cons.prems(4) r by simp
  moreover have "live_out s1 m1 = live_out s m" unfolding live_out_def l(2,3) ..
  ultimately show ?case using Cons.IH [OF l(1)] Cons.prems(3) l(4,5) by simp
qed simp

section \<open>Runs of a memory pool\<close>

datatype mem_op = MAlloc size_t size_t | MFree ptr | MShrink

text \<open>The state of a run: the pool, the memory, and the regions that clients hold, as they know them. A call
  without result is undefined behaviour.\<close>

type_synonym 'h mem_state = "(SlabPool \<times> 'h Mem) \<times> blocks"

fun mem_call :: "'h Libs \<Rightarrow> mem_op \<Rightarrow> 'h mem_state \<Rightarrow> 'h mem_state option" where
  "mem_call libs (MAlloc sz al) ((s, m), out) =
     (case pool_AllocAligned libs sz al s m of None \<Rightarrow> None
      | Some (u, s', m') \<Rightarrow> Some ((s', m'), if u = 0 then out else out(u \<mapsto> sz)))"
| "mem_call libs (MFree u) ((s, m), out) =
     (case pool_Free libs u s m of None \<Rightarrow> None | Some (freed, s', m') \<Rightarrow> Some ((s', m'), out(u := None)))"
| "mem_call libs MShrink ((s, m), out) = Some (pool_Shrink libs s m, out)"

text \<open>What a client may call: sizes away from the end of the size type, releases of what it holds, and \<open>Shrink\<close>
  while it holds only large regions.\<close>

fun allowed :: "mem_op \<Rightarrow> 'h mem_state \<Rightarrow> bool" where
  "allowed (MAlloc sz al) st \<longleftrightarrow> unat sz + 32 < 2 ^ 64"
| "allowed (MFree u) st \<longleftrightarrow> u = 0 \<or> snd st u \<noteq> None"
| "allowed MShrink st \<longleftrightarrow> (\<forall>u n. snd st u = Some n \<longrightarrow> 4096 < n)"

definition new_mem_pool :: "PoolConfig \<Rightarrow> SlabPool" where
  "new_mem_pool cfg = snd (pool_Init cfg (SlabPoolImpl None))"

inductive mem_reach :: "'h Libs \<Rightarrow> PoolConfig \<Rightarrow> 'h Mem \<Rightarrow> 'h mem_state \<Rightarrow> bool" for libs cfg m0 where
  mem_start: "mem_reach libs cfg m0 ((new_mem_pool cfg, m0), Map.empty)"
| mem_next: "mem_reach libs cfg m0 st \<Longrightarrow> allowed op st \<Longrightarrow> mem_call libs op st = Some st' \<Longrightarrow> mem_reach libs cfg m0 st'"

definition mem_state_ok :: "'h Libs \<Rightarrow> (AllocBackend \<Rightarrow> 'h \<Rightarrow> blocks) \<Rightarrow> blocks \<Rightarrow> 'h mem_state \<Rightarrow> bool" where
  "mem_state_ok libs lv base st \<longleftrightarrow>
     (case st of ((s, m), out) \<Rightarrow> slab_inv libs lv base s m \<and> counted s m \<and> out = live_out s m)"

lemma live_out_zero: "slab_inv libs lv base s m \<Longrightarrow> live_out s m 0 = None"
  using live_out_Some(4) by (metis not_None_eq)

lemma mem_call_ok:
  assumes ok: "mem_state_ok libs lv base st" and al: "allowed op st"
  shows "\<exists>st'. mem_call libs op st = Some st' \<and> mem_state_ok libs lv base st'"
proof -
  obtain s m out where st: "st = ((s, m), out)" by (metis surj_pair)
  have inv: "slab_inv libs lv base s m" and cn: "counted s m" and out: "out = live_out s m"
    using ok by (simp_all add: st mem_state_ok_def)
  show ?thesis
  proof (cases op)
    case (MAlloc sz al)
    then have "unat sz + 32 < 2 ^ 64" using al assms(2) by simp
    from pool_AllocAligned_law [OF inv cn this] obtain u s' m' where r: "pool_AllocAligned libs sz al s m = Some (u, s', m')"
        "slab_inv libs lv base s' m'" "counted s' m'"
        "if u = 0 then live_out s' m' = live_out s m else live_out s' m' = (live_out s m)(u \<mapsto> sz)"
      by (metis (mono_tags, lifting))
    then show ?thesis using MAlloc by (auto simp: st mem_state_ok_def out split: if_splits)
  next
    case (MFree u)
    show ?thesis
    proof (cases "u = 0")
      case True
      then have "pool_Free libs u s m = Some (None, s, m)" by (simp add: pool_Free_def)
      moreover have "(live_out s m)(0 := None) = live_out s m" using live_out_zero [OF inv] by (simp add: fun_upd_idem)
      ultimately show ?thesis using MFree True inv cn by (simp add: st mem_state_ok_def out)
    next
      case False
      then obtain n where "live_out s m u = Some n" using al MFree by (auto simp: st out)
      from pool_Free_law [OF inv cn this] show ?thesis using MFree by (auto simp: st mem_state_ok_def out)
    qed
  next
    case MShrink
    obtain s' m' where r: "fold (shrink_class libs) [0..<kNumSizeClasses] (s, m) = (s', m')" by (metis surj_pair)
    have idle: "\<not> in_use m p" if so: "slot_of s c a b p" for c a b p
    proof
      assume iu: "in_use m p"
      have c: "c < kNumSizeClasses" using so by (simp add: slot_of_def)
      have "header_ok s m c a p" using inv so unfolding slab_inv_def headers_ok_def by blast
      then have "unat (user_size (hdrs m p)) \<le> 4096"
        using iu size_class_bounds [OF c] by (simp add: header_ok_def word_le_nat_alt)
      moreover have "live_out s m (UserFromHeader p) = Some (user_size (hdrs m p))"
        unfolding live_out_header using so iu by (auto simp: live_header_def)
      ultimately show False using al MShrink by (fastforce simp: st out word_less_nat_alt)
    qed
    have "set [0..<kNumSizeClasses] \<subseteq> {..<kNumSizeClasses}" by auto
    from Shrink_idle [OF inv idle this r] show ?thesis using MShrink cn r
      by (simp add: st mem_state_ok_def out pool_Shrink_def counted_def)
  qed
qed

lemma new_pool_fields:
  "sp_blocks (new_mem_pool cfg) = replicate kNumSizeClasses []" "sp_free_lists (new_mem_pool cfg) = replicate kNumSizeClasses []"
  "sp_large (new_mem_pool cfg) = []" "sp_inited (new_mem_pool cfg)" "sp_config (new_mem_pool cfg) = cfg"
  "st_bytes_in_use (sp_stats (new_mem_pool cfg)) = 0"
  by (simp_all add: new_mem_pool_def pool_Init_def SlabPoolImpl_def)

lemma new_pool_no_slots: "\<not> slot_of (new_mem_pool cfg) c a b p"
  by (auto simp: slot_of_def new_pool_fields)

lemma new_mem_pool_ok:
  assumes "g_inv libs lv (mglob m0) (mheap m0)" and "libs_spaced lv"
  shows "mem_state_ok libs lv (g_owned (mglob m0)) ((new_mem_pool cfg, m0), Map.empty)"
proof -
  let ?s = "new_mem_pool cfg"
  have e: "concat (sp_blocks ?s) = []" by (simp add: new_pool_fields)
  have "placed (g_owned (mglob m0)) (g_owned (mglob m0)) ?s"
    by (simp add: placed_def cells_def bases_def new_pool_fields)
  moreover have "headers_ok (g_owned (mglob m0)) ?s m0" by (simp add: headers_ok_def new_pool_no_slots) (simp add: new_pool_fields)
  moreover have "free_ok ?s m0" by (simp add: free_ok_def new_pool_no_slots) (simp add: new_pool_fields)
  moreover have "live_out ?s m0 = Map.empty"
    by (simp add: live_out_def live_header_def new_pool_no_slots new_pool_fields Let_def)
  ultimately show ?thesis using assms
    by (simp add: mem_state_ok_def slab_inv_def counted_def new_pool_fields)
qed

lemma mem_reach_ok:
  "mem_reach libs cfg m0 st \<Longrightarrow> g_inv libs lv (mglob m0) (mheap m0) \<Longrightarrow> libs_spaced lv \<Longrightarrow> mem_state_ok libs lv (g_owned (mglob m0)) st"
proof (induction rule: mem_reach.induct)
  case mem_start
  then show ?case by (rule new_mem_pool_ok)
next
  case (mem_next st op st')
  then show ?case using mem_call_ok [of libs lv "g_owned (mglob m0)" st op] by auto
qed

lemma live_out_in_own_block:
  assumes inv: "slab_inv libs lv base s m" and u: "live_out s m u = Some n"
  shows "\<exists>p k. g_owned (mglob m) p = Some k \<and> base p = None \<and> region u n \<subseteq> region p k"
proof -
  have q: "live_header s m (HeaderFromUser u)" and n: "n = user_size (hdrs m (HeaderFromUser u))" using u by (auto simp: live_out_header)
  have pl: "placed base (g_owned (mglob m)) s" using inv by (simp add: slab_inv_def)
  obtain p k where p: "g_owned (mglob m) p = Some k" "unat p \<le> unat (HeaderFromUser u)"
      "unat (HeaderFromUser u) + 24 + unat n \<le> unat p + unat k"
      "p \<in> set (sp_large s) \<or> (\<exists>c a b. slot_of s c a b (HeaderFromUser u) \<and> p = bk_base b)"
    using live_header_in [OF inv q] n by metis
  have "p \<in> set (bases s @ sp_large s)" using p(4) placed_block(3) [OF pl] by (auto simp: slot_of_def)
  then have "base p = None" using pl unfolding placed_def by metis
  moreover have "region u n \<subseteq> region p k" using p(2,3) live_out_Some(1) [OF inv u] by (auto simp: region_def)
  ultimately show ?thesis using p(1) by blast
qed

text \<open>C9: Memory pools are safe. Over C libraries whose blocks do not overlap, in every state that allocations,
  releases and \<open>Shrink\<close> can reach: every permitted call has a result (no dangling \<open>Block*\<close> is used); the
  regions that clients hold are disjoint and lie in blocks the pool obtained; \<open>bytes_in_use\<close> is the sum of
  their sizes and stays within \<open>max_bytes\<close>; and the destructor gives back exactly what the pool obtained.\<close>

theorem memory_pool_safe:
  assumes "libs_spaced lv" and "g_inv libs lv (mglob m0) (mheap m0)" and "mem_reach libs cfg m0 ((s, m), out)"
  shows "(allowed op ((s, m), out) \<longrightarrow> mem_call libs op ((s, m), out) \<noteq> None) \<and>
     (\<forall>u v n k. out u = Some n \<and> out v = Some k \<and> u \<noteq> v \<longrightarrow> region u n \<inter> region v k = {}) \<and>
     (\<forall>u n. out u = Some n \<longrightarrow> (\<exists>p k. g_owned (mglob m) p = Some k \<and> g_owned (mglob m0) p = None \<and> region u n \<subseteq> region p k)) \<and>
     unat (ps_bytes_in_use (pool_Stats s)) = block_bytes out \<and>
     (0 < pc_max_bytes (sp_config s) \<longrightarrow> block_bytes out \<le> unat (pc_max_bytes (sp_config s))) \<and>
     g_owned (mglob (pool_destroy libs s m)) = g_owned (mglob m0)"
proof -
  have ok: "mem_state_ok libs lv (g_owned (mglob m0)) ((s, m), out)" by (rule mem_reach_ok [OF assms(3,2,1)])
  then have inv: "slab_inv libs lv (g_owned (mglob m0)) s m" and cn: "counted s m" and out: "out = live_out s m"
    by (simp_all add: mem_state_ok_def)
  have "allowed op ((s, m), out) \<longrightarrow> mem_call libs op ((s, m), out) \<noteq> None"
    using mem_call_ok [OF ok] by (metis option.distinct(1))
  moreover have "\<forall>u v n k. out u = Some n \<and> out v = Some k \<and> u \<noteq> v \<longrightarrow> region u n \<inter> region v k = {}"
    using live_out_disjoint [OF inv] unfolding out by blast
  moreover have "\<forall>u n. out u = Some n \<longrightarrow> (\<exists>p k. g_owned (mglob m) p = Some k \<and> g_owned (mglob m0) p = None \<and> region u n \<subseteq> region p k)"
    using live_out_in_own_block [OF inv] unfolding out by blast
  moreover have "unat (ps_bytes_in_use (pool_Stats s)) = block_bytes out" "0 < pc_max_bytes (sp_config s) \<longrightarrow> block_bytes out \<le> unat (pc_max_bytes (sp_config s))"
    using cn unfolding out by (auto simp: counted_def pool_Stats_def Let_def word_le_nat_alt)
  ultimately show ?thesis using pool_destroy_law [OF inv] by blast
qed

section \<open>A concrete pool\<close>

definition demo_cfg :: PoolConfig where
  "demo_cfg = default_PoolConfig\<lparr>pc_block_size := 200\<rparr>"

definition demo_mem :: "pages Mem" where
  "demo_mem = \<lparr>hdrs = (\<lambda>_. zero_header), bytes = (\<lambda>_. 0), mglob = initial_global, mheap = (0, 0)\<rparr>"

lemma page_spaced: "libs_spaced (\<lambda>_. page_live)"
proof -
  have "unat (ucast x :: u64) < 256" for x :: u8 unfolding unat_page_size by (rule unat_lt_u8)
  then have b: "unat (ucast x :: u64) \<le> 4096" for x :: u8 by (rule order.trans [OF less_imp_le]) simp
  have k: "(unat p = 4096 \<or> unat p = 8192) \<and> unat k \<le> 4096" if "page_live h p = Some k" for h p k
    using that b by (auto simp: page_live_def split: if_splits)
  have "spaced (page_live h)" for h
    unfolding spaced_def
  proof (intro conjI allI impI)
    show "unat p + unat x \<le> 2 ^ 64" if "page_live h p = Some x" for p x using k [OF that] by auto
    fix p q x y assume "page_live h p = Some x" "page_live h q = Some y" and ne: "p \<noteq> q"
    note kk = k [OF this(1)] k [OF this(2)]
    have "unat p \<noteq> unat q" using ne by (simp add: word_unat_eq_iff)
    then show "unat p + unat x \<le> unat q \<or> unat q + unat y \<le> unat p" using kk by auto
  qed
  then show ?thesis by (simp add: libs_spaced_def)
qed

lemma demo_mem_inv: "g_inv page_libs (\<lambda>_. page_live) (mglob demo_mem) (mheap demo_mem)"
  by (simp add: demo_mem_def g_inv_initial [OF page_libs_ok])

lemmas slab_eval = pool_AllocAligned_def AllocFromSlab_def alloc_new_block_def new_mem_pool_def pool_Init_def SlabPoolImpl_def
  demo_cfg_def default_PoolConfig_def demo_mem_def SizeClassIndex_def kSizeClasses_def kNumSizeClasses_def slab_bytes_def
  sizeof_SlabHeader_def kGuardSize_def UserFromHeader_def GlobalAllocOrNull_def AllocLarge_def

lemma demo_alloc:
  "\<exists>s m. mem_call page_libs (MAlloc 8 8) ((new_mem_pool demo_cfg, demo_mem), Map.empty) = Some ((s, m), [4120 \<mapsto> 8]) \<and> sp_inited s"
  by (simp add: slab_eval global_run_eval count_alloc_def split: prod.splits)

theorem memory_pool_safe_witness:
  "\<exists>s m. mem_reach page_libs demo_cfg demo_mem ((s, m), [4120 \<mapsto> 8]) \<and>
     mem_call page_libs (MFree 4120) ((s, m), [4120 \<mapsto> 8]) \<noteq> None \<and>
     unat (ps_bytes_in_use (pool_Stats s)) = block_bytes [4120 \<mapsto> 8] \<and>
     g_owned (mglob (pool_destroy page_libs s m)) = g_owned (mglob demo_mem)"
proof -
  obtain s m where a: "mem_call page_libs (MAlloc 8 8) ((new_mem_pool demo_cfg, demo_mem), Map.empty) = Some ((s, m), [4120 \<mapsto> 8])"
    using demo_alloc by blast
  have "allowed (MAlloc 8 8) ((new_mem_pool demo_cfg, demo_mem), Map.empty)" by simp
  then have r: "mem_reach page_libs demo_cfg demo_mem ((s, m), [4120 \<mapsto> 8])" using mem_next [OF mem_start _ a] by blast
  note t = memory_pool_safe [OF page_spaced demo_mem_inv r, of "MFree 4120"]
  have "allowed (MFree 4120) ((s, m), [4120 \<mapsto> 8])" by simp
  then show ?thesis using t r by blast
qed

section \<open>Two failures\<close>

lemma header_sum_wraps: "(18446744073709551639 :: size_t) = 23"
  by (simp only: word_unat_eq_iff) simp

text \<open>C38: A request near the end of the size type is granted with a tiny block: \<open>sizeof (SlabHeader) + size\<close> wraps, so
  that a pool without a budget answers a request of \<open>SIZE_MAX\<close> bytes with a pointer into a block of 23
  bytes, less than the header that is written into it.\<close>

theorem AllocAligned_size_wraps:
  assumes "sp_inited s" and "pc_max_bytes (sp_config s) = 0" and "\<not> pc_enable_guard_bytes (sp_config s)"
    and "g_inv libs lv (mglob m) (mheap m)" and "pool_AllocAligned libs 18446744073709551615 al s m = Some (u, s', m')" and "u \<noteq> 0"
  shows "g_owned (mglob m') (HeaderFromUser u) = Some 23 \<and> unat (23 :: size_t) < unat sizeof_SlabHeader"
proof -
  let ?al = "if al < sizeof_ptr then sizeof_ptr else al"
  obtain raw g' h' where ga: "GlobalAllocOrNull libs 23 ?al (mglob m) (mheap m) = (raw, g', h')" by (metis prod_cases3)
  have c: "SizeClassIndex 18446744073709551615 = kNumSizeClasses"
    by (simp add: SizeClassIndex_def kSizeClasses_def word_le_nat_alt)
  have "u = UserFromHeader raw \<and> mglob m' = g' \<and> raw \<noteq> 0"
    using assms(1,2,3,5,6) ga c by (auto simp: pool_AllocAligned_def AllocLarge_def Let_def sizeof_SlabHeader_def header_sum_wraps split: if_splits)
  then show ?thesis using GlobalAllocOrNull_law [OF assms(4) ga] by (auto simp: sizeof_SlabHeader_def)
qed

theorem AllocAligned_size_wraps_witness:
  "\<exists>s' m'. pool_AllocAligned page_libs 18446744073709551615 8 (new_mem_pool demo_cfg) demo_mem = Some (4120, s', m') \<and>
     g_owned (mglob m') 4096 = Some 23"
proof -
  have c: "SizeClassIndex 18446744073709551615 = kNumSizeClasses"
    by (simp add: SizeClassIndex_def kSizeClasses_def word_le_nat_alt)
  obtain s' m' where r: "pool_AllocAligned page_libs 18446744073709551615 8 (new_mem_pool demo_cfg) demo_mem = Some (4120, s', m')"
    using c by (simp add: slab_eval header_sum_wraps global_run_eval Let_def word_le_nat_alt)
  have "g_owned (mglob m') (HeaderFromUser 4120) = Some 23"
    using AllocAligned_size_wraps [OF _ _ _ demo_mem_inv r] by (simp add: new_pool_fields demo_cfg_def default_PoolConfig_def)
  then show ?thesis using r by (simp add: HeaderFromUser_def sizeof_SlabHeader_def)
qed

text \<open>\<open>Shrink\<close> copies the blocks that stay into a new deque. Headers of slots in use are not touched, so they
  keep the address of the old cell.\<close>

lemma rebuild_slots_in_use:
  "in_use m p \<Longrightarrow> hdrs (snd (fold (\<lambda>q (fl, m). if magic (hdrs m q) \<noteq> kSlabMagic
       then (fl @ [q], set_header q ((hdrs m q)\<lparr>block_owner := Some a\<rparr>) m) else (fl, m)) qs (fl, m))) p = hdrs m p"
proof (induction qs arbitrary: fl m)
  case (Cons q qs)
  show ?case
  proof (cases "magic (hdrs m q) = kSlabMagic")
    case True
    then show ?thesis using Cons by simp
  next
    case False
    then have "q \<noteq> p" using Cons.prems by (auto simp: in_use_def)
    moreover from this have "in_use (set_header q ((hdrs m q)\<lparr>block_owner := Some a\<rparr>) m) p" using Cons.prems by (simp add: in_use_def)
    ultimately show ?thesis using False Cons.IH by simp
  qed
qed simp

lemma rebuild_in_use: "in_use m p \<Longrightarrow> hdrs (snd (fold RebuildFreeList cbs (fl, m))) p = hdrs m p"
proof (induction cbs arbitrary: fl m)
  case (Cons cb cbs)
  obtain fl1 m1 where r: "RebuildFreeList cb (fl, m) = (fl1, m1)" by (metis surj_pair)
  have h: "hdrs m1 p = hdrs m p"
    using rebuild_slots_in_use [OF Cons.prems, of "fst cb" "block_slots (snd cb)" fl] r by (simp add: RebuildFreeList_def)
  then have "in_use m1 p" using Cons.prems by (simp add: in_use_def)
  from Cons.IH [OF this, of fl1] h show ?case by (simp add: r)
qed simp

lemma shrink_blocks_hdrs: "shrink_blocks libs cbs m = (kept, m') \<Longrightarrow> hdrs m' = hdrs m"
  by (induction cbs arbitrary: m kept) (auto simp: Let_def split: if_splits prod.splits)

definition fresh_class :: "nat \<Rightarrow> SlabPool \<Rightarrow> nat \<Rightarrow> bool" where
  "fresh_class n s c \<longleftrightarrow> (\<forall>cb\<in>set (sp_blocks s ! c). n \<le> fst cb)"

lemma shrink_class_moves:
  assumes r: "shrink_class libs c (s, m) = (s', m')" and c: "c < length (sp_blocks s)" and n: "n \<le> sp_next_cell s"
  shows "fresh_class n s' c" and "\<And>c'. fresh_class n s c' \<Longrightarrow> fresh_class n s' c'" and "n \<le> sp_next_cell s'"
    and "length (sp_blocks s') = length (sp_blocks s)" and "sp_inited s' = sp_inited s" and "in_use m p \<Longrightarrow> hdrs m' p = hdrs m p"
proof -
  obtain kept m1 where k: "shrink_blocks libs (sp_blocks s ! c) m = (kept, m1)" by (metis surj_pair)
  let ?bl = "zip [sp_next_cell s..<sp_next_cell s + length kept] kept"
  obtain fl m2 where f: "fold RebuildFreeList ?bl ([], m1) = (fl, m2)" by (metis surj_pair)
  have res: "s' = s\<lparr>sp_blocks := (sp_blocks s)[c := ?bl], sp_free_lists := (sp_free_lists s)[c := fl],
        sp_next_cell := sp_next_cell s + length kept\<rparr>" "m' = m2"
    using r k f by (auto simp: shrink_class_def Let_def)
  have fb: "\<forall>cb\<in>set ?bl. n \<le> fst cb" using n by (auto dest: set_zip_leftD)
  then show fc: "fresh_class n s' c" using c by (simp add: fresh_class_def res(1))
  show "fresh_class n s' c'" if "fresh_class n s c'" for c'
    using that fb c by (cases "c' = c") (simp_all add: fresh_class_def res(1))
  show "n \<le> sp_next_cell s'" "length (sp_blocks s') = length (sp_blocks s)" "sp_inited s' = sp_inited s" using n by (simp_all add: res(1))
  show "hdrs m' p = hdrs m p" if iu: "in_use m p"
  proof -
    have h: "hdrs m1 = hdrs m" by (rule shrink_blocks_hdrs [OF k])
    then have "in_use m1 p" using iu by (simp add: in_use_def)
    from rebuild_in_use [OF this, of ?bl "[]"] show ?thesis using f h res(2) by simp
  qed
qed

lemma Shrink_moves:
  "fold (shrink_class libs) cs (s, m) = (s', m') \<Longrightarrow> set cs \<subseteq> {..<length (sp_blocks s)} \<Longrightarrow> n \<le> sp_next_cell s \<Longrightarrow> in_use m p \<Longrightarrow>
     (\<forall>c. fresh_class n s c \<or> c \<in> set cs \<longrightarrow> fresh_class n s' c) \<and> hdrs m' p = hdrs m p \<and> sp_inited s' = sp_inited s \<and>
     length (sp_blocks s') = length (sp_blocks s)"
proof (induction cs arbitrary: s m)
  case (Cons c cs)
  obtain s1 m1 where r: "shrink_class libs c (s, m) = (s1, m1)" by (metis surj_pair)
  have c: "c < length (sp_blocks s)" using Cons.prems(2) by simp
  note l = shrink_class_moves [OF r c Cons.prems(3)]
  have h: "hdrs m1 p = hdrs m p" by (rule l(6) [OF Cons.prems(4)])
  have "in_use m1 p" using Cons.prems(4) h by (simp add: in_use_def)
  from Cons.IH [OF _ _ l(3) this] have ih: "(\<forall>c. fresh_class n s1 c \<or> c \<in> set cs \<longrightarrow> fresh_class n s' c) \<and> hdrs m' p = hdrs m1 p \<and>
      sp_inited s' = sp_inited s1 \<and> length (sp_blocks s') = length (sp_blocks s1)"
    using Cons.prems(1,2) r l(4) by simp
  then show ?case using l(1,2,4,5) h by auto
qed simp

text \<open>C34: \<open>Shrink\<close> while a client holds a small region breaks the pool: the header of the region still names a \<open>Block\<close>
  of the old deque, and releasing the region writes through that dangling pointer. The interface says that
  \<open>Shrink\<close> does not affect memory that is allocated.\<close>

theorem Shrink_dangles:
  assumes "libs_spaced lv" and "g_inv libs lv (mglob m0) (mheap m0)" and "mem_reach libs cfg m0 ((s, m), out)"
    and "out u = Some n" and "n \<le> 4096" and "pool_Shrink libs s m = (s', m')"
  shows "pool_Free libs u s' m' = None"
proof -
  let ?q = "HeaderFromUser u"
  have ok: "mem_state_ok libs lv (g_owned (mglob m0)) ((s, m), out)" by (rule mem_reach_ok [OF assms(3,2,1)])
  then have inv: "slab_inv libs lv (g_owned (mglob m0)) s m" and out: "live_out s m u = Some n"
    using assms(4) by (simp_all add: mem_state_ok_def)
  have ho: "headers_ok (g_owned (mglob m)) s m" and pl: "placed (g_owned (mglob m0)) (g_owned (mglob m)) s" and ini: "sp_inited s"
    using inv by (auto simp: slab_inv_def)
  have lq: "live_header s m ?q" and n: "n = user_size (hdrs m ?q)" using out by (auto simp: live_out_header)
  have "?q \<notin> set (sp_large s)" using ho assms(5) n by (auto simp: headers_ok_def large_ok_def)
  then obtain c a b where so: "slot_of s c a b ?q" and iu: "in_use m ?q" using lq by (auto simp: live_header_def)
  have hdr: "header_ok s m c a ?q" using ho so unfolding headers_ok_def by blast
  have c: "c < kNumSizeClasses" "(a, b) \<in> set (sp_blocks s ! c)" using so by (auto simp: slot_of_def)
  have a: "a < sp_next_cell s" using placed_block(4) [OF pl c] pl by (auto simp: placed_def)
  have len: "length (sp_blocks s) = kNumSizeClasses" using pl by (simp add: placed_def)
  have "fold (shrink_class libs) [0..<kNumSizeClasses] (s, m) = (s', m')" "set [0..<kNumSizeClasses] \<subseteq> {..<length (sp_blocks s)}"
    using assms(6) len by (auto simp: pool_Shrink_def)
  from Shrink_moves [OF this order.refl iu] len
  have f: "\<forall>c<kNumSizeClasses. fresh_class (sp_next_cell s) s' c" and h: "hdrs m' ?q = hdrs m ?q" and i': "sp_inited s'"
    and len': "length (sp_blocks s') = kNumSizeClasses" using ini by auto
  have "a \<notin> set (map fst (concat (sp_blocks s')))"
  proof
    assume "a \<in> set (map fst (concat (sp_blocks s')))"
    then obtain cb xs where "xs \<in> set (sp_blocks s')" "cb \<in> set xs" "fst cb = a" by auto
    then obtain k where "k < kNumSizeClasses" "cb \<in> set (sp_blocks s' ! k)" using len' by (metis in_set_conv_nth)
    then show False using f a \<open>fst cb = a\<close> unfolding fresh_class_def by (metis not_le)
  qed
  then have ub: "update_block a g s' = None" for g by (simp add: update_block_def)
  have ci: "unat (class_index (hdrs m ?q)) = c" "class_index (hdrs m ?q) \<noteq> 0xFFFF"
  proof -
    show 1: "unat (class_index (hdrs m ?q)) = c" using hdr iu c(1) by (simp add: header_ok_def unat_of_nat kNumSizeClasses_def)
    then show "class_index (hdrs m ?q) \<noteq> 0xFFFF" using c(1) by (auto simp: kNumSizeClasses_def)
  qed
  have "FreeToSlab ?q s' m' = None"
    using ci(1) hdr c(1) ub by (simp add: FreeToSlab_def Let_def h header_ok_def update_owner_def)
  then show ?thesis using live_out_Some(4) [OF inv out] i' iu ci(2) by (simp add: pool_Free_def Let_def h in_use_def)
qed

theorem Shrink_dangles_witness:
  "\<exists>s m s' m'. mem_reach page_libs demo_cfg demo_mem ((s, m), [4120 \<mapsto> 8]) \<and> pool_Shrink page_libs s m = (s', m') \<and>
     pool_Free page_libs 4120 s' m' = None"
proof -
  obtain s m where a: "mem_call page_libs (MAlloc 8 8) ((new_mem_pool demo_cfg, demo_mem), Map.empty) = Some ((s, m), [4120 \<mapsto> 8])"
    using demo_alloc by blast
  have "allowed (MAlloc 8 8) ((new_mem_pool demo_cfg, demo_mem), Map.empty)" by simp
  then have r: "mem_reach page_libs demo_cfg demo_mem ((s, m), [4120 \<mapsto> 8])" using mem_next [OF mem_start _ a] by blast
  obtain s' m' where sh: "pool_Shrink page_libs s m = (s', m')" by (metis surj_pair)
  have "pool_Free page_libs 4120 s' m' = None"
    by (rule Shrink_dangles [OF page_spaced demo_mem_inv r _ _ sh, of _ 8]) (simp_all add: word_le_nat_alt)
  then show ?thesis using r sh by blast
qed

end
