(* ===== verification/CK_SystemPool.thy ===== *)
theory CK_SystemPool
  imports CK_SlabPool_Props
begin

text \<open>
  The process-wide memory pool (\<open>src/memory/system_pool.cpp\<close>). Its function-local statics are a record; every
  operation holds \<open>PoolMutex\<close>. The instance is a pool without parent.
\<close>

section \<open>State and operations\<close>

record SystemPool =
  sys_pending :: PoolConfig
  sys_applied :: bool
  sys_instance :: "SlabPool option"

definition initial_system_pool :: SystemPool where
  "initial_system_pool = \<lparr>sys_pending = default_PoolConfig, sys_applied = False, sys_instance = None\<rparr>"

definition EnsurePoolLocked :: "SystemPool \<Rightarrow> SlabPool \<times> SystemPool" where
  "EnsurePoolLocked p =
     (case sys_instance p of
        Some s \<Rightarrow> (s, p)
      | None \<Rightarrow>
          let cfg = (if sys_applied p then sys_pending p else (sys_pending p)\<lparr>pc_name := ''system''\<rparr>);
              s = snd (pool_Init cfg (SlabPoolImpl None))
          in (s, p\<lparr>sys_pending := cfg, sys_instance := Some s, sys_applied := True\<rparr>))"

definition SystemPool_Configure :: "PoolConfig \<Rightarrow> SystemPool \<Rightarrow> Status \<times> SystemPool" where
  "SystemPool_Configure config p =
     (if sys_instance p \<noteq> None
      then (mkStatus kAlreadyInitialized ''system pool already initialized; configure before first use'', p)
      else (Status_Ok, p\<lparr>sys_pending := config, sys_applied := True\<rparr>))"

text \<open>The fields of the section: a field of the wrong type is ignored.\<close>

definition json_typed :: "(Json \<Rightarrow> bool) \<Rightarrow> Json \<Rightarrow> string \<Rightarrow> Json option" where
  "json_typed is_type ps key = (case json_get ps key of Some v \<Rightarrow> if is_type v then Some v else None | None \<Rightarrow> None)"

definition read_section :: "Json \<Rightarrow> PoolConfig \<Rightarrow> PoolConfig" where
  "read_section ps c0 =
     (let c1 = (case json_typed is_string ps ''name'' of Some v \<Rightarrow> c0\<lparr>pc_name := get_string v\<rparr> | None \<Rightarrow> c0);
          c2 = (case json_typed is_number_unsigned ps ''block_size'' of Some v \<Rightarrow> c1\<lparr>pc_block_size := get_unsigned v\<rparr> | None \<Rightarrow> c1);
          c3 = (case json_typed is_number_unsigned ps ''max_bytes'' of Some v \<Rightarrow> c2\<lparr>pc_max_bytes := get_unsigned v\<rparr> | None \<Rightarrow> c2);
          c4 = (case json_typed is_number_unsigned ps ''max_cached_blocks'' of
                  Some v \<Rightarrow> c3\<lparr>pc_max_cached_blocks := get_unsigned v\<rparr> | None \<Rightarrow> c3);
          c5 = (case json_typed is_boolean ps ''enable_guard_bytes'' of
                  Some v \<Rightarrow> c4\<lparr>pc_enable_guard_bytes := get_bool v\<rparr> | None \<Rightarrow> c4);
          c6 = (case json_typed is_boolean ps ''thread_safe'' of Some v \<Rightarrow> c5\<lparr>pc_thread_safe := get_bool v\<rparr> | None \<Rightarrow> c5)
      in c6)"

definition pool_section :: "Json \<Rightarrow> Json option" where
  "pool_section root =
     (case json_get root ''pool'' of
        Some p \<Rightarrow> Some p
      | None \<Rightarrow> (case json_get root ''memory'' of
                   Some mem \<Rightarrow> if is_object mem then json_get mem ''pool'' else None
                 | None \<Rightarrow> None))"

definition SystemPool_ConfigureFromFile :: "json_parser \<Rightarrow> files \<Rightarrow> string \<Rightarrow> SystemPool \<Rightarrow> Status \<times> SystemPool" where
  "SystemPool_ConfigureFromFile parse fs path p =
     (let loaded = Json_LoadFile parse fs path; root = res_value loaded
      in if \<not> result_ok loaded then (res_status loaded, p)
         else if \<not> is_object root then (mkStatus kInvalidArgument ''root JSON must be object'', p)
         else
           let cfg = default_PoolConfig\<lparr>pc_name := ''system''\<rparr>
           in SystemPool_Configure (case pool_section root of Some ps \<Rightarrow> if is_object ps then read_section ps cfg else cfg | None \<Rightarrow> cfg) p)"

definition SystemPool_Instance :: "SystemPool \<Rightarrow> SlabPool \<times> SystemPool" where
  "SystemPool_Instance p = EnsurePoolLocked p"

definition SystemPool_CurrentStats :: "SystemPool \<Rightarrow> PoolStats \<times> SystemPool" where
  "SystemPool_CurrentStats p = (let (s, p') = EnsurePoolLocked p in (pool_Stats s, p'))"

definition SystemPool_Shrink :: "'h Libs \<Rightarrow> SystemPool \<Rightarrow> 'h Mem \<Rightarrow> Status \<times> SystemPool \<times> 'h Mem" where
  "SystemPool_Shrink libs p m =
     (let (s, p') = EnsurePoolLocked p; (s', m') = pool_Shrink libs s m in (Status_Ok, p'\<lparr>sys_instance := Some s'\<rparr>, m'))"

section \<open>Configuration happens before first use\<close>

text \<open>\<open>Configure\<close> and the lazy creation as steps; the instance, once created, is the pool of \<open>CK_SlabPool_Props\<close>.\<close>

datatype sys_op = SConfigure PoolConfig | SConfigureFile string | SInstance

fun sys_step :: "json_parser \<Rightarrow> files \<Rightarrow> sys_op \<Rightarrow> SystemPool \<Rightarrow> SystemPool" where
  "sys_step parse fs (SConfigure c) p = snd (SystemPool_Configure c p)"
| "sys_step parse fs (SConfigureFile path) p = snd (SystemPool_ConfigureFromFile parse fs path p)"
| "sys_step parse fs SInstance p = snd (SystemPool_Instance p)"

lemma sys_step_instance: "sys_instance p = Some s \<Longrightarrow> sys_step parse fs op p = p"
  by (cases op) (auto simp: SystemPool_Configure_def SystemPool_ConfigureFromFile_def SystemPool_Instance_def EnsurePoolLocked_def Let_def)

lemma sys_steps_instance: "sys_instance p = Some s \<Longrightarrow> fold (sys_step parse fs) ops p = p"
  by (induction ops) (simp_all add: sys_step_instance)



end
