(* ===== verification/CK_LogText.thy ===== *)
theory CK_LogText
  imports CK_Status
begin

text \<open>
  The text and path helpers of the log manager (\<open>src/log_manager.cpp\<close>, lines 78 to 205) in the
  POSIX build: path utilities, creation of a directory chain, trimming, and the readings of Boolean,
  integer and level values. \<open>stat\<close> and \<open>mkdir\<close> of the operating system are a parameter of
  \<open>CreateDirectories\<close>; the contract the code relies on is the locale \<open>directory_tree\<close>,
  interpreted on a tree of POSIX directories. The lemmas specify \<open>BaseName\<close>, \<open>Trim\<close> and
  \<open>stoi\<close>, and show that a directory chain is created without removing a directory.
\<close>

section \<open>Substrings and searches of \<open>std::string\<close>\<close>

definition find_from :: "(char \<Rightarrow> bool) \<Rightarrow> string \<Rightarrow> nat \<Rightarrow> nat option" where
  "find_from P s pos =
     (let n = pos + length (takeWhile (\<lambda>c. \<not> P c) (drop pos s))
      in if n < length s then Some n else None)"

text \<open>The last index below \<open>e\<close> with the property.\<close>

fun find_last :: "(char \<Rightarrow> bool) \<Rightarrow> string \<Rightarrow> nat \<Rightarrow> nat option" where
  "find_last P s 0 = None"
| "find_last P s (Suc e) = (if P (s ! e) then Some e else find_last P s e)"

definition substr :: "string \<Rightarrow> nat \<Rightarrow> nat \<Rightarrow> string" where
  "substr s pos n = take n (drop pos s)"

section \<open>Paths\<close>

definition IsPathSeparator :: "char \<Rightarrow> bool" where
  "IsPathSeparator c \<longleftrightarrow> c = CHR ''/'' \<or> c = CHR 0x5C"

fun BaseName_end :: "string \<Rightarrow> nat \<Rightarrow> nat" where
  "BaseName_end path 0 = 0"
| "BaseName_end path (Suc e) = (if IsPathSeparator (path ! e) then BaseName_end path e else Suc e)"

definition BaseName :: "string \<Rightarrow> string" where
  "BaseName path =
     (if path = [] then []
      else let e = BaseName_end path (length path) in
        if e = 0 then []
        else case find_last IsPathSeparator path e of
            None \<Rightarrow> substr path 0 e
          | Some pos \<Rightarrow> substr path (pos + 1) (e - pos - 1))"

definition JoinPath :: "string \<Rightarrow> string \<Rightarrow> string" where
  "JoinPath left right =
     (if left = [] then right
      else if right = [] then left
      else if IsPathSeparator (left ! (length left - 1)) then left @ right
      else left @ ''/'' @ right)"

text \<open>
  The operating system: \<open>stat\<close> tells whether a path is a directory, \<open>mkdir\<close> may succeed,
  fail with \<open>EEXIST\<close>, or fail otherwise.
\<close>

datatype mkdir_result = Made | Exists | Mkdir_Failed

record 'fs dir_ops =
  stat_dir :: "'fs \<Rightarrow> string \<Rightarrow> bool"
  mkdir :: "'fs \<Rightarrow> string \<Rightarrow> mkdir_result \<times> 'fs"

definition DirectoryExists :: "'fs dir_ops \<Rightarrow> 'fs \<Rightarrow> string \<Rightarrow> bool" where
  "DirectoryExists os fs path \<longleftrightarrow> path \<noteq> [] \<and> stat_dir os fs path"

definition MakeDir :: "'fs dir_ops \<Rightarrow> 'fs \<Rightarrow> string \<Rightarrow> mkdir_result \<times> 'fs" where
  "MakeDir os fs path = mkdir os fs path"

definition ensure_dir :: "'fs dir_ops \<Rightarrow> 'fs \<Rightarrow> string \<Rightarrow> bool \<times> 'fs" where
  "ensure_dir os fs current =
     (if DirectoryExists os fs current then (True, fs)
      else let (r, fs') = MakeDir os fs current in (r \<noteq> Mkdir_Failed, fs'))"

function CreateDirectories_loop ::
  "'fs dir_ops \<Rightarrow> string \<Rightarrow> string \<Rightarrow> nat \<Rightarrow> 'fs \<Rightarrow> bool \<times> 'fs"
where
  "CreateDirectories_loop os path current pos fs =
     (if pos \<le> length path then
        let nxt = find_from IsPathSeparator path pos;
            part = (case nxt of None \<Rightarrow> drop pos path | Some n \<Rightarrow> substr path pos (n - pos));
            current' = (if part = [] then current
                        else if current = [] then part else JoinPath current part);
            (ok, fs') = (if part = [] then (True, fs) else ensure_dir os fs current')
        in if \<not> ok then (False, fs')
           else case nxt of
               None \<Rightarrow> (DirectoryExists os fs' path, fs')
             | Some n \<Rightarrow> CreateDirectories_loop os path current' (n + 1) fs'
      else (DirectoryExists os fs path, fs))"
  by pat_completeness auto

lemma find_from_SomeD:
  "find_from P s pos = Some n \<Longrightarrow> pos \<le> n \<and> n < length s \<and> P (s ! n)"
proof -
  let ?k = "length (takeWhile (\<lambda>c. \<not> P c) (drop pos s))"
  assume "find_from P s pos = Some n"
  then have n: "n = pos + ?k" "n < length s" by (auto simp: find_from_def Let_def split: if_splits)
  then have "?k < length (drop pos s)" by simp
  from nth_length_takeWhile [OF this] n show ?thesis by (simp add: nth_drop)
qed

termination CreateDirectories_loop
  by (relation "measure (\<lambda>(os, path, current, pos, fs). length path + 1 - pos)")
     (auto dest!: find_from_SomeD [OF sym])

declare CreateDirectories_loop.simps [simp del]

definition CreateDirectories :: "'fs dir_ops \<Rightarrow> string \<Rightarrow> 'fs \<Rightarrow> bool \<times> 'fs" where
  "CreateDirectories os path fs =
     (if path = [] then (False, fs)
      else if DirectoryExists os fs path then (True, fs)
      else if IsPathSeparator (path ! 0) then CreateDirectories_loop os path ''/'' 1 fs
      else CreateDirectories_loop os path [] 0 fs)"

definition ClampInt :: "int \<Rightarrow> int \<Rightarrow> int \<Rightarrow> int" where
  "ClampInt value low high = (if value < low then low else if value > high then high else value)"

section \<open>Values\<close>

definition is_blank :: "char \<Rightarrow> bool" where
  "is_blank c \<longleftrightarrow> c = CHR 0x20 \<or> c = CHR 0x09 \<or> c = CHR 0x0D \<or> c = CHR 0x0A"

definition log_Trim :: "string \<Rightarrow> string" where
  "log_Trim s =
     (case find_from (\<lambda>c. \<not> is_blank c) s 0 of
        None \<Rightarrow> []
      | Some start \<Rightarrow>
          (case find_last (\<lambda>c. \<not> is_blank c) s (length s) of
             None \<Rightarrow> []
           | Some e \<Rightarrow> substr s start (e - start + 1)))"

text \<open>\<open>std::tolower\<close> in the C locale.\<close>

definition tolower :: "char \<Rightarrow> char" where
  "tolower c = (let n = of_char c :: nat in
     if 65 \<le> n \<and> n \<le> 90 then char_of (n + 32) else c)"

definition ToLower :: "string \<Rightarrow> string" where
  "ToLower s = map tolower s"

definition ParseBool :: "string \<Rightarrow> bool option" where
  "ParseBool value =
     (let v = ToLower (log_Trim value) in
      if v = ''1'' \<or> v = ''true'' \<or> v = ''yes'' \<or> v = ''on'' then Some True
      else if v = ''0'' \<or> v = ''false'' \<or> v = ''no'' \<or> v = ''off'' then Some False
      else None)"

text \<open>
  \<open>std::stoi\<close>: leading white space and a sign are skipped, the longest run of digits is read,
  what follows it is ignored; no digit, or a value outside \<open>int\<close>, is an exception.
\<close>

definition isspace :: "char \<Rightarrow> bool" where
  "isspace c \<longleftrightarrow> is_blank c \<or> c = CHR 0x0B \<or> c = CHR 0x0C"

definition stoi :: "string \<Rightarrow> int option" where
  "stoi s =
     (let s1 = dropWhile isspace s;
          neg = (s1 \<noteq> [] \<and> hd s1 = CHR ''-'');
          s2 = (if s1 \<noteq> [] \<and> (hd s1 = CHR ''-'' \<or> hd s1 = CHR ''+'') then tl s1 else s1);
          ds = takeWhile is_digit s2;
          v = (if neg then - int (dec_value ds) else int (dec_value ds))
      in if ds = [] then None
         else if - (2 ^ 31) \<le> v \<and> v \<le> 2 ^ 31 - 1 then Some v else None)"

definition ParseInt :: "string \<Rightarrow> int option" where
  "ParseInt value = stoi (log_Trim value)"

definition GLOG_INFO :: int where "GLOG_INFO = 0"
definition GLOG_WARNING :: int where "GLOG_WARNING = 1"
definition GLOG_ERROR :: int where "GLOG_ERROR = 2"
definition GLOG_FATAL :: int where "GLOG_FATAL = 3"

definition LevelFromText :: "string \<Rightarrow> int" where
  "LevelFromText value =
     (let v = ToLower (log_Trim value) in
      if v = ''info'' then GLOG_INFO
      else if v = ''warning'' \<or> v = ''warn'' then GLOG_WARNING
      else if v = ''error'' then GLOG_ERROR
      else if v = ''fatal'' then GLOG_FATAL
      else case ParseInt v of Some parsed \<Rightarrow> parsed | None \<Rightarrow> GLOG_INFO)"

section \<open>Trimming\<close>

lemma find_last_None: "find_last P s e = None \<longleftrightarrow> (\<forall>i<e. \<not> P (s ! i))"
  by (induction e) (auto simp: less_Suc_eq)

lemma find_last_Some:
  "find_last P s e = Some n \<longleftrightarrow> n < e \<and> P (s ! n) \<and> (\<forall>i. n < i \<longrightarrow> i < e \<longrightarrow> \<not> P (s ! i))"
  by (induction e) (auto simp: less_Suc_eq)

lemma find_from_append:
  "\<forall>c \<in> set a. \<not> P c \<Longrightarrow> P x \<Longrightarrow> find_from P (a @ x # b) 0 = Some (length a)"
  by (simp add: find_from_def takeWhile_append2)

lemma find_last_append:
  "\<forall>c \<in> set b. \<not> P c \<Longrightarrow> P x \<Longrightarrow> find_last P (a @ x # b) (length (a @ x # b)) = Some (length a)"
  by (auto simp: find_last_Some nth_append nth_Cons')

lemma split_at_ends:
  assumes "\<exists>c \<in> set s. P c"
  obtains a m b where "s = a @ m @ b" "\<forall>c \<in> set a. \<not> P c" "\<forall>c \<in> set b. \<not> P c"
    "m \<noteq> []" "P (hd m)" "P (last m)"
proof -
  let ?r = "dropWhile (\<lambda>c. \<not> P c) s"
  let ?m = "rev (dropWhile (\<lambda>c. \<not> P c) (rev ?r))"
  let ?b = "rev (takeWhile (\<lambda>c. \<not> P c) (rev ?r))"
  have r: "?r \<noteq> []" "P (hd ?r)" using assms hd_dropWhile [of "\<lambda>c. \<not> P c" s] by (auto simp: dropWhile_eq_Nil_conv)
  then have ex: "\<exists>c \<in> set ?r. P c" by (meson hd_in_set)
  then have m: "?m \<noteq> []" by (auto simp: dropWhile_eq_Nil_conv)
  have split: "?r = ?m @ ?b" by (metis rev_append rev_rev_ident takeWhile_dropWhile_id)
  show thesis
  proof (rule that)
    show "s = takeWhile (\<lambda>c. \<not> P c) s @ ?m @ ?b" using split by (metis takeWhile_dropWhile_id)
    show "\<forall>c \<in> set (takeWhile (\<lambda>c. \<not> P c) s). \<not> P c" by (auto dest: set_takeWhileD)
    show "\<forall>c \<in> set ?b. \<not> P c" by (auto dest: set_takeWhileD)
    show "?m \<noteq> []" by (rule m)
    show "P (hd ?m)" using r(2) m split by (metis hd_append2)
    show "P (last ?m)" using m hd_dropWhile [of "\<lambda>c. \<not> P c" "rev ?r"] by (simp add: last_rev)
  qed
qed

text \<open>\<open>Trim\<close> removes the blanks at both ends and nothing else.\<close>

lemma log_Trim_blank: "\<forall>c \<in> set s. is_blank c \<Longrightarrow> log_Trim s = []"
  by (simp add: log_Trim_def find_from_def takeWhile_eq_all_conv [THEN iffD2])

lemma log_Trim_core:
  assumes "\<forall>c \<in> set a. is_blank c" "\<forall>c \<in> set b. is_blank c"
    and "m \<noteq> []" "\<not> is_blank (hd m)" "\<not> is_blank (last m)"
  shows "log_Trim (a @ m @ b) = m"
proof -
  obtain x m' where m: "m = x # m'" using assms(3) by (cases m) auto
  obtain m'' y where m2: "m = m'' @ [y]" using assms(3) by (cases m rule: rev_cases) auto
  have "find_from (\<lambda>c. \<not> is_blank c) (a @ m @ b) 0 = Some (length a)"
    using find_from_append [of a "\<lambda>c. \<not> is_blank c" x "m' @ b"] assms m by simp
  moreover have "find_last (\<lambda>c. \<not> is_blank c) (a @ m @ b) (length (a @ m @ b)) = Some (length (a @ m''))"
    using find_last_append [of b "\<lambda>c. \<not> is_blank c" y "a @ m''"] assms m2 by simp
  ultimately show ?thesis using m2 by (simp add: log_Trim_def substr_def)
qed

lemma log_Trim_id: "s = [] \<or> \<not> is_blank (hd s) \<and> \<not> is_blank (last s) \<Longrightarrow> log_Trim s = s"
  using log_Trim_blank [of "[]"] log_Trim_core [of "[]" "[]" s] by (cases "s = []") auto

lemma log_Trim_ends: "log_Trim s = [] \<or> \<not> is_blank (hd (log_Trim s)) \<and> \<not> is_blank (last (log_Trim s))"
proof (cases "\<exists>c \<in> set s. \<not> is_blank c")
  case True
  then obtain a m b where "s = a @ m @ b" "\<forall>c \<in> set a. is_blank c" "\<forall>c \<in> set b. is_blank c"
    "m \<noteq> []" "\<not> is_blank (hd m)" "\<not> is_blank (last m)"
    by (rule split_at_ends) auto
  with log_Trim_core [of a b m] show ?thesis by simp
qed (auto simp: log_Trim_blank)

lemma log_Trim_idem [simp]: "log_Trim (log_Trim s) = log_Trim s"
  by (rule log_Trim_id) (rule log_Trim_ends)

section \<open>Reading integers\<close>

definition int_string :: "int \<Rightarrow> string" where
  "int_string i = (if i < 0 then CHR ''-'' # dec_string (nat (- i)) else dec_string (nat i))"

lemma is_digit_not_blank: "is_digit c \<Longrightarrow> \<not> isspace c \<and> \<not> is_blank c \<and> c \<noteq> CHR ''-'' \<and> c \<noteq> CHR ''+''"
  by (auto simp: is_digit_def isspace_def is_blank_def)

lemma takeWhile_digits: "takeWhile is_digit (dec_string n) = dec_string n"
  by (simp add: takeWhile_eq_all_conv dec_string_digits)

lemma hd_dec_string: "is_digit (hd (dec_string n))"
  by (rule dec_string_digits [of _ n]) simp

lemma last_dec_string: "is_digit (last (dec_string n))"
  by (rule dec_string_digits [of _ n]) simp

lemma dropWhile_hd: "s = [] \<or> \<not> P (hd s) \<Longrightarrow> dropWhile P s = s"
  by (cases s) auto

lemma stoi_dec_string: "int n \<le> 2 ^ 31 - 1 \<Longrightarrow> stoi (dec_string n) = Some (int n)"
  using is_digit_not_blank [OF hd_dec_string, of n]
  by (simp add: stoi_def dropWhile_hd takeWhile_digits)

lemma stoi_int_string [simp]:
  assumes "- (2 ^ 31) \<le> i" "i \<le> 2 ^ 31 - 1"
  shows "stoi (int_string i) = Some i"
proof (cases "i < 0")
  case True
  with assms show ?thesis
    by (simp add: int_string_def stoi_def isspace_def is_blank_def takeWhile_digits)
next
  case False
  with assms stoi_dec_string [of "nat i"] show ?thesis by (simp add: int_string_def)
qed

lemma int_string_ends:
  "int_string i \<noteq> []" "\<not> is_blank (hd (int_string i))" "\<not> is_blank (last (int_string i))"
  using is_digit_not_blank [OF hd_dec_string] is_digit_not_blank [OF last_dec_string]
  by (auto simp: int_string_def is_blank_def)

lemma ParseInt_int_string:
  "- (2 ^ 31) \<le> i \<Longrightarrow> i \<le> 2 ^ 31 - 1 \<Longrightarrow> ParseInt (int_string i) = Some i"
  unfolding ParseInt_def by (subst log_Trim_id) (auto simp: int_string_ends)

text \<open>Text after the digits is not looked at: \<open>10GB\<close> reads as ten.\<close>

lemma stoi_ignores_suffix:
  assumes "int n \<le> 2 ^ 31 - 1" "rest = [] \<or> \<not> is_digit (hd rest)"
  shows "stoi (dec_string n @ rest) = Some (int n)"
proof -
  have "takeWhile is_digit (dec_string n @ rest) = dec_string n @ takeWhile is_digit rest"
    by (rule takeWhile_append2) (rule dec_string_digits)
  also have "takeWhile is_digit rest = []" using assms(2) by (cases rest) auto
  finally show ?thesis
    using assms(1) is_digit_not_blank [OF hd_dec_string, of n]
    by (simp add: stoi_def dropWhile_hd)
qed

section \<open>The last component of a path\<close>

lemma BaseName_end_spec:
  "e \<le> length path \<Longrightarrow>
     BaseName_end path e \<le> e \<and> (\<forall>i. BaseName_end path e \<le> i \<longrightarrow> i < e \<longrightarrow> IsPathSeparator (path ! i)) \<and>
     (BaseName_end path e = 0 \<or> \<not> IsPathSeparator (path ! (BaseName_end path e - 1)))"
  by (induction e) (auto simp: less_Suc_eq)

text \<open>
  The base name has no separator; what stands before it ends in one, what stands after it consists of
  separators.
\<close>

lemma BaseName_spec:
  obtains pre seps where "path = pre @ BaseName path @ seps" "\<forall>c \<in> set (BaseName path). \<not> IsPathSeparator c"
    "\<forall>c \<in> set seps. IsPathSeparator c" "pre = [] \<or> IsPathSeparator (last pre)"
proof -
  let ?e = "BaseName_end path (length path)"
  have e: "?e \<le> length path" "\<And>i. ?e \<le> i \<Longrightarrow> i < length path \<Longrightarrow> IsPathSeparator (path ! i)"
    using BaseName_end_spec [of "length path" path] by auto
  have seps: "\<forall>c \<in> set (drop ?e path). IsPathSeparator c"
    using e by (auto simp: in_set_conv_nth)
  show thesis
  proof (cases "find_last IsPathSeparator path ?e")
    case None
    then have "\<forall>c \<in> set (take ?e path). \<not> IsPathSeparator c"
      using e(1) by (auto simp: in_set_conv_nth find_last_None)
    moreover have "BaseName path = take ?e path" using None by (simp add: BaseName_def substr_def Let_def)
    ultimately show thesis using seps by (intro that [of "[]" "drop ?e path"]) simp_all
  next
    case (Some pos)
    then have pos: "pos < ?e" "IsPathSeparator (path ! pos)"
      "\<And>i. pos < i \<Longrightarrow> i < ?e \<Longrightarrow> \<not> IsPathSeparator (path ! i)"
      by (auto simp: find_last_Some)
    have b: "BaseName path = take (?e - pos - 1) (drop (pos + 1) path)"
      using Some pos(1) by (auto simp: BaseName_def substr_def Let_def)
    have "path = take (pos + 1) path @ take (?e - (pos + 1)) (drop (pos + 1) path) @ drop ?e path"
      using pos(1) e(1)
      by (metis Suc_eq_plus1 Suc_leI append_assoc append_take_drop_id le_add_diff_inverse take_add)
    then have "path = take (pos + 1) path @ BaseName path @ drop ?e path" using b by simp
    moreover have "\<forall>c \<in> set (BaseName path). \<not> IsPathSeparator c"
      using pos(3) e(1) by (auto simp: b in_set_conv_nth)
    moreover have "IsPathSeparator (last (take (pos + 1) path))"
      using pos e(1) by (simp add: take_Suc_conv_app_nth)
    ultimately show thesis using seps by (intro that [of "take (pos + 1) path" "drop ?e path"]) simp_all
  qed
qed

section \<open>The contract of the directory functions\<close>

locale directory_tree =
  fixes os :: "'fs dir_ops"
  assumes mkdir_makes: "mkdir os fs p = (Made, fs') \<Longrightarrow> stat_dir os fs' p"
    and mkdir_keeps: "mkdir os fs p = (r, fs') \<Longrightarrow> stat_dir os fs q \<Longrightarrow> stat_dir os fs' q"
    and mkdir_fails: "mkdir os fs p = (r, fs') \<Longrightarrow> r \<noteq> Made \<Longrightarrow> fs' = fs"
begin

lemma ensure_dir_keeps: "ensure_dir os fs p = (ok, fs') \<Longrightarrow> stat_dir os fs q \<Longrightarrow> stat_dir os fs' q"
  by (auto simp: ensure_dir_def MakeDir_def split: if_splits prod.splits dest: mkdir_keeps)

lemma loop_correct:
  "CreateDirectories_loop os path current pos fs = (ok, fs') \<Longrightarrow>
     (stat_dir os fs q \<longrightarrow> stat_dir os fs' q) \<and> (ok \<longrightarrow> DirectoryExists os fs' path)"
proof (induction "length path + 1 - pos" arbitrary: current pos fs ok fs' rule: less_induct)
  case less
  define nxt where "nxt = find_from IsPathSeparator path pos"
  define part where "part = (case nxt of None \<Rightarrow> drop pos path | Some n \<Rightarrow> substr path pos (n - pos))"
  define cur where "cur = (if part = [] then current else if current = [] then part else JoinPath current part)"
  obtain okd fsd where e: "(if part = [] then (True, fs) else ensure_dir os fs cur) = (okd, fsd)"
    by fastforce
  have keep: "stat_dir os fs q \<Longrightarrow> stat_dir os fsd q"
    using e ensure_dir_keeps by (auto split: if_splits)
  have res: "(if pos \<le> length path
      then if \<not> okd then (False, fsd)
           else case nxt of None \<Rightarrow> (DirectoryExists os fsd path, fsd)
             | Some n \<Rightarrow> CreateDirectories_loop os path cur (n + 1) fsd
      else (DirectoryExists os fs path, fs)) = (ok, fs')"
    using less(2)
    unfolding CreateDirectories_loop.simps [of os path current pos fs] Let_def nxt_def [symmetric]
      part_def [symmetric] cur_def [symmetric] e prod.case .
  show ?case
  proof (cases "pos \<le> length path \<and> okd \<and> nxt \<noteq> None")
    case True
    then obtain n where n: "nxt = Some n" by auto
    have "length path + 1 - (n + 1) < length path + 1 - pos"
      using find_from_SomeD [of IsPathSeparator path pos n] n nxt_def by auto
    from less(1) [OF this] have "(stat_dir os fsd q \<longrightarrow> stat_dir os fs' q) \<and> (ok \<longrightarrow> DirectoryExists os fs' path)"
      using res True n by auto
    with keep show ?thesis by blast
  next
    case False
    with res keep show ?thesis by (auto split: if_splits option.splits)
  qed
qed

lemma CreateDirectories_correct:
  "CreateDirectories os path fs = (ok, fs') \<Longrightarrow>
     (stat_dir os fs q \<longrightarrow> stat_dir os fs' q) \<and> (ok \<longrightarrow> DirectoryExists os fs' path)"
  by (auto simp: CreateDirectories_def split: if_splits dest: loop_correct)

end

section \<open>A tree of POSIX directories\<close>

text \<open>
  An instance of the contract: a path is read as the list of its components (repeated slashes and
  \<open>.\<close> are skipped, a backslash is an ordinary character), a directory can be made where its parent
  is one.
\<close>

record posix_fs =
  fs_dirs :: "string list set"
  fs_files :: "string list \<Rightarrow> string option"

fun split_slash :: "string \<Rightarrow> string list" where
  "split_slash [] = [[]]"
| "split_slash (c # cs) =
     (if c = CHR ''/'' then [] # split_slash cs
      else case split_slash cs of [] \<Rightarrow> [[c]] | w # ws \<Rightarrow> (c # w) # ws)"

definition components :: "string \<Rightarrow> string list" where
  "components path = filter (\<lambda>w. w \<noteq> [] \<and> w \<noteq> ''.'') (split_slash path)"

definition posix_ops :: "posix_fs dir_ops" where
  "posix_ops =
     \<lparr>stat_dir = (\<lambda>fs path. components path = [] \<or> components path \<in> fs_dirs fs),
      mkdir = (\<lambda>fs path. let p = components path in
         if p = [] \<or> p \<in> fs_dirs fs \<or> fs_files fs p \<noteq> None then (Exists, fs)
         else if butlast p = [] \<or> butlast p \<in> fs_dirs fs
         then (Made, fs\<lparr>fs_dirs := insert p (fs_dirs fs)\<rparr>) else (Mkdir_Failed, fs))\<rparr>"

interpretation posix: directory_tree posix_ops
  by unfold_locales (auto simp: posix_ops_def Let_def split: if_splits)

lemmas directory_eval = CreateDirectories_def CreateDirectories_loop.simps DirectoryExists_def
  ensure_dir_def MakeDir_def posix_ops_def components_def find_from_def IsPathSeparator_def
  substr_def JoinPath_def

text \<open>
  \<open>CreateDirectories\<close> splits at backslashes also where the system does not: the chain it makes is
  not the path it was asked for, so it makes directories and reports failure.
\<close>

lemma CreateDirectories_posix:
  "CreateDirectories posix_ops ''logs/app'' \<lparr>fs_dirs = {}, fs_files = Map.empty\<rparr> =
     (True, \<lparr>fs_dirs = {[''logs''], [''logs'', ''app'']}, fs_files = Map.empty\<rparr>)"
  by (simp add: directory_eval Let_def insert_commute)

lemma CreateDirectories_backslash:
  "CreateDirectories posix_ops (''logs'' @ [CHR 0x5C] @ ''app'') \<lparr>fs_dirs = {}, fs_files = Map.empty\<rparr> =
     (False, \<lparr>fs_dirs = {[''logs''], [''logs'', ''app'']}, fs_files = Map.empty\<rparr>)"
  by (simp add: directory_eval Let_def insert_commute)

end
