(* ===== verification/CK_LogConfig.thy ===== *)
theory CK_LogConfig
  imports CK_LogText
begin

text \<open>
  The configuration file of the log manager (\<open>include/corekit/log/log_types.hpp\<close>,
  \<open>src/log_manager.cpp\<close>, lines 207 to 274 and 535 to 540): \<open>LoggingOptions\<close> and the line
  parser \<open>ParseConfig\<close>. The lemmas show that the written form of every configuration reads back
  as itself, that a later line wins, and what the removal of comments does to a value.
\<close>

section \<open>Options\<close>

datatype LogSeverity = kInfo | kWarning | kError | kFatal

record LoggingOptions =
  log_dir :: string
  session_subdir :: bool
  simple_format :: bool
  json_format :: bool
  async_sink :: bool
  async_queue_size :: int
  async_drop_when_full :: bool
  logtostderr :: bool
  min_log_level :: int
  max_log_size_mb :: int
  stop_logging_if_full_disk :: bool

definition default_LoggingOptions :: LoggingOptions where
  "default_LoggingOptions =
     \<lparr>log_dir = [], session_subdir = True, simple_format = False, json_format = False,
      async_sink = False, async_queue_size = 8192, async_drop_when_full = True,
      logtostderr = False, min_log_level = 0, max_log_size_mb = 1800,
      stop_logging_if_full_disk = False\<rparr>"

section \<open>Parsing\<close>

text \<open>The lines \<open>std::getline\<close> delivers.\<close>

function getlines :: "string \<Rightarrow> string list" where
  "getlines s =
     (if s = [] then []
      else takeWhile (\<lambda>c. c \<noteq> CHR 0x0A) s # getlines (drop 1 (dropWhile (\<lambda>c. c \<noteq> CHR 0x0A) s)))"
  by pat_completeness auto
termination
proof (relation "measure length")
  fix s :: string assume "s \<noteq> []"
  then show "(drop 1 (dropWhile (\<lambda>c. c \<noteq> CHR 0x0A) s), s) \<in> measure length"
    using length_dropWhile_le [of "\<lambda>c. c \<noteq> CHR 0x0A" s] by (cases s) auto
qed simp

declare getlines.simps [simp del]

text \<open>\<open>v.find("//")\<close>.\<close>

fun find_slashes :: "string \<Rightarrow> nat option" where
  "find_slashes (a # b # cs) =
     (if a = CHR ''/'' \<and> b = CHR ''/'' then Some 0 else map_option Suc (find_slashes (b # cs)))"
| "find_slashes _ = None"

definition cut_comment :: "string \<Rightarrow> string" where
  "cut_comment v =
     (let hash = find_from (\<lambda>c. c = CHR ''#'') v 0;
          slash = find_slashes v;
          pos = (case (hash, slash) of
                   (None, None) \<Rightarrow> None
                 | (Some h, None) \<Rightarrow> Some h
                 | (None, Some t) \<Rightarrow> Some t
                 | (Some h, Some t) \<Rightarrow> Some (min h t))
      in case pos of None \<Rightarrow> v | Some p \<Rightarrow> log_Trim (substr v 0 p))"

definition split_line :: "string \<Rightarrow> (string \<times> string) option" where
  "split_line line =
     (let trimmed = log_Trim line in
      if trimmed = [] \<or> hd trimmed = CHR ''#'' \<or> take 2 trimmed = ''//'' then None
      else case find_from (\<lambda>c. c = CHR ''='' \<or> c = CHR '':'') trimmed 0 of
          None \<Rightarrow> None
        | Some sep \<Rightarrow>
            Some (ToLower (log_Trim (substr trimmed 0 sep)),
                  cut_comment (log_Trim (drop (sep + 1) trimmed))))"

definition set_bool ::
  "string \<Rightarrow> (bool \<Rightarrow> LoggingOptions) \<Rightarrow> LoggingOptions \<times> bool \<Rightarrow> LoggingOptions \<times> bool"
where
  "set_bool value upd st =
     (case ParseBool value of Some b \<Rightarrow> (upd b, snd st) | None \<Rightarrow> (fst st, False))"

definition set_int ::
  "string \<Rightarrow> (int \<Rightarrow> bool) \<Rightarrow> (int \<Rightarrow> LoggingOptions) \<Rightarrow> LoggingOptions \<times> bool \<Rightarrow> LoggingOptions \<times> bool"
where
  "set_int value valid upd st =
     (case ParseInt value of
        Some i \<Rightarrow> if valid i then (upd i, snd st) else (fst st, False)
      | None \<Rightarrow> (fst st, False))"

definition parse_key :: "string \<Rightarrow> string \<Rightarrow> LoggingOptions \<times> bool \<Rightarrow> LoggingOptions \<times> bool" where
  "parse_key key value st =
     (let opts = fst st in
      if key = ''log_dir'' then (opts\<lparr>log_dir := value\<rparr>, snd st)
      else if key = ''session_subdir'' then set_bool value (\<lambda>b. opts\<lparr>session_subdir := b\<rparr>) st
      else if key = ''simple_format'' then set_bool value (\<lambda>b. opts\<lparr>simple_format := b\<rparr>) st
      else if key = ''json_format'' then set_bool value (\<lambda>b. opts\<lparr>json_format := b\<rparr>) st
      else if key = ''async_sink'' then set_bool value (\<lambda>b. opts\<lparr>async_sink := b\<rparr>) st
      else if key = ''async_queue_size'' then
        set_int value (\<lambda>i. i > 0) (\<lambda>i. opts\<lparr>async_queue_size := i\<rparr>) st
      else if key = ''async_drop_when_full'' then
        set_bool value (\<lambda>b. opts\<lparr>async_drop_when_full := b\<rparr>) st
      else if key = ''logtostderr'' then set_bool value (\<lambda>b. opts\<lparr>logtostderr := b\<rparr>) st
      else if key = ''minloglevel'' then (opts\<lparr>min_log_level := LevelFromText value\<rparr>, snd st)
      else if key = ''max_log_size'' then
        set_int value (\<lambda>i. True) (\<lambda>i. opts\<lparr>max_log_size_mb := i\<rparr>) st
      else if key = ''stop_logging_if_full_disk'' then
        set_bool value (\<lambda>b. opts\<lparr>stop_logging_if_full_disk := b\<rparr>) st
      else st)"

definition parse_line :: "LoggingOptions \<times> bool \<Rightarrow> string \<Rightarrow> LoggingOptions \<times> bool" where
  "parse_line st line =
     (case split_line line of None \<Rightarrow> st | Some (key, value) \<Rightarrow> parse_key key value st)"

text \<open>The options and the \<open>ok\<close> flag.\<close>

definition ParseConfig :: "string \<Rightarrow> LoggingOptions \<times> bool" where
  "ParseConfig input = foldl parse_line (default_LoggingOptions, True) (getlines input)"

text \<open>\<open>std::ifstream\<close> on the file system is a parameter: \<open>None\<close> when the file cannot be opened.\<close>

definition LoadFromFile :: "(string \<Rightarrow> string option) \<Rightarrow> string \<Rightarrow> LoggingOptions \<times> bool" where
  "LoadFromFile read_file path =
     (if path = [] then (default_LoggingOptions, True)
      else case read_file path of None \<Rightarrow> (default_LoggingOptions, False) | Some input \<Rightarrow> ParseConfig input)"

section \<open>Reading lines back\<close>

lemma takeWhile_line:
  "x \<notin> set l \<Longrightarrow> takeWhile (\<lambda>c. c \<noteq> x) (l @ x # r) = l \<and> dropWhile (\<lambda>c. c \<noteq> x) (l @ x # r) = x # r"
  by (induction l) auto

lemma getlines_Cons:
  "CHR 0x0A \<notin> set l \<Longrightarrow> getlines (l @ CHR 0x0A # rest) = l # getlines rest"
  by (subst getlines.simps) (simp add: takeWhile_line)

lemma getlines_concat:
  "\<forall>l \<in> set ls. CHR 0x0A \<notin> set l \<Longrightarrow> getlines (concat (map (\<lambda>l. l @ [CHR 0x0A]) ls)) = ls"
  by (induction ls) (simp_all add: getlines.simps [of "[]"] getlines_Cons)

definition plain_key :: "string \<Rightarrow> bool" where
  "plain_key k \<longleftrightarrow> k \<noteq> [] \<and> (\<forall>c \<in> set k. c \<in> set ''abcdefghijklmnopqrstuvwxyz_'')"

text \<open>A value that neither trimming nor the removal of comments changes.\<close>

definition clean_value :: "string \<Rightarrow> bool" where
  "clean_value v \<longleftrightarrow> (v = [] \<or> \<not> is_blank (hd v) \<and> \<not> is_blank (last v)) \<and>
     CHR ''#'' \<notin> set v \<and> find_slashes v = None \<and> CHR 0x0A \<notin> set v"

lemma plain_key_char:
  "c \<in> set ''abcdefghijklmnopqrstuvwxyz_'' \<Longrightarrow>
     \<not> is_blank c \<and> c \<noteq> CHR ''#'' \<and> c \<noteq> CHR ''/'' \<and> c \<noteq> CHR ''='' \<and> c \<noteq> CHR '':'' \<and>
     c \<noteq> CHR 0x0A \<and> tolower c = c"
  by (auto simp: is_blank_def tolower_def)

lemma plain_keyD:
  assumes "plain_key k"
  shows "k \<noteq> []" "\<And>c. c \<in> set k \<Longrightarrow> \<not> is_blank c \<and> c \<noteq> CHR ''#'' \<and> c \<noteq> CHR ''/'' \<and> c \<noteq> CHR ''='' \<and>
     c \<noteq> CHR '':'' \<and> c \<noteq> CHR 0x0A \<and> tolower c = c"
  using assms plain_key_char unfolding plain_key_def by blast+

lemma find_from_None: "\<forall>c \<in> set v. \<not> P c \<Longrightarrow> find_from P v 0 = None"
  by (simp add: find_from_def takeWhile_eq_all_conv [THEN iffD2])

lemma cut_comment_clean: "clean_value v \<Longrightarrow> cut_comment v = v"
  using find_from_None [of v "\<lambda>c. c = CHR ''#''"]
  by (fastforce simp: clean_value_def cut_comment_def)

lemma split_line_entry:
  assumes k: "plain_key k" and v: "clean_value v"
  shows "split_line (k @ '' = '' @ v) = Some (k, v)"
proof -
  note kd = plain_keyD [OF k]
  define sv where "sv = (if v = [] then [] else CHR 0x20 # v)"
  define t where "t = (k @ '' '') @ CHR ''='' # sv"
  have ends: "v \<noteq> [] \<Longrightarrow> \<not> is_blank (hd v) \<and> \<not> is_blank (last v)"
    using v by (auto simp: clean_value_def)
  have hk: "hd k \<in> set k" "last k \<in> set k" using kd(1) by simp_all
  have "k @ '' = '' @ v = [] @ t @ (if v = [] then '' '' else [])"
    by (simp add: t_def sv_def)
  moreover have "log_Trim ([] @ t @ (if v = [] then '' '' else [])) = t"
  proof (rule log_Trim_core)
    show "\<not> is_blank (hd t)" using kd hk by (simp add: t_def)
    show "\<not> is_blank (last t)" using ends by (auto simp: t_def sv_def is_blank_def)
  qed (auto simp: t_def is_blank_def)
  ultimately have trim: "log_Trim (k @ '' = '' @ v) = t" by simp
  have "hd t = hd k" using kd(1) by (simp add: t_def)
  then have head: "t \<noteq> []" "hd t \<noteq> CHR ''#''" "take 2 t \<noteq> ''//''"
    using kd(2) [OF hk(1)] by (auto simp: t_def) (cases k; auto)
  have find: "find_from (\<lambda>c. c = CHR ''='' \<or> c = CHR '':'') t 0 = Some (length k + 1)"
    unfolding t_def using kd(2) by (subst find_from_append) auto
  have key: "log_Trim (k @ '' '') = k"
    using log_Trim_core [of "[]" "'' ''" k] kd hk by (simp add: is_blank_def)
  have val: "log_Trim sv = v"
    using log_Trim_core [of "'' ''" "[]" v] ends log_Trim_blank [of "[]"] by (auto simp: sv_def is_blank_def)
  have low: "ToLower k = k" using kd(2) by (simp add: ToLower_def map_idI)
  have "substr t 0 (length k + 1) = k @ '' ''" "drop (length k + 1 + 1) t = sv"
    by (simp_all add: substr_def t_def)
  then show ?thesis
    using head find unfolding split_line_def trim Let_def
    by (simp add: key val low cut_comment_clean [OF v])
qed

section \<open>The written form of a configuration\<close>

definition bool_string :: "bool \<Rightarrow> string" where
  "bool_string b = (if b then ''true'' else ''false'')"

text \<open>The format of \<open>config/logging.conf\<close>.\<close>

definition config_entries :: "LoggingOptions \<Rightarrow> (string \<times> string) list" where
  "config_entries o1 =
     [(''log_dir'', log_dir o1),
      (''session_subdir'', bool_string (session_subdir o1)),
      (''simple_format'', bool_string (simple_format o1)),
      (''json_format'', bool_string (json_format o1)),
      (''async_sink'', bool_string (async_sink o1)),
      (''async_queue_size'', int_string (async_queue_size o1)),
      (''async_drop_when_full'', bool_string (async_drop_when_full o1)),
      (''logtostderr'', bool_string (logtostderr o1)),
      (''minloglevel'', int_string (min_log_level o1)),
      (''max_log_size'', int_string (max_log_size_mb o1)),
      (''stop_logging_if_full_disk'', bool_string (stop_logging_if_full_disk o1))]"

definition config_text :: "LoggingOptions \<Rightarrow> string" where
  "config_text o1 =
     concat (map (\<lambda>l. l @ [CHR 0x0A]) (map (\<lambda>(k, v). k @ '' = '' @ v) (config_entries o1)))"

definition in_int :: "int \<Rightarrow> bool" where
  "in_int i \<longleftrightarrow> - (2 ^ 31) \<le> i \<and> i \<le> 2 ^ 31 - 1"

definition options_ok :: "LoggingOptions \<Rightarrow> bool" where
  "options_ok o1 \<longleftrightarrow> clean_value (log_dir o1) \<and> 0 < async_queue_size o1 \<and>
     in_int (async_queue_size o1) \<and> in_int (min_log_level o1) \<and> in_int (max_log_size_mb o1)"

lemma find_slashes_none: "CHR ''/'' \<notin> set v \<Longrightarrow> find_slashes v = None"
  by (induction v rule: find_slashes.induct) auto

lemma int_string_chars: "c \<in> set (int_string i) \<Longrightarrow> is_digit c \<or> c = CHR ''-''"
  by (auto simp: int_string_def dec_string_digits split: if_splits)

lemma digit_char_plain:
  "is_digit c \<or> c = CHR ''-'' \<Longrightarrow>
     c \<noteq> CHR ''#'' \<and> c \<noteq> CHR ''/'' \<and> c \<noteq> CHR 0x0A \<and> tolower c = c \<and> c \<notin> set ''iwef''"
  by (auto simp: is_digit_def tolower_def)

lemma clean_int_string [simp]: "clean_value (int_string i)"
proof -
  have "c \<in> set (int_string i) \<Longrightarrow> c \<noteq> CHR ''#'' \<and> c \<noteq> CHR ''/'' \<and> c \<noteq> CHR 0x0A" for c
    using digit_char_plain [OF int_string_chars, of c i] by simp
  then have "CHR ''#'' \<notin> set (int_string i)" "CHR ''/'' \<notin> set (int_string i)"
    "CHR 0x0A \<notin> set (int_string i)" by blast+
  then show ?thesis
    using int_string_ends [of i] find_slashes_none unfolding clean_value_def by blast
qed

lemma clean_bool_string [simp]: "clean_value (bool_string b)"
  by (simp add: clean_value_def bool_string_def is_blank_def)

lemma ParseBool_bool_string [simp]: "ParseBool (bool_string b) = Some b"
proof -
  have "log_Trim (bool_string b) = bool_string b"
    using clean_bool_string [of b] by (intro log_Trim_id) (simp add: clean_value_def)
  then show ?thesis by (simp add: ParseBool_def ToLower_def bool_string_def tolower_def)
qed

lemma LevelFromText_int_string [simp]: "in_int i \<Longrightarrow> LevelFromText (int_string i) = i"
proof -
  assume i: "in_int i"
  have chars: "tolower c = c \<and> c \<notin> set ''iwef''" if "c \<in> set (int_string i)" for c
    using digit_char_plain [OF int_string_chars, OF that] by simp
  have "log_Trim (int_string i) = int_string i"
    by (rule log_Trim_id) (simp add: int_string_ends)
  then have v: "ToLower (log_Trim (int_string i)) = int_string i"
    using chars by (simp add: ToLower_def map_idI)
  have "hd (int_string i) \<notin> set ''iwef''" using chars int_string_ends(1) by (meson hd_in_set)
  then have "int_string i \<noteq> ''info''" "int_string i \<noteq> ''warning''" "int_string i \<noteq> ''warn''"
    "int_string i \<noteq> ''error''" "int_string i \<noteq> ''fatal''" by auto
  then show ?thesis using i ParseInt_int_string [of i] unfolding LevelFromText_def v Let_def
    by (simp add: in_int_def)
qed

lemma entry_keys: "(k, v) \<in> set (config_entries o1) \<Longrightarrow> plain_key k"
  by (auto simp: config_entries_def plain_key_def)

lemma entry_values: "clean_value (log_dir o1) \<Longrightarrow> (k, v) \<in> set (config_entries o1) \<Longrightarrow> clean_value v"
  by (auto simp: config_entries_def)

lemma parse_line_entry:
  "plain_key k \<Longrightarrow> clean_value v \<Longrightarrow> parse_line st (k @ '' = '' @ v) = parse_key k v st"
  by (simp add: parse_line_def split_line_entry del: append_Cons)

lemma foldl_parse_lines:
  "\<forall>(k, v) \<in> set es. plain_key k \<and> clean_value v \<Longrightarrow>
     foldl parse_line st (map (\<lambda>(k, v). k @ '' = '' @ v) es) =
     foldl (\<lambda>st (k, v). parse_key k v st) st es"
  by (induction es arbitrary: st) (auto simp: parse_line_entry simp del: append_Cons append_Nil)

lemma entry_lines:
  assumes "clean_value (log_dir o1)" "l \<in> set (map (\<lambda>(k, v). k @ '' = '' @ v) (config_entries o1))"
  shows "CHR 0x0A \<notin> set l"
proof -
  obtain k v where kv: "(k, v) \<in> set (config_entries o1)" and l: "l = k @ '' = '' @ v"
    using assms(2) by auto
  show ?thesis
    using plain_keyD(2) [OF entry_keys [OF kv]] entry_values [OF assms(1) kv]
    unfolding l clean_value_def by auto
qed

lemma set_value_simps [simp]:
  "set_bool (bool_string b) upd st = (upd b, snd st)"
  "in_int i \<Longrightarrow> valid i \<Longrightarrow> set_int (int_string i) valid upd' st = (upd' i, snd st)"
  by (simp_all add: set_bool_def set_int_def in_int_def ParseInt_int_string)

text \<open>
  C17: A configuration written in the format of \<open>config/logging.conf\<close> reads back as itself and
  \<open>ParseConfig\<close> reports success, for every configuration whose integers are values of
  \<open>int\<close>, whose queue size is positive and whose directory name has no line break, no blank at
  its ends and no comment mark.
\<close>

theorem ParseConfig_roundtrip:
  assumes "options_ok o1"
  shows "ParseConfig (config_text o1) = (o1, True)"
proof -
  have dir: "clean_value (log_dir o1)" using assms by (simp add: options_ok_def)
  have "getlines (config_text o1) = map (\<lambda>(k, v). k @ '' = '' @ v) (config_entries o1)"
    unfolding config_text_def by (rule getlines_concat) (use entry_lines [OF dir] in blast)
  moreover have "\<forall>(k, v) \<in> set (config_entries o1). plain_key k \<and> clean_value v"
    using entry_keys entry_values [OF dir] by blast
  ultimately have "ParseConfig (config_text o1) =
      foldl (\<lambda>st (k, v). parse_key k v st) (default_LoggingOptions, True) (config_entries o1)"
    unfolding ParseConfig_def by (simp only: foldl_parse_lines)
  also have "\<dots> = (o1, True)"
    using assms by (simp add: config_entries_def parse_key_def Let_def options_ok_def)
  finally show ?thesis .
qed

lemma ParseConfig_roundtrip_witness:
  "ParseConfig (config_text (default_LoggingOptions\<lparr>log_dir := ''./logs'', json_format := True, min_log_level := - 7\<rparr>)) =
     (default_LoggingOptions\<lparr>log_dir := ''./logs'', json_format := True, min_log_level := - 7\<rparr>, True)"
  by (rule ParseConfig_roundtrip)
     (simp add: options_ok_def default_LoggingOptions_def in_int_def clean_value_def is_blank_def)

lemmas parse_eval = ParseConfig_def parse_line_def split_line_def parse_key_def set_bool_def set_int_def
  cut_comment_def getlines.simps log_Trim_def find_from_def is_blank_def substr_def ToLower_def tolower_def

text \<open>
  The removal of comments also applies to a directory name: one that starts with two slashes becomes
  empty, and the log goes to \<open>stderr\<close> with no error.
\<close>

lemma ParseConfig_network_path:
  "ParseConfig ''log_dir=//server/share'' = (default_LoggingOptions, True)"
  by (simp add: parse_eval Let_def default_LoggingOptions_def)

end
