(* ===== verification/CK_LogFormat.thy ===== *)
theory CK_LogFormat
  imports CK_LogConfig
begin

text \<open>
  The line formats of the log (\<open>src/log_manager.cpp\<close>, lines 276 to 347 and 409 to 426): time
  stamps, JSON escaping, the source location and \<open>FormatLine\<close>. The broken-down local time and
  the nanoseconds come from the system and are arguments. A reader of JSON strings and flat objects,
  written from the grammar of RFC 8259, is the reference: a line in JSON format reads back as its
  fields, whatever the message and the source location contain.
\<close>

section \<open>Time stamps\<close>

record tm =
  tm_year :: int
  tm_mon :: int
  tm_mday :: int
  tm_hour :: int
  tm_min :: int
  tm_sec :: int

text \<open>\<open>system_clock::now()\<close>: its local time and the nanoseconds since the epoch.\<close>

record clock_time =
  local_tm :: tm
  epoch_ns :: nat

definition pad0 :: "nat \<Rightarrow> string \<Rightarrow> string" where
  "pad0 w s = replicate (w - length s) (CHR ''0'') @ s"

text \<open>The conversions \<open>%02d\<close>, \<open>%04d\<close> and \<open>%09lld\<close> of \<open>snprintf\<close>.\<close>

definition fmt_0d :: "nat \<Rightarrow> int \<Rightarrow> string" where
  "fmt_0d w i =
     (if i < 0 then CHR ''-'' # pad0 (w - 1) (dec_string (nat (- i))) else pad0 w (dec_string (nat i)))"

definition TimestampDir :: "clock_time \<Rightarrow> string" where
  "TimestampDir now =
     (let t = local_tm now in
      take 31 (fmt_0d 4 (tm_year t + 1900) @ fmt_0d 2 (tm_mon t + 1) @ fmt_0d 2 (tm_mday t) @ ''-'' @
               fmt_0d 2 (tm_hour t) @ fmt_0d 2 (tm_min t) @ fmt_0d 2 (tm_sec t)))"

definition TimestampPrefix :: "clock_time \<Rightarrow> string" where
  "TimestampPrefix now =
     (let t = local_tm now; ns = epoch_ns now mod 1000000000 in
      take 63 (fmt_0d 4 (tm_year t + 1900) @ fmt_0d 2 (tm_mon t + 1) @ fmt_0d 2 (tm_mday t) @ '' '' @
               fmt_0d 2 (tm_hour t) @ '':'' @ fmt_0d 2 (tm_min t) @ '':'' @ fmt_0d 2 (tm_sec t) @ ''.'' @
               fmt_0d 9 (int ns)))"

section \<open>Escaping\<close>

definition quote_char :: char where "quote_char = CHR 0x22"
definition backslash :: char where "backslash = CHR 0x5C"

definition hex_lower :: "nat \<Rightarrow> char" where
  "hex_lower n = ''0123456789abcdef'' ! n"

fun hex_string :: "nat \<Rightarrow> string" where
  "hex_string n = (if n < 16 then [hex_lower n] else hex_string (n div 16) @ [hex_lower (n mod 16)])"

declare hex_string.simps [simp del]

definition escape_char :: "char \<Rightarrow> string" where
  "escape_char c =
     (if c = backslash then [backslash, backslash]
      else if c = quote_char then [backslash, quote_char]
      else if c = CHR 0x0A then [backslash, CHR ''n'']
      else if c = CHR 0x0D then [backslash, CHR ''r'']
      else if c = CHR 0x09 then [backslash, CHR ''t'']
      else if (of_char c :: nat) < 0x20 then [backslash, CHR ''u''] @ pad0 4 (hex_string (of_char c))
      else [c])"

definition JsonEscape :: "string \<Rightarrow> string" where
  "JsonEscape input = concat (map escape_char input)"

section \<open>Lines\<close>

definition LevelChar :: "int \<Rightarrow> char" where
  "LevelChar severity = ''IWEF'' ! nat (ClampInt severity 0 3)"

text \<open>A null pointer is \<open>None\<close>.\<close>

definition FormatSourceLocation :: "string option \<Rightarrow> int \<Rightarrow> string" where
  "FormatSourceLocation file line =
     (case file of None \<Rightarrow> []
      | Some f \<Rightarrow> if f = [] \<or> line \<le> 0 then [] else ''['' @ f @ '':'' @ int_string line @ '']'')"

datatype Mode = kSimple | kJson

definition quoted :: "string \<Rightarrow> string" where
  "quoted s = quote_char # s @ [quote_char]"

definition FormatLine :: "Mode \<Rightarrow> clock_time \<Rightarrow> int \<Rightarrow> string \<Rightarrow> string \<Rightarrow> string" where
  "FormatLine mode now severity location msg =
     (let level = LevelChar severity in
      if mode = kSimple then
        TimestampPrefix now @ '' ['' @ [level] @ '']'' @
        (if location \<noteq> [] then '' '' @ location else []) @ '' '' @ msg
      else
        ''{'' @ quoted ''ts'' @ '':'' @ quoted (TimestampPrefix now) @
        '','' @ quoted ''level'' @ '':'' @ quoted [level] @
        (if location \<noteq> [] then '','' @ quoted ''source'' @ '':'' @ quoted (JsonEscape location) else []) @
        '','' @ quoted ''message'' @ '':'' @ quoted (JsonEscape msg) @ ''}'')"

text \<open>The line the worker writes about dropped messages, in either mode.\<close>

definition dropped_line :: "clock_time \<Rightarrow> nat \<Rightarrow> string" where
  "dropped_line now n =
     ''{'' @ quoted ''ts'' @ '':'' @ quoted (TimestampPrefix now) @
     '','' @ quoted ''level'' @ '':'' @ quoted ''W'' @
     '','' @ quoted ''message'' @ '':'' @
     quoted (''corekit dropped '' @ dec_string n @ '' messages because async queue was full'') @ ''}''"

section \<open>A reader for JSON strings and flat objects\<close>

definition unhex :: "char \<Rightarrow> nat option" where
  "unhex c =
     (let n = of_char c :: nat in
      if 48 \<le> n \<and> n \<le> 57 then Some (n - 48)
      else if 97 \<le> n \<and> n \<le> 102 then Some (n - 87)
      else if 65 \<le> n \<and> n \<le> 70 then Some (n - 55)
      else None)"

text \<open>
  One character of a JSON string. Control characters must be escaped; of the escapes
  \<open>\u\<close> only those of ASCII characters are read.
\<close>

fun json_unicode :: "string \<Rightarrow> (char \<times> string) option" where
  "json_unicode (a # b # c # d # rest) =
     (case (unhex a, unhex b, unhex c, unhex d) of
        (Some w, Some x, Some y, Some z) \<Rightarrow>
          (let n = 4096 * w + 256 * x + 16 * y + z in if n < 128 then Some (char_of n, rest) else None)
      | _ \<Rightarrow> None)"
| "json_unicode _ = None"

fun json_escape :: "string \<Rightarrow> (char \<times> string) option" where
  "json_escape [] = None"
| "json_escape (e # rest) =
     (if e = quote_char \<or> e = backslash \<or> e = CHR ''/'' then Some (e, rest)
      else if e = CHR ''b'' then Some (CHR 0x08, rest)
      else if e = CHR ''f'' then Some (CHR 0x0C, rest)
      else if e = CHR ''n'' then Some (CHR 0x0A, rest)
      else if e = CHR ''r'' then Some (CHR 0x0D, rest)
      else if e = CHR ''t'' then Some (CHR 0x09, rest)
      else if e = CHR ''u'' then json_unicode rest
      else None)"

fun json_char :: "string \<Rightarrow> (char \<times> string) option" where
  "json_char [] = None"
| "json_char (c # cs) =
     (if c = quote_char \<or> (of_char c :: nat) < 0x20 then None
      else if c = backslash then json_escape cs
      else Some (c, cs))"

lemma json_unicode_shorter: "json_unicode s = Some (c, r) \<Longrightarrow> length r < length s"
  by (cases s rule: json_unicode.cases) (auto simp: Let_def split: option.splits if_splits)

lemma json_escape_shorter: "json_escape s = Some (c, r) \<Longrightarrow> length r < length s"
  by (cases s) (auto split: if_splits dest: json_unicode_shorter)

lemma json_char_shorter: "json_char s = Some (c, r) \<Longrightarrow> length r < length s"
  by (cases s) (auto split: if_splits dest: json_escape_shorter)

text \<open>The characters up to the closing quote.\<close>

function json_chars :: "string \<Rightarrow> (string \<times> string) option" where
  "json_chars s =
     (if s \<noteq> [] \<and> hd s = quote_char then Some ([], tl s)
      else case json_char s of
          None \<Rightarrow> None
        | Some (c, r) \<Rightarrow> map_option (\<lambda>(t, rest). (c # t, rest)) (json_chars r))"
  by pat_completeness auto
termination by (relation "measure length") (auto dest: json_char_shorter)

declare json_chars.simps [simp del]

definition json_string :: "string \<Rightarrow> (string \<times> string) option" where
  "json_string s = (if s \<noteq> [] \<and> hd s = quote_char then json_chars (tl s) else None)"

definition json_member :: "string \<Rightarrow> ((string \<times> string) \<times> string) option" where
  "json_member s =
     (case json_string s of
        Some (k, sep # r) \<Rightarrow>
          (if sep = CHR '':'' then map_option (\<lambda>(v, rest). ((k, v), rest)) (json_string r) else None)
      | _ \<Rightarrow> None)"

lemma json_chars_shorter: "json_chars s = Some (t, r) \<Longrightarrow> length r < length s"
proof (induction s arbitrary: t rule: json_chars.induct)
  case (1 s)
  show ?case
  proof (cases "s \<noteq> [] \<and> hd s = quote_char")
    case True
    then show ?thesis using 1(2) by (subst (asm) json_chars.simps) auto
  next
    case False
    then obtain c r' t' where "json_char s = Some (c, r')" "json_chars r' = Some (t', r)"
      using 1(2) by (subst (asm) json_chars.simps) (auto split: option.splits if_splits)
    then show ?thesis using 1(1) [OF False] json_char_shorter [of s] by fastforce
  qed
qed

lemma json_string_shorter: "json_string s = Some (t, r) \<Longrightarrow> length r < length s"
  by (cases s) (auto simp: json_string_def split: if_splits dest!: json_chars_shorter)

lemma json_member_shorter: "json_member s = Some (kv, r) \<Longrightarrow> length r < length s"
  by (auto simp: json_member_def split: option.splits list.splits if_splits dest!: json_string_shorter)

function json_members :: "string \<Rightarrow> (string \<times> string) list option" where
  "json_members s =
     (case json_member s of
        Some (kv, sep # rest) \<Rightarrow>
          (if sep = CHR ''}'' then (if rest = [] then Some [kv] else None)
           else if sep = CHR '','' then map_option (\<lambda>kvs. kv # kvs) (json_members rest)
           else None)
      | _ \<Rightarrow> None)"
  by pat_completeness auto
termination by (relation "measure length") (auto dest: json_member_shorter)

declare json_members.simps [simp del]

text \<open>A line that is one object with string values.\<close>

definition json_line :: "string \<Rightarrow> (string \<times> string) list option" where
  "json_line s = (if s \<noteq> [] \<and> hd s = CHR ''{'' then json_members (tl s) else None)"

section \<open>Reading back what was escaped\<close>

lemma hex_lower_inverse: "n < 16 \<Longrightarrow> unhex (hex_lower n) = Some n"
proof -
  assume "n < 16"
  then have "n \<in> {0, 1, 2, 3, 4, 5, 6, 7, 8, 9, 10, 11, 12, 13, 14, 15}" by (simp, arith)
  then show ?thesis by (auto simp: unhex_def hex_lower_def)
qed

lemma control_escape:
  "n < 0x20 \<Longrightarrow> json_unicode (pad0 4 (hex_string n) @ rest) = Some (char_of n, rest)"
proof -
  assume n: "n < 0x20"
  have zero: "unhex (CHR ''0'') = Some 0" by (simp add: unhex_def)
  show ?thesis
  proof (cases "n < 16")
    case True
    then show ?thesis
      by (subst hex_string.simps) (simp add: pad0_def numeral_3_eq_3 hex_lower_inverse zero)
  next
    case False
    with n have d: "n div 16 = 1" "16 + n mod 16 = n" by arith+
    then have "hex_string n = [hex_lower 1, hex_lower (n mod 16)]"
      using False by (simp add: hex_string.simps [of n] hex_string.simps [of "Suc 0"])
    then show ?thesis
      using n d(2) by (simp add: pad0_def numeral_2_eq_2 hex_lower_inverse zero)
  qed
qed

lemma json_char_escape: "json_char (escape_char c @ rest) = Some (c, rest)"
proof -
  have [simp]: "\<not> (of_char backslash :: nat) < 0x20" "backslash \<noteq> quote_char"
    by (simp_all add: backslash_def quote_char_def)
  consider "c = backslash" | "c = quote_char" | "c = CHR 0x0A" | "c = CHR 0x0D" | "c = CHR 0x09"
    | (control) "c \<notin> {backslash, quote_char, CHR 0x0A, CHR 0x0D, CHR 0x09}" "(of_char c :: nat) < 0x20"
    | (plain) "c \<notin> {backslash, quote_char, CHR 0x0A, CHR 0x0D, CHR 0x09}" "\<not> (of_char c :: nat) < 0x20"
    by blast
  then show ?thesis
  proof cases
    case control
    then show ?thesis
      using control_escape [OF control(2), of rest] by (simp add: escape_char_def backslash_def quote_char_def)
  qed (auto simp: escape_char_def backslash_def quote_char_def)
qed

lemma escape_char_no_quote: "escape_char c \<noteq> [] \<and> hd (escape_char c) \<noteq> quote_char"
  by (auto simp: escape_char_def backslash_def quote_char_def)

lemma json_chars_escape: "json_chars (JsonEscape s @ quote_char # rest) = Some (s, rest)"
proof (induction s)
  case Nil
  then show ?case by (subst json_chars.simps) (simp add: JsonEscape_def)
next
  case (Cons c s)
  then show ?case
    using escape_char_no_quote [of c] json_char_escape [of c "JsonEscape s @ quote_char # rest"]
    by (subst json_chars.simps) (simp add: JsonEscape_def)
qed

lemma json_string_escape: "json_string (quoted (JsonEscape s) @ rest) = Some (s, rest)"
  using json_chars_escape [of s rest] by (simp add: json_string_def quoted_def)

text \<open>Text that needs no escape.\<close>

definition json_plain :: "string \<Rightarrow> bool" where
  "json_plain s \<longleftrightarrow> (\<forall>c \<in> set s. c \<noteq> quote_char \<and> c \<noteq> backslash \<and> 0x20 \<le> (of_char c :: nat))"

lemma JsonEscape_plain: "json_plain s \<Longrightarrow> JsonEscape s = s"
proof (induction s)
  case (Cons c s)
  then have "c \<noteq> CHR 0x0A" "c \<noteq> CHR 0x0D" "c \<noteq> CHR 0x09" by (auto simp: json_plain_def)
  with Cons show ?case by (simp add: JsonEscape_def json_plain_def escape_char_def)
qed (simp add: JsonEscape_def)

lemma json_string_plain: "json_plain s \<Longrightarrow> json_string (quoted s @ rest) = Some (s, rest)"
  using json_string_escape [of s rest] by (simp add: JsonEscape_plain)

lemma json_plain_append [simp]: "json_plain (a @ b) \<longleftrightarrow> json_plain a \<and> json_plain b"
  by (auto simp: json_plain_def)

lemma json_plain_take: "json_plain s \<Longrightarrow> json_plain (take n s)"
  by (auto simp: json_plain_def dest: in_set_takeD)

lemma is_digit_plain: "is_digit c \<Longrightarrow> c \<noteq> quote_char \<and> c \<noteq> backslash \<and> 0x20 \<le> (of_char c :: nat)"
  by (auto simp: is_digit_def quote_char_def backslash_def)

lemma json_plain_dec: "json_plain (dec_string n)"
  unfolding json_plain_def using is_digit_plain [OF dec_string_digits] by fast

lemma json_plain_fmt: "json_plain (fmt_0d w i)"
proof -
  have zeros: "json_plain (replicate k (CHR ''0''))" for k
    by (auto simp: json_plain_def quote_char_def backslash_def)
  have minus: "json_plain (CHR ''-'' # s) = json_plain s" for s
    by (simp add: json_plain_def quote_char_def backslash_def)
  show ?thesis by (simp add: fmt_0d_def pad0_def minus zeros json_plain_dec)
qed

lemma json_plain_Timestamp: "json_plain (TimestampPrefix now)"
proof -
  have "json_plain '' ''" "json_plain '':''" "json_plain ''.''"
    by (simp_all add: json_plain_def quote_char_def backslash_def)
  then show ?thesis
    unfolding TimestampPrefix_def Let_def by (intro json_plain_take) (simp only: json_plain_append json_plain_fmt)
qed

lemma json_plain_level: "json_plain [LevelChar severity]"
proof -
  have "nat (ClampInt severity 0 3) \<in> {0, 1, 2, 3}" by (auto simp: ClampInt_def)
  then show ?thesis by (auto simp: LevelChar_def json_plain_def quote_char_def backslash_def)
qed

lemma json_member_quoted:
  "json_plain k \<Longrightarrow>
     json_member (quoted k @ CHR '':'' # quoted (JsonEscape v) @ rest) = Some ((k, v), rest)"
  using json_string_plain [of k "CHR '':'' # quoted (JsonEscape v) @ rest"] json_string_escape [of v rest]
  by (simp add: json_member_def)

lemma json_members_more:
  "json_plain k \<Longrightarrow>
     json_members (quoted k @ CHR '':'' # quoted (JsonEscape v) @ CHR '','' # rest) =
     map_option (\<lambda>kvs. (k, v) # kvs) (json_members rest)"
  by (subst json_members.simps) (simp add: json_member_quoted)

lemma json_members_last:
  "json_plain k \<Longrightarrow> json_members (quoted k @ CHR '':'' # quoted (JsonEscape v) @ ''}'') = Some [(k, v)]"
  by (subst json_members.simps) (simp add: json_member_quoted)

lemma json_plain_keys:
  "json_plain ''ts''" "json_plain ''level''" "json_plain ''source''" "json_plain ''message''"
  by (simp_all add: json_plain_def quote_char_def backslash_def)

text \<open>
  C16: In JSON mode every line that \<open>FormatLine\<close> makes is one JSON object, and reading it gives back
  exactly the time stamp, the level, the source location (when there is one) and the message: no
  message and no file name, whatever bytes it contains, can add, change or end a field.
\<close>

theorem FormatLine_json_roundtrip:
  "json_line (FormatLine kJson now severity location msg) =
     Some ([(''ts'', TimestampPrefix now), (''level'', [LevelChar severity])] @
           (if location = [] then [] else [(''source'', location)]) @ [(''message'', msg)])"
proof -
  let ?ts = "TimestampPrefix now" and ?lv = "[LevelChar severity]"
  have esc: "JsonEscape ?ts = ?ts" "JsonEscape ?lv = ?lv"
    by (simp_all add: JsonEscape_plain json_plain_Timestamp json_plain_level)
  have more: "json_members (quoted k @ CHR '':'' # quoted v @ CHR '','' # rest) =
      map_option (\<lambda>kvs. (k, v) # kvs) (json_members rest)"
    if "json_plain k" "JsonEscape v = v" for k v rest
    using json_members_more [OF that(1), of v rest] that(2) by simp
  show ?thesis
    using more [OF json_plain_keys(1) esc(1)] more [OF json_plain_keys(2) esc(2)]
      json_members_more [OF json_plain_keys(3), of location]
      json_members_last [OF json_plain_keys(4), of msg]
    by (simp add: json_line_def FormatLine_def Let_def)
qed

end
