(* ===== verification/CK_LogSink.thy ===== *)
theory CK_LogSink
  imports CK_LogFormat
begin

text \<open>
  \<open>FormattedSink\<close> of \<open>src/log_manager.cpp\<close> (lines 349 to 465): the sink that glog calls for
  every message, with its optional queue and worker thread. The critical sections of \<open>send\<close>, of
  \<open>RunWorker\<close> and of the destructor are the steps of a transition relation; a wait whose
  condition does not hold is no step. Every interleaving of senders, worker and destructor keeps the
  accepted lines in order, bounds the queue and counts what is dropped; the destructor returns and has
  written every accepted line.
\<close>

section \<open>State\<close>

text \<open>
  The worker is between two lines, holds a line it has taken from the queue, has left the loop, or has
  returned. \<open>stream\<close> is what the sink has written, line by line; \<open>is_open\<close> tells whether the
  file could be opened.
\<close>

datatype worker = Worker_Idle | Worker_Holds string | Worker_Leaving | Worker_Exited

record FormattedSink =
  file_path :: string
  is_open :: bool
  stream :: "string list"
  mode :: Mode
  async_mode :: bool
  queue_size :: int
  drop_when_full :: bool
  queue :: "string list"
  worker :: worker
  stopping :: bool
  dropped_count :: nat

definition new_FormattedSink :: "bool \<Rightarrow> string \<Rightarrow> Mode \<Rightarrow> bool \<Rightarrow> int \<Rightarrow> bool \<Rightarrow> FormattedSink" where
  "new_FormattedSink opened path m async qsize drop_full =
     \<lparr>file_path = path, is_open = opened, stream = [], mode = m, async_mode = async,
      queue_size = max 1 qsize, drop_when_full = drop_full, queue = [], worker = Worker_Idle,
      stopping = False, dropped_count = 0\<rparr>"

section \<open>Operations\<close>

fun strip_newlines_rev :: "string \<Rightarrow> string" where
  "strip_newlines_rev [] = []"
| "strip_newlines_rev (c # cs) = (if c = CHR 0x0A \<or> c = CHR 0x0D then strip_newlines_rev cs else c # cs)"

definition strip_newlines :: "string \<Rightarrow> string" where
  "strip_newlines msg = rev (strip_newlines_rev (rev msg))"

text \<open>What a call of \<open>send\<close> is about, with the time at which it formats the line.\<close>

record message =
  msg_time :: clock_time
  msg_severity :: int
  msg_file :: "string option"
  msg_line :: int
  msg_text :: "string option"

definition formatted :: "Mode \<Rightarrow> message \<Rightarrow> string" where
  "formatted m x =
     (let msg = strip_newlines (case msg_text x of None \<Rightarrow> [] | Some t \<Rightarrow> t);
          location = FormatSourceLocation (msg_file x) (msg_line x)
      in FormatLine m (msg_time x) (msg_severity x) location msg)"

text \<open>How a call of \<open>send\<close> ends; \<open>Send_Blocked\<close> is a call that has to wait.\<close>

datatype send_result = Send_Closed | Send_Written | Send_Queued | Send_Dropped | Send_Stopped | Send_Blocked

definition send :: "FormattedSink \<Rightarrow> message \<Rightarrow> send_result \<times> FormattedSink" where
  "send s x =
     (if \<not> is_open s then (Send_Closed, s)
      else let formatted_line = formatted (mode s) x in
      if \<not> async_mode s then (Send_Written, s\<lparr>stream := stream s @ [formatted_line]\<rparr>)
      else if drop_when_full s then
        (if length (queue s) \<ge> nat (queue_size s)
         then (Send_Dropped, s\<lparr>dropped_count := dropped_count s + 1\<rparr>)
         else (Send_Queued, s\<lparr>queue := queue s @ [formatted_line]\<rparr>))
      else if \<not> (stopping s \<or> length (queue s) < nat (queue_size s)) then (Send_Blocked, s)
      else if stopping s then (Send_Stopped, s)
      else (Send_Queued, s\<lparr>queue := queue s @ [formatted_line]\<rparr>))"

text \<open>
  One critical section of \<open>RunWorker\<close>; \<open>None\<close> when the worker waits or has returned. The time is
  the one of the line on dropped messages.
\<close>

definition sink_worker_step :: "clock_time \<Rightarrow> FormattedSink \<Rightarrow> FormattedSink option" where
  "sink_worker_step now s =
     (if \<not> async_mode s then None
      else case worker s of
        Worker_Idle \<Rightarrow>
          (if \<not> (stopping s \<or> queue s \<noteq> []) then None
           else if queue s = [] then Some (s\<lparr>worker := Worker_Leaving\<rparr>)
           else Some (s\<lparr>worker := Worker_Holds (hd (queue s)), queue := tl (queue s)\<rparr>))
      | Worker_Holds line \<Rightarrow>
          Some (s\<lparr>stream := stream s @ (if is_open s then [line] else []), worker := Worker_Idle\<rparr>)
      | Worker_Leaving \<Rightarrow>
          Some (s\<lparr>worker := Worker_Exited,
                  stream := stream s @ (if dropped_count s > 0 \<and> is_open s
                                        then [dropped_line now (dropped_count s)] else [])\<rparr>)
      | Worker_Exited \<Rightarrow> None)"

definition request_stop :: "FormattedSink \<Rightarrow> FormattedSink" where
  "request_stop s = (if \<not> async_mode s then s else s\<lparr>stopping := True\<rparr>)"

text \<open>The worker on its own, until it waits or returns.\<close>

fun worker_rank :: "worker \<Rightarrow> nat" where
  "worker_rank Worker_Idle = 2"
| "worker_rank (Worker_Holds l) = 3"
| "worker_rank Worker_Leaving = 1"
| "worker_rank Worker_Exited = 0"

lemma sink_worker_step_rank:
  "sink_worker_step now s = Some s' \<Longrightarrow>
     2 * length (queue s') + worker_rank (worker s') < 2 * length (queue s) + worker_rank (worker s)"
  by (cases "queue s") (auto simp: sink_worker_step_def split: if_splits worker.splits)

function RunWorker :: "clock_time \<Rightarrow> FormattedSink \<Rightarrow> FormattedSink" where
  "RunWorker now s = (case sink_worker_step now s of None \<Rightarrow> s | Some s' \<Rightarrow> RunWorker now s')"
  by pat_completeness auto
termination
  by (relation "measure (\<lambda>(now, s). 2 * length (queue s) + worker_rank (worker s))")
     (simp_all add: sink_worker_step_rank)

declare RunWorker.simps [simp del]

text \<open>\<open>~FormattedSink\<close>: the stop request and the join of the worker.\<close>

definition delete_FormattedSink :: "clock_time \<Rightarrow> FormattedSink \<Rightarrow> FormattedSink" where
  "delete_FormattedSink now s = (if \<not> async_mode s then s else RunWorker now (request_stop s))"

section \<open>Interleavings\<close>

text \<open>
  \<open>sink_run s0 acc n s\<close>: some interleaving leads from \<open>s0\<close> to \<open>s\<close>, in which the calls of
  \<open>send\<close> accepted the lines \<open>acc\<close> in this order and dropped \<open>n\<close> messages.
\<close>

inductive sink_run :: "FormattedSink \<Rightarrow> string list \<Rightarrow> nat \<Rightarrow> FormattedSink \<Rightarrow> bool" for s0 where
  start: "sink_run s0 [] 0 s0"
| sent: "sink_run s0 acc n s \<Longrightarrow> send s x = (r, s') \<Longrightarrow>
     sink_run s0 (acc @ (if r = Send_Written \<or> r = Send_Queued then [formatted (mode s) x] else []))
       (n + (if r = Send_Dropped then 1 else 0)) s'"
| work: "sink_run s0 acc n s \<Longrightarrow> sink_worker_step now s = Some s' \<Longrightarrow> sink_run s0 acc n s'"
| stop: "sink_run s0 acc n s \<Longrightarrow> sink_run s0 acc n (request_stop s)"

fun in_hand :: "worker \<Rightarrow> string list" where
  "in_hand (Worker_Holds l) = [l]"
| "in_hand _ = []"

text \<open>
  What has been written, before and after the worker's last line. Lines sent after the worker has
  returned stay in the queue.
\<close>

definition final_stream :: "string list \<Rightarrow> nat \<Rightarrow> string list \<Rightarrow> bool" where
  "final_stream lines n st \<longleftrightarrow>
     (\<exists>k now. k \<le> n \<and> st = lines @ (if k > 0 then [dropped_line now k] else []))"

definition sink_written :: "string list \<Rightarrow> nat \<Rightarrow> FormattedSink \<Rightarrow> bool" where
  "sink_written acc n s \<longleftrightarrow>
     (if worker s = Worker_Exited
      then \<exists>lines. acc = lines @ queue s \<and> final_stream lines n (stream s)
      else acc = stream s @ in_hand (worker s) @ queue s)"

lemma final_stream_mono: "final_stream lines n st \<Longrightarrow> final_stream lines (Suc n) st"
  unfolding final_stream_def by (elim exE conjE, intro exI conjI, erule le_SucI, assumption)

lemma final_stream_now:
  "final_stream lines n (lines @ (if n > 0 then [dropped_line now n] else []))"
  unfolding final_stream_def by blast

definition sink_inv :: "FormattedSink \<Rightarrow> string list \<Rightarrow> nat \<Rightarrow> FormattedSink \<Rightarrow> bool" where
  "sink_inv s0 acc n s \<longleftrightarrow>
     is_open s \<and> mode s = mode s0 \<and> async_mode s = async_mode s0 \<and> queue_size s = queue_size s0 \<and>
     drop_when_full s = drop_when_full s0 \<and> file_path s = file_path s0 \<and>
     length (queue s) \<le> nat (queue_size s) \<and> dropped_count s = n \<and>
     (\<not> async_mode s \<longrightarrow> worker s = Worker_Idle \<and> queue s = []) \<and>
     (\<not> (async_mode s \<and> drop_when_full s) \<longrightarrow> n = 0) \<and>
     (worker s \<in> {Worker_Leaving, Worker_Exited} \<longrightarrow> stopping s) \<and>
     sink_written acc n s"

lemma send_cases:
  assumes "send s x = (r, s')" "is_open s"
  obtains (written) "r = Send_Written" "\<not> async_mode s" "s' = s\<lparr>stream := stream s @ [formatted (mode s) x]\<rparr>"
  | (queued) "r = Send_Queued" "async_mode s" "length (queue s) < nat (queue_size s)"
      "s' = s\<lparr>queue := queue s @ [formatted (mode s) x]\<rparr>"
  | (dropped) "r = Send_Dropped" "async_mode s" "drop_when_full s" "s' = s\<lparr>dropped_count := dropped_count s + 1\<rparr>"
  | (same) "r = Send_Stopped \<or> r = Send_Blocked" "s' = s"
proof -
  let ?full = "length (queue s) \<ge> nat (queue_size s)"
  have eq: "(r, s') = send s x" using assms(1) by simp
  consider "\<not> async_mode s" | "async_mode s" "drop_when_full s" "?full"
    | "async_mode s" "drop_when_full s \<or> \<not> stopping s" "\<not> ?full"
    | "async_mode s" "\<not> drop_when_full s" "stopping s \<or> ?full" by blast
  then show thesis
  proof cases
    case 1 with eq assms(2) show thesis by (intro written) (simp_all add: send_def Let_def)
  next
    case 2 with eq assms(2) show thesis by (intro dropped) (simp_all add: send_def Let_def)
  next
    case 3 with eq assms(2) show thesis
      by (intro queued) (auto simp: send_def Let_def not_le split: if_splits)
  next
    case 4 with eq assms(2) show thesis
      by (intro same) (auto simp: send_def Let_def not_le split: if_splits)
  qed
qed

lemma send_inv:
  assumes inv: "sink_inv s0 acc n s" and step: "send s x = (r, s')"
  shows "sink_inv s0 (acc @ (if r = Send_Written \<or> r = Send_Queued then [formatted (mode s) x] else []))
    (n + (if r = Send_Dropped then 1 else 0)) s'"
proof -
  have "is_open s" using inv by (simp add: sink_inv_def)
  with step show ?thesis
  proof (cases rule: send_cases)
    case same
    with inv show ?thesis by auto
  qed (use inv in \<open>auto simp: sink_inv_def sink_written_def intro: final_stream_mono split: if_splits\<close>)
qed

lemma sink_worker_step_inv:
  assumes inv: "sink_inv s0 acc n s" and step: "sink_worker_step now s = Some s'"
  shows "sink_inv s0 acc n s'"
proof (cases "worker s")
  case Worker_Leaving
  with inv step show ?thesis
    using final_stream_now [of "stream s" n now]
    by (auto simp: sink_inv_def sink_written_def sink_worker_step_def split: if_splits)
qed (use inv step in \<open>auto simp: sink_inv_def sink_written_def sink_worker_step_def split: if_splits\<close>)

lemma request_stop_inv: "sink_inv s0 acc n s \<Longrightarrow> sink_inv s0 acc n (request_stop s)"
  by (auto simp: sink_inv_def sink_written_def request_stop_def)

lemma new_sink_inv: "sink_inv (new_FormattedSink True path m async q dr) [] 0 (new_FormattedSink True path m async q dr)"
  by (simp add: sink_inv_def sink_written_def new_FormattedSink_def)

lemma sink_run_inv:
  "sink_run s0 acc n s \<Longrightarrow> sink_inv s0 [] 0 s0 \<Longrightarrow> sink_inv s0 acc n s"
  by (induction rule: sink_run.induct) (blast intro: send_inv sink_worker_step_inv request_stop_inv)+

section \<open>The worker alone\<close>

text \<open>
  Asked to stop, the worker writes the line it holds, the queue, and one line on dropped messages, and
  returns.
\<close>

lemma RunWorker_stopping:
  assumes "async_mode s" "is_open s" "stopping s" "worker s \<noteq> Worker_Exited"
  shows "RunWorker now s =
    s\<lparr>stream := stream s @ in_hand (worker s) @
        (if worker s = Worker_Leaving then [] else queue s) @
        (if dropped_count s > 0 then [dropped_line now (dropped_count s)] else []),
      queue := (if worker s = Worker_Leaving then queue s else []), worker := Worker_Exited\<rparr>"
  using assms
proof (induction now s rule: RunWorker.induct)
  case (1 now s)
  show ?case
  proof (cases "worker s")
    case Worker_Leaving
    then have "sink_worker_step now s = Some (s\<lparr>worker := Worker_Exited, stream := stream s @
        (if dropped_count s > 0 then [dropped_line now (dropped_count s)] else [])\<rparr>)"
      using 1 by (simp add: sink_worker_step_def)
    then show ?thesis
      using Worker_Leaving by (simp add: RunWorker.simps [of now s] RunWorker.simps [of now "_\<lparr>worker := Worker_Exited, stream := _\<rparr>"] sink_worker_step_def)
  next
    case (Worker_Holds l)
    then have step: "sink_worker_step now s = Some (s\<lparr>stream := stream s @ [l], worker := Worker_Idle\<rparr>)"
      using 1 by (simp add: sink_worker_step_def)
    from 1(1) [OF this] 1 Worker_Holds show ?thesis by (simp add: RunWorker.simps [of now s] step)
  next
    case Worker_Idle
    show ?thesis
    proof (cases "queue s")
      case Nil
      then have step: "sink_worker_step now s = Some (s\<lparr>worker := Worker_Leaving\<rparr>)"
        using 1 Worker_Idle by (simp add: sink_worker_step_def)
      from 1(1) [OF this] 1 Worker_Idle Nil show ?thesis by (simp add: RunWorker.simps [of now s] step)
    next
      case (Cons l ls)
      then have step: "sink_worker_step now s = Some (s\<lparr>worker := Worker_Holds l, queue := ls\<rparr>)"
        using 1 Worker_Idle by (simp add: sink_worker_step_def)
      from 1(1) [OF this] 1 Worker_Idle Cons show ?thesis by (simp add: RunWorker.simps [of now s] step)
    qed
  qed (use 1 in simp)
qed

text \<open>
  C11: Whatever the interleaving of senders and worker, a sink that has not been asked to stop has
  at most \<open>queue_size\<close> lines waiting, the accepted lines are exactly those written, held and
  waiting, in the order of acceptance, and nothing is dropped unless the sink is asynchronous and
  drops when full. The destructor then returns, and the file has received every accepted line in
  order, followed by one line with the exact number of dropped messages when there are any.
\<close>

theorem sink_delivers:
  assumes run: "sink_run (new_FormattedSink True path m async q dr) acc n s" and live: "\<not> stopping s"
  shows "length (queue s) \<le> nat (max 1 q) \<and>
    acc = stream s @ in_hand (worker s) @ queue s \<and>
    (n = 0 \<or> async \<and> dr) \<and>
    stream (delete_FormattedSink now s) = acc @ (if n > 0 then [dropped_line now n] else []) \<and>
    queue (delete_FormattedSink now s) = []"
proof -
  let ?s0 = "new_FormattedSink True path m async q dr"
  have inv: "sink_inv ?s0 acc n s" using sink_run_inv [OF run new_sink_inv] .
  have w: "worker s \<noteq> Worker_Leaving" "worker s \<noteq> Worker_Exited"
    and acc: "acc = stream s @ in_hand (worker s) @ queue s"
    and q: "length (queue s) \<le> nat (max 1 q)" and n: "dropped_count s = n" "n = 0 \<or> async \<and> dr"
    and sync: "\<not> async_mode s \<Longrightarrow> worker s = Worker_Idle \<and> queue s = [] \<and> n = 0"
    and opn: "is_open s"
    using inv live by (auto simp: sink_inv_def sink_written_def new_FormattedSink_def)
  have "stream (delete_FormattedSink now s) = acc @ (if n > 0 then [dropped_line now n] else []) \<and>
      queue (delete_FormattedSink now s) = []"
  proof (cases "async_mode s")
    case True
    with w opn RunWorker_stopping [of "request_stop s" now] show ?thesis
      by (simp add: delete_FormattedSink_def request_stop_def acc n(1))
  next
    case False
    with sync acc show ?thesis by (simp add: delete_FormattedSink_def)
  qed
  with acc q n show ?thesis by blast
qed

definition sample_time :: clock_time where
  "sample_time = \<lparr>local_tm = \<lparr>tm_year = 126, tm_mon = 0, tm_mday = 2, tm_hour = 3, tm_min = 4, tm_sec = 5\<rparr>,
     epoch_ns = 6\<rparr>"

definition sample_message :: message where
  "sample_message = \<lparr>msg_time = sample_time, msg_severity = 1, msg_file = Some ''a.cpp'', msg_line = 7,
     msg_text = Some ''hello''\<rparr>"

definition sample_sink :: FormattedSink where
  "sample_sink = new_FormattedSink True ''app.jsonl'' kJson True 1 True"

lemma sample_run:
  "sink_run sample_sink [formatted kJson sample_message] 1
     (snd (send (snd (send sample_sink sample_message)) sample_message))"
proof -
  let ?s1 = "snd (send sample_sink sample_message)"
  have s1: "send sample_sink sample_message = (Send_Queued, ?s1)" "mode sample_sink = kJson"
    by (simp_all add: send_def Let_def sample_sink_def new_FormattedSink_def)
  have s2: "send ?s1 sample_message = (Send_Dropped, snd (send ?s1 sample_message))"
    by (simp add: send_def Let_def sample_sink_def new_FormattedSink_def)
  from sink_run.sent [OF sink_run.sent [OF sink_run.start s1(1)] s2] s1(2) show ?thesis by simp
qed

lemma sink_delivers_witness:
  "stream (delete_FormattedSink sample_time (snd (send (snd (send sample_sink sample_message)) sample_message))) =
     [formatted kJson sample_message, dropped_line sample_time 1]"
proof -
  have "\<not> stopping (snd (send (snd (send sample_sink sample_message)) sample_message))"
    by (simp add: send_def Let_def sample_sink_def new_FormattedSink_def)
  from sink_delivers [OF sample_run [unfolded sample_sink_def], folded sample_sink_def, OF this, of sample_time]
  show ?thesis by simp
qed

end
