(* ===== verification/CK_LogManager.thy ===== *)
theory CK_LogManager
  imports CK_LogSink
begin

text \<open>
  \<open>GlogLogManager\<close> (\<open>src/log_manager.cpp\<close>, lines 39 to 74 and 467 to 633): the process-wide state,
  the application of a configuration and the operations of \<open>ILogManager\<close>. Every operation holds
  \<open>GlobalMutex\<close>, so an operation is one step. glog is observed through the calls and the flags
  the code sets; the file system is a parameter. The lemmas show that glog is called in a legal order,
  that the registered sink and the flags always follow the reported configuration, and what a failing
  \<open>Reload\<close> keeps and loses.
\<close>

section \<open>State\<close>

record glog_flags =
  FLAGS_log_dir :: string
  FLAGS_logtostderr :: bool
  FLAGS_alsologtostderr :: bool
  FLAGS_colorlogtostderr :: bool
  FLAGS_log_prefix :: bool
  FLAGS_minloglevel :: int
  FLAGS_stderrthreshold :: int
  FLAGS_v :: int
  FLAGS_max_log_size :: u32
  FLAGS_logbufsecs :: int
  FLAGS_stop_logging_if_full_disk :: bool

datatype glog_call =
    InitGoogleLogging string
  | ShutdownGoogleLogging
  | InstallFailureSignalHandler
  | AddLogSink string
  | RemoveLogSink string
  | LogMessage string int int string

text \<open>
  The file system: directories, \<open>std::ifstream\<close>, and \<open>std::ofstream\<close> in append mode (whether the
  file could be opened). \<open>env_FILE\<close> is \<open>__FILE__\<close> of the translation unit.
\<close>

record 'fs log_env =
  env_dirs :: "'fs dir_ops"
  env_read :: "'fs \<Rightarrow> string \<Rightarrow> string option"
  env_append :: "'fs \<Rightarrow> string \<Rightarrow> bool \<times> 'fs"
  env_FILE :: string

text \<open>\<open>closed_logs\<close> holds what the sinks destroyed so far had written to their files.\<close>

record 'fs LogState =
  GlobalOptions :: LoggingOptions
  GlobalSessionDir :: string
  GlobalBaseDir :: string
  GlobalSink :: "FormattedSink option"
  GlobalInitialized :: bool
  GlobalFailureHandlerInstalled :: bool
  glog_settings :: glog_flags
  glog_calls :: "glog_call list"
  closed_logs :: "(string \<times> string list) list"
  file_system :: 'fs

definition initial_LogState :: "glog_flags \<Rightarrow> 'fs \<Rightarrow> 'fs LogState" where
  "initial_LogState g fs =
     \<lparr>GlobalOptions = default_LoggingOptions, GlobalSessionDir = [], GlobalBaseDir = [], GlobalSink = None,
      GlobalInitialized = False, GlobalFailureHandlerInstalled = False, glog_settings = g,
      glog_calls = [], closed_logs = [], file_system = fs\<rparr>"

text \<open>The clock readings of one operation: for a session directory, and when a sink is closed.\<close>

record op_times =
  dir_time :: clock_time
  close_time :: clock_time

definition call_glog :: "glog_call \<Rightarrow> 'fs LogState \<Rightarrow> 'fs LogState" where
  "call_glog c s = s\<lparr>glog_calls := glog_calls s @ [c]\<rparr>"

section \<open>Applying a configuration\<close>

definition create_dirs :: "'fs log_env \<Rightarrow> string \<Rightarrow> 'fs LogState \<Rightarrow> bool \<times> 'fs LogState" where
  "create_dirs env path s =
     (let (ok, fs') = CreateDirectories (env_dirs env) path (file_system s)
      in (ok, s\<lparr>file_system := fs'\<rparr>))"

text \<open>Where the log goes: \<open>None\<close> when the target could not be created.\<close>

definition choose_target ::
  "'fs log_env \<Rightarrow> clock_time \<Rightarrow> LoggingOptions \<Rightarrow> 'fs LogState \<Rightarrow> string option \<times> 'fs LogState"
where
  "choose_target env now opts s =
     (if session_subdir opts then
        (if GlobalSessionDir s = [] \<or> GlobalBaseDir s \<noteq> log_dir opts then
           let target = JoinPath (log_dir opts) (TimestampDir now);
               (ok, s1) = create_dirs env target s
           in if \<not> ok then (None, s1)
              else (Some target, s1\<lparr>GlobalSessionDir := target, GlobalBaseDir := log_dir opts\<rparr>)
         else (Some (GlobalSessionDir s), s))
      else (Some (log_dir opts), s\<lparr>GlobalSessionDir := [], GlobalBaseDir := log_dir opts\<rparr>))"

definition prepare_output_dir ::
  "'fs log_env \<Rightarrow> clock_time \<Rightarrow> LoggingOptions \<Rightarrow> 'fs LogState \<Rightarrow> string option \<times> 'fs LogState"
where
  "prepare_output_dir env now opts s =
     (if log_dir opts \<noteq> [] then
        (case choose_target env now opts s of
           (None, s1) \<Rightarrow> (None, s1)
         | (Some target, s1) \<Rightarrow>
             (let (ok, s2) = create_dirs env target s1
              in if \<not> ok then (None, s2) else (Some target, s2)))
      else (Some [], s\<lparr>GlobalSessionDir := [], GlobalBaseDir := []\<rparr>))"

definition flags_for :: "LoggingOptions \<Rightarrow> glog_flags" where
  "flags_for opts =
     \<lparr>FLAGS_log_dir = [],
      FLAGS_logtostderr = (if log_dir opts = [] then True else logtostderr opts),
      FLAGS_alsologtostderr = False,
      FLAGS_colorlogtostderr = True,
      FLAGS_log_prefix = True,
      FLAGS_minloglevel = min_log_level opts,
      FLAGS_stderrthreshold = GLOG_ERROR,
      FLAGS_v = 0,
      FLAGS_max_log_size = word_of_int (max 0 (max_log_size_mb opts)),
      FLAGS_logbufsecs = 30,
      FLAGS_stop_logging_if_full_disk = stop_logging_if_full_disk opts\<rparr>"

text \<open>\<open>RemoveLogSink\<close> and the destruction of the sink.\<close>

definition remove_sink :: "clock_time \<Rightarrow> 'fs LogState \<Rightarrow> 'fs LogState" where
  "remove_sink now s =
     (case GlobalSink s of
        None \<Rightarrow> s
      | Some k \<Rightarrow>
          call_glog (RemoveLogSink (file_path k))
            (s\<lparr>GlobalSink := None,
               closed_logs := closed_logs s @ [(file_path k, stream (delete_FormattedSink now k))]\<rparr>))"

definition install_sink :: "'fs log_env \<Rightarrow> LoggingOptions \<Rightarrow> string \<Rightarrow> 'fs LogState \<Rightarrow> 'fs LogState" where
  "install_sink env opts output_dir s =
     (let use_json = json_format opts;
          sink_file = JoinPath output_dir (if use_json then ''app.jsonl'' else ''app.log'');
          (opened, fs') = env_append env (file_system s) sink_file;
          k = new_FormattedSink opened sink_file (if use_json then kJson else kSimple)
                (async_sink opts) (async_queue_size opts) (async_drop_when_full opts)
      in (call_glog (AddLogSink sink_file) (s\<lparr>file_system := fs', GlobalSink := Some k\<rparr>))
           \<lparr>glog_settings := (glog_settings s)\<lparr>FLAGS_log_prefix := False\<rparr>\<rparr>)"

definition ApplyOptions ::
  "'fs log_env \<Rightarrow> op_times \<Rightarrow> LoggingOptions \<Rightarrow> 'fs LogState \<Rightarrow> bool \<times> 'fs LogState"
where
  "ApplyOptions env ts opts s =
     (case prepare_output_dir env (dir_time ts) opts s of
        (None, s1) \<Rightarrow> (False, s1)
      | (Some output_dir, s1) \<Rightarrow>
          (let s2 = s1\<lparr>glog_settings := flags_for opts\<rparr>;
               s3 = (if GlobalFailureHandlerInstalled s2 then s2
                     else call_glog InstallFailureSignalHandler (s2\<lparr>GlobalFailureHandlerInstalled := True\<rparr>));
               s4 = remove_sink (close_time ts) s3;
               custom_format = (simple_format opts \<or> json_format opts);
               s5 = (if custom_format \<and> output_dir \<noteq> [] then install_sink env opts output_dir s4 else s4)
           in (True, s5\<lparr>GlobalOptions := opts\<rparr>)))"

section \<open>Operations\<close>

definition log_Init :: "'fs log_env \<Rightarrow> op_times \<Rightarrow> string \<Rightarrow> string \<Rightarrow> 'fs LogState \<Rightarrow> Status \<times> 'fs LogState" where
  "log_Init env ts app_name config_path s =
     (if app_name = [] then (mkStatus kInvalidArgument ''app_name is empty'', s)
      else if GlobalInitialized s then (Status_Ok, s)
      else
        let app = (if BaseName app_name = [] then ''corekit'' else BaseName app_name);
            s1 = call_glog (InitGoogleLogging app)
                   (s\<lparr>glog_settings := (glog_settings s)\<lparr>FLAGS_logtostderr := True\<rparr>\<rparr>);
            (opts, ok) = LoadFromFile (env_read env (file_system s1)) config_path
        in if \<not> ok then
             (mkStatus kInternalError (''failed to parse config: '' @ config_path),
              call_glog ShutdownGoogleLogging s1)
           else case ApplyOptions env ts opts s1 of
               (False, s2) \<Rightarrow>
                 (mkStatus kInternalError ''failed to apply logging options'',
                  call_glog ShutdownGoogleLogging
                    ((remove_sink (close_time ts) s2)\<lparr>GlobalSessionDir := [], GlobalBaseDir := []\<rparr>))
             | (True, s2) \<Rightarrow> (Status_Ok, s2\<lparr>GlobalInitialized := True\<rparr>))"

definition log_Reload :: "'fs log_env \<Rightarrow> op_times \<Rightarrow> string \<Rightarrow> 'fs LogState \<Rightarrow> Status \<times> 'fs LogState" where
  "log_Reload env ts config_path s =
     (if config_path = [] then (mkStatus kInvalidArgument ''config_path is empty'', s)
      else if \<not> GlobalInitialized s then (mkStatus kNotInitialized ''not initialized'', s)
      else
        let (opts, ok) = LoadFromFile (env_read env (file_system s)) config_path
        in if \<not> ok then (mkStatus kInternalError (''failed to parse config: '' @ config_path), s)
           else case ApplyOptions env ts opts s of
               (False, s1) \<Rightarrow> (mkStatus kInternalError ''failed to apply logging options'', s1)
             | (True, s1) \<Rightarrow> (Status_Ok, s1))"

fun LogSeverity_int :: "LogSeverity \<Rightarrow> int" where
  "LogSeverity_int kInfo = 0"
| "LogSeverity_int kWarning = 1"
| "LogSeverity_int kError = 2"
| "LogSeverity_int kFatal = 3"

definition LogWithSource ::
  "'fs log_env \<Rightarrow> LogSeverity \<Rightarrow> string \<Rightarrow> string option \<Rightarrow> int \<Rightarrow> 'fs LogState \<Rightarrow> Status \<times> 'fs LogState"
where
  "LogWithSource env severity message file line s =
     (let gs = ClampInt (LogSeverity_int severity) 0 3;
          actual_file = (case file of Some f \<Rightarrow> if f \<noteq> [] then f else env_FILE env | None \<Rightarrow> env_FILE env);
          actual_line = (if line > 0 then line else 614)
      in (Status_Ok, call_glog (LogMessage actual_file actual_line gs message) s))"

definition log_Log :: "'fs log_env \<Rightarrow> LogSeverity \<Rightarrow> string \<Rightarrow> 'fs LogState \<Rightarrow> Status \<times> 'fs LogState" where
  "log_Log env severity message s = LogWithSource env severity message (Some (env_FILE env)) 606 s"

definition CurrentOptions :: "'fs LogState \<Rightarrow> LoggingOptions Result" where
  "CurrentOptions s = Result_value (GlobalOptions s)"

definition log_Shutdown :: "op_times \<Rightarrow> 'fs LogState \<Rightarrow> Status \<times> 'fs LogState" where
  "log_Shutdown ts s =
     (if \<not> GlobalInitialized s then (Status_Ok, s)
      else (Status_Ok,
            (call_glog ShutdownGoogleLogging (remove_sink (close_time ts) s))
              \<lparr>GlobalSessionDir := [], GlobalBaseDir := [], GlobalInitialized := False\<rparr>))"

section \<open>The protocol of glog\<close>

text \<open>
  What glog requires of its callers: \<open>InitGoogleLogging\<close> and \<open>ShutdownGoogleLogging\<close> alternate
  (a second initialisation aborts the process), a sink is unregistered before glog is shut down and
  before the next one is registered, and the signal handler is installed once.
\<close>

record glog_state =
  g_up :: bool
  g_sink :: "string option"
  g_handler :: bool

fun glog_accepts :: "glog_state \<Rightarrow> glog_call \<Rightarrow> glog_state option" where
  "glog_accepts g (InitGoogleLogging a) = (if g_up g then None else Some (g\<lparr>g_up := True\<rparr>))"
| "glog_accepts g ShutdownGoogleLogging =
     (if g_up g \<and> g_sink g = None then Some (g\<lparr>g_up := False\<rparr>) else None)"
| "glog_accepts g InstallFailureSignalHandler =
     (if g_up g \<and> \<not> g_handler g then Some (g\<lparr>g_handler := True\<rparr>) else None)"
| "glog_accepts g (AddLogSink p) =
     (if g_up g \<and> g_sink g = None then Some (g\<lparr>g_sink := Some p\<rparr>) else None)"
| "glog_accepts g (RemoveLogSink p) =
     (if g_up g \<and> g_sink g = Some p then Some (g\<lparr>g_sink := None\<rparr>) else None)"
| "glog_accepts g (LogMessage f l sv m) = Some g"

fun glog_run :: "glog_state \<Rightarrow> glog_call list \<Rightarrow> glog_state option" where
  "glog_run g [] = Some g"
| "glog_run g (c # cs) = (case glog_accepts g c of None \<Rightarrow> None | Some g' \<Rightarrow> glog_run g' cs)"

lemma glog_run_append:
  "glog_run g (cs @ ds) = (case glog_run g cs of None \<Rightarrow> None | Some g' \<Rightarrow> glog_run g' ds)"
  by (induction cs arbitrary: g) (auto split: option.splits)

definition glog_start :: glog_state where
  "glog_start = \<lparr>g_up = False, g_sink = None, g_handler = False\<rparr>"

text \<open>The state glog is in, as the manager's own variables describe it.\<close>

definition glog_view :: "bool \<Rightarrow> 'fs LogState \<Rightarrow> glog_state" where
  "glog_view up s = \<lparr>g_up = up, g_sink = map_option file_path (GlobalSink s),
     g_handler = GlobalFailureHandlerInstalled s\<rparr>"

definition glog_ok :: "bool \<Rightarrow> 'fs LogState \<Rightarrow> bool" where
  "glog_ok up s \<longleftrightarrow> glog_run glog_start (glog_calls s) = Some (glog_view up s)"

lemma glog_ok_call:
  "glog_ok up s \<Longrightarrow> glog_accepts (glog_view up s) c = Some (glog_view up' s') \<Longrightarrow>
     glog_calls s' = glog_calls s @ [c] \<Longrightarrow> glog_ok up' s'"
  by (simp add: glog_ok_def glog_run_append)

lemma glog_ok_cong:
  "glog_ok up s \<Longrightarrow> glog_calls s' = glog_calls s \<Longrightarrow>
     map_option file_path (GlobalSink s') = map_option file_path (GlobalSink s) \<Longrightarrow>
     GlobalFailureHandlerInstalled s' = GlobalFailureHandlerInstalled s \<Longrightarrow> glog_ok up s'"
  by (simp add: glog_ok_def glog_view_def)

section \<open>What applying a configuration does\<close>

text \<open>The state but for the directories: what a refused configuration must not change.\<close>

definition core :: "'fs LogState \<Rightarrow> LoggingOptions \<times> FormattedSink option \<times> bool \<times> bool \<times>
  glog_flags \<times> glog_call list \<times> (string \<times> string list) list" where
  "core s = (GlobalOptions s, GlobalSink s, GlobalInitialized s, GlobalFailureHandlerInstalled s,
     glog_settings s, glog_calls s, closed_logs s)"

lemma create_dirs_core: "create_dirs env p s = (ok, s') \<Longrightarrow> core s' = core s"
  by (auto simp: create_dirs_def core_def Let_def split: prod.splits)

lemma choose_target_core: "choose_target env now opts s = (r, s') \<Longrightarrow> core s' = core s"
  by (auto simp: choose_target_def Let_def split: if_splits prod.splits dest!: create_dirs_core)
     (auto simp: core_def)

lemma choose_target_nonempty:
  "choose_target env now opts s = (Some out, s') \<Longrightarrow> log_dir opts \<noteq> [] \<Longrightarrow> out \<noteq> []"
  by (auto simp: choose_target_def Let_def JoinPath_def split: if_splits prod.splits)

lemma prepare_output_dir_core: "prepare_output_dir env now opts s = (r, s') \<Longrightarrow> core s' = core s"
  by (auto simp: prepare_output_dir_def Let_def split: if_splits prod.splits option.splits
      dest!: create_dirs_core choose_target_core) (auto simp: core_def)

lemma prepare_output_dir_nonempty:
  "prepare_output_dir env now opts s = (Some out, s') \<Longrightarrow> out = [] \<longleftrightarrow> log_dir opts = []"
  by (auto simp: prepare_output_dir_def Let_def split: if_splits prod.splits option.splits
      dest: choose_target_nonempty)

text \<open>The sink of a configuration, and the flags that go with it.\<close>

definition wants_sink :: "LoggingOptions \<Rightarrow> bool" where
  "wants_sink opts \<longleftrightarrow> log_dir opts \<noteq> [] \<and> (simple_format opts \<or> json_format opts)"

definition sink_matches :: "LoggingOptions \<Rightarrow> FormattedSink \<Rightarrow> bool" where
  "sink_matches opts k \<longleftrightarrow>
     mode k = (if json_format opts then kJson else kSimple) \<and> async_mode k = async_sink opts \<and>
     queue_size k = max 1 (async_queue_size opts) \<and> drop_when_full k = async_drop_when_full opts"

definition configured :: "'fs LogState \<Rightarrow> bool" where
  "configured s \<longleftrightarrow>
     (wants_sink (GlobalOptions s) \<longleftrightarrow> GlobalSink s \<noteq> None) \<and>
     (\<forall>k. GlobalSink s = Some k \<longrightarrow> sink_matches (GlobalOptions s) k) \<and>
     glog_settings s = (flags_for (GlobalOptions s))\<lparr>FLAGS_log_prefix := \<not> wants_sink (GlobalOptions s)\<rparr>"

lemma remove_sink_simps [simp]:
  "GlobalSink (remove_sink now s) = None"
  "GlobalFailureHandlerInstalled (remove_sink now s) = GlobalFailureHandlerInstalled s"
  "GlobalInitialized (remove_sink now s) = GlobalInitialized s"
  "GlobalOptions (remove_sink now s) = GlobalOptions s"
  "glog_settings (remove_sink now s) = glog_settings s"
  by (auto simp: remove_sink_def call_glog_def split: option.splits)

lemma remove_sink_glog: "glog_ok True s \<Longrightarrow> glog_ok True (remove_sink now s)"
  by (auto simp: remove_sink_def call_glog_def glog_view_def split: option.split elim!: glog_ok_call)

lemma install_sink_simps [simp]:
  "GlobalFailureHandlerInstalled (install_sink env opts out s) = GlobalFailureHandlerInstalled s"
  "GlobalInitialized (install_sink env opts out s) = GlobalInitialized s"
  "glog_settings (install_sink env opts out s) = (glog_settings s)\<lparr>FLAGS_log_prefix := False\<rparr>"
  by (simp_all add: install_sink_def call_glog_def Let_def split: prod.split)

lemma install_sink_sink:
  "\<exists>k. GlobalSink (install_sink env opts out s) = Some k \<and> sink_matches opts k"
  by (simp add: install_sink_def call_glog_def Let_def new_FormattedSink_def sink_matches_def split: prod.split)

lemma install_sink_glog:
  "glog_ok True s \<Longrightarrow> GlobalSink s = None \<Longrightarrow> glog_ok True (install_sink env opts out s)"
  by (auto simp: install_sink_def call_glog_def glog_view_def Let_def new_FormattedSink_def
      split: prod.split elim!: glog_ok_call)

lemma ApplyOptions_refused: "ApplyOptions env ts opts s = (False, s') \<Longrightarrow> core s' = core s"
  by (auto simp: ApplyOptions_def Let_def split: prod.splits option.splits dest: prepare_output_dir_core)

lemma ApplyOptions_done:
  assumes "ApplyOptions env ts opts s = (True, s')" "glog_ok True s"
  shows "glog_ok True s'" "configured s'" "GlobalOptions s' = opts"
    "GlobalInitialized s' = GlobalInitialized s"
proof -
  obtain out s1 where p: "prepare_output_dir env (dir_time ts) opts s = (Some out, s1)"
    using assms(1) by (auto simp: ApplyOptions_def split: prod.splits option.splits)
  note c = prepare_output_dir_core [OF p] and ne = prepare_output_dir_nonempty [OF p]
  define s2 where "s2 = s1\<lparr>glog_settings := flags_for opts\<rparr>"
  define s3 where "s3 = (if GlobalFailureHandlerInstalled s2 then s2
      else call_glog InstallFailureSignalHandler (s2\<lparr>GlobalFailureHandlerInstalled := True\<rparr>))"
  define s4 where "s4 = remove_sink (close_time ts) s3"
  define s5 where "s5 = (if (simple_format opts \<or> json_format opts) \<and> out \<noteq> []
      then install_sink env opts out s4 else s4)"
  have s': "s' = s5\<lparr>GlobalOptions := opts\<rparr>"
    using assms(1) unfolding ApplyOptions_def p s5_def s4_def s3_def s2_def by (simp add: Let_def)
  have g2: "glog_ok True s2"
    using assms(2) by (rule glog_ok_cong) (use c in \<open>auto simp: core_def s2_def\<close>)
  then have g3: "glog_ok True s3"
    by (auto simp: s3_def call_glog_def glog_view_def elim!: glog_ok_call)
  then have g4: "glog_ok True s4" by (simp add: s4_def remove_sink_glog)
  then have g5: "glog_ok True s5" by (simp add: s5_def install_sink_glog s4_def)
  then show "glog_ok True s'" by (rule glog_ok_cong) (simp_all add: s')
  have wants: "wants_sink opts \<longleftrightarrow> (simple_format opts \<or> json_format opts) \<and> out \<noteq> []"
    using ne by (auto simp: wants_sink_def)
  have set3: "glog_settings s3 = flags_for opts" by (simp add: s3_def s2_def call_glog_def)
  show "GlobalOptions s' = opts" by (simp add: s')
  show "configured s'"
  proof (cases "wants_sink opts")
    case True
    then have "s5 = install_sink env opts out s4" using wants by (simp add: s5_def)
    then show ?thesis
      using True install_sink_sink [of env opts out s4] by (auto simp: configured_def s' s4_def set3)
  next
    case False
    then have "s5 = s4" using wants by (auto simp: s5_def)
    then show ?thesis using False by (simp add: configured_def s' s4_def set3 flags_for_def)
  qed
  show "GlobalInitialized s' = GlobalInitialized s"
    using c by (simp add: s' s5_def s4_def s3_def s2_def core_def call_glog_def)
qed

section \<open>Every run\<close>

datatype log_op =
    Op_Init op_times string string
  | Op_Reload op_times string
  | Op_Log LogSeverity string
  | Op_LogWithSource LogSeverity string "string option" int
  | Op_Shutdown op_times

fun log_step :: "'fs log_env \<Rightarrow> log_op \<Rightarrow> 'fs LogState \<Rightarrow> Status \<times> 'fs LogState" where
  "log_step env (Op_Init ts app cfg) s = log_Init env ts app cfg s"
| "log_step env (Op_Reload ts cfg) s = log_Reload env ts cfg s"
| "log_step env (Op_Log sv m) s = log_Log env sv m s"
| "log_step env (Op_LogWithSource sv m f l) s = LogWithSource env sv m f l s"
| "log_step env (Op_Shutdown ts) s = log_Shutdown ts s"

text \<open>
  Between two operations the rest of the system may change the files, glog may call the registered
  sink, and the sink's worker may move.
\<close>

inductive log_reachable :: "'fs log_env \<Rightarrow> 'fs LogState \<Rightarrow> bool" for env where
  start: "log_reachable env (initial_LogState g fs)"
| operation: "log_reachable env s \<Longrightarrow> log_step env op s = (st, s') \<Longrightarrow> log_reachable env s'"
| files: "log_reachable env s \<Longrightarrow> log_reachable env (s\<lparr>file_system := fs'\<rparr>)"
| sink_send: "log_reachable env s \<Longrightarrow> GlobalSink s = Some k \<Longrightarrow> send k x = (r, k') \<Longrightarrow>
     log_reachable env (s\<lparr>GlobalSink := Some k'\<rparr>)"
| sink_work: "log_reachable env s \<Longrightarrow> GlobalSink s = Some k \<Longrightarrow> sink_worker_step now k = Some k' \<Longrightarrow>
     log_reachable env (s\<lparr>GlobalSink := Some k'\<rparr>)"

definition log_inv :: "'fs LogState \<Rightarrow> bool" where
  "log_inv s \<longleftrightarrow> glog_ok (GlobalInitialized s) s \<and>
     (if GlobalInitialized s then configured s
      else GlobalSink s = None \<and> GlobalSessionDir s = [] \<and> GlobalBaseDir s = [])"

lemma sink_step_keeps:
  "send k x = (r, k') \<Longrightarrow> file_path k' = file_path k \<and> (sink_matches opts k \<longrightarrow> sink_matches opts k')"
  "sink_worker_step now k = Some k' \<Longrightarrow> file_path k' = file_path k \<and> (sink_matches opts k \<longrightarrow> sink_matches opts k')"
  by (auto simp: send_def sink_worker_step_def sink_matches_def Let_def split: if_splits worker.splits)

lemma sink_change_inv:
  assumes "log_inv s" "GlobalSink s = Some k" "file_path k' = file_path k"
    "sink_matches (GlobalOptions s) k \<longrightarrow> sink_matches (GlobalOptions s) k'"
  shows "log_inv (s\<lparr>GlobalSink := Some k'\<rparr>)"
  using assms by (auto simp: log_inv_def configured_def glog_ok_def glog_view_def split: if_splits)

lemma log_Init_inv: "log_inv s \<Longrightarrow> log_Init env ts app cfg s = (st, s') \<Longrightarrow> log_inv s'"
proof -
  assume inv: "log_inv s" and step: "log_Init env ts app cfg s = (st, s')"
  show ?thesis
  proof (cases "app = [] \<or> GlobalInitialized s")
    case True
    with inv step show ?thesis by (auto simp: log_Init_def split: if_splits)
  next
    case False
    define s1 where "s1 = call_glog (InitGoogleLogging (if BaseName app = [] then ''corekit'' else BaseName app))
      (s\<lparr>glog_settings := (glog_settings s)\<lparr>FLAGS_logtostderr := True\<rparr>\<rparr>)"
    have s: "glog_ok False s" "GlobalSink s = None" "GlobalSessionDir s = []" "GlobalBaseDir s = []"
      using inv False by (simp_all add: log_inv_def)
    have g1: "glog_ok True s1"
      using s(1) by (auto simp: s1_def call_glog_def glog_view_def elim!: glog_ok_call)
    obtain opts ok where l: "LoadFromFile (env_read env (file_system s1)) cfg = (opts, ok)" by fastforce
    obtain done_ok s2 where a: "ApplyOptions env ts opts s1 = (done_ok, s2)" by fastforce
    have s': "s' = (if \<not> ok then call_glog ShutdownGoogleLogging s1
      else if done_ok then s2\<lparr>GlobalInitialized := True\<rparr>
      else call_glog ShutdownGoogleLogging
        ((remove_sink (close_time ts) s2)\<lparr>GlobalSessionDir := [], GlobalBaseDir := []\<rparr>))"
      using step False l a unfolding log_Init_def s1_def [symmetric] Let_def
      by (simp split: if_splits bool.splits)
    consider "\<not> ok" | "ok" "done_ok" | "ok" "\<not> done_ok" by blast
    then show ?thesis
    proof cases
      case 1
      have "glog_ok False s'"
        using g1 by (rule glog_ok_call) (use 1 s(2) in \<open>simp_all add: s' call_glog_def glog_view_def s1_def\<close>)
      then show ?thesis using 1 s False by (simp add: log_inv_def s' call_glog_def s1_def)
    next
      case 2
      with ApplyOptions_done [of env ts opts s1 s2] a g1 have "glog_ok True s2" "configured s2" by simp_all
      then show ?thesis using 2 by (simp add: log_inv_def s' glog_ok_def glog_view_def configured_def)
    next
      case 3
      with a have c: "core s2 = core s1" by (simp add: ApplyOptions_refused)
      have "GlobalSink s1 = None" "GlobalInitialized s1 = False" using s(2) False by (simp_all add: s1_def call_glog_def)
      with c have s2: "GlobalSink s2 = None" "\<not> GlobalInitialized s2" by (simp_all add: core_def)
      have g2: "glog_ok True s2" using g1 by (rule glog_ok_cong) (use c in \<open>auto simp: core_def\<close>)
      then have "glog_ok False s'"
        by (rule glog_ok_call) (use 3 s2 in \<open>simp_all add: s' call_glog_def glog_view_def remove_sink_def\<close>)
      then show ?thesis using 3 s2 by (simp add: log_inv_def s' call_glog_def)
    qed
  qed
qed

lemma log_Reload_cases:
  assumes "log_Reload env ts cfg s = (st, s')"
  obtains (refused) "\<not> status_ok st" "core s' = core s" "GlobalInitialized s' \<or> s' = s"
  | (applied) opts where "st = Status_Ok" "LoadFromFile (env_read env (file_system s)) cfg = (opts, True)"
      "ApplyOptions env ts opts s = (True, s')" "GlobalInitialized s" "cfg \<noteq> []"
proof (cases "cfg = [] \<or> \<not> GlobalInitialized s")
  case True
  with assms show thesis by (intro refused) (auto simp: log_Reload_def status_ok_def mkStatus_def split: if_splits)
next
  case False
  obtain opts ok where l: "LoadFromFile (env_read env (file_system s)) cfg = (opts, ok)" by fastforce
  obtain done_ok s1 where a: "ApplyOptions env ts opts s = (done_ok, s1)" by fastforce
  have eq: "(st, s') = (if \<not> ok then (mkStatus kInternalError (''failed to parse config: '' @ cfg), s)
      else if done_ok then (Status_Ok, s1)
      else (mkStatus kInternalError ''failed to apply logging options'', s1))"
    using assms False l a unfolding log_Reload_def Let_def by (simp split: bool.splits if_splits)
  consider "\<not> ok" | "ok" "done_ok" | "ok" "\<not> done_ok" by blast
  then show thesis
  proof cases
    case 1
    with eq show thesis by (intro refused) (simp_all add: status_ok_def mkStatus_def)
  next
    case 2
    with eq l a False show thesis by (intro applied [of opts]) simp_all
  next
    case 3
    with a have "core s1 = core s" by (simp add: ApplyOptions_refused)
    with 3 eq False show thesis
      by (intro refused) (auto simp: status_ok_def mkStatus_def core_def)
  qed
qed

lemma core_inv:
  assumes "core s' = core s" "GlobalInitialized s" "log_inv s"
  shows "log_inv s'"
proof -
  have eqs: "GlobalOptions s' = GlobalOptions s" "GlobalSink s' = GlobalSink s"
    "GlobalInitialized s' = GlobalInitialized s" "glog_settings s' = glog_settings s"
    "GlobalFailureHandlerInstalled s' = GlobalFailureHandlerInstalled s" "glog_calls s' = glog_calls s"
    using assms(1) by (simp_all add: core_def)
  show ?thesis
    using assms(2,3) by (simp add: log_inv_def glog_ok_def glog_view_def configured_def eqs)
qed

lemma log_Reload_inv: "log_inv s \<Longrightarrow> log_Reload env ts cfg s = (st, s') \<Longrightarrow> log_inv s'"
proof -
  assume inv: "log_inv s" and step: "log_Reload env ts cfg s = (st, s')"
  from step show ?thesis
  proof (cases rule: log_Reload_cases)
    case refused
    then show ?thesis using inv core_inv [OF refused(2)] by (auto simp: core_def)
  next
    case (applied opts)
    with inv ApplyOptions_done [OF applied(3)] show ?thesis by (simp add: log_inv_def)
  qed
qed

lemma log_Shutdown_inv: "log_inv s \<Longrightarrow> log_Shutdown ts s = (st, s') \<Longrightarrow> log_inv s'"
proof -
  assume inv: "log_inv s" and step: "log_Shutdown ts s = (st, s')"
  show ?thesis
  proof (cases "GlobalInitialized s")
    case True
    with inv have "glog_ok True (remove_sink (close_time ts) s)"
      by (simp add: log_inv_def remove_sink_glog)
    then have "glog_ok False s'"
      by (rule glog_ok_call) (use True step in \<open>auto simp: log_Shutdown_def call_glog_def glog_view_def\<close>)
    then show ?thesis using True step by (auto simp: log_inv_def log_Shutdown_def call_glog_def)
  qed (use inv step in \<open>simp add: log_Shutdown_def\<close>)
qed

lemma LogMessage_inv: "log_inv s \<Longrightarrow> log_inv (call_glog (LogMessage f l g m) s)"
proof -
  assume inv: "log_inv s"
  then have "glog_ok (GlobalInitialized s) s" by (simp add: log_inv_def)
  then have "glog_ok (GlobalInitialized s) (call_glog (LogMessage f l g m) s)"
    by (rule glog_ok_call) (simp_all add: call_glog_def glog_view_def)
  moreover have "configured (call_glog (LogMessage f l g m) s) = configured s"
    by (simp add: configured_def call_glog_def)
  ultimately show ?thesis
    using inv by (cases "GlobalInitialized s") (simp_all add: log_inv_def, simp_all add: call_glog_def)
qed

lemma LogWithSource_inv: "log_inv s \<Longrightarrow> LogWithSource env sv m f l s = (st, s') \<Longrightarrow> log_inv s'"
  unfolding LogWithSource_def Let_def prod.inject by (elim conjE) (erule subst, erule LogMessage_inv)

lemma log_step_inv: "log_inv s \<Longrightarrow> log_step env op s = (st, s') \<Longrightarrow> log_inv s'"
  by (cases op) (auto simp: log_Log_def dest: log_Init_inv log_Reload_inv log_Shutdown_inv LogWithSource_inv)

lemma log_reachable_inv: "log_reachable env s \<Longrightarrow> log_inv s"
proof (induction rule: log_reachable.induct)
  case (start g fs)
  then show ?case by (simp add: initial_LogState_def log_inv_def glog_ok_def glog_start_def glog_view_def)
next
  case (operation s op st s')
  then show ?case by (blast intro: log_step_inv)
next
  case (files s fs')
  then show ?case
    by (cases "GlobalInitialized s") (auto simp: log_inv_def glog_ok_def glog_view_def configured_def)
next
  case (sink_send s k x r k')
  then show ?case using sink_step_keeps(1) [OF sink_send(3)] by (intro sink_change_inv) auto
next
  case (sink_work s k now k')
  then show ?case using sink_step_keeps(2) [OF sink_work(3)] by (intro sink_change_inv) auto
qed

text \<open>
  C12: After any sequence of manager operations, with the file system and the sink changing in
  between, the calls made to glog follow its protocol: initialisation and shutdown alternate, at most
  one sink is registered and it is the manager's, no sink is left when glog is shut down, and the
  signal handler is installed at most once. While the manager is initialised, a sink exists exactly
  when the options that \<open>CurrentOptions\<close> reports ask for a directory and a format, it has the mode
  and the queue of these options, and the glog flags are those of these options.
\<close>

theorem log_manager_consistent:
  assumes "log_reachable env s"
  shows "glog_run glog_start (glog_calls s) =
      Some \<lparr>g_up = GlobalInitialized s, g_sink = map_option file_path (GlobalSink s),
            g_handler = GlobalFailureHandlerInstalled s\<rparr> \<and>
    (if GlobalInitialized s
     then (wants_sink (res_value (CurrentOptions s)) \<longleftrightarrow> GlobalSink s \<noteq> None) \<and>
       (\<forall>k. GlobalSink s = Some k \<longrightarrow> sink_matches (res_value (CurrentOptions s)) k) \<and>
       glog_settings s = (flags_for (res_value (CurrentOptions s)))
         \<lparr>FLAGS_log_prefix := \<not> wants_sink (res_value (CurrentOptions s))\<rparr>
     else GlobalSink s = None \<and> GlobalSessionDir s = [] \<and> GlobalBaseDir s = [])"
  using log_reachable_inv [OF assms]
  by (cases "GlobalInitialized s")
     (auto simp: log_inv_def glog_ok_def glog_view_def configured_def CurrentOptions_def Result_value_def)

text \<open>
  \<open>Reload\<close> either returns Ok and the options in force are those the file states, or reports
  an error and the options in force, the sink, the flags of glog and the calls made to it are as
  before.
\<close>

theorem Reload_outcomes:
  assumes "log_reachable env s" "log_Reload env ts cfg s = (st, s')"
  shows "(st = Status_Ok \<and> LoadFromFile (env_read env (file_system s)) cfg = (res_value (CurrentOptions s'), True) \<and>
      (wants_sink (res_value (CurrentOptions s')) \<longleftrightarrow> GlobalSink s' \<noteq> None)) \<or>
    (\<not> status_ok st \<and> CurrentOptions s' = CurrentOptions s \<and> GlobalSink s' = GlobalSink s \<and>
      glog_settings s' = glog_settings s \<and> glog_calls s' = glog_calls s \<and> closed_logs s' = closed_logs s)"
  using assms(2)
proof (cases rule: log_Reload_cases)
  case refused
  then show ?thesis by (simp add: core_def CurrentOptions_def)
next
  case (applied opts)
  have "glog_ok True s" using log_reachable_inv [OF assms(1)] applied(4) by (simp add: log_inv_def)
  with ApplyOptions_done [OF applied(3)] applied show ?thesis
    by (simp add: configured_def CurrentOptions_def Result_value_def)
qed

section \<open>Two consequences for the user\<close>

lemma LoadFromFile_read:
  "path \<noteq> [] \<Longrightarrow> env_read env fs path = Some txt \<Longrightarrow> LoadFromFile (env_read env fs) path = ParseConfig txt"
  by (simp add: LoadFromFile_def)


text \<open>
  When \<open>Reload\<close> reads a configuration without session directories whose directory cannot be
  created, it reports failure and keeps the options, but the session directory of the running log is
  forgotten and the base directory is the one that failed; reloading the old configuration then
  starts a new session directory. The interface states that a failed reload does not damage the
  configuration in force.
\<close>

theorem Reload_failure_forgets_session:
  assumes "GlobalInitialized s" "cfg \<noteq> []"
    and "LoadFromFile (env_read env (file_system s)) cfg = (opts, True)"
    and "log_dir opts \<noteq> []" "\<not> session_subdir opts"
    and "CreateDirectories (env_dirs env) (log_dir opts) (file_system s) = (False, fs')"
  shows "\<exists>s'. log_Reload env ts cfg s = (mkStatus kInternalError ''failed to apply logging options'', s') \<and>
    CurrentOptions s' = CurrentOptions s \<and> GlobalSessionDir s' = [] \<and> GlobalBaseDir s' = log_dir opts \<and>
    (\<forall>old now. log_dir old \<noteq> [] \<longrightarrow> session_subdir old \<longrightarrow>
       fst (choose_target env now old s') \<in> {None, Some (JoinPath (log_dir old) (TimestampDir now))})"
  using assms
  by (simp add: log_Reload_def ApplyOptions_def prepare_output_dir_def choose_target_def create_dirs_def
      Let_def CurrentOptions_def split: prod.split)

section \<open>Examples\<close>

text \<open>The POSIX file system of the directory theory, with files that can be read and opened.\<close>

definition posix_env :: "posix_fs log_env" where
  "posix_env =
     \<lparr>env_dirs = posix_ops, env_read = (\<lambda>fs path. fs_files fs (components path)),
      env_append = (\<lambda>fs path. (True, fs)), env_FILE = ''src/log_manager.cpp''\<rparr>"

definition sample_ops :: op_times where
  "sample_ops = \<lparr>dir_time = sample_time, close_time = sample_time\<rparr>"

definition sample_files :: posix_fs where
  "sample_files = \<lparr>fs_dirs = {},
     fs_files = [[''json.conf''] \<mapsto> ''log_dir=l'' @ [CHR 0x0A] @ ''session_subdir=0'' @ [CHR 0x0A] @ ''json_format=1'',
                 [''plain.conf''] \<mapsto> ''log_dir=l'' @ [CHR 0x0A] @ ''session_subdir=0'',
                 [''bad.conf''] \<mapsto> ''log_dir=x/y'' @ [CHR 0x0A] @ ''session_subdir=0'',
                 [''x''] \<mapsto> []]\<rparr>"

definition sample_options :: LoggingOptions where
  "sample_options = default_LoggingOptions\<lparr>log_dir := ''l'', session_subdir := False\<rparr>"

lemma sample_configs:
  "LoadFromFile (env_read posix_env sample_files) ''json.conf'' = (sample_options\<lparr>json_format := True\<rparr>, True)"
  "LoadFromFile (env_read posix_env sample_files) ''plain.conf'' = (sample_options, True)"
  "LoadFromFile (env_read posix_env sample_files) ''bad.conf'' = (sample_options\<lparr>log_dir := ''x/y''\<rparr>, True)"
  by (simp_all add: LoadFromFile_def posix_env_def components_def sample_files_def parse_eval Let_def
      default_LoggingOptions_def sample_options_def ParseBool_def)

definition sample_state :: "posix_fs LogState" where
  "sample_state = initial_LogState (flags_for default_LoggingOptions) sample_files"

lemmas manager_eval = log_Init_def log_Reload_def ApplyOptions_def prepare_output_dir_def
  choose_target_def create_dirs_def call_glog_def remove_sink_def install_sink_def
  sample_state_def initial_LogState_def sample_ops_def

lemma sample_options_simps [simp]:
  "log_dir sample_options = ''l''" "\<not> session_subdir sample_options" "\<not> simple_format sample_options"
  "\<not> json_format sample_options" "\<not> logtostderr sample_options"
  by (simp_all add: sample_options_def default_LoggingOptions_def)

lemma sample_mkdir:
  "CreateDirectories (env_dirs posix_env) ''l'' sample_files = (True, sample_files\<lparr>fs_dirs := {[''l'']}\<rparr>)"
  "CreateDirectories (env_dirs posix_env) ''x/y'' sample_files = (False, sample_files)"
  by (simp_all add: posix_env_def directory_eval sample_files_def Let_def)

lemma posix_append [simp]: "env_append posix_env fs p = (True, fs)"
  by (simp add: posix_env_def)

text \<open>Initialised with a JSON log in the directory \<open>l\<close>.\<close>

definition json_state :: "posix_fs LogState" where
  "json_state = snd (log_Init posix_env sample_ops ''demo'' ''json.conf'' sample_state)"

lemma json_state_Init: "log_Init posix_env sample_ops ''demo'' ''json.conf'' sample_state = (Status_Ok, json_state)"
  using sample_configs(1) sample_mkdir(1) unfolding json_state_def
  by (simp add: manager_eval Let_def)

lemma json_state_simps:
  "GlobalInitialized json_state" "map_option file_path (GlobalSink json_state) = Some ''l/app.jsonl''"
  "file_system json_state = sample_files\<lparr>fs_dirs := {[''l'']}\<rparr>" "glog_calls json_state =
     [InitGoogleLogging ''demo'', InstallFailureSignalHandler, AddLogSink ''l/app.jsonl'']"
  using sample_configs(1) sample_mkdir(1) unfolding json_state_def
  by (simp_all add: manager_eval Let_def JoinPath_def IsPathSeparator_def new_FormattedSink_def
      BaseName_def substr_def)

lemma json_state_reachable: "log_reachable posix_env json_state"
  using log_reachable.operation [OF log_reachable.start [of posix_env "flags_for default_LoggingOptions" sample_files],
      of "Op_Init sample_ops ''demo'' ''json.conf''"] json_state_Init
  by (simp add: sample_state_def)

lemma log_manager_consistent_witness:
  "glog_run glog_start [InitGoogleLogging ''demo'', InstallFailureSignalHandler, AddLogSink ''l/app.jsonl''] =
     Some \<lparr>g_up = True, g_sink = Some ''l/app.jsonl'', g_handler = GlobalFailureHandlerInstalled json_state\<rparr> \<and>
   wants_sink (res_value (CurrentOptions json_state))"
  using log_manager_consistent [OF json_state_reachable] json_state_simps by auto

lemma json_state_files:
  "LoadFromFile (env_read posix_env (file_system json_state)) cfg = LoadFromFile (env_read posix_env sample_files) cfg"
  by (simp add: json_state_simps posix_env_def)

text \<open>A reload that fails because \<open>x\<close> is a plain file.\<close>

lemma bad_mkdir:
  "CreateDirectories (env_dirs posix_env) ''x/y'' (file_system json_state) = (False, file_system json_state)"
  by (simp add: json_state_simps posix_env_def directory_eval sample_files_def Let_def)

lemma Reload_outcomes_witness:
  "GlobalSink (snd (log_Reload posix_env sample_ops ''bad.conf'' json_state)) = GlobalSink json_state"
proof -
  obtain st s' where r: "log_Reload posix_env sample_ops ''bad.conf'' json_state = (st, s')" by fastforce
  then have "st \<noteq> Status_Ok"
    using json_state_files [of "''bad.conf''"] sample_configs(3) bad_mkdir json_state_simps(1)
    by (auto simp: log_Reload_def ApplyOptions_def prepare_output_dir_def choose_target_def create_dirs_def
        mkStatus_def Status_Ok_def split: if_splits)
  with Reload_outcomes [OF json_state_reachable r] r show ?thesis by simp
qed

lemma Reload_failure_forgets_session_witness:
  "GlobalBaseDir (snd (log_Reload posix_env sample_ops ''bad.conf'' json_state)) = ''x/y''"
  using Reload_failure_forgets_session [OF json_state_simps(1), of "''bad.conf''" posix_env _ _ sample_ops,
      OF _ json_state_files [of "''bad.conf''", unfolded sample_configs(3)]] bad_mkdir
  by fastforce


end
