(* ===== verification/CK_LockFree.thy ===== *)
theory CK_LockFree
  imports CK_Queues "HOL-Library.Multiset"
begin

text \<open>
  \<open>MoodycamelQueueImpl\<close> (\<open>src/concurrent/moodycamel_queue_impl.hpp\<close>): the queue interface over the
  third-party \<open>moodycamel::ConcurrentQueue\<close> with a separate element counter. The third-party queue
  is a parameter; the locale \<open>concurrent_queue\<close> states what its documentation promises about the
  elements it holds. The queue and the counter are changed by separate atomic steps, so the theory also
  has a relation that interleaves the steps of any number of threads. The lemmas show when the counter
  is the number of elements, and a failing batch after which it never is again.
\<close>

section \<open>The third-party queue\<close>

datatype enqueue_result = Enqueued | Enqueue_Refused | Enqueue_Threw
datatype 'a dequeue_result = Dequeued 'a | Nothing_Found | Dequeue_Threw

record ('q, 'a) cq_ops =
  try_enqueue :: "'q \<Rightarrow> 'a \<Rightarrow> enqueue_result \<times> 'q"
  try_dequeue :: "'q \<Rightarrow> 'a dequeue_result \<times> 'q"
  try_dequeue_bulk :: "'q \<Rightarrow> nat \<Rightarrow> 'a list option \<times> 'q"

text \<open>
  A successful call adds or removes exactly its elements, a refused call and a throwing insertion change
  nothing. That a removal finds nothing does not mean that the queue is empty.
\<close>

locale concurrent_queue =
  fixes cq :: "('q, 'a) cq_ops" and contents :: "'q \<Rightarrow> 'a multiset"
  assumes enqueue: "try_enqueue cq q v = (r, q') \<Longrightarrow>
      contents q' = (if r = Enqueued then add_mset v (contents q) else contents q)"
    and dequeue: "try_dequeue cq q = (Dequeued v, q') \<Longrightarrow> contents q = add_mset v (contents q')"
    and dequeue_none: "try_dequeue cq q = (Nothing_Found, q') \<Longrightarrow> contents q' = contents q"
    and dequeue_bulk: "try_dequeue_bulk cq q n = (Some vs, q') \<Longrightarrow>
      contents q = mset vs + contents q' \<and> length vs \<le> n"

section \<open>Operations\<close>

text \<open>\<open>size_\<close> is a signed 64-bit counter.\<close>

record 'q MoodycamelQueue =
  lf_queue :: 'q
  lf_size :: "64 word"

definition lf_TryPush :: "('q, 'a) cq_ops \<Rightarrow> 'a \<Rightarrow> 'q MoodycamelQueue \<Rightarrow> Status \<times> 'q MoodycamelQueue" where
  "lf_TryPush cq v s =
     (case try_enqueue cq (lf_queue s) v of
        (Enqueue_Refused, q) \<Rightarrow> (ck_status kWouldBlock ''queue is full or unavailable'', s\<lparr>lf_queue := q\<rparr>)
      | (Enqueued, q) \<Rightarrow> (Status_Ok, s\<lparr>lf_queue := q, lf_size := lf_size s + 1\<rparr>)
      | (Enqueue_Threw, q) \<Rightarrow> (ck_status kInternalError ''queue push failed'', s\<lparr>lf_queue := q\<rparr>))"

text \<open>\<open>TryPushMove\<close> has the body of \<open>TryPush\<close> with the value moved in.\<close>

definition lf_TryPushMove :: "('q, 'a) cq_ops \<Rightarrow> 'a \<Rightarrow> 'q MoodycamelQueue \<Rightarrow> Status \<times> 'q MoodycamelQueue" where
  "lf_TryPushMove cq v s =
     (case try_enqueue cq (lf_queue s) v of
        (Enqueue_Refused, q) \<Rightarrow> (ck_status kWouldBlock ''queue is full or unavailable'', s\<lparr>lf_queue := q\<rparr>)
      | (Enqueued, q) \<Rightarrow> (Status_Ok, s\<lparr>lf_queue := q, lf_size := lf_size s + 1\<rparr>)
      | (Enqueue_Threw, q) \<Rightarrow> (ck_status kInternalError ''queue push failed'', s\<lparr>lf_queue := q\<rparr>))"

text \<open>
  The loop over the remaining values with \<open>done\<close> of them inserted: the status, what \<open>*pushed\<close>
  receives and the state. On an exception the local \<open>done\<close> is lost.
\<close>

fun lf_push_loop :: "('q, 'a) cq_ops \<Rightarrow> 'a list \<Rightarrow> nat \<Rightarrow> 'q MoodycamelQueue \<Rightarrow> Status \<times> nat \<times> 'q MoodycamelQueue" where
  "lf_push_loop cq [] n s = (Status_Ok, n, s\<lparr>lf_size := (if n > 0 then lf_size s + of_nat n else lf_size s)\<rparr>)"
| "lf_push_loop cq (v # vs) n s =
     (case try_enqueue cq (lf_queue s) v of
        (Enqueue_Refused, q) \<Rightarrow>
          (ck_status kWouldBlock ''queue is full or unavailable'', n,
           s\<lparr>lf_queue := q, lf_size := (if n > 0 then lf_size s + of_nat n else lf_size s)\<rparr>)
      | (Enqueued, q) \<Rightarrow> lf_push_loop cq vs (Suc n) (s\<lparr>lf_queue := q\<rparr>)
      | (Enqueue_Threw, q) \<Rightarrow> (ck_status kInternalError ''queue push batch failed'', 0, s\<lparr>lf_queue := q\<rparr>))"

definition lf_TryPushBatch ::
  "('q, 'a) cq_ops \<Rightarrow> 'a list option \<Rightarrow> size_t \<Rightarrow> 'q MoodycamelQueue \<Rightarrow> (Status \<times> nat \<times> 'q MoodycamelQueue) option"
where
  "lf_TryPushBatch cq values cnt s =
     (case values of
        None \<Rightarrow> if cnt > 0 then Some (ck_status kInvalidArgument ''values is null'', 0, s)
               else Some (lf_push_loop cq [] 0 s)
      | Some vs \<Rightarrow> map_option (\<lambda>ws. lf_push_loop cq ws 0 s) (read_at vs 0 (unat cnt)))"

definition lf_TryPop :: "('q, 'a) cq_ops \<Rightarrow> 'a \<Rightarrow> 'q MoodycamelQueue \<Rightarrow> 'a Result \<times> 'q MoodycamelQueue" where
  "lf_TryPop cq dflt s =
     (case try_dequeue cq (lf_queue s) of
        (Nothing_Found, q) \<Rightarrow> (Result_status dflt (ck_status kWouldBlock ''queue is empty''), s\<lparr>lf_queue := q\<rparr>)
      | (Dequeued v, q) \<Rightarrow> (Result_value v, s\<lparr>lf_queue := q, lf_size := lf_size s - 1\<rparr>)
      | (Dequeue_Threw, q) \<Rightarrow> (Result_status dflt (ck_status kInternalError ''queue pop failed''), s\<lparr>lf_queue := q\<rparr>))"

definition lf_ApproxSize :: "'q MoodycamelQueue \<Rightarrow> size_t" where
  "lf_ApproxSize s = lf_size s"

definition lf_IsEmpty :: "'q MoodycamelQueue \<Rightarrow> bool" where
  "lf_IsEmpty s \<longleftrightarrow> lf_ApproxSize s = 0"

definition lf_TryPeek :: "'a option \<Rightarrow> Status" where
  "lf_TryPeek out =
     (case out of
        None \<Rightarrow> ck_status kInvalidArgument ''out is null''
      | Some _ \<Rightarrow> ck_status kUnsupported ''peek is not supported for this lock-free queue'')"

text \<open>The elements delivered; \<open>out\<close> tells whether the output pointer is not null.\<close>

definition lf_TryPopBatch ::
  "('q, 'a) cq_ops \<Rightarrow> bool \<Rightarrow> size_t \<Rightarrow> 'q MoodycamelQueue \<Rightarrow> Status \<times> 'a list \<times> 'q MoodycamelQueue"
where
  "lf_TryPopBatch cq out capacity s =
     (if \<not> out \<and> capacity > 0 then (ck_status kInvalidArgument ''out_values is null'', [], s)
      else case try_dequeue_bulk cq (lf_queue s) (unat capacity) of
          (None, q) \<Rightarrow> (ck_status kInternalError ''queue pop batch failed'', [], s\<lparr>lf_queue := q\<rparr>)
        | (Some vs, q) \<Rightarrow>
            (if vs = [] then (ck_status kWouldBlock ''queue is empty'', [], s\<lparr>lf_queue := q\<rparr>)
             else (Status_Ok, vs, s\<lparr>lf_queue := q, lf_size := lf_size s - of_nat (length vs)\<rparr>)))"

text \<open>\<open>Clear\<close> removes until it finds nothing; \<open>None\<close> would be a loop that does not end.\<close>

partial_function (option) lf_Clear ::
  "('q, 'a) cq_ops \<Rightarrow> 'q MoodycamelQueue \<Rightarrow> (Status \<times> 'q MoodycamelQueue) option"
where
  "lf_Clear cq s =
     (case try_dequeue cq (lf_queue s) of
        (Dequeued v, q) \<Rightarrow> lf_Clear cq (s\<lparr>lf_queue := q, lf_size := lf_size s - 1\<rparr>)
      | (Nothing_Found, q) \<Rightarrow> Some (Status_Ok, s\<lparr>lf_queue := q\<rparr>)
      | (Dequeue_Threw, q) \<Rightarrow> Some (ck_status kInternalError ''queue clear failed'', s\<lparr>lf_queue := q\<rparr>))"

definition lf_Capacity :: "'q MoodycamelQueue \<Rightarrow> size_t" where
  "lf_Capacity s = 0"

section \<open>Atomic steps of many threads\<close>

text \<open>
  A call that inserts or removes elements first changes the queue and later adds to the counter.
  \<open>pending\<close> holds the additions that calls in progress still have to make.
\<close>

record 'q lf_shared =
  sh_queue :: "'q MoodycamelQueue"
  pending :: "int multiset"

inductive lf_step :: "('q, 'a) cq_ops \<Rightarrow> 'q lf_shared \<Rightarrow> 'q lf_shared \<Rightarrow> bool" for cq where
  insert_one: "try_enqueue cq (lf_queue (sh_queue s)) v = (r, q) \<Longrightarrow> r \<noteq> Enqueue_Threw \<Longrightarrow>
     lf_step cq s (s\<lparr>sh_queue := (sh_queue s)\<lparr>lf_queue := q\<rparr>,
       pending := pending s + (if r = Enqueued then {#1#} else {#})\<rparr>)"
| insert_next: "try_enqueue cq (lf_queue (sh_queue s)) v = (Enqueued, q) \<Longrightarrow> k \<in># pending s \<Longrightarrow>
     lf_step cq s (s\<lparr>sh_queue := (sh_queue s)\<lparr>lf_queue := q\<rparr>, pending := add_mset (k + 1) (pending s - {#k#})\<rparr>)"
| remove_one: "try_dequeue cq (lf_queue (sh_queue s)) = (Dequeued v, q) \<Longrightarrow>
     lf_step cq s (s\<lparr>sh_queue := (sh_queue s)\<lparr>lf_queue := q\<rparr>, pending := add_mset (- 1) (pending s)\<rparr>)"
| remove_many: "try_dequeue_bulk cq (lf_queue (sh_queue s)) n = (Some vs, q) \<Longrightarrow>
     lf_step cq s (s\<lparr>sh_queue := (sh_queue s)\<lparr>lf_queue := q\<rparr>, pending := add_mset (- int (length vs)) (pending s)\<rparr>)"
| remove_none: "try_dequeue cq (lf_queue (sh_queue s)) = (Nothing_Found, q) \<Longrightarrow>
     lf_step cq s (s\<lparr>sh_queue := (sh_queue s)\<lparr>lf_queue := q\<rparr>\<rparr>)"
| adjust: "k \<in># pending s \<Longrightarrow>
     lf_step cq s (s\<lparr>sh_queue := (sh_queue s)\<lparr>lf_size := lf_size (sh_queue s) + word_of_int k\<rparr>,
       pending := pending s - {#k#}\<rparr>)"

text \<open>How far the counter, with the additions still to come, is above the number of elements.\<close>

definition lf_surplus :: "('q \<Rightarrow> 'a multiset) \<Rightarrow> 'q lf_shared \<Rightarrow> 64 word" where
  "lf_surplus contents s =
     lf_size (sh_queue s) + word_of_int (sum_mset (pending s)) - of_nat (size (contents (lf_queue (sh_queue s))))"

definition quiet :: "'q MoodycamelQueue \<Rightarrow> 'q lf_shared" where
  "quiet q = \<lparr>sh_queue = q, pending = {#}\<rparr>"

context concurrent_queue
begin

lemma step_surplus: "lf_step cq s s' \<Longrightarrow> lf_surplus contents s' = lf_surplus contents s"
proof (induction rule: lf_step.induct)
  case (insert_one s v r q)
  then show ?case using enqueue [OF insert_one(1)] by (auto simp: lf_surplus_def algebra_simps)
next
  case (insert_next s v q k)
  have "sum_mset (add_mset (k + 1) (pending s - {#k#})) = sum_mset (pending s) + 1"
    using insert_next(2) by (simp add: sum_mset.remove)
  then show ?case using enqueue [OF insert_next(1)] by (simp add: lf_surplus_def algebra_simps)
next
  case (remove_one s v q)
  then show ?case using dequeue [OF remove_one(1)] by (simp add: lf_surplus_def algebra_simps)
next
  case (remove_many s n vs q)
  then show ?case using dequeue_bulk [OF remove_many(1)] by (simp add: lf_surplus_def algebra_simps)
next
  case (remove_none s q)
  then show ?case using dequeue_none [OF remove_none(1)] by (simp add: lf_surplus_def)
next
  case (adjust k s)
  then show ?case by (simp add: lf_surplus_def sum_mset.remove algebra_simps)
qed

lemma steps_surplus: "(lf_step cq)\<^sup>*\<^sup>* s s' \<Longrightarrow> lf_surplus contents s' = lf_surplus contents s"
  by (induction rule: rtranclp_induct) (auto simp: step_surplus)

text \<open>The state between the insertions of a batch.\<close>

lemma push_loop_surplus:
  "lf_push_loop cq vs n s = (st, m, s') \<Longrightarrow>
    if st_code st = kInternalError
    then m = 0 \<and> lf_size s' = lf_size s \<and>
      (\<exists>k < length vs. contents (lf_queue s') = contents (lf_queue s) + mset (take k vs))
    else lf_surplus contents (quiet s') = lf_surplus contents (quiet s) + of_nat n"
proof (induction vs arbitrary: n s)
  case Nil
  then show ?case by (auto simp: Status_Ok_def lf_surplus_def quiet_def algebra_simps)
next
  case (Cons v vs)
  obtain r q where r: "try_enqueue cq (lf_queue s) v = (r, q)" by fastforce
  note c = enqueue [OF r]
  show ?case
  proof (cases r)
    case Enqueued
    with Cons(2) r have "lf_push_loop cq vs (Suc n) (s\<lparr>lf_queue := q\<rparr>) = (st, m, s')" by simp
    note ih = Cons(1) [OF this]
    have sur: "lf_surplus contents (quiet (s\<lparr>lf_queue := q\<rparr>)) + of_nat (Suc n) = lf_surplus contents (quiet s) + of_nat n"
      using c Enqueued by (simp add: lf_surplus_def quiet_def algebra_simps)
    show ?thesis
    proof (cases "st_code st = kInternalError")
      case True
      with ih obtain k where "k < length vs" "contents (lf_queue s') = contents q + mset (take k vs)"
        "m = 0" "lf_size s' = lf_size s" by auto
      with c Enqueued True show ?thesis by (auto intro!: exI [of _ "Suc k"])
    qed (use ih sur in simp)
  next
    case Enqueue_Refused
    with Cons(2) r c show ?thesis by (auto simp: lf_surplus_def quiet_def algebra_simps)
  next
    case Enqueue_Threw
    with Cons(2) r c show ?thesis by (auto intro!: exI [of _ 0])
  qed
qed

text \<open>\<open>Clear\<close> returns: every round removes an element.\<close>

lemma Clear_returns:
  "\<exists>st s'. lf_Clear cq s = Some (st, s') \<and>
     (st_code st = kInternalError \<or> lf_surplus contents (quiet s') = lf_surplus contents (quiet s))"
proof (induction "size (contents (lf_queue s))" arbitrary: s rule: less_induct)
  case less
  obtain r q where r: "try_dequeue cq (lf_queue s) = (r, q)" by fastforce
  show ?case
  proof (cases r)
    case (Dequeued v)
    let ?s = "s\<lparr>lf_queue := q, lf_size := lf_size s - 1\<rparr>"
    have c: "contents (lf_queue s) = add_mset v (contents q)" using dequeue r Dequeued by simp
    then obtain st s' where "lf_Clear cq ?s = Some (st, s')"
      "st_code st = kInternalError \<or> lf_surplus contents (quiet s') = lf_surplus contents (quiet ?s)"
      using less [of ?s] by auto
    moreover have "lf_surplus contents (quiet ?s) = lf_surplus contents (quiet s)"
      using c by (simp add: lf_surplus_def quiet_def algebra_simps)
    ultimately show ?thesis using r Dequeued by (subst lf_Clear.simps) simp
  next
    case Nothing_Found
    then show ?thesis
      using r dequeue_none [of "lf_queue s" q] by (subst lf_Clear.simps) (simp add: lf_surplus_def quiet_def)
  next
    case Dequeue_Threw
    then show ?thesis using r by (subst lf_Clear.simps) simp
  qed
qed

end

section \<open>Calls\<close>

datatype 'a lf_call =
    Call_Push 'a
  | Call_PushMove 'a
  | Call_PushBatch "'a list" size_t
  | Call_Pop 'a
  | Call_PopBatch bool size_t
  | Call_Clear

fun lf_exec :: "('q, 'a) cq_ops \<Rightarrow> 'a lf_call \<Rightarrow> 'q MoodycamelQueue \<Rightarrow> (Status \<times> 'q MoodycamelQueue) option" where
  "lf_exec cq (Call_Push v) s = Some (lf_TryPush cq v s)"
| "lf_exec cq (Call_PushMove v) s = Some (lf_TryPushMove cq v s)"
| "lf_exec cq (Call_PushBatch vs n) s = map_option (\<lambda>(st, m, s'). (st, s')) (lf_TryPushBatch cq (Some vs) n s)"
| "lf_exec cq (Call_Pop dflt) s = (let (r, s') = lf_TryPop cq dflt s in Some (res_status r, s'))"
| "lf_exec cq (Call_PopBatch out n) s = (let (st, vs, s') = lf_TryPopBatch cq out n s in Some (st, s'))"
| "lf_exec cq Call_Clear s = lf_Clear cq s"

context concurrent_queue
begin

lemma exec_surplus:
  assumes "lf_exec cq c s = Some (st, s')" "st_code st \<noteq> kInternalError"
  shows "lf_surplus contents (quiet s') = lf_surplus contents (quiet s)"
proof (cases c)
  case (Call_Push v)
  with assms show ?thesis
    by (auto simp: lf_TryPush_def lf_surplus_def quiet_def split: prod.splits enqueue_result.splits dest!: enqueue)
next
  case (Call_PushMove v)
  with assms show ?thesis
    by (auto simp: lf_TryPushMove_def lf_surplus_def quiet_def split: prod.splits enqueue_result.splits dest!: enqueue)
next
  case (Call_PushBatch vs n)
  with assms obtain ws m where "lf_push_loop cq ws 0 s = (st, m, s')"
    by (auto simp: lf_TryPushBatch_def)
  from push_loop_surplus [OF this] assms(2) show ?thesis by simp
next
  case (Call_Pop dflt)
  with assms show ?thesis
    by (auto simp: lf_TryPop_def lf_surplus_def quiet_def Result_status_def Result_value_def
        split: prod.splits dequeue_result.splits dest!: dequeue dequeue_none)
next
  case (Call_PopBatch out n)
  with assms show ?thesis
    by (auto simp: lf_TryPopBatch_def lf_surplus_def quiet_def split: prod.splits option.splits if_splits
        dest!: dequeue_bulk)
next
  case Call_Clear
  with assms Clear_returns [of s] show ?thesis by auto
qed

lemma exec_total:
  assumes "\<And>vs n. c = Call_PushBatch vs n \<Longrightarrow> unat n \<le> length vs"
  shows "\<exists>st s'. lf_exec cq c s = Some (st, s')"
proof (cases c)
  case (Call_PushBatch vs n)
  with assms [OF this] show ?thesis
    by (cases "lf_push_loop cq (take (unat n) vs) 0 s") (simp add: lf_TryPushBatch_def read_at_Some)
next
  case Call_Clear
  then show ?thesis using Clear_returns [of s] by auto
qed (auto simp: Let_def split: prod.split)

text \<open>A counter that is off by \<open>d\<close> stays off by \<open>d\<close> whatever is done afterwards.\<close>

lemma size_when_quiet:
  assumes "(lf_step cq)\<^sup>*\<^sup>* (quiet q) s" "pending s = {#}"
  shows "lf_size (sh_queue s) = of_nat (size (contents (lf_queue (sh_queue s)))) + lf_surplus contents (quiet q)"
proof -
  have "lf_surplus contents s = lf_size (sh_queue s) - of_nat (size (contents (lf_queue (sh_queue s))))"
    using assms(2) by (simp add: lf_surplus_def)
  with steps_surplus [OF assms(1)] show ?thesis by (simp add: algebra_simps)
qed

end

section \<open>The counter\<close>

definition lf_new :: "'q \<Rightarrow> 'q MoodycamelQueue" where
  "lf_new q = \<lparr>lf_queue = q, lf_size = 0\<rparr>"


text \<open>
  C36: When an insertion of \<open>TryPushBatch\<close> throws after \<open>k\<close> elements have been inserted, the call
  reports that none was, the elements are in the queue, and the counter does not count them: from then
  on, whenever the queue is quiet, \<open>ApproxSize\<close> is \<open>k\<close> less than the number of elements modulo
  \<open>2^64\<close>, and an empty queue reports a huge size and is not \<open>IsEmpty\<close>.
\<close>

theorem push_batch_exception_miscounts:
  assumes cq: "concurrent_queue cq contents"
    and right: "lf_ApproxSize q = of_nat (size (contents (lf_queue q)))"
    and batch: "lf_TryPushBatch cq (Some vs) n q = Some (st, m, q')" "st_code st = kInternalError"
  shows "\<exists>k < unat n. m = 0 \<and> contents (lf_queue q') = contents (lf_queue q) + mset (take k vs) \<and>
    (\<forall>s. (lf_step cq)\<^sup>*\<^sup>* (quiet q') s \<longrightarrow> pending s = {#} \<longrightarrow>
       lf_ApproxSize (sh_queue s) = of_nat (size (contents (lf_queue (sh_queue s)))) - of_nat k \<and>
       (contents (lf_queue (sh_queue s)) = {#} \<longrightarrow> 0 < k \<longrightarrow> \<not> lf_IsEmpty (sh_queue s)))"
proof -
  have le: "unat n \<le> length vs" and loop: "lf_push_loop cq (take (unat n) vs) 0 q = (st, m, q')"
    using batch(1) by (auto simp: lf_TryPushBatch_def read_at_def split: if_splits)
  obtain k where k0: "k < length (take (unat n) vs)"
      "contents (lf_queue q') = contents (lf_queue q) + mset (take k (take (unat n) vs))"
    and k': "m = 0" "lf_size q' = lf_size q"
    using concurrent_queue.push_loop_surplus [OF cq loop] batch(2) by auto
  have "k < unat n" "take k (take (unat n) vs) = take k vs" using k0(1) le by simp_all
  with k0 k' have k: "k < unat n" "contents (lf_queue q') = contents (lf_queue q) + mset (take k vs)"
    "m = 0" "lf_size q' = lf_size q" by simp_all
  have "length (take k vs) = k" using k(1) le by simp
  then have sur: "lf_surplus contents (quiet q') = - of_nat k"
    using k(2,4) right by (simp add: lf_surplus_def quiet_def lf_ApproxSize_def)
  have small: "of_nat k \<noteq> (0 :: 64 word)" if "0 < k"
  proof -
    have "k < 18446744073709551616" by (rule less_trans [OF k(1)]) simp
    then have "unat (of_nat k :: 64 word) = k" by (simp add: unat_of_nat)
    then show ?thesis using that by auto
  qed
  show ?thesis
  proof (intro exI [of _ k] conjI allI impI)
    fix s assume run: "(lf_step cq)\<^sup>*\<^sup>* (quiet q') s" "pending s = {#}"
    show *: "lf_ApproxSize (sh_queue s) = of_nat (size (contents (lf_queue (sh_queue s)))) - of_nat k"
      using concurrent_queue.size_when_quiet [OF cq run] sur by (simp add: lf_ApproxSize_def)
    assume "contents (lf_queue (sh_queue s)) = {#}" "0 < k"
    with * small show "\<not> lf_IsEmpty (sh_queue s)" by (simp add: lf_IsEmpty_def)
  qed (use k in simp_all)
qed

section \<open>An instance\<close>

text \<open>A list with a bound, whose insertion throws on the value 13.\<close>

definition list_cq :: "(nat list, nat) cq_ops" where
  "list_cq =
     \<lparr>try_enqueue = (\<lambda>q v. if v = 13 then (Enqueue_Threw, q)
                         else if length q < 1024 then (Enqueued, q @ [v]) else (Enqueue_Refused, q)),
      try_dequeue = (\<lambda>q. case q of [] \<Rightarrow> (Nothing_Found, q) | v # r \<Rightarrow> (Dequeued v, r)),
      try_dequeue_bulk = (\<lambda>q n. (Some (take n q), drop n q))\<rparr>"

interpretation list_cq: concurrent_queue list_cq mset
proof unfold_locales
  fix q n vs q' assume "try_dequeue_bulk list_cq q n = (Some vs, q')"
  then have "vs = take n q" "q' = drop n q" by (auto simp: list_cq_def)
  then show "mset q = mset vs + mset q' \<and> length vs \<le> n"
    by (simp flip: mset_append)
qed (auto simp: list_cq_def split: if_splits list.splits)


text \<open>The value 13 throws after 7 has been inserted; 7 is taken out again.\<close>

lemma failed_batch:
  "lf_TryPushBatch list_cq (Some [7, 13]) 2 (lf_new []) =
     Some (ck_status kInternalError ''queue push batch failed'', 0, \<lparr>lf_queue = [7], lf_size = 0\<rparr>)"
  by (simp add: lf_TryPushBatch_def read_at_def lf_new_def list_cq_def)

lemma failed_batch_pop:
  "(lf_step list_cq)\<^sup>*\<^sup>* (quiet \<lparr>lf_queue = [7], lf_size = 0\<rparr>) (quiet \<lparr>lf_queue = [], lf_size = - 1\<rparr>)"
proof -
  have "lf_step list_cq (quiet \<lparr>lf_queue = [7], lf_size = 0\<rparr>)
      \<lparr>sh_queue = \<lparr>lf_queue = [], lf_size = 0\<rparr>, pending = {#- 1#}\<rparr>"
    using lf_step.remove_one [of list_cq "quiet \<lparr>lf_queue = [7], lf_size = 0\<rparr>" 7 "[]"]
    by (simp add: quiet_def list_cq_def)
  moreover have "lf_step list_cq \<lparr>sh_queue = \<lparr>lf_queue = [], lf_size = 0\<rparr>, pending = {#- 1#}\<rparr>
      (quiet \<lparr>lf_queue = [], lf_size = - 1\<rparr>)"
    using lf_step.adjust [of "- 1" "\<lparr>sh_queue = \<lparr>lf_queue = [], lf_size = 0\<rparr>, pending = {#- 1#}\<rparr>" list_cq]
    by (simp add: quiet_def)
  ultimately show ?thesis by (meson converse_rtranclp_into_rtranclp rtranclp.rtrancl_refl)
qed

lemma push_batch_exception_miscounts_witness:
  "\<not> lf_IsEmpty \<lparr>lf_queue = [] :: nat list, lf_size = - 1\<rparr>"
proof -
  have "lf_ApproxSize (lf_new ([] :: nat list)) = of_nat (size (mset (lf_queue (lf_new ([] :: nat list)))))"
    by (simp add: lf_ApproxSize_def lf_new_def)
  from push_batch_exception_miscounts [OF list_cq.concurrent_queue_axioms this failed_batch]
  obtain k where k: "mset [7] = mset (lf_queue (lf_new [])) + mset (take k [7, 13 :: nat])"
    and "\<forall>s. (lf_step list_cq)\<^sup>*\<^sup>* (quiet \<lparr>lf_queue = [7], lf_size = 0\<rparr>) s \<longrightarrow> pending s = {#} \<longrightarrow>
      mset (lf_queue (sh_queue s)) = {#} \<longrightarrow> 0 < k \<longrightarrow> \<not> lf_IsEmpty (sh_queue s)"
    by auto
  with failed_batch_pop have "0 < k \<longrightarrow> ?thesis" by (fastforce simp: quiet_def)
  moreover have "0 < k" using k by (cases k) (simp_all add: lf_new_def)
  ultimately show ?thesis by simp
qed

end
