(* ===== verification/CK_File.thy ===== *)
theory CK_File
  imports CK_Status
begin

text \<open>
  File I/O (\<open>src/io/file_impl.hpp\<close>, \<open>src/io/file_utils.cpp\<close>, \<open>include/corekit/io/i_file.hpp\<close>):
  \<open>StdFile\<close> and \<open>FileUtils\<close> over the streams of the C library. The part of \<open>stdio\<close> that the code
  uses is modelled first: files are byte strings, a stream has a position, an error indicator and a
  buffer of written bytes that reach the file when the stream is flushed, moved or closed. Failures
  of the system (a file that cannot be opened, a transfer that stops early) are inputs. The lemmas
  show that what was written reads back, and that \<open>WriteAll\<close> reports success for data that was
  lost.
\<close>

section \<open>Streams of the C library\<close>

type_synonym bytes = "u8 list"
type_synonym disk = "string \<Rightarrow> bytes option"

record FILE =
  f_path :: string
  f_readable :: bool
  f_writable :: bool
  f_append :: bool
  f_pos :: nat
  f_buffer :: bytes
  f_error :: bool

text \<open>Bytes stored at an offset; a gap after the end is filled with zeros.\<close>

definition put_bytes :: "bytes \<Rightarrow> nat \<Rightarrow> bytes \<Rightarrow> bytes" where
  "put_bytes content off bs =
     take off (content @ replicate (off - length content) 0) @ bs @ drop (off + length bs) content"

definition contents_of :: "disk \<Rightarrow> FILE \<Rightarrow> bytes" where
  "contents_of d f = (case d (f_path f) of None \<Rightarrow> [] | Some c \<Rightarrow> c)"

text \<open>
  \<open>fopen\<close> with the modes \<open>rb\<close>, \<open>wb\<close>, \<open>ab\<close> and \<open>r+b\<close>; \<open>allowed\<close> is whether the system
  permits it.
\<close>

datatype fmode = RB | WB | AB | RPB

definition fopen :: "bool \<Rightarrow> string \<Rightarrow> fmode \<Rightarrow> disk \<Rightarrow> FILE option \<times> disk" where
  "fopen allowed path m d =
     (if \<not> allowed \<or> ((m = RB \<or> m = RPB) \<and> d path = None) then (None, d)
      else let d' = (if m = WB then d(path \<mapsto> [])
                     else if m = AB \<and> d path = None then d(path \<mapsto> []) else d)
           in (Some \<lparr>f_path = path, f_readable = (m = RB \<or> m = RPB), f_writable = (m \<noteq> RB),
                     f_append = (m = AB), f_pos = (if m = AB then length (the (d' path)) else 0),
                     f_buffer = [], f_error = False\<rparr>, d'))"

text \<open>
  A transfer of the buffer to the file. \<open>None\<close>: everything is written; \<open>Some k\<close>: it stops after
  \<open>k\<close> bytes with an error, and the rest is lost.
\<close>

type_synonym fault = "nat option"

definition transferred :: "fault \<Rightarrow> bytes \<Rightarrow> bytes" where
  "transferred flt bs = (case flt of None \<Rightarrow> bs | Some k \<Rightarrow> take k bs)"

definition flush_buffer :: "fault \<Rightarrow> FILE \<Rightarrow> disk \<Rightarrow> bool \<times> FILE \<times> disk" where
  "flush_buffer flt f d =
     (if f_buffer f = [] then (True, f, d)
      else let bs = transferred flt (f_buffer f);
               c = contents_of d f;
               c' = (if f_append f then c @ bs else put_bytes c (f_pos f - length (f_buffer f)) bs)
           in (flt = None, f\<lparr>f_buffer := [], f_error := f_error f \<or> flt \<noteq> None\<rparr>, d(f_path f \<mapsto> c')))"

text \<open>The bytes read, at most \<open>n\<close> of them.\<close>

definition fread :: "fault \<Rightarrow> nat \<Rightarrow> FILE \<Rightarrow> disk \<Rightarrow> bytes \<times> FILE" where
  "fread flt n f d =
     (if \<not> f_readable f then ([], f\<lparr>f_error := True\<rparr>)
      else let bs = transferred flt (take n (drop (f_pos f) (contents_of d f)))
           in (bs, f\<lparr>f_pos := f_pos f + length bs, f_error := f_error f \<or> flt \<noteq> None\<rparr>))"

text \<open>The number of bytes taken over into the buffer.\<close>

definition fwrite :: "fault \<Rightarrow> bytes \<Rightarrow> FILE \<Rightarrow> nat \<times> FILE" where
  "fwrite flt bs f =
     (if \<not> f_writable f then (0, f\<lparr>f_error := True\<rparr>)
      else let t = transferred flt bs
           in (length t, f\<lparr>f_buffer := f_buffer f @ t, f_pos := f_pos f + length t,
                          f_error := f_error f \<or> flt \<noteq> None\<rparr>))"

datatype whence = SEEK_SET | SEEK_CUR | SEEK_END

fun seek_base :: "whence \<Rightarrow> FILE \<Rightarrow> disk \<Rightarrow> int" where
  "seek_base SEEK_SET f d = 0"
| "seek_base SEEK_CUR f d = int (f_pos f)"
| "seek_base SEEK_END f d = int (length (contents_of d f))"

definition fseek :: "fault \<Rightarrow> int \<Rightarrow> whence \<Rightarrow> FILE \<Rightarrow> disk \<Rightarrow> bool \<times> FILE \<times> disk" where
  "fseek flt offset wh f d =
     (let (ok, f1, d1) = flush_buffer flt f d;
          target = seek_base wh f1 d1 + offset
      in if \<not> ok \<or> target < 0 then (False, f1, d1) else (True, f1\<lparr>f_pos := nat target\<rparr>, d1))"

text \<open>\<open>ftell\<close>: the position, or a negative number when the system cannot tell.\<close>

definition ftell :: "bool \<Rightarrow> FILE \<Rightarrow> int" where
  "ftell can f = (if can then int (f_pos f) else - 1)"

definition fclose :: "fault \<Rightarrow> FILE \<Rightarrow> disk \<Rightarrow> bool \<times> disk" where
  "fclose flt f d = (let (ok, f1, d1) = flush_buffer flt f d in (ok, d1))"

section \<open>\<open>StdFile\<close>\<close>

datatype FileMode = kRead | kWrite | kAppend | kReadWrite
datatype SeekOrigin = kBegin | kCurrent | kEnd

record StdFile =
  fp :: "FILE option"

definition new_StdFile :: StdFile where
  "new_StdFile = \<lparr>fp = None\<rparr>"

fun fmode_of :: "FileMode \<Rightarrow> fmode" where
  "fmode_of kRead = RB"
| "fmode_of kWrite = WB"
| "fmode_of kAppend = AB"
| "fmode_of kReadWrite = RPB"

definition empty_path :: "string option \<Rightarrow> bool" where
  "empty_path path \<longleftrightarrow> path = None \<or> path = Some []"

definition StdFile_Open :: "bool \<Rightarrow> string option \<Rightarrow> FileMode \<Rightarrow> StdFile \<Rightarrow> disk \<Rightarrow> Status \<times> StdFile \<times> disk" where
  "StdFile_Open allowed path m s d =
     (if fp s \<noteq> None then (mkStatus kAlreadyInitialized ''file already open'', s, d)
      else if empty_path path then (mkStatus kInvalidArgument ''path is empty'', s, d)
      else case fopen allowed (the path) (fmode_of m) d of
          (None, d') \<Rightarrow> (mkStatus kIoError ''failed to open file'', s\<lparr>fp := None\<rparr>, d')
        | (Some f, d') \<Rightarrow> (Status_Ok, s\<lparr>fp := Some f\<rparr>, d'))"

text \<open>The bytes stored in the caller's buffer come with the result; \<open>buf\<close> is whether there is one.\<close>

definition StdFile_Read :: "fault \<Rightarrow> bool \<Rightarrow> size_t \<Rightarrow> StdFile \<Rightarrow> disk \<Rightarrow> size_t Result \<times> bytes \<times> StdFile" where
  "StdFile_Read flt buf n s d =
     (case fp s of
        None \<Rightarrow> (Result_status 0 (mkStatus kNotInitialized ''file not open''), [], s)
      | Some f \<Rightarrow>
          if \<not> buf \<or> n = 0 then (Result_value 0, [], s)
          else let (bs, f') = fread flt (unat n) f d in
            if bs = [] \<and> f_error f'
            then (Result_status 0 (mkStatus kIoError ''read failed''), [], s\<lparr>fp := Some f'\<rparr>)
            else (Result_value (of_nat (length bs)), bs, s\<lparr>fp := Some f'\<rparr>))"

text \<open>\<open>data\<close> is the caller's buffer, of which \<open>n\<close> bytes are written.\<close>

definition StdFile_Write :: "fault \<Rightarrow> bytes option \<Rightarrow> size_t \<Rightarrow> StdFile \<Rightarrow> size_t Result \<times> StdFile" where
  "StdFile_Write flt data n s =
     (case fp s of
        None \<Rightarrow> (Result_status 0 (mkStatus kNotInitialized ''file not open''), s)
      | Some f \<Rightarrow>
          if data = None \<or> n = 0 then (Result_value 0, s)
          else let (k, f') = fwrite flt (take (unat n) (the data)) f in
            if k < unat n \<and> f_error f'
            then (Result_status 0 (mkStatus kIoError ''write failed''), s\<lparr>fp := Some f'\<rparr>)
            else (Result_value (of_nat k), s\<lparr>fp := Some f'\<rparr>))"

fun whence_of :: "SeekOrigin \<Rightarrow> whence" where
  "whence_of kBegin = SEEK_SET"
| "whence_of kCurrent = SEEK_CUR"
| "whence_of kEnd = SEEK_END"

definition StdFile_Seek :: "fault \<Rightarrow> 64 word \<Rightarrow> SeekOrigin \<Rightarrow> StdFile \<Rightarrow> disk \<Rightarrow> Status \<times> StdFile \<times> disk" where
  "StdFile_Seek flt offset origin s d =
     (case fp s of
        None \<Rightarrow> (mkStatus kNotInitialized ''file not open'', s, d)
      | Some f \<Rightarrow>
          let (ok, f', d') = fseek flt (sint offset) (whence_of origin) f d
          in (if \<not> ok then mkStatus kIoError ''seek failed'' else Status_Ok, s\<lparr>fp := Some f'\<rparr>, d'))"

definition StdFile_Tell :: "bool \<Rightarrow> StdFile \<Rightarrow> int Result" where
  "StdFile_Tell can s =
     (case fp s of
        None \<Rightarrow> Result_status 0 (mkStatus kNotInitialized ''file not open'')
      | Some f \<Rightarrow>
          let pos = ftell can f in
          if pos < 0 then Result_status 0 (mkStatus kIoError ''tell failed'') else Result_value pos)"

definition StdFile_Flush :: "fault \<Rightarrow> StdFile \<Rightarrow> disk \<Rightarrow> Status \<times> StdFile \<times> disk" where
  "StdFile_Flush flt s d =
     (case fp s of
        None \<Rightarrow> (mkStatus kNotInitialized ''file not open'', s, d)
      | Some f \<Rightarrow>
          let (ok, f', d') = flush_buffer flt f d
          in (if \<not> ok then mkStatus kIoError ''flush failed'' else Status_Ok, s\<lparr>fp := Some f'\<rparr>, d'))"

definition StdFile_Close :: "fault \<Rightarrow> StdFile \<Rightarrow> disk \<Rightarrow> Status \<times> StdFile \<times> disk" where
  "StdFile_Close flt s d =
     (case fp s of
        None \<Rightarrow> (Status_Ok, s, d)
      | Some f \<Rightarrow>
          let (ok, d') = fclose flt f d
          in (if \<not> ok then mkStatus kIoError ''close failed'' else Status_Ok, s\<lparr>fp := None\<rparr>, d'))"

definition StdFile_IsOpen :: "StdFile \<Rightarrow> bool" where
  "StdFile_IsOpen s \<longleftrightarrow> fp s \<noteq> None"

definition delete_StdFile :: "fault \<Rightarrow> StdFile \<Rightarrow> disk \<Rightarrow> disk" where
  "delete_StdFile flt s d = (case fp s of None \<Rightarrow> d | Some f \<Rightarrow> snd (fclose flt f d))"

section \<open>\<open>FileUtils\<close>\<close>

definition FileUtils_Exists :: "string option \<Rightarrow> disk \<Rightarrow> bool" where
  "FileUtils_Exists path d \<longleftrightarrow> \<not> empty_path path \<and> d (the path) \<noteq> None"

definition FileUtils_FileSize :: "string option \<Rightarrow> disk \<Rightarrow> u64 Result" where
  "FileUtils_FileSize path d =
     (if empty_path path then Result_status 0 (mkStatus kInvalidArgument ''path is empty'')
      else case d (the path) of
          None \<Rightarrow> Result_status 0 (mkStatus kNotFound ''file not found'')
        | Some c \<Rightarrow> Result_value (of_nat (length c)))"

definition FileUtils_Delete :: "bool \<Rightarrow> string option \<Rightarrow> disk \<Rightarrow> Status \<times> disk" where
  "FileUtils_Delete allowed path d =
     (if empty_path path then (mkStatus kInvalidArgument ''path is empty'', d)
      else if \<not> allowed \<or> d (the path) = None then (mkStatus kIoError ''failed to delete file'', d)
      else (Status_Ok, d(the path := None)))"

definition FileUtils_ReadAll :: "bool \<Rightarrow> bool \<Rightarrow> fault \<Rightarrow> string option \<Rightarrow> disk \<Rightarrow> bytes Result \<times> disk" where
  "FileUtils_ReadAll allowed can flt path d =
     (if empty_path path then (Result_status [] (mkStatus kInvalidArgument ''path is empty''), d)
      else case fopen allowed (the path) RB d of
          (None, d1) \<Rightarrow> (Result_status [] (mkStatus kNotFound ''file not found''), d1)
        | (Some f, d1) \<Rightarrow>
            let (ok1, f1, d2) = fseek None 0 SEEK_END f d1;
                sz = ftell can f1;
                (ok2, f2, d3) = fseek None 0 SEEK_SET f1 d2
            in if sz < 0 then
                 (Result_status [] (mkStatus kIoError ''failed to determine file size''), snd (fclose None f2 d3))
               else if sz > 0 then
                 (let (data, f3) = fread flt (nat sz) f2 d3 in
                  if length data \<noteq> nat sz
                  then (Result_status [] (mkStatus kIoError ''read incomplete''), snd (fclose None f3 d3))
                  else (Result_value data, snd (fclose None f3 d3)))
               else (Result_value [], snd (fclose None f2 d3)))"

text \<open>\<open>write_flt\<close> is the fault of \<open>fwrite\<close>, \<open>close_flt\<close> the one of \<open>fclose\<close>.\<close>

definition FileUtils_WriteAll ::
  "bool \<Rightarrow> fault \<Rightarrow> fault \<Rightarrow> string option \<Rightarrow> bytes option \<Rightarrow> size_t \<Rightarrow> disk \<Rightarrow> Status \<times> disk"
where
  "FileUtils_WriteAll allowed write_flt close_flt path data len d =
     (if empty_path path then (mkStatus kInvalidArgument ''path is empty'', d)
      else case fopen allowed (the path) WB d of
          (None, d1) \<Rightarrow> (mkStatus kIoError ''failed to create file'', d1)
        | (Some f, d1) \<Rightarrow>
            if len > 0 \<and> data \<noteq> None then
              (let (n, f1) = fwrite write_flt (take (unat len) (the data)) f in
               if n \<noteq> unat len
               then (mkStatus kIoError ''write incomplete'', snd (fclose close_flt f1 d1))
               else (Status_Ok, snd (fclose close_flt f1 d1)))
            else (Status_Ok, snd (fclose close_flt f d1)))"

section \<open>Reading back\<close>

lemma ReadAll_contents:
  assumes "d path = Some c" "path \<noteq> []"
  shows "FileUtils_ReadAll True True None (Some path) d = (Result_value c, d)"
  using assms
  by (simp add: FileUtils_ReadAll_def empty_path_def fopen_def fseek_def flush_buffer_def ftell_def
      fread_def transferred_def contents_of_def fclose_def Let_def)

text \<open>Writing a sequence of chunks.\<close>

fun write_chunks :: "bytes list \<Rightarrow> StdFile \<Rightarrow> StdFile" where
  "write_chunks [] s = s"
| "write_chunks (c # cs) s = write_chunks cs (snd (StdFile_Write None (Some c) (of_nat (length c)) s))"

lemma StdFile_Write_fits:
  assumes "fp s = Some f" "f_writable f" "length c < 2 ^ 64" "\<not> f_error f"
  shows "StdFile_Write None (Some c) (of_nat (length c)) s =
    (Result_value (of_nat (length c)),
     s\<lparr>fp := Some (f\<lparr>f_buffer := f_buffer f @ c, f_pos := f_pos f + length c\<rparr>)\<rparr>)"
proof -
  have n: "unat (of_nat (length c) :: size_t) = length c" using assms(3) by (simp add: unat_of_nat)
  show ?thesis
  proof (cases "c = []")
    case True
    with assms(1) show ?thesis by (simp add: StdFile_Write_def)
  next
    case False
    then have "of_nat (length c) \<noteq> (0 :: size_t)" using n by auto
    with assms n show ?thesis by (simp add: StdFile_Write_def fwrite_def transferred_def Let_def)
  qed
qed

lemma write_chunks_buffer:
  assumes "fp s = Some f" "f_writable f" "\<not> f_error f" "\<forall>c \<in> set cs. length c < 2 ^ 64"
  shows "fp (write_chunks cs s) =
    Some (f\<lparr>f_buffer := f_buffer f @ concat cs, f_pos := f_pos f + length (concat cs)\<rparr>)"
  using assms
proof (induction cs arbitrary: s f)
  case (Cons c cs)
  let ?f = "f\<lparr>f_buffer := f_buffer f @ c, f_pos := f_pos f + length c\<rparr>"
  have "fp (snd (StdFile_Write None (Some c) (of_nat (length c)) s)) = Some ?f"
    using Cons.prems StdFile_Write_fits [of s f c] by simp
  from Cons.IH [OF this] Cons.prems show ?case by (simp add: algebra_simps)
qed simp

text \<open>
  C15: A file opened for writing or appending, written in any number of chunks and closed, with no
  fault of the system, contains what it held before (nothing, when opened for writing) followed by
  the chunks; \<open>ReadAll\<close> returns exactly these bytes, \<open>FileSize\<close> their number, and no other
  file has changed.
\<close>

theorem file_write_read_roundtrip:
  assumes path: "path \<noteq> []" and small: "\<forall>c \<in> set cs. length c < 2 ^ 64"
    and mode: "m = kWrite \<or> m = kAppend"
    and opened: "StdFile_Open True (Some path) m new_StdFile d = (st1, s1, d1)"
    and closed: "StdFile_Close None (write_chunks cs s1) d1 = (st2, s2, d2)"
  shows "let old = (if m = kAppend \<and> d path \<noteq> None then the (d path) else []) in
    st1 = Status_Ok \<and> st2 = Status_Ok \<and> \<not> StdFile_IsOpen s2 \<and>
    FileUtils_ReadAll True True None (Some path) d2 = (Result_value (old @ concat cs), d2) \<and>
    FileUtils_FileSize (Some path) d2 = Result_value (of_nat (length (old @ concat cs))) \<and>
    (\<forall>q. q \<noteq> path \<longrightarrow> d2 q = d q)"
proof -
  define old where "old = (if m = kAppend \<and> d path \<noteq> None then the (d path) else [])"
  define f where "f = \<lparr>f_path = path, f_readable = False, f_writable = True, f_append = (m = kAppend),
    f_pos = length old, f_buffer = [], f_error = False\<rparr>"
  have o: "st1 = Status_Ok" "fp s1 = Some f" "d1 = d(path \<mapsto> old)"
    using opened mode path
    by (auto simp: StdFile_Open_def new_StdFile_def empty_path_def fopen_def f_def old_def Let_def)
  have w: "fp (write_chunks cs s1) = Some (f\<lparr>f_buffer := concat cs, f_pos := length old + length (concat cs)\<rparr>)"
    using write_chunks_buffer [OF o(2) _ _ small] by (simp add: f_def)
  have c: "st2 = Status_Ok" "s2 = (write_chunks cs s1)\<lparr>fp := None\<rparr>" "d2 = d(path \<mapsto> old @ concat cs)"
    using closed o(3) mode
    by (auto simp: StdFile_Close_def w fclose_def flush_buffer_def transferred_def contents_of_def
        put_bytes_def f_def Let_def old_def split: if_splits)
  show ?thesis
    unfolding old_def [symmetric] Let_def
    using o(1) c path ReadAll_contents [of d2 path "old @ concat cs"]
    by (simp add: StdFile_IsOpen_def FileUtils_FileSize_def empty_path_def)
qed

text \<open>
  C37: \<open>WriteAll\<close> does not look at the result of \<open>fclose\<close>. When the bytes it has buffered cannot
  be written to the file (a full disk, for example), it returns Ok, and reading the file returns
  only the bytes that were written before the failure.
\<close>

theorem WriteAll_hides_lost_data:
  assumes "path \<noteq> []" "data \<noteq> []" "length data < 2 ^ 64" "k < length data"
  shows "\<exists>d'. FileUtils_WriteAll True None (Some k) (Some path) (Some data) (of_nat (length data)) d = (Status_Ok, d') \<and>
    FileUtils_ReadAll True True None (Some path) d' = (Result_value (take k data), d') \<and> take k data \<noteq> data"
proof -
  have n: "unat (of_nat (length data) :: size_t) = length data" using assms(3) by (simp add: unat_of_nat)
  then have "of_nat (length data) \<noteq> (0 :: size_t)" using assms(2) by auto
  then have "FileUtils_WriteAll True None (Some k) (Some path) (Some data) (of_nat (length data)) d =
      (Status_Ok, d(path \<mapsto> take k data))"
    using assms n
    by (simp add: FileUtils_WriteAll_def empty_path_def fopen_def fwrite_def transferred_def fclose_def
        flush_buffer_def contents_of_def put_bytes_def Let_def word_greater_zero_iff)
  moreover have "FileUtils_ReadAll True True None (Some path) (d(path \<mapsto> take k data)) =
      (Result_value (take k data), d(path \<mapsto> take k data))"
    using assms(1) by (intro ReadAll_contents) simp_all
  moreover have "take k data \<noteq> data"
    using assms(4) by (simp add: take_all_iff not_le)
  ultimately show ?thesis by blast
qed

lemma WriteAll_hides_lost_data_witness:
  "\<exists>d'. FileUtils_WriteAll True None (Some 1) (Some ''f'') (Some [1, 2]) (of_nat (length [1 :: u8, 2])) (\<lambda>_. None) = (Status_Ok, d') \<and>
    FileUtils_ReadAll True True None (Some ''f'') d' = (Result_value [1], d')"
  using WriteAll_hides_lost_data [of "''f''" "[1, 2]" 1 "\<lambda>_. None"] by auto

lemma file_write_read_roundtrip_witness:
  "\<exists>d2. FileUtils_ReadAll True True None (Some ''f'') d2 = (Result_value [9, 1, 2, 3], d2)"
proof -
  let ?d = "[''f'' \<mapsto> [9 :: u8]]"
  obtain st1 s1 d1 where o: "StdFile_Open True (Some ''f'') kAppend new_StdFile ?d = (st1, s1, d1)"
    by (metis prod_cases3)
  obtain st2 s2 d2 where c: "StdFile_Close None (write_chunks [[1, 2], [3]] s1) d1 = (st2, s2, d2)"
    by (metis prod_cases3)
  from file_write_read_roundtrip [OF _ _ _ o c] show ?thesis by (auto simp: Let_def)
qed

end
