(* ===== verification/CK_Shm_Backend.thy ===== *)
theory CK_Shm_Backend
  imports CK_Channel
begin

text \<open>
  The interface \<open>IShmBackend\<close> (\<open>src/ipc/shm_backend.hpp\<close>) seen from its client, the channel. The
  locale \<open>leak_free_backend\<close> states what a backend promises about the resources of the process (system
  handles, mappings, names): it holds what its state records and a failing operation takes nothing.
  The lemmas show that the channel on any such backend gives back what it takes. \<open>CK_Shm_Posix\<close> and
  \<open>CK_Shm_Win32\<close> prove the laws for the two implementations.
\<close>

section \<open>The channel and the resources behind it\<close>

text \<open>
  \<open>holds r0 b r\<close>: the process holds \<open>r\<close>, of which \<open>r0\<close> is not the backend's. \<open>mapped b\<close>: the
  backend \<open>b\<close> is open.
\<close>

definition chan_owns :: "('r \<Rightarrow> 'b \<Rightarrow> 'r \<Rightarrow> bool) \<Rightarrow> ('b \<Rightarrow> bool) \<Rightarrow> 'r \<Rightarrow> 'b Channel \<Rightarrow> 'r \<Rightarrow> bool" where
  "chan_owns holds mapped r0 ch r \<longleftrightarrow>
     (case backend ch of
        None \<Rightarrow> \<not> opened ch \<and> r = r0
      | Some b \<Rightarrow> holds r0 b r \<and> (opened ch \<longleftrightarrow> mapped b))"

lemma chan_owns_Some:
  "backend ch = Some b \<Longrightarrow> chan_owns holds mapped r0 ch r \<longleftrightarrow> holds r0 b r \<and> (opened ch \<longleftrightarrow> mapped b)"
  by (simp add: chan_owns_def)

lemma chan_owns_cong:
  "backend ch' = backend ch \<Longrightarrow> opened ch' = opened ch \<Longrightarrow> chan_owns holds mapped r0 ch' r = chan_owns holds mapped r0 ch r"
  unfolding chan_owns_def by (simp split: option.split)

lemma chan_owns_new: "chan_owns holds mapped r SharedMemoryChannel r"
  by (simp add: chan_owns_def SharedMemoryChannel_def)

text \<open>The destructor of a channel closes it and deletes its backend.\<close>

definition delete_SharedMemoryChannel :: "('b, 'w) IShmBackend \<Rightarrow> 'b Channel \<Rightarrow> 'w \<Rightarrow> 'w" where
  "delete_SharedMemoryChannel bk ch w =
     (let (st, ch', w') = Close bk ch w
      in case backend ch' of None \<Rightarrow> w' | Some b \<Rightarrow> snd (be_close bk b w'))"

section \<open>Sequences of operations\<close>

datatype chan_op = Do_Server ChannelOptions | Do_Client ChannelOptions | Do_Close

fun do_chan_op :: "('b, 'w) IShmBackend \<Rightarrow> chan_op \<Rightarrow> 'b Channel \<Rightarrow> 'w \<Rightarrow> ('b Channel \<times> 'w) option" where
  "do_chan_op bk (Do_Server o') ch w = (let (st, r) = OpenServer bk ch w o' in Some r)"
| "do_chan_op bk (Do_Client o') ch w = map_option snd (OpenClient bk ch w o')"
| "do_chan_op bk Do_Close ch w = (let (st, r) = Close bk ch w in Some r)"

fun do_chan_ops :: "('b, 'w) IShmBackend \<Rightarrow> chan_op list \<Rightarrow> 'b Channel \<Rightarrow> 'w \<Rightarrow> ('b Channel \<times> 'w) option" where
  "do_chan_ops bk [] ch w = Some (ch, w)"
| "do_chan_ops bk (op # ops) ch w =
     (case do_chan_op bk op ch w of None \<Rightarrow> None | Some (ch', w') \<Rightarrow> do_chan_ops bk ops ch' w')"

lemma server_ops_total:
  "\<forall>op \<in> set ops. \<forall>o'. op \<noteq> Do_Client o' \<Longrightarrow> \<exists>ch' w'. do_chan_ops bk ops ch w = Some (ch', w')"
proof (induction ops arbitrary: ch w)
  case (Cons op ops)
  then obtain ch1 w1 where "do_chan_op bk op ch w = Some (ch1, w1)"
    by (cases op) (force simp: Let_def split: prod.splits)+
  with Cons show ?case by simp
qed simp

section \<open>The contract of a backend\<close>

locale leak_free_backend =
  fixes bk :: "('b, 'w) IShmBackend" and res :: "'w \<Rightarrow> 'r"
    and holds :: "'r \<Rightarrow> 'b \<Rightarrow> 'r \<Rightarrow> bool" and mapped :: "'b \<Rightarrow> bool"
  assumes new_law: "holds r (be_new bk) r" "\<not> mapped (be_new bk)"
    and idle_law: "holds r0 b r \<Longrightarrow> \<not> mapped b \<Longrightarrow> r = r0"
    and create_law: "holds r0 b (res w) \<Longrightarrow> be_create bk name sz b w = (st, b', w') \<Longrightarrow>
      holds r0 b' (res w') \<and> (if status_ok st then mapped b' else b' = b \<and> res w' = res w)"
    and open_law: "holds r0 b (res w) \<Longrightarrow> be_open bk name sz b w = (st, b', w') \<Longrightarrow>
      holds r0 b' (res w') \<and> (if status_ok st then mapped b' else b' = b \<and> res w' = res w)"
    and close_law: "holds r0 b (res w) \<Longrightarrow> be_close bk b w = (b', w') \<Longrightarrow>
      holds r0 b' (res w') \<and> \<not> mapped b' \<and> res w' = r0"
    and store_law: "res (be_store bk b reg w) = res w"
begin

lemma ensure_holds:
  "chan_owns holds mapped r0 ch r \<Longrightarrow> \<not> opened ch \<Longrightarrow>
     holds r0 (ensure_backend bk ch) r \<and> \<not> mapped (ensure_backend bk ch)"
  using new_law by (auto simp: chan_owns_def ensure_backend_def split: option.splits)

lemma OpenServer_holds:
  assumes inv: "chan_owns holds mapped r0 ch (res w)" and step: "OpenServer bk ch w o' = (st, ch', w')"
  shows "chan_owns holds mapped r0 ch' (res w')"
proof (cases "opened ch \<or> \<not> status_ok (ValidateOptions o')")
  case True
  with assms show ?thesis by (auto simp: OpenServer_def Let_def split: if_splits)
next
  case False
  define c where "c = ch\<lparr>options := o', shared_name := BuildSharedName (opt_name o'), local_outbox := [], local_pending_drop := 0\<rparr>"
  have c: "chan_owns holds mapped r0 c (res w)" "\<not> opened c"
    using inv False chan_owns_cong [of c ch holds mapped r0 "res w"] by (simp_all add: c_def)
  have m: "MapAsServer bk c w o' = (st, ch', w')"
    using step False by (simp add: OpenServer_def c_def Let_def)
  obtain st1 b w1 where cr: "be_create bk (shared_name c) (TotalBytes c) (ensure_backend bk c) w = (st1, b, w1)"
    by (metis prod_cases3)
  note e = ensure_holds [OF c]
  note h = create_law [OF conjunct1 [OF e] cr]
  show ?thesis
  proof (cases "TotalBytes c = 0")
    case True
    with m c show ?thesis by (auto simp: MapAsServer_def)
  next
    case False
    then show ?thesis
      using m cr h c(2) e
      by (cases "status_ok st1") (auto simp: MapAsServer_def Let_def store_law chan_owns_def)
  qed
qed

lemma Close_chan_holds:
  assumes inv: "chan_owns holds mapped r0 ch (res w)" and step: "Close bk ch w = (st, ch', w')"
  shows "chan_owns holds mapped r0 ch' (res w') \<and> \<not> opened ch' \<and> res w' = r0"
proof (cases "backend ch")
  case None
  with assms show ?thesis by (auto simp: Close_def chan_owns_def)
next
  case (Some b)
  obtain b' w1 where cl: "be_close bk b w = (b', w1)" by fastforce
  have "holds r0 b (res w)" using inv Some by (simp add: chan_owns_def)
  note h = close_law [OF this cl]
  from step Some cl have "ch' = ch\<lparr>backend := Some b', local_outbox := [], header := False, opened := False\<rparr>" "w' = w1"
    by (auto simp: Close_def)
  with h show ?thesis by (auto simp: chan_owns_def)
qed

lemma OpenClient_holds:
  assumes inv: "chan_owns holds mapped r0 ch (res w)" and step: "OpenClient bk ch w o' = Some (st, ch', w')"
  shows "chan_owns holds mapped r0 ch' (res w')"
proof (cases "opened ch \<or> opt_name o' = []")
  case True
  with assms show ?thesis by (auto simp: OpenClient_def split: if_splits)
next
  case False
  define c where "c = ch\<lparr>options := o', shared_name := BuildSharedName (opt_name o'), local_outbox := [], local_pending_drop := 0\<rparr>"
  have c: "chan_owns holds mapped r0 c (res w)" "\<not> opened c"
    using inv False chan_owns_cong [of c ch holds mapped r0 "res w"] by (simp_all add: c_def)
  have m: "MapAsClient bk c w = Some (st, ch', w')"
    using step False by (simp add: OpenClient_def c_def)
  obtain st1 b w1 where op: "be_open bk (shared_name c) sizeof_SharedHeader (ensure_backend bk c) w = (st1, b, w1)"
    by (metis prod_cases3)
  note e = ensure_holds [OF c]
  note h = open_law [OF conjunct1 [OF e] op]
  show ?thesis
  proof (cases "status_ok st1")
    case False
    then show ?thesis
      using m op h c(2) e by (auto simp: MapAsClient_def Let_def chan_owns_def)
  next
    case True
    obtain b2 w2 where cl: "be_close bk b w1 = (b2, w2)" by fastforce
    note h2 = close_law [OF conjunct1 [OF h] cl]
    obtain reg where reg: "be_region bk b w1 = Some reg"
      using m op True by (cases "be_region bk b w1") (auto simp: MapAsClient_def)
    let ?total = "sizeof_SharedHeader + ucast (ring_bytes (hdr reg)) :: size_t"
    obtain st3 b3 w3 where op3: "be_open bk (shared_name c) ?total b2 w2 = (st3, b3, w3)" by (metis prod_cases3)
    note h3 = open_law [OF conjunct1 [OF h2] op3]
    show ?thesis
      using m op True reg cl op3 c(2) h2 h3
      by (auto simp: MapAsClient_def Let_def chan_owns_Some split: if_splits)
  qed
qed

lemma op_holds:
  "chan_owns holds mapped r0 ch (res w) \<Longrightarrow> do_chan_op bk op ch w = Some (ch', w') \<Longrightarrow> chan_owns holds mapped r0 ch' (res w')"
  by (cases op) (auto simp: Let_def split: prod.splits dest: OpenServer_holds OpenClient_holds Close_chan_holds)

lemma ops_hold:
  "chan_owns holds mapped r0 ch (res w) \<Longrightarrow> do_chan_ops bk ops ch w = Some (ch', w') \<Longrightarrow> chan_owns holds mapped r0 ch' (res w')"
  by (induction ops arbitrary: ch w) (auto split: option.splits dest: op_holds)

text \<open>Whatever was done to a new channel: it is closed and holds nothing, or open with its backend mapped.\<close>

lemma channel_resources:
  assumes run: "do_chan_ops bk ops SharedMemoryChannel w = Some (ch, w')"
  shows "if opened ch then \<exists>b. backend ch = Some b \<and> mapped b \<and> holds (res w) b (res w') else res w' = res w"
proof -
  from ops_hold [OF chan_owns_new run] have h: "chan_owns holds mapped (res w) ch (res w')" .
  then show ?thesis by (auto simp: chan_owns_def split: option.splits dest: idle_law)
qed

lemma channel_closed:
  assumes run: "do_chan_ops bk ops SharedMemoryChannel w = Some (ch, w')" and fin: "Close bk ch w' = (st, ch2, w2)"
  shows "\<not> opened ch2 \<and> res w2 = res w"
  using Close_chan_holds [OF ops_hold [OF chan_owns_new run] fin] by blast

lemma channel_deleted:
  assumes run: "do_chan_ops bk ops SharedMemoryChannel w = Some (ch, w')"
  shows "res (delete_SharedMemoryChannel bk ch w') = res w"
proof -
  obtain st ch2 w2 where fin: "Close bk ch w' = (st, ch2, w2)" by (metis prod_cases3)
  from Close_chan_holds [OF ops_hold [OF chan_owns_new run] fin]
  have h: "chan_owns holds mapped (res w) ch2 (res w2)" "res w2 = res w" by blast+
  show ?thesis
  proof (cases "backend ch2")
    case None
    then show ?thesis using h(2) by (simp add: delete_SharedMemoryChannel_def fin)
  next
    case (Some b)
    obtain b3 w3 where cl: "be_close bk b w2 = (b3, w3)" by fastforce
    have "holds (res w) b (res w2)" using h(1) Some by (simp add: chan_owns_def)
    from close_law [OF this cl] show ?thesis using Some cl by (simp add: delete_SharedMemoryChannel_def fin)
  qed
qed

end

end
