(* ===== verification/CK_Shm_Win32.thy ===== *)
theory CK_Shm_Win32
  imports CK_Shm_Backend
begin

text \<open>
  \<open>Win32ShmBackend\<close> (\<open>src/ipc/shm_backend_win32.cpp\<close>): the shared-memory backend of the channel on
  Windows. The calls of the Windows API are a parameter; the locale \<open>win32_kernel\<close> states what they do
  to the handles and views a process holds. The backend satisfies the contract of
  \<open>CK_Shm_Backend\<close>, so the channel on top of it leaks no handle and no view.
\<close>

section \<open>System calls\<close>

type_synonym DWORD = "32 word"

text \<open>
  A handle or an address that is not null is a \<open>Some\<close>. \<open>CreateFileMappingA\<close> also gives whether
  \<open>GetLastError\<close> returns \<open>ERROR_ALREADY_EXISTS\<close> after it. \<open>view_load\<close> and \<open>view_store\<close> access the
  memory of a view.
\<close>

record 'w win32_calls =
  CreateFileMappingA :: "string \<Rightarrow> DWORD \<Rightarrow> 'w \<Rightarrow> (u64 \<times> bool) option \<times> 'w"
  OpenFileMappingA :: "string \<Rightarrow> 'w \<Rightarrow> u64 option \<times> 'w"
  MapViewOfFile :: "u64 \<Rightarrow> size_t \<Rightarrow> 'w \<Rightarrow> u64 option \<times> 'w"
  UnmapViewOfFile :: "u64 \<Rightarrow> 'w \<Rightarrow> 'w"
  CloseHandle :: "u64 \<Rightarrow> 'w \<Rightarrow> 'w"
  view_load :: "u64 \<Rightarrow> 'w \<Rightarrow> Region option"
  view_store :: "u64 \<Rightarrow> Region \<Rightarrow> 'w \<Rightarrow> 'w"

section \<open>The backend\<close>

record Win32ShmBackend =
  win_handle :: "u64 option"
  win_view :: "u64 option"
  win_size :: size_t

definition new_Win32ShmBackend :: Win32ShmBackend where
  "new_Win32ShmBackend = \<lparr>win_handle = None, win_view = None, win_size = 0\<rparr>"

definition win_Create ::
  "'w win32_calls \<Rightarrow> string \<Rightarrow> size_t \<Rightarrow> Win32ShmBackend \<Rightarrow> 'w \<Rightarrow> Status \<times> Win32ShmBackend \<times> 'w"
where
  "win_Create k name sz b w =
     (if win_view b \<noteq> None then (mkStatus kAlreadyInitialized ''already mapped'', b, w)
      else if sz = 0 \<or> sz > 0xFFFFFFFF then (mkStatus kInvalidArgument ''invalid size'', b, w)
      else let bytes = ucast sz :: DWORD in
      case CreateFileMappingA k name bytes w of
        (None, w1) \<Rightarrow> (mkStatus kIoError ''CreateFileMapping failed'', b, w1)
      | (Some (mapping, already_exists), w1) \<Rightarrow>
          if already_exists
          then (mkStatus kAlreadyInitialized ''shared memory already exists'', b, CloseHandle k mapping w1)
          else (case MapViewOfFile k mapping (ucast bytes) w1 of
                  (None, w2) \<Rightarrow> (mkStatus kIoError ''MapViewOfFile failed'', b, CloseHandle k mapping w2)
                | (Some view, w2) \<Rightarrow>
                    (Status_Ok, \<lparr>win_handle = Some mapping, win_view = Some view, win_size = sz\<rparr>, w2)))"

definition win_Open ::
  "'w win32_calls \<Rightarrow> string \<Rightarrow> size_t \<Rightarrow> Win32ShmBackend \<Rightarrow> 'w \<Rightarrow> Status \<times> Win32ShmBackend \<times> 'w"
where
  "win_Open k name min_size b w =
     (if win_view b \<noteq> None then (mkStatus kAlreadyInitialized ''already mapped'', b, w)
      else
      case OpenFileMappingA k name w of
        (None, w1) \<Rightarrow> (mkStatus kNotFound ''OpenFileMapping failed, server not ready'', b, w1)
      | (Some mapping, w1) \<Rightarrow>
          (let map_size = (if min_size > 0 then min_size else 0) in
           case MapViewOfFile k mapping map_size w1 of
             (None, w2) \<Rightarrow> (mkStatus kIoError ''MapViewOfFile failed'', b, CloseHandle k mapping w2)
           | (Some view, w2) \<Rightarrow>
               (Status_Ok, \<lparr>win_handle = Some mapping, win_view = Some view, win_size = map_size\<rparr>, w2)))"

definition win_MappedSize :: "Win32ShmBackend \<Rightarrow> size_t" where
  "win_MappedSize b = win_size b"

definition win_IsOpen :: "Win32ShmBackend \<Rightarrow> bool" where
  "win_IsOpen b \<longleftrightarrow> win_view b \<noteq> None"

definition win_Close :: "'w win32_calls \<Rightarrow> Win32ShmBackend \<Rightarrow> 'w \<Rightarrow> Win32ShmBackend \<times> 'w" where
  "win_Close k b w =
     (let w1 = (case win_view b of Some v \<Rightarrow> UnmapViewOfFile k v w | None \<Rightarrow> w);
          w2 = (case win_handle b of Some h \<Rightarrow> CloseHandle k h w1 | None \<Rightarrow> w1)
      in (\<lparr>win_handle = None, win_view = None, win_size = 0\<rparr>, w2))"

text \<open>
  \<open>BuildSharedName\<close> of the Windows build. The model of the channel builds the name for POSIX; the
  virtual table puts the Windows prefix in place of the POSIX one.
\<close>

definition BuildSharedName_win :: "string \<Rightarrow> string" where
  "BuildSharedName_win nm = ''Local'' @ [CHR 0x5C] @ ''corekit.'' @ nm"

definition win_name :: "string \<Rightarrow> string" where
  "win_name shared = BuildSharedName_win (drop (length (BuildSharedName [])) shared)"

lemma win_name_shared: "win_name (BuildSharedName nm) = BuildSharedName_win nm"
  by (simp add: win_name_def BuildSharedName_def)

text \<open>The virtual table the channel uses.\<close>

definition win32_backend :: "'w win32_calls \<Rightarrow> (Win32ShmBackend, 'w) IShmBackend" where
  "win32_backend k =
     \<lparr>be_new = new_Win32ShmBackend, be_create = win_Create k \<circ> win_name,
      be_open = win_Open k \<circ> win_name, be_close = win_Close k,
      be_region = (\<lambda>b w. case win_view b of None \<Rightarrow> None | Some a \<Rightarrow> view_load k a w),
      be_store = (\<lambda>b reg w. case win_view b of None \<Rightarrow> w | Some a \<Rightarrow> view_store k a reg w)\<rparr>"

section \<open>The contract of the system calls\<close>

record win_resources =
  held_handles :: "u64 set"
  held_views :: "u64 set"

text \<open>
  A call that fails takes nothing. \<open>CreateFileMappingA\<close> on an existing name gives a handle to the
  existing object, so it takes a handle in both cases.
\<close>

locale win32_kernel =
  fixes k :: "'w win32_calls" and res :: "'w \<Rightarrow> win_resources"
  assumes create_mapping: "CreateFileMappingA k name bytes w = (r, w') \<Longrightarrow>
      (case r of Some (h, ex) \<Rightarrow> h \<notin> held_handles (res w) \<and>
           res w' = (res w)\<lparr>held_handles := insert h (held_handles (res w))\<rparr>
       | None \<Rightarrow> res w' = res w)"
    and open_mapping: "OpenFileMappingA k name w = (r2, w') \<Longrightarrow>
      (case r2 of Some h \<Rightarrow> h \<notin> held_handles (res w) \<and>
           res w' = (res w)\<lparr>held_handles := insert h (held_handles (res w))\<rparr>
       | None \<Rightarrow> res w' = res w)"
    and map_view: "MapViewOfFile k h sz w = (m, w') \<Longrightarrow>
      (case m of Some a \<Rightarrow> a \<notin> held_views (res w) \<and> res w' = (res w)\<lparr>held_views := insert a (held_views (res w))\<rparr>
       | None \<Rightarrow> res w' = res w)"
    and unmap_view: "res (UnmapViewOfFile k a w) = (res w)\<lparr>held_views := held_views (res w) - {a}\<rparr>"
    and close_handle: "res (CloseHandle k h w) = (res w)\<lparr>held_handles := held_handles (res w) - {h}\<rparr>"
    and store: "res (view_store k a reg w) = res w"

text \<open>The backend holds exactly the handle and the view its fields record, or nothing.\<close>

definition win_holds :: "win_resources \<Rightarrow> Win32ShmBackend \<Rightarrow> win_resources \<Rightarrow> bool" where
  "win_holds r0 b r \<longleftrightarrow>
     (case (win_handle b, win_view b) of
        (None, None) \<Rightarrow> r = r0
      | (Some h, Some v) \<Rightarrow> h \<notin> held_handles r0 \<and> v \<notin> held_views r0 \<and>
          r = \<lparr>held_handles = insert h (held_handles r0), held_views = insert v (held_views r0)\<rparr>
      | _ \<Rightarrow> False)"

lemma win_holds_unmapped: "win_holds r0 b r \<Longrightarrow> win_view b = None \<Longrightarrow> win_handle b = None \<and> r = r0"
  by (simp add: win_holds_def split: option.splits)

lemma win_be_calls:
  "be_new (win32_backend k) = new_Win32ShmBackend"
  "be_create (win32_backend k) = win_Create k \<circ> win_name" "be_open (win32_backend k) = win_Open k \<circ> win_name"
  "be_close (win32_backend k) = win_Close k"
  by (simp_all add: win32_backend_def)

context win32_kernel
begin

text \<open>The mapping of a fresh handle, with the handle closed again when it fails, as both operations do it.\<close>

lemma map_fresh:
  assumes h: "h \<notin> held_handles (res w)" "res w1 = (res w)\<lparr>held_handles := insert h (held_handles (res w))\<rparr>"
    and m: "MapViewOfFile k h sz w1 = (v, w2)"
  shows "case v of None \<Rightarrow> res (CloseHandle k h w2) = res w
     | Some a \<Rightarrow> win_holds (res w) \<lparr>win_handle = Some h, win_view = Some a, win_size = sz'\<rparr> (res w2)"
  using map_view [OF m] h by (auto simp: close_handle win_holds_def split: option.splits)

lemma win_Create_holds:
  assumes "win_holds r0 b (res w)" "win_Create k name sz b w = (st, b', w')"
  shows "win_holds r0 b' (res w') \<and> (if status_ok st then win_IsOpen b' else b' = b \<and> res w' = res w)"
proof (cases "win_view b \<noteq> None \<or> sz = 0 \<or> sz > 0xFFFFFFFF")
  case True
  with assms show ?thesis by (auto simp: win_Create_def split: if_splits)
next
  case False
  have r: "res w = r0" using win_holds_unmapped [OF assms(1)] False by simp
  let ?bytes = "ucast sz :: DWORD"
  obtain o1 w1 where o: "CreateFileMappingA k name ?bytes w = (o1, w1)" by fastforce
  show ?thesis
  proof (cases o1)
    case None
    then show ?thesis using assms False o create_mapping [OF o] by (auto simp: win_Create_def Let_def)
  next
    case (Some hx)
    obtain h ex where hx: "hx = (h, ex)" by fastforce
    have c1: "h \<notin> held_handles (res w)" "res w1 = (res w)\<lparr>held_handles := insert h (held_handles (res w))\<rparr>"
      using create_mapping [OF o] by (simp_all add: Some hx)
    obtain v w2 where m: "MapViewOfFile k h (ucast ?bytes) w1 = (v, w2)" by fastforce
    have undo: "res (CloseHandle k h w1) = res w" using c1 by (simp add: close_handle)
    show ?thesis
      using assms False o Some hx m undo map_fresh [OF c1 m, of sz] r
      by (cases ex; cases v) (auto simp: win_Create_def win_IsOpen_def Let_def)
  qed
qed

lemma win_Open_holds:
  assumes "win_holds r0 b (res w)" "win_Open k name sz b w = (st, b', w')"
  shows "win_holds r0 b' (res w') \<and> (if status_ok st then win_IsOpen b' else b' = b \<and> res w' = res w)"
proof (cases "win_view b")
  case (Some a)
  with assms show ?thesis by (auto simp: win_Open_def)
next
  case None
  have r: "res w = r0" using win_holds_unmapped [OF assms(1) None] by simp
  obtain o1 w1 where o: "OpenFileMappingA k name w = (o1, w1)" by fastforce
  show ?thesis
  proof (cases o1)
    case None
    then show ?thesis using assms o open_mapping [OF o] \<open>win_view b = None\<close> by (auto simp: win_Open_def)
  next
    case (Some h)
    have c1: "h \<notin> held_handles (res w)" "res w1 = (res w)\<lparr>held_handles := insert h (held_handles (res w))\<rparr>"
      using open_mapping [OF o] by (simp_all add: Some)
    obtain v w2 where m: "MapViewOfFile k h (if sz > 0 then sz else 0) w1 = (v, w2)" by fastforce
    show ?thesis
      using assms o Some m map_fresh [OF c1 m, of "if sz > 0 then sz else 0"] r None
      by (cases v) (auto simp: win_Open_def win_IsOpen_def Let_def)
  qed
qed

lemma win_Close_holds:
  assumes "win_holds r0 b (res w)" "win_Close k b w = (b', w')"
  shows "win_holds r0 b' (res w') \<and> \<not> win_IsOpen b' \<and> res w' = r0"
  using assms
  by (cases "win_view b"; cases "win_handle b")
    (auto simp: win_Close_def win_holds_def win_IsOpen_def unmap_view close_handle Let_def)

end

sublocale win32_kernel \<subseteq> wx: leak_free_backend "win32_backend k" res win_holds win_IsOpen
proof unfold_locales
  fix r r0 b w name sz st b' w' reg
  show "win_holds r (be_new (win32_backend k)) r" by (simp add: win_be_calls win_holds_def new_Win32ShmBackend_def)
  show "\<not> win_IsOpen (be_new (win32_backend k))" by (simp add: win_be_calls new_Win32ShmBackend_def win_IsOpen_def)
  show "r = r0" if "win_holds r0 b r" "\<not> win_IsOpen b" using win_holds_unmapped that by (simp add: win_IsOpen_def)
  show "win_holds r0 b' (res w') \<and> (if status_ok st then win_IsOpen b' else b' = b \<and> res w' = res w)"
    if "win_holds r0 b (res w)" "be_create (win32_backend k) name sz b w = (st, b', w')"
    by (rule win_Create_holds [OF that(1) that(2) [unfolded win_be_calls comp_apply]])
  show "win_holds r0 b' (res w') \<and> (if status_ok st then win_IsOpen b' else b' = b \<and> res w' = res w)"
    if "win_holds r0 b (res w)" "be_open (win32_backend k) name sz b w = (st, b', w')"
    by (rule win_Open_holds [OF that(1) that(2) [unfolded win_be_calls comp_apply]])
  show "win_holds r0 b' (res w') \<and> \<not> win_IsOpen b' \<and> res w' = r0"
    if "win_holds r0 b (res w)" "be_close (win32_backend k) b w = (b', w')"
    by (rule win_Close_holds [OF that(1) that(2) [unfolded win_be_calls comp_apply]])
  show "res (be_store (win32_backend k) b reg w) = res w"
    by (simp add: win32_backend_def store split: option.split)
qed

context win32_kernel
begin

lemmas win32_resources = wx.channel_resources
lemmas win32_closed = wx.channel_closed
lemmas win32_deleted = wx.channel_deleted

end

section \<open>Properties\<close>

text \<open>
  Over calls that behave as the Windows API documents, run any sequence of \<open>OpenServer\<close>,
  \<open>OpenClient\<close> and \<open>Close\<close> on a channel, whichever calls fail in them. While the channel is not open,
  the process holds exactly the handles and views it held before the channel existed; while it is open it
  holds one handle and one view more; and \<open>Close\<close> gives both back.
\<close>

theorem win32_channel_no_leak:
  assumes k: "win32_kernel k res" and run: "do_chan_ops (win32_backend k) ops SharedMemoryChannel w = Some (ch, w')"
    and fin: "Close (win32_backend k) ch w' = (st, ch2, w2)"
  shows "(if opened ch
     then \<exists>b h v. backend ch = Some b \<and> win_handle b = Some h \<and> win_view b = Some v \<and>
       h \<notin> held_handles (res w) \<and> v \<notin> held_views (res w) \<and>
       res w' = \<lparr>held_handles = insert h (held_handles (res w)), held_views = insert v (held_views (res w))\<rparr>
     else res w' = res w) \<and>
    \<not> opened ch2 \<and> res w2 = res w"
  using win32_kernel.win32_resources [OF k run] win32_kernel.win32_closed [OF k run fin]
  by (cases "opened ch") (auto simp: win_holds_def win_IsOpen_def split: option.splits)

text \<open>
  \<open>shm_backend.hpp\<close> documents \<open>MappedSize\<close> as the size of the mapped region. \<open>Open\<close> with
  \<open>min_size = 0\<close> maps the whole object (\<open>MapViewOfFile\<close> with length 0) and reports the size 0.
\<close>

theorem win_Open_whole_reports_zero:
  assumes "win_Open k name 0 b w = (st, b', w')" and "status_ok st"
  shows "win_IsOpen b' \<and> win_MappedSize b' = 0"
  using assms
  by (auto simp: win_Open_def win_IsOpen_def win_MappedSize_def Let_def status_ok_def mkStatus_def
      split: if_splits option.splits prod.splits)

section \<open>An instance\<close>

text \<open>A process that numbers its handles and views; mapping the view of an object \<open>full\<close> fails.\<close>

record win_sim =
  ws_res :: win_resources
  ws_next :: u64
  ws_names :: "string list"
  ws_mem :: "u64 \<Rightarrow> Region option"

definition ws_take_handle :: "win_sim \<Rightarrow> u64 option \<times> win_sim" where
  "ws_take_handle w =
     (if ws_next w \<in> held_handles (ws_res w) then (None, w)
      else (Some (ws_next w), w\<lparr>ws_res := (ws_res w)\<lparr>held_handles := insert (ws_next w) (held_handles (ws_res w))\<rparr>,
              ws_next := ws_next w + 1\<rparr>))"

definition win_sim_calls :: "win_sim win32_calls" where
  "win_sim_calls =
     \<lparr>CreateFileMappingA = (\<lambda>name bytes w.
         case ws_take_handle w of
           (None, w1) \<Rightarrow> (None, w1)
         | (Some h, w1) \<Rightarrow> (Some (h, name \<in> set (ws_names w)), w1\<lparr>ws_names := name # ws_names w1\<rparr>)),
      OpenFileMappingA = (\<lambda>name w. if name \<in> set (ws_names w) then ws_take_handle w else (None, w)),
      MapViewOfFile = (\<lambda>h sz w.
         if ws_next w \<in> held_views (ws_res w) \<or> ws_names w \<noteq> [] \<and> hd (ws_names w) = BuildSharedName_win ''full'' then (None, w)
         else (Some (ws_next w), w\<lparr>ws_res := (ws_res w)\<lparr>held_views := insert (ws_next w) (held_views (ws_res w))\<rparr>,
                 ws_next := ws_next w + 1\<rparr>)),
      UnmapViewOfFile = (\<lambda>a w. w\<lparr>ws_res := (ws_res w)\<lparr>held_views := held_views (ws_res w) - {a}\<rparr>\<rparr>),
      CloseHandle = (\<lambda>h w. w\<lparr>ws_res := (ws_res w)\<lparr>held_handles := held_handles (ws_res w) - {h}\<rparr>\<rparr>),
      view_load = (\<lambda>a w. ws_mem w a),
      view_store = (\<lambda>a reg w. w\<lparr>ws_mem := (ws_mem w)(a \<mapsto> reg)\<rparr>)\<rparr>"

interpretation wsim: win32_kernel win_sim_calls ws_res
  by unfold_locales (auto simp: win_sim_calls_def ws_take_handle_def split: if_splits option.splits prod.splits)

definition win_sim_start :: win_sim where
  "win_sim_start = \<lparr>ws_res = \<lparr>held_handles = {4, 8}, held_views = {}\<rparr>, ws_next = 100, ws_names = [], ws_mem = Map.empty\<rparr>"

lemma win32_channel_no_leak_witness:
  "\<exists>ch w. do_chan_ops (win32_backend win_sim_calls) [Do_Server (default_options\<lparr>opt_name := ''full''\<rparr>), Do_Close, Do_Server default_options]
       SharedMemoryChannel win_sim_start = Some (ch, w) \<and>
     ws_res (snd (snd (Close (win32_backend win_sim_calls) ch w))) = \<lparr>held_handles = {4, 8}, held_views = {}\<rparr>"
proof -
  let ?ops = "[Do_Server (default_options\<lparr>opt_name := ''full''\<rparr>), Do_Close, Do_Server default_options]"
  obtain ch w where run: "do_chan_ops (win32_backend win_sim_calls) ?ops SharedMemoryChannel win_sim_start = Some (ch, w)"
    using server_ops_total [of ?ops] by fastforce
  obtain st ch2 w2 where c: "Close (win32_backend win_sim_calls) ch w = (st, ch2, w2)" by (metis prod_cases3)
  from win32_channel_no_leak [OF wsim.win32_kernel_axioms run c] c
  have "ws_res (snd (snd (Close (win32_backend win_sim_calls) ch w))) = \<lparr>held_handles = {4, 8}, held_views = {}\<rparr>"
    by (simp add: win_sim_start_def)
  with run show ?thesis by blast
qed

lemma win_Open_whole_reports_zero_witness:
  "win_MappedSize (fst (snd (win_Open win_sim_calls ''x'' 0 new_Win32ShmBackend (win_sim_start\<lparr>ws_names := [''x'']\<rparr>)))) = 0"
proof -
  obtain st b w where o: "win_Open win_sim_calls ''x'' 0 new_Win32ShmBackend (win_sim_start\<lparr>ws_names := [''x'']\<rparr>) = (st, b, w)"
    by (metis prod_cases3)
  then have "status_ok st"
    by (auto simp: win_Open_def win_sim_calls_def win_sim_start_def ws_take_handle_def new_Win32ShmBackend_def BuildSharedName_win_def
        split: if_splits)
  with win_Open_whole_reports_zero [OF o] o show ?thesis by simp
qed

end
