(* ===== verification/CK_Executor_Timeout.thy ===== *)
theory CK_Executor_Timeout
  imports CK_Executor_Client
begin

text \<open>
  \<open>Wait\<close> and \<open>WaitBatch\<close> of \<open>src/task/thread_pool_executor.cpp\<close> with their timeouts. A client has a
  clock, in nanoseconds like \<open>std::chrono::steady_clock\<close>; \<open>dl t\<close> is the time that passes at tick
  \<open>t\<close> of the schedule. The lemmas show that a timed wait always returns, that it does not give up
  before its time, and that what it reports is true of the pool it leaves.
\<close>

section \<open>Time\<close>

text \<open>Tick, clock and pool.\<close>

type_synonym 's tclient = "nat \<times> nat \<times> 's pool"

definition ns_per_ms :: nat where
  "ns_per_ms = 1000000"

fun timed_moves :: "schedule \<Rightarrow> (nat \<Rightarrow> nat) \<Rightarrow> nat \<Rightarrow> 's tclient \<Rightarrow> 's tclient" where
  "timed_moves sc dl 0 (t, now, p) = (t, now, p)"
| "timed_moves sc dl (Suc n) (t, now, p) =
     (case next_move sc t p of None \<Rightarrow> (t, now, p) | Some q \<Rightarrow> timed_moves sc dl n (Suc t, now + dl t, q))"

text \<open>The client is not running: time passes, and the workers make some steps.\<close>

definition pause :: "schedule \<Rightarrow> (nat \<Rightarrow> nat) \<Rightarrow> 's tclient \<Rightarrow> 's tclient" where
  "pause sc dl c = (case c of (t, now, p) \<Rightarrow> timed_moves sc dl (burst sc t) (Suc t, now + dl t, p))"

section \<open>Waiting\<close>

text \<open>
  \<open>state->done\<close> of the state a waiting client holds. The client keeps the state alive when the table
  drops it; the table drops only states that are done (\<open>dropped_only_done\<close>).
\<close>

definition held_done :: "TaskId \<Rightarrow> 's Executor \<Rightarrow> bool" where
  "held_done i e \<longleftrightarrow> (case get_state e i of None \<Rightarrow> True | Some st \<Rightarrow> ts_done st)"

definition in_time :: "nat option \<Rightarrow> nat \<Rightarrow> bool" where
  "in_time dead x \<longleftrightarrow> (case dead of None \<Rightarrow> True | Some d \<Rightarrow> x \<le> d)"

text \<open>
  \<open>std::condition_variable::wait\<close> and \<open>wait_for\<close> with a predicate. When the deadline passes, the
  client locks the mutex again, which may take time, and returns what the predicate says then. \<open>None\<close>
  means that the client is blocked for ever.
\<close>

function cv_wait ::
  "schedule \<Rightarrow> (nat \<Rightarrow> nat) \<Rightarrow> TaskId \<Rightarrow> nat option \<Rightarrow> nat \<Rightarrow> nat \<Rightarrow> 's pool \<Rightarrow> (bool \<times> 's tclient) option"
where
  "cv_wait sc dl i dead t now p =
     (if held_done i (px p) then Some (True, t, now, p)
      else case (if in_time dead (now + dl t) then next_move sc t p else None) of
        Some q \<Rightarrow> cv_wait sc dl i dead (Suc t) (now + dl t) q
      | None \<Rightarrow>
          (case dead of
             None \<Rightarrow> None
           | Some d \<Rightarrow>
               (let (t', now', p') = timed_moves sc dl (burst sc t) (Suc t, d, p)
                in Some (held_done i (px p'), t', now', p'))))"
  by pat_completeness auto
termination
  by (relation "measure (\<lambda>(sc, dl, i, dead, t, now, p). work_left p)")
    (auto dest: next_move_step worker_step_decreases split: if_splits)

declare cv_wait.simps [simp del]

definition timed_Wait ::
  "schedule \<Rightarrow> (nat \<Rightarrow> nat) \<Rightarrow> TaskId \<Rightarrow> u32 \<Rightarrow> 's tclient \<Rightarrow> (Status \<times> 's tclient) option"
where
  "timed_Wait sc dl i timeout_ms c =
     (case get_state (px (snd (snd c))) i of
        None \<Rightarrow> Some (task_status kNotFound ''task id not found'', c)
      | Some state \<Rightarrow>
          (let (t, now, p) = pause sc dl c;
               dead = (if timeout_ms = 0 then None else Some (now + unat timeout_ms * ns_per_ms))
           in case cv_wait sc dl i dead t now p of
                None \<Rightarrow> None
              | Some (finished, c') \<Rightarrow>
                  Some (if finished then Status_Ok else task_status kWouldBlock ''wait timeout'', c')))"

text \<open>\<open>duration_cast\<close> rounds the elapsed time down to milliseconds.\<close>

fun WaitBatch_loop ::
  "schedule \<Rightarrow> (nat \<Rightarrow> nat) \<Rightarrow> nat \<Rightarrow> u32 \<Rightarrow> TaskId list \<Rightarrow> 's tclient \<Rightarrow> (Status \<times> 's tclient) option"
where
  "WaitBatch_loop sc dl start timeout_ms [] c = Some (Status_Ok, c)"
| "WaitBatch_loop sc dl start timeout_ms (i # is) c =
     (let c1 = pause sc dl c; elapsed = (fst (snd c1) - start) div ns_per_ms
      in if timeout_ms \<noteq> 0 \<and> elapsed \<ge> unat timeout_ms
         then Some (task_status kWouldBlock ''wait batch timeout'', c1)
         else
           let remain = (if timeout_ms = 0 then timeout_ms else timeout_ms - of_nat elapsed)
           in case timed_Wait sc dl i remain c1 of
                None \<Rightarrow> None
              | Some (st, c2) \<Rightarrow> if \<not> status_ok st then Some (st, c2) else WaitBatch_loop sc dl start timeout_ms is c2)"

text \<open>\<open>ids = None\<close> is the null pointer; reading past the end of the array is undefined.\<close>

definition timed_WaitBatch ::
  "schedule \<Rightarrow> (nat \<Rightarrow> nat) \<Rightarrow> TaskId list option \<Rightarrow> size_t \<Rightarrow> u32 \<Rightarrow> 's tclient \<Rightarrow> (Status \<times> 's tclient) option"
where
  "timed_WaitBatch sc dl ids n timeout_ms c =
     (case ids of
        None \<Rightarrow>
          if n > 0 then Some (task_status kInvalidArgument ''ids is null'', c) else Some (Status_Ok, c)
      | Some arr \<Rightarrow>
          if length arr < unat n then None
          else WaitBatch_loop sc dl (fst (snd c)) timeout_ms (take (unat n) arr) c)"

section \<open>What a step of a worker keeps\<close>

text \<open>The invariant of a reachable pool with room for the steps its workers still make.\<close>

definition drainable :: "'s pool \<Rightarrow> bool" where
  "drainable p \<longleftrightarrow> (\<exists>n. pool_inv n p \<and> n + work_left p + 2 < 2 ^ 64) \<and> pworkers p \<noteq> []"

definition live :: "TaskId \<Rightarrow> 's pool \<Rightarrow> bool" where
  "live i p \<longleftrightarrow> (\<exists>t\<in>set (tasks (px p)). i \<in> set (job_ids (te_fn t))) \<or> (\<exists>w\<in>set (pworkers p). i \<in> set (wait_ids w @ run_ids w))"

lemma live_iff: "live i p \<longleftrightarrow> i \<in># queued (px p) + picked (pworkers p) + running (pworkers p)"
  unfolding live_def queued_def picked_def running_def by auto

lemma worker_live: "k < length (pworkers p) \<Longrightarrow> i \<in> set (wait_ids (pworkers p ! k) @ run_ids (pworkers p ! k)) \<Longrightarrow> live i p"
  unfolding live_def using nth_mem by blast

lemma drainable_table:
  assumes "drainable p"
  obtains n where "table_inv n (px p) (queued (px p) + picked (pworkers p)) (running (pworkers p))"
  using assms unfolding drainable_def pool_inv_def by blast

lemma held_done_iff: "drainable p \<Longrightarrow> held_done i (px p) \<longleftrightarrow> \<not> live i p"
proof -
  assume "drainable p"
  then obtain n where tab: "table_inv n (px p) (queued (px p) + picked (pworkers p)) (running (pworkers p))"
    by (rule drainable_table)
  show ?thesis
  proof (cases "get_state (px p) i")
    case None
    then have "i \<notin># queued (px p) + picked (pworkers p) + running (pworkers p)" using table_live_known [OF tab] by blast
    then show ?thesis using None by (simp add: held_done_def live_iff)
  next
    case (Some st)
    then show ?thesis using table_done_iff [OF tab Some] by (simp add: held_done_def live_iff)
  qed
qed

lemma drainable_reach:
  assumes "exec_steps (new_pool hw opts s) n p" and "n + work_left p + 2 < 2 ^ 64"
  shows "drainable p"
  using pool_inv_reach [OF assms(1)] exec_steps_workers_length [OF assms(1)] new_pool_workers [of hw opts s] assms(2)
  unfolding drainable_def by auto

lemma drainable_step:
  assumes d: "drainable p" and s: "worker_step p q"
  shows "drainable q"
proof -
  obtain n where n: "pool_inv n p" "n + work_left p + 2 < 2 ^ 64" and w: "pworkers p \<noteq> []" using d by (auto simp: drainable_def)
  have e: "exec_step p q" using s by (simp add: worker_step_def)
  have "pool_inv (Suc n) q" by (rule pool_inv_step [OF e n(1)]) (use n(2) in linarith)
  moreover have "Suc n + work_left q + 2 < 2 ^ 64" using worker_step_decreases [OF s] n(2) by linarith
  moreover have "pworkers q \<noteq> []" using exec_step_workers_length [OF e] w by auto
  ultimately show ?thesis unfolding drainable_def by blast
qed

lemma live_progress:
  assumes d: "drainable p" and l: "\<not> held_done i (px p)"
  shows "next_move sc t p \<noteq> None"
proof -
  obtain n where n: "pool_inv n p" and w: "pworkers p \<noteq> []" using d by (auto simp: drainable_def)
  have lv: "live i p" using held_done_iff [OF d] l by blast
  have "\<not> all_idle (px p)"
  proof
    assume "all_idle (px p)"
    moreover have "counts_ok p" using n by (simp add: pool_inv_def)
    ultimately show False using lv idle_nothing_live [of p] by (simp add: live_iff)
  qed
  then obtain r where "worker_step p r" using worker_progress [OF n w] by blast
  then show ?thesis by (rule next_move_progress)
qed

section \<open>The table while a client waits\<close>

text \<open>How one entry of the table may change in a step of a worker: none appears, a task that is not done
  keeps its entry with the mark of a cancellation, and an entry that is done stays done or is dropped.\<close>

definition entry_evolves :: "TaskState option \<Rightarrow> TaskState option \<Rightarrow> bool" where
  "entry_evolves x y \<longleftrightarrow>
     (case x of
        None \<Rightarrow> y = None
      | Some st \<Rightarrow>
          if ts_done st then (case y of None \<Rightarrow> True | Some st' \<Rightarrow> ts_done st')
          else (case y of None \<Rightarrow> False | Some st' \<Rightarrow> canceled st' = canceled st))"

definition flags :: "TaskState option \<Rightarrow> (bool \<times> bool) option" where
  "flags = map_option (\<lambda>st. (ts_done st, canceled st))"

lemma entry_evolves_refl [simp]: "entry_evolves x x"
  by (simp add: entry_evolves_def split: option.split)

lemma entry_evolves_cong: "flags x = flags x' \<Longrightarrow> entry_evolves x y = entry_evolves x' y"
  by (auto simp: entry_evolves_def flags_def split: option.splits)

lemma mark_done_evolves:
  assumes st: "get_state e i = Some st" "\<not> ts_done st" and ni: "i \<notin> set (done_ids e)"
    and mx: "max_retained_states e = 65536" "length (done_ids e) \<le> 65536"
  shows "entry_evolves (get_state e j) (get_state (MarkTaskDone i ex fl e) j)"
proof -
  have "\<not> expired (done_ids e) i" using ni expired_mem [of "done_ids e" i] by blast
  then show ?thesis
    unfolding MarkTaskDone_fields(5) [OF st(1) mx] using st
    by (cases "j = i"; cases "get_state e j") (auto simp: entry_evolves_def)
qed

lemma task_begin_keeps:
  assumes "task_begin i e = (c, e')"
  shows "flags (get_state e' j) = flags (get_state e j)" and "done_ids e' = done_ids e"
    and "max_retained_states e' = max_retained_states e"
  using assms by (auto simp: task_begin_def flags_def split: option.splits)

text \<open>Marking a live task, as a worker does after running it or on finding it cancelled.\<close>

lemma mark_live_evolves:
  assumes tab: "table_inv n e W R" and i: "i \<in># W + R"
    and e': "\<And>j. flags (get_state e' j) = flags (get_state e j)" "done_ids e' = done_ids e"
      "max_retained_states e' = max_retained_states e"
  shows "entry_evolves (get_state e j) (get_state (MarkTaskDone i ex fl e') j)"
proof -
  obtain st where st: "get_state e i = Some st" using table_live_known [OF tab i] by blast
  have nd: "\<not> ts_done st" using table_done_iff [OF tab st] i by simp
  obtain st' where st': "get_state e' i = Some st'" "\<not> ts_done st'" using e'(1) [of i] st nd by (auto simp: flags_def)
  have "i \<notin> set (done_ids e')" using tab st nd unfolding table_inv_def e'(2) by auto
  moreover have "max_retained_states e' = 65536" "length (done_ids e') \<le> 65536" using tab unfolding table_inv_def e' by blast+
  ultimately have "entry_evolves (get_state e' j) (get_state (MarkTaskDone i ex fl e') j)" by (rule mark_done_evolves [OF st'])
  then show ?thesis using entry_evolves_cong [OF e'(1)] by blast
qed

lemma worker_step_evolves:
  assumes d: "drainable p" and s: "worker_step p q"
  shows "entry_evolves (get_state (px p) j) (get_state (px q) j)"
proof -
  have st: "exec_step p q" and ne: "pworkers q \<noteq> pworkers p" using s by (auto simp: worker_step_def)
  obtain n where tab: "table_inv n (px p) (queued (px p) + picked (pworkers p)) (running (pworkers p))"
    using d by (rule drainable_table)
  from st show ?thesis
  proof cases
    case (work_pick k j' e)
    then obtain l where "e = (px p)\<lparr>tasks := l, active_workers := active_workers (px p) + 1\<rparr>"
      using worker_pick_effect by blast
    then show ?thesis using work_pick by (simp add: get_state_def)
  next
    case (work_plain k f s' threw)
    then show ?thesis by (auto simp: plain_done_def get_state_def)
  next
    case (work_begin k i f key e)
    then show ?thesis using entry_evolves_cong [OF task_begin_keeps(1) [OF work_begin(5)], of j "get_state e j"] by simp
  next
    case (work_skip k i f key e)
    then have "live i p" by (intro worker_live [of k]) simp_all
    then have "i \<in># (queued (px p) + picked (pworkers p)) + running (pworkers p)" by (simp add: live_iff)
    from mark_live_evolves [OF tab this task_begin_keeps [OF work_skip(5)]] show ?thesis by (simp add: work_skip(1))
  next
    case (work_end k i f key s' threw)
    then have "live i p" by (intro worker_live [of k]) simp_all
    then have "i \<in># (queued (px p) + picked (pworkers p)) + running (pworkers p)" by (simp add: live_iff)
    from mark_live_evolves [OF tab this refl refl refl] show ?thesis by (simp add: work_end(1))
  next
    case (work_finish k)
    then show ?thesis by (auto simp: worker_finish_def get_state_def Let_def)
  next
    case (work_exit k)
    then show ?thesis by simp
  qed (use ne in simp_all)
qed

lemma dropped_only_done:
  assumes "drainable p" and "worker_step p q" and "get_state (px p) i = Some st" and "get_state (px q) i = None"
  shows "ts_done st"
  using worker_step_evolves [OF assms(1,2), of i] assms(3,4) by (auto simp: entry_evolves_def split: if_splits)

lemma held_done_step: "drainable p \<Longrightarrow> worker_step p q \<Longrightarrow> held_done i (px p) \<Longrightarrow> held_done i (px q)"
  using worker_step_evolves [of p q i] by (auto simp: entry_evolves_def held_done_def split: option.splits if_splits)

text \<open>Any number of steps.\<close>

lemma workers_keep:
  assumes "worker_step\<^sup>*\<^sup>* p q" and "drainable p"
  shows "drainable q \<and> (held_done i (px p) \<longrightarrow> held_done i (px q))"
  using assms by (induction rule: rtranclp_induct) (auto intro: drainable_step held_done_step)

lemma timed_moves_run: "timed_moves sc dl n (t, now, p) = (t', now', q) \<Longrightarrow> worker_step\<^sup>*\<^sup>* p q \<and> now \<le> now'"
proof (induction n arbitrary: t now p)
  case (Suc n)
  show ?case
  proof (cases "next_move sc t p")
    case (Some r)
    then show ?thesis
      using Suc converse_rtranclp_into_rtranclp [of worker_step p r q] next_move_step [OF Some] by fastforce
  qed (use Suc in simp)
qed simp

lemma pause_run: "pause sc dl (t, now, p) = (t', now', q) \<Longrightarrow> worker_step\<^sup>*\<^sup>* p q \<and> now \<le> now'"
  using timed_moves_run [of sc dl "burst sc t" "Suc t" "now + dl t" p t' now' q] by (simp add: pause_def)

section \<open>Waiting returns\<close>

lemma cv_wait_returns:
  assumes "drainable p" and "\<forall>d. dead = Some d \<longrightarrow> now \<le> d"
  shows "\<exists>b t' now' q. cv_wait sc dl i dead t now p = Some (b, t', now', q) \<and> worker_step\<^sup>*\<^sup>* p q \<and> now \<le> now' \<and>
     (b \<longleftrightarrow> held_done i (px q)) \<and> (\<not> b \<longrightarrow> (\<exists>d. dead = Some d \<and> d \<le> now'))"
  using assms
proof (induction sc dl i dead t now p rule: cv_wait.induct)
  case (1 sc dl i dead t now p)
  show ?case
  proof (cases "held_done i (px p)")
    case True
    then have "cv_wait sc dl i dead t now p = Some (True, t, now, p)" by (subst cv_wait.simps) simp
    then show ?thesis using True by blast
  next
    case nd: False
    show ?thesis
    proof (cases "in_time dead (now + dl t)")
      case True
      obtain q where q: "next_move sc t p = Some q" using live_progress [OF 1(2) nd] by blast
      have st: "worker_step p q" by (rule next_move_step [OF q])
      have "\<forall>d. dead = Some d \<longrightarrow> now + dl t \<le> d" using True by (auto simp: in_time_def)
      moreover have "(if in_time dead (now + dl t) then next_move sc t p else None) = Some q" using True q by simp
      ultimately obtain b t' now' r where "cv_wait sc dl i dead (Suc t) (now + dl t) q = Some (b, t', now', r)" "worker_step\<^sup>*\<^sup>* q r"
        "now + dl t \<le> now'" "b \<longleftrightarrow> held_done i (px r)" "\<not> b \<longrightarrow> (\<exists>d. dead = Some d \<and> d \<le> now')"
        using 1(1) [OF nd _ drainable_step [OF 1(2) st]] by blast
      then show ?thesis
        using nd True q converse_rtranclp_into_rtranclp [of worker_step, OF st] by (subst cv_wait.simps) auto
    next
      case False
      then obtain d where d: "dead = Some d" by (auto simp: in_time_def split: option.splits)
      obtain t' now' q where m: "timed_moves sc dl (burst sc t) (Suc t, d, p) = (t', now', q)" by (metis prod_cases3)
      show ?thesis using nd False d m timed_moves_run [OF m] 1(3) by (subst cv_wait.simps) auto
    qed
  qed
qed

text \<open>The outcomes of a wait for one task that starts at time \<open>now\<close> in \<open>p\<close> and ends at \<open>now'\<close> in \<open>q\<close>.\<close>

lemma timed_Wait_outcome:
  assumes "drainable p"
  shows "\<exists>st t' now' q. timed_Wait sc dl i ms (t, now, p) = Some (st, t', now', q) \<and> worker_step\<^sup>*\<^sup>* p q \<and> now \<le> now' \<and>
     (st = Status_Ok \<and> held_done i (px q) \<or>
      st = task_status kNotFound ''task id not found'' \<and> get_state (px q) i = None \<or>
      st = task_status kWouldBlock ''wait timeout'' \<and> ms \<noteq> 0 \<and> \<not> held_done i (px q) \<and> now + unat ms * ns_per_ms \<le> now')"
proof (cases "get_state (px p) i")
  case None
  then show ?thesis by (simp add: timed_Wait_def)
next
  case (Some st)
  obtain t1 now1 p1 where c1: "pause sc dl (t, now, p) = (t1, now1, p1)" by (metis prod_cases3)
  note r1 = pause_run [OF c1]
  let ?dead = "if ms = 0 then None else Some (now1 + unat ms * ns_per_ms)"
  have before: "\<forall>d. ?dead = Some d \<longrightarrow> now1 \<le> d" by simp
  obtain b t' now' q where w: "cv_wait sc dl i ?dead t1 now1 p1 = Some (b, t', now', q)" "worker_step\<^sup>*\<^sup>* p1 q" "now1 \<le> now'"
    "b \<longleftrightarrow> held_done i (px q)" "\<not> b \<longrightarrow> (\<exists>d. ?dead = Some d \<and> d \<le> now')"
    using cv_wait_returns [of p1 ?dead now1 sc dl i t1] workers_keep [OF conjunct1 [OF r1] assms] before by blast
  have "worker_step\<^sup>*\<^sup>* p q" using r1 w(2) by auto
  moreover have "timed_Wait sc dl i ms (t, now, p) =
      Some (if b then Status_Ok else task_status kWouldBlock ''wait timeout'', t', now', q)"
    using Some c1 w(1) by (simp add: timed_Wait_def)
  ultimately show ?thesis using w(3-5) r1 by (cases b) (auto split: if_splits)
qed

text \<open>The time left for one task of a batch is positive, and the batch does not end before its time.\<close>

lemma remain_pos:
  assumes "ms \<noteq> 0" and "elapsed < unat (ms :: u32)"
  shows "ms - of_nat elapsed \<noteq> 0" and "unat (ms - of_nat elapsed) = unat ms - elapsed"
proof -
  have "elapsed < 2 ^ 32" by (rule less_trans [OF assms(2)]) simp
  then have e: "unat (of_nat elapsed :: u32) = elapsed" by (simp add: unat_of_nat take_bit_nat_eq_self)
  then have "(of_nat elapsed :: u32) \<le> ms" using assms(2) by (simp add: word_le_nat_alt)
  then show u: "unat (ms - of_nat elapsed) = unat ms - elapsed" by (simp add: unat_sub e)
  show "ms - of_nat elapsed \<noteq> 0" using u assms(2) by (metis diff_is_0_eq not_less unat_0)
qed

lemma remain_reaches:
  assumes "start \<le> now" and "(now - start) div ns_per_ms < unat ms" and "now + (unat ms - (now - start) div ns_per_ms) * ns_per_ms \<le> now'"
  shows "start + unat ms * ns_per_ms \<le> now'"
proof -
  let ?e = "(now - start) div ns_per_ms"
  have "?e * ns_per_ms \<le> now - start" by simp
  then have "start + ?e * ns_per_ms \<le> now" using assms(1) by linarith
  moreover have "unat ms * ns_per_ms = ?e * ns_per_ms + (unat ms - ?e) * ns_per_ms"
    using assms(2) by (simp flip: add_mult_distrib)
  ultimately show ?thesis using assms(3) by linarith
qed

definition batch_outcome :: "TaskId list \<Rightarrow> u32 \<Rightarrow> nat \<Rightarrow> Status \<Rightarrow> nat \<Rightarrow> 's pool \<Rightarrow> bool" where
  "batch_outcome ids ms start st now q \<longleftrightarrow>
     st = Status_Ok \<and> (\<forall>i\<in>set ids. \<not> live i q) \<or>
     st = task_status kNotFound ''task id not found'' \<and> (\<exists>i\<in>set ids. get_state (px q) i = None) \<or>
     ms \<noteq> 0 \<and> start + unat ms * ns_per_ms \<le> now \<and>
       (st = task_status kWouldBlock ''wait timeout'' \<and> (\<exists>i\<in>set ids. live i q) \<or> st = task_status kWouldBlock ''wait batch timeout'')"

lemma WaitBatch_loop_outcome:
  assumes "drainable p" and "start \<le> now"
  shows "\<exists>st t' now' q. WaitBatch_loop sc dl start ms ids (t, now, p) = Some (st, t', now', q) \<and> worker_step\<^sup>*\<^sup>* p q \<and> now \<le> now' \<and>
     batch_outcome ids ms start st now' q"
  using assms
proof (induction ids arbitrary: t now p)
  case Nil
  then show ?case by (simp add: batch_outcome_def)
next
  case (Cons i ids)
  obtain t1 now1 p1 where c1: "pause sc dl (t, now, p) = (t1, now1, p1)" by (metis prod_cases3)
  have r1: "worker_step\<^sup>*\<^sup>* p p1" "now \<le> now1" using pause_run [OF c1] by blast+
  have d1: "drainable p1" using workers_keep [OF r1(1) Cons.prems(1)] by blast
  let ?e = "(now1 - start) div ns_per_ms"
  show ?case
  proof (cases "ms \<noteq> 0 \<and> unat ms \<le> ?e")
    case True
    have "?e * ns_per_ms \<le> now1 - start" by simp
    moreover have "unat ms * ns_per_ms \<le> ?e * ns_per_ms" using True by simp
    ultimately have "start + unat ms * ns_per_ms \<le> now1" using Cons.prems(2) r1(2) by linarith
    then show ?thesis using True c1 r1 by (simp add: batch_outcome_def)
  next
    case in_time: False
    define remain where "remain = (if ms = 0 then ms else ms - of_nat ?e)"
    obtain st t2 now2 q where w: "timed_Wait sc dl i remain (t1, now1, p1) = Some (st, t2, now2, q)" "worker_step\<^sup>*\<^sup>* p1 q" "now1 \<le> now2"
      and out: "st = Status_Ok \<and> held_done i (px q) \<or> st = task_status kNotFound ''task id not found'' \<and> get_state (px q) i = None \<or>
        st = task_status kWouldBlock ''wait timeout'' \<and> remain \<noteq> 0 \<and> \<not> held_done i (px q) \<and> now1 + unat remain * ns_per_ms \<le> now2"
      using timed_Wait_outcome [OF d1, of sc dl i remain t1 now1] by blast
    have dq: "drainable q" using workers_keep [OF w(2) d1] by blast
    have pq: "worker_step\<^sup>*\<^sup>* p q" "now \<le> now2" using r1 w by auto
    have eq: "WaitBatch_loop sc dl start ms (i # ids) (t, now, p) =
        (if \<not> status_ok st then Some (st, t2, now2, q) else WaitBatch_loop sc dl start ms ids (t2, now2, q))"
      using c1 in_time w(1) by (cases "ms = 0") (auto simp: remain_def)
    from out show ?thesis
    proof (elim disjE conjE)
      assume ok: "st = Status_Ok" and hd: "held_done i (px q)"
      obtain st' t3 now3 q' where l: "WaitBatch_loop sc dl start ms ids (t2, now2, q) = Some (st', t3, now3, q')"
        "worker_step\<^sup>*\<^sup>* q q'" "now2 \<le> now3" "batch_outcome ids ms start st' now3 q'"
        using Cons.IH [OF dq, of now2 t2] Cons.prems(2) pq(2) by auto
      have "\<not> live i q'" using workers_keep [OF l(2) dq, of i] hd held_done_iff by blast
      then have "batch_outcome (i # ids) ms start st' now3 q'" using l(4) by (auto simp: batch_outcome_def)
      then show ?thesis using eq ok l(1-3) pq by auto
    next
      assume "st = task_status kNotFound ''task id not found''" "get_state (px q) i = None"
      then show ?thesis using eq pq by (auto simp: batch_outcome_def)
    next
      assume to: "st = task_status kWouldBlock ''wait timeout''" "remain \<noteq> 0" "\<not> held_done i (px q)"
        "now1 + unat remain * ns_per_ms \<le> now2"
      have ms: "ms \<noteq> 0" using to(2) by (auto simp: remain_def)
      have lt: "?e < unat ms" using in_time ms by simp
      have "start + unat ms * ns_per_ms \<le> now2"
        using remain_reaches [OF _ lt, of now2] to(4) remain_pos(2) [OF ms lt] Cons.prems(2) r1(2) ms by (simp add: remain_def)
      moreover have "live i q" using to(3) held_done_iff [OF dq] by blast
      ultimately show ?thesis using eq pq to(1) ms by (auto simp: batch_outcome_def)
    qed
  qed
qed

section \<open>Properties\<close>

text \<open>
  C20: From every reachable state of the pool, for every schedule of the workers and every clock,
  \<open>WaitBatch\<close> with or without a timeout returns, and only the workers have moved meanwhile: giving up
  cancels nothing. \<open>kOk\<close> means that no task of the batch is queued, picked or running. \<open>kNotFound\<close>
  means that the result of some id is not in the table. \<open>kWouldBlock\<close> is reported only with a
  timeout, and not before \<open>timeout_ms\<close> have passed since the call; \<open>wait timeout\<close> means that a task
  of the batch is still not done. (\<open>wait batch timeout\<close> is reported without looking at the
  remaining tasks.)
\<close>

theorem WaitBatch_timeout_sound:
  assumes "exec_steps (new_pool hw opts s) n p" and "n + work_left p + 2 < 2 ^ 64"
    and "length ids < 2 ^ 64"
  shows "\<exists>st t' now' q. timed_WaitBatch sc dl (Some ids) (of_nat (length ids)) ms (t, now, p) = Some (st, t', now', q) \<and>
     worker_step\<^sup>*\<^sup>* p q \<and> now \<le> now' \<and>
     (st = Status_Ok \<and> (\<forall>i\<in>set ids. \<not> live i q) \<or>
      st = task_status kNotFound ''task id not found'' \<and> (\<exists>i\<in>set ids. get_state (px q) i = None) \<or>
      ms \<noteq> 0 \<and> now + unat ms * ns_per_ms \<le> now' \<and>
        (st = task_status kWouldBlock ''wait timeout'' \<and> (\<exists>i\<in>set ids. live i q) \<or>
         st = task_status kWouldBlock ''wait batch timeout''))"
proof -
  have "unat (of_nat (length ids) :: size_t) = length ids"
    using assms(3) by (simp add: unat_of_nat take_bit_nat_eq_self)
  then show ?thesis
    using WaitBatch_loop_outcome [OF drainable_reach [OF assms(1,2)], of now now sc dl ms ids t]
    by (simp add: timed_WaitBatch_def batch_outcome_def)
qed

theorem WaitBatch_timeout_sound_witness:
  "\<exists>st t' now' q. timed_WaitBatch \<lparr>burst = (\<lambda>t. 0), turn = (\<lambda>t. 0)\<rparr> (\<lambda>t. 3000000) (Some [1]) 1 5 (0, 0, demo_submitted) =
       Some (st, t', now', q) \<and> worker_step\<^sup>*\<^sup>* demo_submitted q \<and>
     (st = Status_Ok \<and> \<not> live 1 q \<or>
      st = task_status kNotFound ''task id not found'' \<and> get_state (px q) 1 = None \<or>
      5000000 \<le> now' \<and> (st = task_status kWouldBlock ''wait timeout'' \<and> live 1 q \<or> st = task_status kWouldBlock ''wait batch timeout''))"
proof -
  have "1 + work_left demo_submitted + 2 < 2 ^ 64" by (simp add: work_left_def demo_submitted_def demo_eval)
  from WaitBatch_timeout_sound [OF demo_submitted_steps this, of "[1]" "\<lparr>burst = (\<lambda>t. 0), turn = (\<lambda>t. 0)\<rparr>" "\<lambda>t. 3000000" 5 0 0]
  show ?thesis by (auto simp: ns_per_ms_def)
qed

text \<open>
  A timed wait agrees with the wait without timeout when that one ends in time: it reports \<open>kOk\<close> and
  ends in the same pool.
\<close>

lemma Wait_ticks: "Wait sc i t p = Some (st, t', q) \<Longrightarrow> t \<le> t'"
proof (induction sc i t p rule: Wait.induct)
  case (1 sc i t p)
  then show ?case by (subst (asm) (2) Wait.simps) (force split: option.splits)
qed

lemma cv_wait_in_time:
  assumes "Wait sc i t p = Some (Status_Ok, t', q)" and "in_time dead (now + sum_list (map dl [t..<t']))"
  shows "cv_wait sc dl i dead t now p = Some (True, t', now + sum_list (map dl [t..<t']), q)"
  using assms
proof (induction sc i t p arbitrary: now rule: Wait.induct)
  case (1 sc i t p)
  show ?case
  proof (cases "Wait_now i (px p)")
    case (Some st)
    then have e: "st = Status_Ok" "t' = t" "q = p" using 1(2) by (subst (asm) Wait.simps; simp)+
    then have "held_done i (px p)" using Some by (auto simp: held_done_def Wait_now_def split: option.splits if_splits)
    then show ?thesis by (subst cv_wait.simps) (simp add: e)
  next
    case None
    then obtain r where r: "next_move sc t p = Some r" "Wait sc i (Suc t) r = Some (Status_Ok, t', q)"
      using 1(2) by (subst (asm) Wait.simps) (auto split: option.splits)
    have "\<not> held_done i (px p)" using None by (auto simp: held_done_def Wait_now_def split: option.splits if_splits)
    moreover have sum: "sum_list (map dl [t..<t']) = dl t + sum_list (map dl [Suc t..<t'])"
      using Wait_ticks [OF r(2)] by (simp add: upt_rec)
    moreover have "in_time dead (now + dl t)" using 1(3) sum by (auto simp: in_time_def split: option.splits)
    ultimately show ?thesis using 1(1) [OF None r(1,2), of "now + dl t"] 1(3) r(1) by (subst cv_wait.simps) (simp add: ac_simps)
  qed
qed

theorem timed_Wait_in_time:
  assumes "get_state (px p) i \<noteq> None" and "pause sc dl (t, now, p) = (t1, now1, p1)"
    and "Wait sc i t1 p1 = Some (Status_Ok, t', q)"
    and "ms = 0 \<or> sum_list (map dl [t1..<t']) \<le> unat ms * ns_per_ms"
  shows "timed_Wait sc dl i ms (t, now, p) = Some (Status_Ok, t', now1 + sum_list (map dl [t1..<t']), q)"
proof -
  let ?dead = "if ms = 0 then None else Some (now1 + unat ms * ns_per_ms)"
  have "in_time ?dead (now1 + sum_list (map dl [t1..<t']))" using assms(4) by (auto simp: in_time_def)
  from cv_wait_in_time [OF assms(3) this] show ?thesis using assms(1,2) by (auto simp: timed_Wait_def)
qed

end
