(* ===== verification/CK_Executor_Shutdown.thy ===== *)
theory CK_Executor_Shutdown
  imports CK_Executor_Timeout
begin

text \<open>
  The destructor of the thread pool (\<open>src/task/thread_pool_executor.cpp\<close>): it sets \<open>stopping_\<close> and
  joins the workers. The lemmas follow the jobs that the pool holds, in the queue or in the hands of
  workers, and show that the destructor returns with every accepted job run once, except the cancelled
  ones, which are not run.
\<close>

section \<open>The destructor\<close>

text \<open>The client joins the workers, that is, it waits until all have left their loops.\<close>

function join_workers :: "schedule \<Rightarrow> nat \<Rightarrow> 's pool \<Rightarrow> 's client option" where
  "join_workers sc t p =
     (if list_all (\<lambda>w. w = WExited) (pworkers p) then Some (t, p)
      else case next_move sc t p of None \<Rightarrow> None | Some q \<Rightarrow> join_workers sc (Suc t) q)"
  by pat_completeness auto
termination
  by (relation "measure (\<lambda>(sc, t, p). work_left p)")
    (auto dest: next_move_step worker_step_decreases)

declare join_workers.simps [simp del]

definition delete_executor :: "schedule \<Rightarrow> 's client \<Rightarrow> 's client option" where
  "delete_executor sc c = (let (t, p) = before_call sc c in join_workers sc t (p\<lparr>px := stop (px p)\<rparr>))"

section \<open>The jobs of a pool\<close>

fun job_body :: "'s job \<Rightarrow> 's body" where
  "job_body (PlainJob f) = f"
| "job_body (TrackedJob i f key) = f"

fun worker_jobs :: "'s worker \<Rightarrow> 's job list" where
  "worker_jobs (WPicked j) = [j]"
| "worker_jobs (WRunning i f key) = [TrackedJob i f key]"
| "worker_jobs w = []"

definition held_jobs :: "'s pool \<Rightarrow> 's job list" where
  "held_jobs p = map te_fn (tasks (px p)) @ concat (map worker_jobs (pworkers p))"

fun job_canceled :: "'s pool \<Rightarrow> 's job \<Rightarrow> bool" where
  "job_canceled p (PlainJob f) = False"
| "job_canceled p (TrackedJob i f key) = (case get_state (px p) i of None \<Rightarrow> False | Some st \<Rightarrow> canceled st)"

definition run_jobs :: "'s job list \<Rightarrow> 's \<Rightarrow> 's" where
  "run_jobs js s = fold (\<lambda>j s. fst (job_body j s)) js s"

lemma run_jobs_simps [simp]:
  "run_jobs [] s = s" "run_jobs (j # js) s = run_jobs js (fst (job_body j s))" "run_jobs (xs @ ys) s = run_jobs ys (run_jobs xs s)"
  by (simp_all add: run_jobs_def)

text \<open>
  From \<open>p\<close> to \<open>q\<close> some jobs were finished, each in its turn run on the shared state unless it was
  cancelled; the others are still there.
\<close>

definition drained :: "'s pool \<Rightarrow> 's pool \<Rightarrow> bool" where
  "drained p q \<longleftrightarrow>
     (\<exists>js. mset (held_jobs p) = mset js + mset (held_jobs q) \<and>
        pshared q = run_jobs (filter (\<lambda>j. \<not> job_canceled p j) js) (pshared p)) \<and>
     (\<forall>j\<in>set (held_jobs q). job_canceled q j = job_canceled p j)"

lemma drained_refl: "drained p p"
  by (auto simp: drained_def intro: exI [of _ "[]"])

lemma drained_trans:
  assumes "drained p q" and "drained q r"
  shows "drained p r"
proof -
  obtain xs ys where
    xs: "mset (held_jobs p) = mset xs + mset (held_jobs q)" "pshared q = run_jobs (filter (\<lambda>j. \<not> job_canceled p j) xs) (pshared p)"
    and ys: "mset (held_jobs q) = mset ys + mset (held_jobs r)" "pshared r = run_jobs (filter (\<lambda>j. \<not> job_canceled q j) ys) (pshared q)"
    using assms unfolding drained_def by blast
  have sub: "set ys \<union> set (held_jobs r) = set (held_jobs q)" using arg_cong [OF ys(1), of set_mset] by simp
  have same: "job_canceled q j = job_canceled p j" if "j \<in> set (held_jobs q)" for j
    using assms(1) that unfolding drained_def by blast
  have "filter (\<lambda>j. \<not> job_canceled q j) ys = filter (\<lambda>j. \<not> job_canceled p j) ys"
    by (rule filter_cong) (use same sub in auto)
  then have "pshared r = run_jobs (filter (\<lambda>j. \<not> job_canceled p j) (xs @ ys)) (pshared p)" using xs(2) ys(2) by simp
  moreover have "mset (held_jobs p) = mset (xs @ ys) + mset (held_jobs r)" using xs(1) ys(1) by simp
  moreover have "\<forall>j\<in>set (held_jobs r). job_canceled r j = job_canceled p j"
    using assms(2) same sub unfolding drained_def by blast
  ultimately show ?thesis unfolding drained_def by blast
qed

lemma held_live: "TrackedJob i f key \<in> set (held_jobs p) \<Longrightarrow> live i p"
proof -
  assume "TrackedJob i f key \<in> set (held_jobs p)"
  then consider t where "t \<in> set (tasks (px p))" "te_fn t = TrackedJob i f key"
    | w where "w \<in> set (pworkers p)" "TrackedJob i f key \<in> set (worker_jobs w)"
    by (force simp: held_jobs_def)
  then show ?thesis
  proof cases
    case 1
    then show ?thesis unfolding live_def by (metis job_ids.simps(2) list.set_intros(1))
  next
    case 2
    have "i \<in> set (wait_ids w @ run_ids w)" using 2(2) by (cases w) auto
    then show ?thesis using 2 unfolding live_def by blast
  qed
qed

text \<open>A cancellation is not forgotten while the task is held.\<close>

lemma job_canceled_step:
  assumes d: "drainable p" and s: "worker_step p q" and j: "j \<in> set (held_jobs q)"
  shows "job_canceled q j = job_canceled p j"
proof (cases j)
  case (TrackedJob i f key)
  have "\<not> held_done i (px q)" using held_done_iff [OF drainable_step [OF d s]] held_live j TrackedJob by blast
  then have "\<not> held_done i (px p)" using held_done_step [OF d s] by blast
  then show ?thesis
    using worker_step_evolves [OF d s, of i] TrackedJob by (auto simp: held_done_def entry_evolves_def split: option.splits)
qed simp

text \<open>How the jobs change when one worker does.\<close>

lemma jobs_update:
  "k < length (pworkers p) \<Longrightarrow> tasks e = tasks (px p) \<Longrightarrow>
   mset (held_jobs (p\<lparr>px := e, pshared := s, pworkers := (pworkers p)[k := w]\<rparr>)) + mset (worker_jobs (pworkers p ! k))
     = mset (held_jobs p) + mset (worker_jobs w)"
  using mset_concat_update [of k "pworkers p" worker_jobs w] by (simp add: held_jobs_def ac_simps)

lemma jobs_pick:
  assumes "k < length (pworkers p)" and "pworkers p ! k = WIdle" and "i < length (tasks (px p))"
  shows "mset (held_jobs (p\<lparr>px := (px p)\<lparr>tasks := erase_at i (tasks (px p)), active_workers := a\<rparr>,
            pworkers := (pworkers p)[k := WPicked (te_fn (tasks (px p) ! i))]\<rparr>)) = mset (held_jobs p)"
  using mset_concat_update [OF assms(1), of worker_jobs "WPicked (te_fn (tasks (px p) ! i))"] assms(2)
    mset_concat_erase [OF assms(3), of "\<lambda>t. [te_fn t]"]
  by (simp add: held_jobs_def ac_simps)

lemma drained_same:
  assumes "mset (held_jobs q) = mset (held_jobs p)" and "pshared q = pshared p"
    and "\<forall>j\<in>set (held_jobs q). job_canceled q j = job_canceled p j"
  shows "drained p q"
  using assms unfolding drained_def by (auto intro: exI [of _ "[]"])

lemma drained_one:
  assumes "mset (held_jobs p) = add_mset j (mset (held_jobs q))"
    and "pshared q = (if job_canceled p j then pshared p else fst (job_body j (pshared p)))"
    and "\<forall>j\<in>set (held_jobs q). job_canceled q j = job_canceled p j"
  shows "drained p q"
  using assms unfolding drained_def by (auto intro!: exI [of _ "[j]"])

lemma worker_step_drained:
  assumes d: "drainable p" and s: "worker_step p q"
  shows "drained p q"
proof -
  have st: "exec_step p q" and ne: "pworkers q \<noteq> pworkers p" using s by (auto simp: worker_step_def)
  have c: "\<forall>j\<in>set (held_jobs q). job_canceled q j = job_canceled p j" using job_canceled_step [OF d s] by blast
  obtain n where tab: "table_inv n (px p) (queued (px p) + picked (pworkers p)) (running (pworkers p))"
    using d by (rule drainable_table)
  from st show ?thesis
  proof cases
    case (work_pick k j e)
    obtain i where i: "i < length (tasks (px p))" "j = te_fn (tasks (px p) ! i)"
      "e = (px p)\<lparr>tasks := erase_at i (tasks (px p)), active_workers := active_workers (px p) + 1\<rparr>"
      using worker_pick_effect [OF work_pick(4)] by blast
    then have "mset (held_jobs q) = mset (held_jobs p)" using jobs_pick [OF work_pick(2,3) i(1)] work_pick(1) by simp
    then show ?thesis by (rule drained_same) (use c work_pick(1) in simp_all)
  next
    case (work_plain k f s' threw)
    have "mset (held_jobs p) = add_mset (PlainJob f) (mset (held_jobs q))"
      using jobs_update [OF work_plain(2), of "plain_done threw (px p)" WFinishing s'] work_plain(1,3) by (simp add: plain_done_def)
    then show ?thesis by (rule drained_one) (use c work_plain(1,4) in simp_all)
  next
    case (work_begin k i f key e)
    have "tasks e = tasks (px p)" using work_begin(5) by (auto simp: task_begin_def split: option.splits)
    then have "mset (held_jobs q) = mset (held_jobs p)"
      using jobs_update [OF work_begin(2), of e "WRunning i f key" "pshared p"] work_begin(1,3) by simp
    then show ?thesis by (rule drained_same) (use c work_begin(1) in simp_all)
  next
    case (work_skip k i f key e)
    have "tasks e = tasks (px p)" using work_skip(5) by (auto simp: task_begin_def split: option.splits)
    then have one: "mset (held_jobs p) = add_mset (TrackedJob i f key) (mset (held_jobs q))"
      using jobs_update [OF work_skip(2), of "MarkTaskDone i False False e" WFinishing "pshared p"] work_skip(1,3) by simp
    have "job_canceled p (TrackedJob i f key)" using work_skip(5) by (auto simp: task_begin_def split: option.splits)
    then show ?thesis by (intro drained_one [OF one _ c]) (simp add: work_skip(1) del: job_canceled.simps)
  next
    case (work_end k i f key s' threw)
    have one: "mset (held_jobs p) = add_mset (TrackedJob i f key) (mset (held_jobs q))"
      using jobs_update [OF work_end(2), of "MarkTaskDone i (\<not> threw) threw (px p)" WFinishing s'] work_end(1,3) by simp
    have "running (pworkers p) = add_mset i (running ((pworkers p)[k := WFinishing]))"
      using running_update [OF work_end(2), of WFinishing] work_end(3) by simp
    then have "i \<in># running (pworkers p)" by simp
    then obtain sti where "get_state (px p) i = Some sti" "running_state sti" by (rule table_running [OF tab])
    then have "\<not> job_canceled p (TrackedJob i f key)" by (simp add: running_state_def)
    then show ?thesis by (intro drained_one [OF one _ c]) (simp add: work_end(1,4) del: job_canceled.simps)
  next
    case (work_finish k)
    have "mset (held_jobs q) = mset (held_jobs p)"
      using jobs_update [OF work_finish(2), of "worker_finish (px p)" WIdle "pshared p"] work_finish(1,3) by (simp add: worker_finish_def Let_def)
    then show ?thesis by (rule drained_same) (use c work_finish(1) in simp_all)
  next
    case (work_exit k)
    have "mset (held_jobs q) = mset (held_jobs p)"
      using jobs_update [OF work_exit(2), of "px p" WExited "pshared p"] work_exit(1,3) by simp
    then show ?thesis by (rule drained_same) (use c work_exit(1) in simp_all)
  qed (use ne in simp_all)
qed

section \<open>The destructor returns\<close>

text \<open>While a worker of a stopping pool has not left its loop, some worker can move.\<close>

lemma stopping_progress:
  assumes d: "drainable p" and st: "stopping (px p)" and w: "\<not> list_all (\<lambda>w. w = WExited) (pworkers p)"
  shows "next_move sc t p \<noteq> None"
proof (cases "all_idle (px p)")
  case False
  obtain n where "pool_inv n p" "pworkers p \<noteq> []" using d by (auto simp: drainable_def)
  then obtain r where "worker_step p r" using worker_progress False by blast
  then show ?thesis by (rule next_move_progress)
next
  case True
  obtain n where "counts_ok p" using d by (auto simp: drainable_def pool_inv_def)
  then have e: "tasks (px p) = []" "\<forall>w\<in>set (pworkers p). \<not> busy w"
    using True by (auto simp: all_idle_def counts_ok_def filter_empty_conv)
  obtain k where k: "k < length (pworkers p)" "pworkers p ! k \<noteq> WExited" using w by (auto simp: list_all_length)
  then have i: "pworkers p ! k = WIdle" using e(2) not_busy_iff nth_mem by blast
  have "worker_step p (p\<lparr>pworkers := (pworkers p)[k := WExited]\<rparr>)"
    using exec_step.work_exit [OF k(1) i st e(1)] list_update_ne [OF k(1), of WExited] i by (simp add: worker_step_def)
  then show ?thesis by (rule next_move_progress)
qed

text \<open>Workers change neither the flag of the destructor nor the options.\<close>

lemma worker_step_settings:
  assumes s: "worker_step p q"
  shows "stopping (px q) = stopping (px p) \<and> xoptions (px q) = xoptions (px p)"
proof -
  have st: "exec_step p q" and ne: "pworkers q \<noteq> pworkers p" using s by (auto simp: worker_step_def)
  from st show ?thesis
  proof cases
    case (work_pick k j e)
    then obtain l where "e = (px p)\<lparr>tasks := l, active_workers := active_workers (px p) + 1\<rparr>"
      using worker_pick_effect by blast
    then show ?thesis using work_pick by simp
  next
    case (work_begin k i f key e)
    then show ?thesis by (auto simp: task_begin_def split: option.splits)
  next
    case (work_skip k i f key e)
    then show ?thesis by (auto simp: task_begin_def split: option.splits)
  qed (use ne in \<open>simp_all add: plain_done_def worker_finish_def Let_def\<close>)
qed

lemma join_workers_returns:
  assumes "drainable p" and "stopping (px p)"
  shows "\<exists>t' q. join_workers sc t p = Some (t', q) \<and> drained p q \<and> drainable q \<and> list_all (\<lambda>w. w = WExited) (pworkers q)"
  using assms
proof (induction sc t p rule: join_workers.induct)
  case (1 sc t p)
  show ?case
  proof (cases "list_all (\<lambda>w. w = WExited) (pworkers p)")
    case True
    then show ?thesis using 1(2) drained_refl by (subst join_workers.simps) auto
  next
    case False
    obtain q where q: "next_move sc t p = Some q" using stopping_progress [OF 1(2,3) False] by blast
    have st: "worker_step p q" by (rule next_move_step [OF q])
    obtain t' r where "join_workers sc (Suc t) q = Some (t', r)" "drained q r" "drainable r" "list_all (\<lambda>w. w = WExited) (pworkers r)"
      using 1(1) [OF False q drainable_step [OF 1(2) st]] 1(3) worker_step_settings [OF st] by blast
    then show ?thesis
      using False q drained_trans [OF worker_step_drained [OF 1(2) st]] by (subst join_workers.simps) auto
  qed
qed

lemma moves_drained: "moves sc m (t, p) = (t', q) \<Longrightarrow> drainable p \<Longrightarrow> drainable q \<and> drained p q"
proof (induction m arbitrary: t p)
  case (Suc m)
  show ?case
  proof (cases "next_move sc t p")
    case (Some r)
    then have st: "worker_step p r" by (rule next_move_step)
    show ?thesis
      using Suc.IH [of "Suc t" r] Suc.prems Some drainable_step [OF _ st] drained_trans [OF worker_step_drained [OF _ st]] by auto
  qed (use Suc in \<open>simp add: drained_refl\<close>)
qed (simp add: drained_refl)

lemma drainable_stop:
  assumes "drainable p"
  shows "drainable (p\<lparr>px := stop (px p)\<rparr>)"
proof -
  obtain n where n: "pool_inv n p" "n + work_left p + 2 < 2 ^ 64" and w: "pworkers p \<noteq> []" using assms by (auto simp: drainable_def)
  have "pool_inv n (p\<lparr>px := stop (px p)\<rparr>)"
    using n(1) by (auto simp: pool_inv_def counts_ok_def stop_def queue_inv_def queued_def intro: table_inv_cong)
  then show ?thesis using n(2) w by (auto simp: drainable_def work_left_def stop_def)
qed

lemma drained_stop: "drained p (p\<lparr>px := stop (px p)\<rparr>)"
proof -
  have "job_canceled (p\<lparr>px := stop (px p)\<rparr>) j = job_canceled p j" for j by (cases j) (simp_all add: stop_def get_state_def)
  then show ?thesis by (intro drained_same) (simp_all add: held_jobs_def stop_def)
qed

lemma delete_executor_drains:
  assumes "drainable p"
  shows "\<exists>t' q ran. delete_executor sc (t, p) = Some (t', q) \<and>
     (\<forall>w\<in>set (pworkers q). w = WExited) \<and> tasks (px q) = [] \<and>
     mset ran = filter_mset (\<lambda>j. \<not> job_canceled p j) (mset (held_jobs p)) \<and> pshared q = run_jobs ran (pshared p)"
proof -
  obtain t1 p1 where b: "before_call sc (t, p) = (t1, p1)" by (metis surj_pair)
  have 1: "drainable p1" "drained p p1"
    using moves_drained [OF b [unfolded before_call_def] assms] by blast+
  let ?p2 = "p1\<lparr>px := stop (px p1)\<rparr>"
  have "stopping (px ?p2)" by (simp add: stop_def)
  then obtain t' q where q: "join_workers sc t1 ?p2 = Some (t', q)" "drained ?p2 q" "drainable q"
    and ex: "list_all (\<lambda>w. w = WExited) (pworkers q)"
    using join_workers_returns [OF drainable_stop [OF 1(1)]] by blast
  have w: "\<forall>w\<in>set (pworkers q). w = WExited" using ex by (simp add: list_all_iff)
  moreover have "counts_ok q" "pworkers q \<noteq> []" using q(3) by (auto simp: drainable_def pool_inv_def)
  ultimately have tq: "tasks (px q) = []" by (auto simp: counts_ok_def neq_Nil_conv)
  have "held_jobs q = []" using w tq by (auto simp: held_jobs_def)
  moreover have "drained p q" by (rule drained_trans [OF 1(2) drained_trans [OF drained_stop q(2)]])
  ultimately obtain js where js: "mset (held_jobs p) = mset js" "pshared q = run_jobs (filter (\<lambda>j. \<not> job_canceled p j) js) (pshared p)"
    by (auto simp: drained_def)
  have "delete_executor sc (t, p) = Some (t', q)" by (simp add: delete_executor_def b q(1))
  moreover have "mset (filter (\<lambda>j. \<not> job_canceled p j) js) = filter_mset (\<lambda>j. \<not> job_canceled p j) (mset (held_jobs p))"
    by (simp add: js(1))
  ultimately show ?thesis using w tq js(2) by blast
qed

section \<open>Properties\<close>

text \<open>
  C8: From every reachable state of the pool and for every schedule of the workers, the destructor
  returns; then every worker has ended and the queue is empty, and the jobs that were queued or held by
  workers have been run, each once, in some order, except exactly those that were cancelled.
\<close>

theorem destructor_drains:
  assumes "exec_steps (new_pool hw opts s) n p" and "n + work_left p + 2 < 2 ^ 64"
  shows "\<exists>t' q ran. delete_executor sc (t, p) = Some (t', q) \<and>
     (\<forall>w\<in>set (pworkers q). w = WExited) \<and> tasks (px q) = [] \<and>
     mset ran = filter_mset (\<lambda>j. \<not> job_canceled p j) (mset (held_jobs p)) \<and> pshared q = run_jobs ran (pshared p)"
  by (rule delete_executor_drains [OF drainable_reach [OF assms]])

theorem destructor_drains_witness:
  "\<exists>t' q. delete_executor \<lparr>burst = (\<lambda>t. t), turn = (\<lambda>t. t)\<rparr> (0, demo_submitted) = Some (t', q) \<and>
     tasks (px q) = [] \<and> pshared q = 1"
proof -
  have b: "1 + work_left demo_submitted + 2 < 2 ^ 64" by (simp add: work_left_def demo_submitted_def demo_eval)
  have h: "held_jobs demo_submitted = [TrackedJob 1 demo_body 0]" "\<not> job_canceled demo_submitted (TrackedJob 1 demo_body 0)"
    "pshared demo_submitted = 0"
    by (simp_all add: held_jobs_def demo_submitted_def demo_eval)
  obtain t' q ran where d: "delete_executor \<lparr>burst = (\<lambda>t. t), turn = (\<lambda>t. t)\<rparr> (0, demo_submitted) = Some (t', q)" "tasks (px q) = []"
    "mset ran = filter_mset (\<lambda>j. \<not> job_canceled demo_submitted j) (mset (held_jobs demo_submitted))"
    "pshared q = run_jobs ran (pshared demo_submitted)"
    using destructor_drains [OF demo_submitted_steps b] by blast
  have "mset ran = {#TrackedJob 1 demo_body 0#}" using d(3) h(2) by (simp add: h(1) del: job_canceled.simps)
  then have "ran = [TrackedJob 1 demo_body 0]" by simp
  then show ?thesis using d h(3) by (auto simp: demo_body_def)
qed

end
