(* ===== verification/CK_Executor_Helpers.thy ===== *)
theory CK_Executor_Helpers
  imports CK_Executor_Shutdown
begin

text \<open>
  The functions that create and destroy executors (\<open>src/api/c_api.cpp\<close>) and the helpers that submit
  callables to them (\<open>include/corekit/task/executor_helpers.hpp\<close>). The theorem follows an executor through
  its life: what was submitted to it has been run, each callable once, when its destruction returns.
\<close>

section \<open>Creating and destroying\<close>

definition default_ExecutorOptions :: ExecutorOptions where
  "default_ExecutorOptions = \<lparr>xo_worker_count = 0, xo_queue_capacity = 0, xo_policy = kHybridFairPriority\<rparr>"

definition corekit_create_executor :: "size_t \<Rightarrow> 's \<Rightarrow> 's pool" where
  "corekit_create_executor hw s = new_pool hw default_ExecutorOptions s"

definition corekit_create_executor_v2 :: "size_t \<Rightarrow> ExecutorOptions option \<Rightarrow> 's \<Rightarrow> 's pool" where
  "corekit_create_executor_v2 hw opts s =
     (case opts of None \<Rightarrow> new_pool hw default_ExecutorOptions s | Some o' \<Rightarrow> new_pool hw o' s)"

definition corekit_destroy_executor :: "schedule \<Rightarrow> 's client \<Rightarrow> 's client option" where
  "corekit_destroy_executor sc c = delete_executor sc c"

section \<open>Helpers\<close>

text \<open>A callable becomes a function object, which is not empty.\<close>

definition SubmitLambda :: "'s body \<Rightarrow> 's Executor \<Rightarrow> Status \<times> 's Executor" where
  "SubmitLambda fn executor = Submit (Some fn) executor"

definition SubmitLambdaEx :: "'s body \<Rightarrow> TaskSubmitOptions \<Rightarrow> 's Executor \<Rightarrow> TaskId Result \<times> 's Executor" where
  "SubmitLambdaEx fn opts executor = SubmitEx (Some fn) opts executor"

definition SubmitLambdaWithKey :: "u64 \<Rightarrow> 's body \<Rightarrow> 's Executor \<Rightarrow> TaskId Result \<times> 's Executor" where
  "SubmitLambdaWithKey serial_key fn executor = SubmitWithKey serial_key (Some fn) executor"

section \<open>The life of an executor\<close>

text \<open>A client submits callables one after another while the workers run.\<close>

fun submit_all :: "schedule \<Rightarrow> 's body list \<Rightarrow> 's client \<Rightarrow> Status list \<times> 's client" where
  "submit_all sc [] c = ([], c)"
| "submit_all sc (f # fs) c =
     (let (t, p) = before_call sc c; (st, e) = SubmitLambda f (px p); (sts, c') = submit_all sc fs (t, p\<lparr>px := e\<rparr>)
      in (st # sts, c'))"

text \<open>A pool with room for \<open>m\<close> more submissions.\<close>

definition room :: "nat \<Rightarrow> 's pool \<Rightarrow> bool" where
  "room m p \<longleftrightarrow> (\<exists>n. pool_inv n p \<and> n + work_left p + 5 * m + 2 < 2 ^ 64) \<and> pworkers p \<noteq> [] \<and>
     \<not> stopping (px p) \<and> xo_queue_capacity (xoptions (px p)) = 0"

lemma room_drainable: "room m p \<Longrightarrow> drainable p"
  unfolding room_def drainable_def by (auto intro: le_less_trans [rotated])

lemma room_step:
  assumes r: "room m p" and s: "worker_step p q"
  shows "room m q"
proof -
  obtain n where n: "pool_inv n p" "n + work_left p + 5 * m + 2 < 2 ^ 64" and w: "pworkers p \<noteq> []"
    and o: "\<not> stopping (px p)" "xo_queue_capacity (xoptions (px p)) = 0" using r by (auto simp: room_def)
  have e: "exec_step p q" using s by (simp add: worker_step_def)
  have "pool_inv (Suc n) q" by (rule pool_inv_step [OF e n(1)]) (use n(2) in linarith)
  moreover have "Suc n + work_left q + 5 * m + 2 < 2 ^ 64" using worker_step_decreases [OF s] n(2) by linarith
  moreover have "pworkers q \<noteq> []" using exec_step_workers_length [OF e] w by auto
  ultimately show ?thesis
    using o worker_step_settings [OF s] unfolding room_def by auto
qed

lemma moves_room: "moves sc m (t, p) = (t', q) \<Longrightarrow> room k p \<Longrightarrow> room k q"
proof (induction m arbitrary: t p)
  case (Suc m)
  then show ?case
    by (cases "next_move sc t p") (auto dest: next_move_step room_step)
qed simp

lemma SubmitLambda_room:
  assumes r: "room (Suc m) p" and s: "SubmitLambda f (px p) = (st, e)"
  shows "st = Status_Ok" and "room m (p\<lparr>px := e\<rparr>)" and "mset (held_jobs (p\<lparr>px := e\<rparr>)) = add_mset (PlainJob f) (mset (held_jobs p))"
proof -
  obtain n where n: "pool_inv n p" "n + work_left p + 5 * Suc m + 2 < 2 ^ 64" and w: "pworkers p \<noteq> []"
    and o: "\<not> stopping (px p)" "xo_queue_capacity (xoptions (px p)) = 0" using r by (auto simp: room_def)
  have ef: "st = Status_Ok" "stopping e = stopping (px p)" "xoptions e = xoptions (px p)"
    "\<exists>x. tasks e = tasks (px p) @ [x] \<and> te_fn x = PlainJob f"
    using s o by (auto simp: SubmitLambda_def Submit_def Enqueue_def Let_def)
  have "pool_inv (Suc n) (p\<lparr>px := e\<rparr>)"
    by (rule inv_submit [OF n(1) _ s [unfolded SubmitLambda_def]]) (use n(2) in linarith)
  moreover have "Suc n + work_left (p\<lparr>px := e\<rparr>) + 5 * m + 2 < 2 ^ 64" using n(2) ef(4) by (auto simp: work_left_def)
  ultimately show "room m (p\<lparr>px := e\<rparr>)" using w o ef(2,3) unfolding room_def by (intro conjI exI [of _ "Suc n"]) simp_all
  show "st = Status_Ok" by (rule ef(1))
  show "mset (held_jobs (p\<lparr>px := e\<rparr>)) = add_mset (PlainJob f) (mset (held_jobs p))" using ef(4) by (auto simp: held_jobs_def)
qed

text \<open>Pools in which no job has an id: nothing can be cancelled.\<close>

definition plain :: "'s pool \<Rightarrow> bool" where
  "plain p \<longleftrightarrow> (\<forall>j\<in>set (held_jobs p). \<exists>f. j = PlainJob f)"

lemma plain_not_canceled: "plain p \<Longrightarrow> j \<in> set (held_jobs p) \<Longrightarrow> \<not> job_canceled p j"
  unfolding plain_def by fastforce

lemma drained_plain:
  assumes "drained p q" and "plain p"
  obtains js where "mset (held_jobs p) = mset js + mset (held_jobs q)" and "pshared q = run_jobs js (pshared p)" and "plain q"
proof -
  obtain js where js: "mset (held_jobs p) = mset js + mset (held_jobs q)"
    "pshared q = run_jobs (filter (\<lambda>j. \<not> job_canceled p j) js) (pshared p)" using assms(1) unfolding drained_def by blast
  have sub: "set js \<union> set (held_jobs q) = set (held_jobs p)" using arg_cong [OF js(1), of set_mset] by simp
  then have "filter (\<lambda>j. \<not> job_canceled p j) js = js" using plain_not_canceled [OF assms(2)] by (intro filter_True) blast
  moreover have "plain q" using assms(2) sub unfolding plain_def by blast
  ultimately show ?thesis using that js by simp
qed

text \<open>While callables are submitted, all are accepted; each has been run or is still held.\<close>

lemma submit_all_accounts:
  assumes "room (length fs) p" and "plain p" and "submit_all sc fs (t, p) = (sts, t', q)"
  shows "(\<forall>st\<in>set sts. st = Status_Ok) \<and> drainable q \<and> plain q \<and>
     (\<exists>js. mset js + mset (held_jobs q) = mset (held_jobs p) + mset (map PlainJob fs) \<and> pshared q = run_jobs js (pshared p))"
  using assms
proof (induction fs arbitrary: t p sts)
  case Nil
  then show ?case using room_drainable by (auto intro: exI [of _ "[]"])
next
  case (Cons f fs)
  obtain t1 p1 where b: "before_call sc (t, p) = (t1, p1)" by (metis surj_pair)
  note m = b [unfolded before_call_def]
  have r1: "room (length (f # fs)) p1" by (rule moves_room [OF m Cons.prems(1)])
  have "drained p p1" using moves_drained [OF m room_drainable [OF Cons.prems(1)]] by blast
  then obtain xs where xs: "mset (held_jobs p) = mset xs + mset (held_jobs p1)" "pshared p1 = run_jobs xs (pshared p)" "plain p1"
    using Cons.prems(2) by (rule drained_plain)
  obtain st e where s: "SubmitLambda f (px p1) = (st, e)" by (metis surj_pair)
  let ?p2 = "p1\<lparr>px := e\<rparr>"
  note r2 = SubmitLambda_room [OF r1 [simplified] s]
  have "plain ?p2" using xs(3) arg_cong [OF r2(3), of set_mset] unfolding plain_def by simp
  moreover obtain sts' where u: "submit_all sc fs (t1, ?p2) = (sts', t', q)" "sts = st # sts'"
    using Cons.prems(3) b s by (auto split: prod.splits)
  ultimately obtain ys where ys: "\<forall>st\<in>set sts'. st = Status_Ok" "drainable q" "plain q"
    "mset ys + mset (held_jobs q) = mset (held_jobs ?p2) + mset (map PlainJob fs)" "pshared q = run_jobs ys (pshared ?p2)"
    using Cons.IH [OF r2(2)] by blast
  have "mset (xs @ ys) + mset (held_jobs q) = mset (held_jobs p) + mset (map PlainJob (f # fs))"
    using ys(4) r2(3) xs(1) by (simp add: ac_simps)
  moreover have "pshared q = run_jobs (xs @ ys) (pshared p)" using ys(5) xs(2) by simp
  ultimately show ?case using ys(1-3) r2(1) u(2) by (intro conjI exI [of _ "xs @ ys"]) simp_all
qed

lemma room_new:
  assumes "unat (NormalizeWorkerCount hw (xo_worker_count opts)) + 5 * m + 2 < 2 ^ 64" and "xo_queue_capacity opts = 0"
  shows "room m (new_pool hw opts s)" and "held_jobs (new_pool hw opts s) = []"
proof -
  have "work_left (new_pool hw opts s) = unat (NormalizeWorkerCount hw (xo_worker_count opts))"
    by (simp add: work_left_def new_pool_def ThreadPoolExecutor_def sum_list_replicate)
  then show "room m (new_pool hw opts s)"
    using pool_inv_new [of hw opts s] new_pool_workers [of hw opts s] assms unfolding room_def
    by (auto simp: new_pool_def ThreadPoolExecutor_def intro!: exI [of _ 0])
  show "held_jobs (new_pool hw opts s) = []" by (auto simp: held_jobs_def new_pool_def ThreadPoolExecutor_def)
qed

lemma run_plain: "run_jobs (map PlainJob fs) s = fold (\<lambda>f s. fst (f s)) fs s"
  by (induction fs arbitrary: s) simp_all

text \<open>
  An executor from \<open>corekit_create_executor\<close>: every callable given to \<open>SubmitLambda\<close> is accepted, and
  when \<open>corekit_destroy_executor\<close> returns, as it does, each has been run exactly once, whatever the
  schedule of the workers.
\<close>

theorem executor_lifecycle:
  assumes "unat (NormalizeWorkerCount hw 0) + 5 * length fs + 2 < 2 ^ 64"
  shows "\<exists>sts c t' q ran. submit_all sc fs (t, corekit_create_executor hw s) = (sts, c) \<and> (\<forall>st\<in>set sts. st = Status_Ok) \<and>
     corekit_destroy_executor sc c = Some (t', q) \<and> mset ran = mset fs \<and> pshared q = fold (\<lambda>f s. fst (f s)) ran s"
proof -
  let ?p = "corekit_create_executor hw s"
  have n: "room (length fs) ?p" "held_jobs ?p = []" "pshared ?p = s"
    using room_new [of hw default_ExecutorOptions "length fs" s] assms
    by (simp_all add: corekit_create_executor_def default_ExecutorOptions_def new_pool_def)
  have pl: "plain ?p" by (simp add: plain_def n(2))
  obtain sts t1 q1 where u: "submit_all sc fs (t, ?p) = (sts, t1, q1)" by (metis prod_cases3)
  obtain xs where a: "\<forall>st\<in>set sts. st = Status_Ok" "drainable q1" "plain q1"
    "mset xs + mset (held_jobs q1) = mset (map PlainJob fs)" "pshared q1 = run_jobs xs s"
    using submit_all_accounts [OF n(1) pl u] by (auto simp: n)
  obtain t' q ys where d: "delete_executor sc (t1, q1) = Some (t', q)"
    "mset ys = filter_mset (\<lambda>j. \<not> job_canceled q1 j) (mset (held_jobs q1))" "pshared q = run_jobs ys (pshared q1)"
    using delete_executor_drains [OF a(2)] by blast
  have "mset ys = mset (held_jobs q1)"
    unfolding d(2) by (rule filter_mset_eq_conv [THEN iffD2]) (use plain_not_canceled [OF a(3)] in auto)
  then have all: "mset (xs @ ys) = mset (map PlainJob fs)" using a(4) by simp
  define ran where "ran = map job_body (xs @ ys)"
  have ran: "xs @ ys = map PlainJob ran" "mset ran = mset fs"
  proof -
    have "set (xs @ ys) = PlainJob ` set fs" using mset_eq_setD [OF all] by simp
    then have "\<forall>j\<in>set (xs @ ys). PlainJob (job_body j) = j" by auto
    then show "xs @ ys = map PlainJob ran" by (simp add: ran_def map_idI comp_def)
    have "mset ran = image_mset job_body (mset (map PlainJob fs))" unfolding ran_def mset_map all ..
    then show "mset ran = mset fs" by (simp add: image_mset.compositionality comp_def)
  qed
  have "pshared q = fold (\<lambda>f s. fst (f s)) ran s" using d(3) a(5) ran(1) run_plain [of ran s] by (metis run_jobs_simps(3))
  then show ?thesis using u a(1) d(1) ran(2) by (auto simp: corekit_destroy_executor_def)
qed

end
