(* ===== verification/CK_Shm_Posix.thy ===== *)
theory CK_Shm_Posix
  imports CK_Shm_Backend
begin

text \<open>
  \<open>PosixShmBackend\<close> (\<open>src/ipc/shm_backend_posix.cpp\<close>): the shared-memory backend of the channel on
  POSIX systems. The system calls are a parameter; the locale \<open>posix_kernel\<close> states what they do to
  the descriptors, mappings and names a process holds. The lemmas show that the backend, and the
  channel on top of it, give back every descriptor, mapping and name they take, also when calls fail
  in the middle of an operation.
\<close>

section \<open>System calls\<close>

datatype shm_open_result = Shm_Opened int | Shm_Exists | Shm_Failed

text \<open>
  The two flag combinations of \<open>shm_open\<close> are two calls. \<open>errno_text\<close> is \<open>strerror(errno)\<close> at
  the moment it is read. \<open>mem_load\<close> and \<open>mem_store\<close> access the memory of a mapping.
\<close>

record 'w posix_calls =
  shm_open_new :: "string \<Rightarrow> 'w \<Rightarrow> shm_open_result \<times> 'w"
  shm_open_old :: "string \<Rightarrow> 'w \<Rightarrow> int option \<times> 'w"
  ftruncate :: "int \<Rightarrow> size_t \<Rightarrow> 'w \<Rightarrow> bool \<times> 'w"
  fstat_size :: "int \<Rightarrow> 'w \<Rightarrow> size_t option"
  mmap :: "size_t \<Rightarrow> int \<Rightarrow> 'w \<Rightarrow> u64 option \<times> 'w"
  munmap :: "u64 \<Rightarrow> size_t \<Rightarrow> 'w \<Rightarrow> 'w"
  close_fd :: "int \<Rightarrow> 'w \<Rightarrow> 'w"
  shm_unlink :: "string \<Rightarrow> 'w \<Rightarrow> 'w"
  errno_text :: "'w \<Rightarrow> string"
  mem_load :: "u64 \<Rightarrow> 'w \<Rightarrow> Region option"
  mem_store :: "u64 \<Rightarrow> Region \<Rightarrow> 'w \<Rightarrow> 'w"

section \<open>The backend\<close>

text \<open>\<open>base_\<close> is \<open>None\<close> for a null pointer.\<close>

record PosixShmBackend =
  ps_fd :: int
  ps_base :: "u64 option"
  ps_size :: size_t
  ps_shm_name :: string
  ps_is_owner :: bool

definition new_PosixShmBackend :: PosixShmBackend where
  "new_PosixShmBackend = \<lparr>ps_fd = - 1, ps_base = None, ps_size = 0, ps_shm_name = [], ps_is_owner = False\<rparr>"

definition NormalizeName :: "string \<Rightarrow> string" where
  "NormalizeName name = (if name \<noteq> [] \<and> name ! 0 = CHR ''/'' then name else ''/'' @ name)"

definition ps_Create ::
  "'w posix_calls \<Rightarrow> string \<Rightarrow> size_t \<Rightarrow> PosixShmBackend \<Rightarrow> 'w \<Rightarrow> Status \<times> PosixShmBackend \<times> 'w"
where
  "ps_Create k name sz b w =
     (if ps_base b \<noteq> None then (mkStatus kAlreadyInitialized ''already mapped'', b, w)
      else if sz = 0 then (mkStatus kInvalidArgument ''invalid size'', b, w)
      else let shm_name = NormalizeName name in
      case shm_open_new k shm_name w of
        (Shm_Exists, w1) \<Rightarrow> (mkStatus kAlreadyInitialized ''shared memory already exists'', b, w1)
      | (Shm_Failed, w1) \<Rightarrow> (mkStatus kIoError (''shm_open failed: '' @ errno_text k w1), b, w1)
      | (Shm_Opened fd, w1) \<Rightarrow>
          (case ftruncate k fd sz w1 of
             (False, w2) \<Rightarrow>
               (let w3 = shm_unlink k shm_name (close_fd k fd w2)
                in (mkStatus kIoError (''ftruncate failed: '' @ errno_text k w3), b, w3))
           | (True, w2) \<Rightarrow>
               (case mmap k sz fd w2 of
                  (None, w3) \<Rightarrow>
                    (let w4 = shm_unlink k shm_name (close_fd k fd w3)
                     in (mkStatus kIoError (''mmap failed: '' @ errno_text k w4), b, w4))
                | (Some mapped, w3) \<Rightarrow>
                    (Status_Ok,
                     \<lparr>ps_fd = fd, ps_base = Some mapped, ps_size = sz, ps_shm_name = shm_name,
                      ps_is_owner = True\<rparr>, w3))))"

text \<open>\<open>Open\<close> after the descriptor is there: the size to map, and the mapping.\<close>

definition ps_map_existing ::
  "'w posix_calls \<Rightarrow> string \<Rightarrow> size_t \<Rightarrow> int \<Rightarrow> PosixShmBackend \<Rightarrow> 'w \<Rightarrow> Status \<times> PosixShmBackend \<times> 'w"
where
  "ps_map_existing k shm_name min_size fd b w1 =
     (case (if min_size = 0 then fstat_size k fd w1 else Some min_size) of
        None \<Rightarrow> (mkStatus kIoError ''fstat failed'', b, close_fd k fd w1)
      | Some map_size \<Rightarrow>
          (case mmap k map_size fd w1 of
             (None, w2) \<Rightarrow>
               (let w3 = close_fd k fd w2
                in (mkStatus kIoError (''mmap failed: '' @ errno_text k w3), b, w3))
           | (Some mapped, w2) \<Rightarrow>
               (Status_Ok,
                \<lparr>ps_fd = fd, ps_base = Some mapped, ps_size = map_size, ps_shm_name = shm_name,
                 ps_is_owner = False\<rparr>, w2)))"

definition ps_Open ::
  "'w posix_calls \<Rightarrow> string \<Rightarrow> size_t \<Rightarrow> PosixShmBackend \<Rightarrow> 'w \<Rightarrow> Status \<times> PosixShmBackend \<times> 'w"
where
  "ps_Open k name min_size b w =
     (if ps_base b \<noteq> None then (mkStatus kAlreadyInitialized ''already mapped'', b, w)
      else let shm_name = NormalizeName name in
      case shm_open_old k shm_name w of
        (None, w1) \<Rightarrow> (mkStatus kNotFound (''shm_open failed: '' @ errno_text k w1), b, w1)
      | (Some fd, w1) \<Rightarrow> ps_map_existing k shm_name min_size fd b w1)"

definition ps_IsOpen :: "PosixShmBackend \<Rightarrow> bool" where
  "ps_IsOpen b \<longleftrightarrow> ps_base b \<noteq> None"

definition ps_Close :: "'w posix_calls \<Rightarrow> PosixShmBackend \<Rightarrow> 'w \<Rightarrow> PosixShmBackend \<times> 'w" where
  "ps_Close k b w =
     (let w1 = (case ps_base b of Some a \<Rightarrow> munmap k a (ps_size b) w | None \<Rightarrow> w);
          w2 = (if ps_fd b \<ge> 0 then close_fd k (ps_fd b) w1 else w1);
          w3 = (if ps_is_owner b \<and> ps_shm_name b \<noteq> [] then shm_unlink k (ps_shm_name b) w2 else w2)
      in (\<lparr>ps_fd = (if ps_fd b \<ge> 0 then - 1 else ps_fd b), ps_base = None, ps_size = 0, ps_shm_name = [],
           ps_is_owner = False\<rparr>, w3))"

text \<open>The virtual table the channel uses.\<close>

definition posix_backend :: "'w posix_calls \<Rightarrow> (PosixShmBackend, 'w) IShmBackend" where
  "posix_backend k =
     \<lparr>be_new = new_PosixShmBackend, be_create = ps_Create k, be_open = ps_Open k, be_close = ps_Close k,
      be_region = (\<lambda>b w. case ps_base b of None \<Rightarrow> None | Some a \<Rightarrow> mem_load k a w),
      be_store = (\<lambda>b reg w. case ps_base b of None \<Rightarrow> w | Some a \<Rightarrow> mem_store k a reg w)\<rparr>"

section \<open>The contract of the system calls\<close>

text \<open>What a process holds: descriptors, mappings, and the names of shared-memory objects.\<close>

record resources =
  held_fds :: "int set"
  held_maps :: "u64 set"
  shm_names :: "string set"

locale posix_kernel =
  fixes k :: "'w posix_calls" and res :: "'w \<Rightarrow> resources"
  assumes open_new: "shm_open_new k name w = (r, w') \<Longrightarrow>
      (case r of Shm_Opened fd \<Rightarrow> 0 \<le> fd \<and> fd \<notin> held_fds (res w) \<and> name \<notin> shm_names (res w) \<and>
           res w' = (res w)\<lparr>held_fds := insert fd (held_fds (res w)), shm_names := insert name (shm_names (res w))\<rparr>
       | _ \<Rightarrow> res w' = res w)"
    and open_old: "shm_open_old k name w = (r2, w') \<Longrightarrow>
      (case r2 of Some fd \<Rightarrow> 0 \<le> fd \<and> fd \<notin> held_fds (res w) \<and>
           res w' = (res w)\<lparr>held_fds := insert fd (held_fds (res w))\<rparr>
       | None \<Rightarrow> res w' = res w)"
    and truncate: "ftruncate k fd sz w = (ok, w') \<Longrightarrow> res w' = res w"
    and map_new: "mmap k sz fd w = (m, w') \<Longrightarrow>
      (case m of Some a \<Rightarrow> a \<notin> held_maps (res w) \<and> res w' = (res w)\<lparr>held_maps := insert a (held_maps (res w))\<rparr>
       | None \<Rightarrow> res w' = res w)"
    and unmap: "res (munmap k a sz w) = (res w)\<lparr>held_maps := held_maps (res w) - {a}\<rparr>"
    and close: "res (close_fd k fd w) = (res w)\<lparr>held_fds := held_fds (res w) - {fd}\<rparr>"
    and unlink: "res (shm_unlink k name w) = (res w)\<lparr>shm_names := shm_names (res w) - {name}\<rparr>"
    and store: "res (mem_store k a reg w) = res w"

text \<open>
  The backend in a state where the rest of the process holds \<open>r0\<close>: it holds exactly the descriptor,
  the mapping and, as owner, the name its fields record.
\<close>

definition ps_holds :: "resources \<Rightarrow> PosixShmBackend \<Rightarrow> resources \<Rightarrow> bool" where
  "ps_holds r0 b r \<longleftrightarrow>
     (case ps_base b of
        None \<Rightarrow> ps_fd b = - 1 \<and> \<not> ps_is_owner b \<and> r = r0
      | Some a \<Rightarrow> 0 \<le> ps_fd b \<and> ps_fd b \<notin> held_fds r0 \<and> a \<notin> held_maps r0 \<and>
          (ps_is_owner b \<longrightarrow> ps_shm_name b \<noteq> [] \<and> ps_shm_name b \<notin> shm_names r0) \<and>
          r = \<lparr>held_fds = insert (ps_fd b) (held_fds r0), held_maps = insert a (held_maps r0),
               shm_names = (if ps_is_owner b then insert (ps_shm_name b) (shm_names r0) else shm_names r0)\<rparr>)"

lemma ps_holds_new: "ps_holds r new_PosixShmBackend r"
  by (simp add: ps_holds_def new_PosixShmBackend_def)

lemma NormalizeName_nonempty: "NormalizeName name \<noteq> []"
  by (auto simp: NormalizeName_def)

context posix_kernel
begin

lemma Create_holds:
  assumes "ps_holds r0 b (res w)" "ps_Create k name sz b w = (st, b', w')"
  shows "ps_holds r0 b' (res w') \<and> (\<not> status_ok st \<longrightarrow> b' = b \<and> res w' = res w)"
proof (cases "ps_base b \<noteq> None \<or> sz = 0")
  case True
  with assms show ?thesis by (auto simp: ps_Create_def split: if_splits)
next
  case False
  let ?n = "NormalizeName name"
  have r: "res w = r0" using assms(1) False by (simp add: ps_holds_def)
  obtain o1 w1 where o: "shm_open_new k ?n w = (o1, w1)" by fastforce
  show ?thesis
  proof (cases o1)
    case (Shm_Opened fd)
    note c1 = open_new [OF o, unfolded Shm_Opened shm_open_result.case]
    obtain ok w2 where t: "ftruncate k fd sz w1 = (ok, w2)" by fastforce
    obtain m w3 where mm: "mmap k sz fd w2 = (m, w3)" by fastforce
    note c2 = truncate [OF t] and c3 = map_new [OF mm]
    have undo: "res (shm_unlink k ?n (close_fd k fd v)) = res w" if "res v = res w1" for v
      using that c1 by (simp add: unlink close r)
    show ?thesis
      using assms False o Shm_Opened t mm c1 c2 c3 undo NormalizeName_nonempty [of name]
      by (cases ok; cases m) (auto simp: ps_Create_def ps_holds_def r Let_def)
  next
    case Shm_Exists
    with assms False o open_new [OF o] show ?thesis by (auto simp: ps_Create_def Let_def)
  next
    case Shm_Failed
    with assms False o open_new [OF o] show ?thesis by (auto simp: ps_Create_def Let_def)
  qed
qed

lemma Open_holds:
  assumes "ps_holds r0 b (res w)" "ps_Open k name sz b w = (st, b', w')"
  shows "ps_holds r0 b' (res w') \<and> (\<not> status_ok st \<longrightarrow> b' = b \<and> res w' = res w)"
proof (cases "ps_base b")
  case (Some a)
  with assms show ?thesis by (auto simp: ps_Open_def)
next
  case None
  let ?n = "NormalizeName name"
  have r: "res w = r0" using assms(1) None by (simp add: ps_holds_def)
  obtain o1 w1 where o: "shm_open_old k ?n w = (o1, w1)" by fastforce
  note c1 = open_old [OF o]
  show ?thesis
  proof (cases o1)
    case (Some fd)
    obtain m w2 where mm: "mmap k (if sz = 0 then the (fstat_size k fd w1) else sz) fd w1 = (m, w2)" by fastforce
    note c3 = map_new [OF mm]
    have undo: "res (close_fd k fd v) = res w" if "res v = res w1" for v
      using that c1 Some by (simp add: close r)
    have res: "(st, b', w') = ps_map_existing k ?n sz fd b w1"
      using assms(2) None o Some by (simp add: ps_Open_def)
    show ?thesis
    proof (cases "sz = 0 \<and> fstat_size k fd w1 = None")
      case True
      then show ?thesis using assms(1) res undo [of w1] by (simp add: ps_map_existing_def)
    next
      case False
      then show ?thesis
        using assms(1) res mm c1 c3 undo [of w2] Some r
        by (cases m) (auto simp: ps_map_existing_def ps_holds_def Let_def split: if_splits)
    qed
  next
    case None
    with assms o c1 \<open>ps_base b = None\<close> show ?thesis by (auto simp: ps_Open_def)
  qed
qed

lemma Close_holds:
  assumes "ps_holds r0 b (res w)" "ps_Close k b w = (b', w')"
  shows "ps_holds r0 b' (res w')" "ps_base b' = None" "res w' = r0"
proof -
  have "ps_base b' = None \<and> ps_fd b' = - 1 \<and> \<not> ps_is_owner b' \<and> res w' = r0"
    using assms by (cases "ps_base b") (auto simp: ps_Close_def ps_holds_def unmap close unlink Let_def)
  then show "ps_holds r0 b' (res w')" "ps_base b' = None" "res w' = r0"
    by (simp_all add: ps_holds_def)
qed

end

section \<open>The channel on this backend\<close>

lemma ps_ok_mapped:
  "ps_Create k name sz b w = (st, b', w') \<Longrightarrow> status_ok st \<Longrightarrow> ps_base b' \<noteq> None"
  "ps_Open k name sz b w = (st, b', w') \<Longrightarrow> status_ok st \<Longrightarrow> ps_base b' \<noteq> None"
  by (auto simp: ps_Create_def ps_Open_def ps_map_existing_def Let_def status_ok_def mkStatus_def
      split: if_splits shm_open_result.splits option.splits bool.splits prod.splits)

lemma be_calls:
  "be_new (posix_backend k) = new_PosixShmBackend"
  "be_create (posix_backend k) = ps_Create k" "be_open (posix_backend k) = ps_Open k"
  "be_close (posix_backend k) = ps_Close k"
  by (simp_all add: posix_backend_def)

sublocale posix_kernel \<subseteq> px: leak_free_backend "posix_backend k" res ps_holds ps_IsOpen
proof unfold_locales
  fix r r0 b w name sz st b' w' reg
  show "ps_holds r (be_new (posix_backend k)) r" by (simp add: be_calls ps_holds_new)
  show "\<not> ps_IsOpen (be_new (posix_backend k))" by (simp add: be_calls new_PosixShmBackend_def ps_IsOpen_def)
  show "r = r0" if "ps_holds r0 b r" "\<not> ps_IsOpen b" using that by (simp add: ps_holds_def ps_IsOpen_def)
  show "ps_holds r0 b' (res w') \<and> (if status_ok st then ps_IsOpen b' else b' = b \<and> res w' = res w)"
    if "ps_holds r0 b (res w)" "be_create (posix_backend k) name sz b w = (st, b', w')"
    using Create_holds [OF that(1) that(2) [unfolded be_calls]] ps_ok_mapped(1) [OF that(2) [unfolded be_calls]]
    by (simp add: ps_IsOpen_def)
  show "ps_holds r0 b' (res w') \<and> (if status_ok st then ps_IsOpen b' else b' = b \<and> res w' = res w)"
    if "ps_holds r0 b (res w)" "be_open (posix_backend k) name sz b w = (st, b', w')"
    using Open_holds [OF that(1) that(2) [unfolded be_calls]] ps_ok_mapped(2) [OF that(2) [unfolded be_calls]]
    by (simp add: ps_IsOpen_def)
  show "ps_holds r0 b' (res w') \<and> \<not> ps_IsOpen b' \<and> res w' = r0"
    if "ps_holds r0 b (res w)" "be_close (posix_backend k) b w = (b', w')"
    using Close_holds [OF that(1) that(2) [unfolded be_calls]] by (simp add: ps_IsOpen_def)
  show "res (be_store (posix_backend k) b reg w) = res w"
    by (simp add: posix_backend_def store split: option.split)
qed

context posix_kernel
begin

lemmas posix_resources = px.channel_resources
lemmas posix_closed = px.channel_closed
lemmas posix_deleted = px.channel_deleted

end


section \<open>An instance\<close>

text \<open>A process that numbers its descriptors and mappings; creating the name \<open>full\<close> runs out of space.\<close>

record sim_kernel =
  sim_res :: resources
  sim_next :: nat
  sim_mem :: "u64 \<Rightarrow> Region option"

definition sim_calls :: "sim_kernel posix_calls" where
  "sim_calls =
     \<lparr>shm_open_new = (\<lambda>name w. let fd = int (sim_next w); r = sim_res w in
         if name \<in> shm_names r then (Shm_Exists, w)
         else if fd \<in> held_fds r then (Shm_Failed, w)
         else (Shm_Opened fd, w\<lparr>sim_res := r\<lparr>held_fds := insert fd (held_fds r),
                 shm_names := insert name (shm_names r)\<rparr>, sim_next := sim_next w + 1\<rparr>)),
      shm_open_old = (\<lambda>name w. let fd = int (sim_next w); r = sim_res w in
         if name \<notin> shm_names r \<or> fd \<in> held_fds r then (None, w)
         else (Some fd, w\<lparr>sim_res := r\<lparr>held_fds := insert fd (held_fds r)\<rparr>, sim_next := sim_next w + 1\<rparr>)),
      ftruncate = (\<lambda>fd sz w. (''/corekit.full'' \<notin> shm_names (sim_res w), w)),
      fstat_size = (\<lambda>fd w. Some 4096),
      mmap = (\<lambda>sz fd w. let a = of_nat (sim_next w); r = sim_res w in
         if a \<in> held_maps r then (None, w)
         else (Some a, w\<lparr>sim_res := r\<lparr>held_maps := insert a (held_maps r)\<rparr>, sim_next := sim_next w + 1\<rparr>)),
      munmap = (\<lambda>a sz w. w\<lparr>sim_res := (sim_res w)\<lparr>held_maps := held_maps (sim_res w) - {a}\<rparr>\<rparr>),
      close_fd = (\<lambda>fd w. w\<lparr>sim_res := (sim_res w)\<lparr>held_fds := held_fds (sim_res w) - {fd}\<rparr>\<rparr>),
      shm_unlink = (\<lambda>name w. w\<lparr>sim_res := (sim_res w)\<lparr>shm_names := shm_names (sim_res w) - {name}\<rparr>\<rparr>),
      errno_text = (\<lambda>w. ''No space left on device''),
      mem_load = (\<lambda>a w. sim_mem w a),
      mem_store = (\<lambda>a reg w. w\<lparr>sim_mem := (sim_mem w)(a \<mapsto> reg)\<rparr>)\<rparr>"

interpretation sim: posix_kernel sim_calls sim_res
  by unfold_locales (auto simp: sim_calls_def Let_def split: if_splits)

definition sim_start :: sim_kernel where
  "sim_start = \<lparr>sim_res = \<lparr>held_fds = {0, 1, 2}, held_maps = {}, shm_names = {}\<rparr>, sim_next = 3, sim_mem = Map.empty\<rparr>"

definition full_options :: ChannelOptions where
  "full_options = default_options\<lparr>opt_name := ''full''\<rparr>"


end
