(* ===== verification/CK_CApi.thy ===== *)
theory CK_CApi
  imports CK_Executor_Helpers CK_Shm_Posix CK_Shm_Win32 CK_File CK_SlabPool CK_LogManager CK_Allocator
begin

text \<open>
  The C functions that create and destroy components (\<open>src/api/c_api.cpp\<close>; those of the executor are in
  \<open>CK_Executor_Helpers\<close>) and the function behind the log macros (\<open>include/corekit/log/log_macros.hpp\<close>).
  \<open>new\<close> is assumed to find memory; a null pointer given to a destroy function is \<open>None\<close>. A channel
  takes nothing from the process that its destruction does not give back.
\<close>

section \<open>Versions\<close>

definition kApiVersion :: u32 where
  "kApiVersion = (let major = 2; minor = 0; patch = 0 in or (or (push_bit 16 major) (push_bit 8 minor)) patch)"

definition corekit_get_api_version :: u32 where
  "corekit_get_api_version = kApiVersion"

text \<open>Major, minor and patch number as a caller reads them from the packed version.\<close>

lemma api_version_fields:
  "drop_bit 16 corekit_get_api_version = 2" "and (drop_bit 8 corekit_get_api_version) 0xFF = 0"
  "and corekit_get_api_version 0xFF = 0"
  by (simp_all add: corekit_get_api_version_def kApiVersion_def)

section \<open>Creating and destroying\<close>

definition corekit_create_ipc_channel :: "'b Channel" where
  "corekit_create_ipc_channel = SharedMemoryChannel"

definition corekit_destroy_ipc_channel :: "('b, 'w) IShmBackend \<Rightarrow> 'b Channel option \<Rightarrow> 'w \<Rightarrow> 'w" where
  "corekit_destroy_ipc_channel bk channel w =
     (case channel of None \<Rightarrow> w | Some ch \<Rightarrow> delete_SharedMemoryChannel bk ch w)"

definition corekit_create_allocator :: Allocator where
  "corekit_create_allocator = SystemAllocator"

text \<open>The pools of a process are a list; the pointer is the position.\<close>

definition corekit_create_memory_pool :: "'h World \<Rightarrow> nat \<times> 'h World" where
  "corekit_create_memory_pool w = (length (pools w), w\<lparr>pools := pools w @ [SlabPoolImpl None]\<rparr>)"

definition corekit_destroy_memory_pool :: "'h Libs \<Rightarrow> nat option \<Rightarrow> 'h World \<Rightarrow> 'h World option" where
  "corekit_destroy_memory_pool libs p w =
     (case p of None \<Rightarrow> Some w | Some i \<Rightarrow> delete_pool libs (length (pools w)) i w)"

definition corekit_create_task_graph :: "'w TaskGraph" where
  "corekit_create_task_graph = SimpleTaskGraph"

definition corekit_create_file :: StdFile where
  "corekit_create_file = new_StdFile"

definition corekit_destroy_file :: "fault \<Rightarrow> StdFile option \<Rightarrow> disk \<Rightarrow> disk" where
  "corekit_destroy_file flt f d = (case f of None \<Rightarrow> d | Some s \<Rightarrow> delete_StdFile flt s d)"

section \<open>Log macros\<close>

text \<open>The macros pass a logger, which may be null, and the place in the source.\<close>

definition CorekitLogWrite ::
  "'fs log_env \<Rightarrow> bool \<Rightarrow> LogSeverity \<Rightarrow> string \<Rightarrow> string \<Rightarrow> int \<Rightarrow> 'fs LogState \<Rightarrow> 'fs LogState"
where
  "CorekitLogWrite env logger_null severity message file line s =
     (if logger_null then s else snd (LogWithSource env severity message (Some file) line s))"

section \<open>The life of a channel\<close>

text \<open>
  A channel that is created, opened and closed in any way and destroyed leaves the process with the
  resources it had before, over system calls that behave as POSIX or as the Windows API documents.
\<close>

theorem ipc_channel_lifecycle_posix:
  assumes "posix_kernel k res" and "do_chan_ops (posix_backend k) ops corekit_create_ipc_channel w = Some (ch, w')"
  shows "res (corekit_destroy_ipc_channel (posix_backend k) (Some ch) w') = res w"
  using posix_kernel.posix_deleted [OF assms [unfolded corekit_create_ipc_channel_def]]
  by (simp add: corekit_destroy_ipc_channel_def)

theorem ipc_channel_lifecycle_win32:
  assumes "win32_kernel k res" and "do_chan_ops (win32_backend k) ops corekit_create_ipc_channel w = Some (ch, w')"
  shows "res (corekit_destroy_ipc_channel (win32_backend k) (Some ch) w') = res w"
  using win32_kernel.win32_deleted [OF assms [unfolded corekit_create_ipc_channel_def]]
  by (simp add: corekit_destroy_ipc_channel_def)

end
