(* ===== verification/CK_Handle.thy ===== *)
theory CK_Handle
  imports CK_Prelude "HOL-Library.Multiset"
begin

text \<open>
  \<open>UniqueHandle\<close> (\<open>include/corekit/api/unique_handle.hpp\<close>): the move-only owner of a component. The
  state is the list of the handle objects of a program, each with its pointer, and the sequence of
  \<open>Release()\<close> calls made. The theorem accounts for every pointer that was put into a handle.
\<close>

section \<open>Handles\<close>

type_synonym ptr = nat

text \<open>A handle holds a pointer or null; \<open>released\<close> is the list of \<open>ptr->Release()\<close> calls so far.\<close>

record handles =
  hs :: "ptr option list"
  released :: "ptr list"

definition handle_Reset :: "nat \<Rightarrow> ptr option \<Rightarrow> handles \<Rightarrow> handles" where
  "handle_Reset i p s =
     (let s1 = (case hs s ! i of Some q \<Rightarrow> s\<lparr>released := released s @ [q]\<rparr> | None \<Rightarrow> s)
      in s1\<lparr>hs := (hs s1)[i := p]\<rparr>)"

definition handle_new :: "ptr option \<Rightarrow> handles \<Rightarrow> handles" where
  "handle_new p s = s\<lparr>hs := hs s @ [p]\<rparr>"

definition handle_delete :: "nat \<Rightarrow> handles \<Rightarrow> handles" where
  "handle_delete i s = handle_Reset i None s"

text \<open>The move constructor makes a new handle from handle \<open>j\<close>.\<close>

definition handle_move :: "nat \<Rightarrow> handles \<Rightarrow> handles" where
  "handle_move j s = s\<lparr>hs := (hs s)[j := None] @ [hs s ! j]\<rparr>"

definition handle_assign :: "nat \<Rightarrow> nat \<Rightarrow> handles \<Rightarrow> handles" where
  "handle_assign i j s =
     (if i \<noteq> j then
        let s1 = handle_Reset i None s
        in s1\<lparr>hs := (hs s1)[i := hs s1 ! j, j := None]\<rparr>
      else s)"

definition handle_Get :: "nat \<Rightarrow> handles \<Rightarrow> ptr option" where
  "handle_Get i s = hs s ! i"

definition handle_Detach :: "nat \<Rightarrow> handles \<Rightarrow> ptr option \<times> handles" where
  "handle_Detach i s = (hs s ! i, s\<lparr>hs := (hs s)[i := None]\<rparr>)"

section \<open>Programs\<close>

datatype handle_op =
    H_New "ptr option"
  | H_Move nat
  | H_Assign nat nat
  | H_Reset nat "ptr option"
  | H_Detach nat
  | H_Delete nat

fun op_indices :: "handle_op \<Rightarrow> nat set" where
  "op_indices (H_New p) = {}"
| "op_indices (H_Move j) = {j}"
| "op_indices (H_Assign i j) = {i, j}"
| "op_indices (H_Reset i p) = {i}"
| "op_indices (H_Detach i) = {i}"
| "op_indices (H_Delete i) = {i}"

text \<open>The pointers an operation puts into handles, and the ones it gives back to the caller.\<close>

fun op_takes :: "handle_op \<Rightarrow> ptr list" where
  "op_takes (H_New p) = (case p of None \<Rightarrow> [] | Some q \<Rightarrow> [q])"
| "op_takes (H_Reset i p) = (case p of None \<Rightarrow> [] | Some q \<Rightarrow> [q])"
| "op_takes _ = []"

fun handle_step :: "handle_op \<Rightarrow> handles \<Rightarrow> ptr list \<times> handles" where
  "handle_step (H_New p) s = ([], handle_new p s)"
| "handle_step (H_Move j) s = ([], handle_move j s)"
| "handle_step (H_Assign i j) s = ([], handle_assign i j s)"
| "handle_step (H_Reset i p) s = ([], handle_Reset i p s)"
| "handle_step (H_Detach i) s =
     (let (p, s') = handle_Detach i s in (case p of None \<Rightarrow> [] | Some q \<Rightarrow> [q], s'))"
| "handle_step (H_Delete i) s = ([], handle_delete i s)"

text \<open>
  \<open>handle_run taken given s\<close>: some program that only uses existing handles leads to \<open>s\<close>; it put
  the pointers \<open>taken\<close> into handles and detached the pointers \<open>given\<close>.
\<close>

inductive handle_run :: "ptr list \<Rightarrow> ptr list \<Rightarrow> handles \<Rightarrow> bool" where
  start: "handle_run [] [] \<lparr>hs = [], released = []\<rparr>"
| step: "handle_run taken given s \<Longrightarrow> \<forall>i \<in> op_indices op. i < length (hs s) \<Longrightarrow>
     handle_step op s = (out, s') \<Longrightarrow> handle_run (taken @ op_takes op) (given @ out) s'"

definition opt_mset :: "ptr option \<Rightarrow> ptr multiset" where
  "opt_mset p = (case p of None \<Rightarrow> {#} | Some q \<Rightarrow> {#q#})"

definition held :: "handles \<Rightarrow> ptr multiset" where
  "held s = sum_list (map opt_mset (hs s))"

lemma opt_mset_simps [simp]: "opt_mset None = {#}" "opt_mset (Some q) = {#q#}"
  by (simp_all add: opt_mset_def)

lemma mset_case_option: "mset (case p of None \<Rightarrow> [] | Some q \<Rightarrow> [q]) = opt_mset p"
  by (cases p) simp_all

lemma sum_list_update_opt:
  "i < length xs \<Longrightarrow>
     sum_list (map opt_mset (xs[i := v])) + opt_mset (xs ! i) = sum_list (map opt_mset xs) + opt_mset v"
  by (induction xs arbitrary: i) (auto split: nat.split simp: algebra_simps)

lemma held_update:
  "i < length (hs s) \<Longrightarrow> held (s\<lparr>hs := (hs s)[i := v]\<rparr>) + opt_mset (hs s ! i) = held s + opt_mset v"
  unfolding held_def by (simp add: sum_list_update_opt)

text \<open>Every pointer in a handle or already released.\<close>

definition owned :: "handles \<Rightarrow> ptr multiset" where
  "owned s = held s + mset (released s)"

lemma Reset_owned: "i < length (hs s) \<Longrightarrow> owned (handle_Reset i p s) = owned s + opt_mset p"
  using held_update [of i s p]
  by (cases "hs s ! i") (simp_all add: handle_Reset_def owned_def held_def algebra_simps)

lemma Reset_length [simp]: "length (hs (handle_Reset i p s)) = length (hs s)"
  by (simp add: handle_Reset_def Let_def split: option.split)

lemma Reset_nth: "i < length (hs s) \<Longrightarrow> j \<noteq> i \<Longrightarrow> hs (handle_Reset i p s) ! j = hs s ! j"
  "i < length (hs s) \<Longrightarrow> hs (handle_Reset i p s) ! i = p"
  by (simp_all add: handle_Reset_def Let_def split: option.split)

lemma new_owned: "owned (handle_new p s) = owned s + opt_mset p"
  by (simp add: handle_new_def owned_def held_def)

lemma sum_list_empty: "\<forall>x \<in> set xs. x = {#} \<Longrightarrow> sum_list xs = ({#} :: 'a multiset)"
  by (induction xs) auto

lemma move_owned: "j < length (hs s) \<Longrightarrow> owned (handle_move j s) = owned s"
  using held_update [of j s None] by (simp add: handle_move_def owned_def held_def algebra_simps)

lemma assign_owned:
  assumes "i < length (hs s)" "j < length (hs s)"
  shows "owned (handle_assign i j s) = owned s"
proof (cases "i = j")
  case False
  let ?s1 = "handle_Reset i None s"
  let ?s2 = "?s1\<lparr>hs := (hs ?s1)[i := hs ?s1 ! j]\<rparr>"
  have "owned ?s1 = owned s" using Reset_owned [OF assms(1)] by simp
  moreover have "held ?s2 = held ?s1 + opt_mset (hs ?s1 ! j)"
    using held_update [of i ?s1 "hs ?s1 ! j"] assms(1) by (simp add: Reset_nth)
  moreover have "held (?s2\<lparr>hs := (hs ?s2)[j := None]\<rparr>) + opt_mset (hs ?s1 ! j) = held ?s2"
    using held_update [of j ?s2 None] assms False by simp
  ultimately show ?thesis using False by (simp add: handle_assign_def Let_def owned_def)
qed (simp add: handle_assign_def)

lemma step_owned:
  assumes "\<forall>i \<in> op_indices op. i < length (hs s)" "handle_step op s = (out, s')"
  shows "owned s' + mset out = owned s + mset (op_takes op)"
proof (cases op)
  case (H_Detach i)
  with assms held_update [of i s None] show ?thesis
    by (auto simp: handle_Detach_def owned_def mset_case_option algebra_simps)
qed (use assms in \<open>auto simp: new_owned move_owned assign_owned Reset_owned handle_delete_def
       mset_case_option\<close>)

lemma run_owned: "handle_run taken given s \<Longrightarrow> owned s + mset given = mset taken"
proof (induction rule: handle_run.induct)
  case start
  then show ?case by (simp add: owned_def held_def)
next
  case (step taken given s op out s')
  have "owned s' + mset out + mset given = owned s + mset given + mset (op_takes op)"
    using step_owned [OF step(2,3)] by (simp add: ac_simps)
  with step(4) show ?case by (simp add: ac_simps)
qed

text \<open>
  Whatever program of constructions, moves, assignments, resets, detachments and destructions is
  run on handles, every pointer that was put into a handle is, as often as it was put in, either held by
  a handle, released, or detached. So when each pointer was put in once, no component is released
  twice or while a handle holds it, and once no handle holds a pointer, everything that was not
  detached has been released.
\<close>

theorem unique_handle_releases_once:
  assumes "handle_run taken given s" "distinct taken"
  shows "distinct (released s) \<and> (\<forall>i < length (hs s). \<forall>p. handle_Get i s = Some p \<longrightarrow> p \<notin> set (released s) \<union> set given) \<and>
    ((\<forall>i < length (hs s). handle_Get i s = None) \<longrightarrow> set (released s) = set taken - set given)"
proof -
  obtain hl where hl: "held s = mset hl" using ex_mset by metis
  have all: "mset (hl @ released s @ given) = mset taken"
    using run_owned [OF assms(1)] by (simp add: owned_def hl ac_simps)
  then have d: "distinct (hl @ released s @ given)" and set_eq: "set hl \<union> set (released s) \<union> set given = set taken"
    using assms(2) mset_eq_imp_distinct_iff [OF all] mset_eq_setD [OF all] by auto
  have held_mem: "p \<in> set hl" if "i < length (hs s)" "handle_Get i s = Some p" for i p
  proof -
    have "opt_mset (hs s ! i) \<subseteq># held s"
      using held_update [of i s None] that(1) by (metis add.right_neutral mset_subset_eq_add_right opt_mset_simps(1))
    then show ?thesis using that(2) hl by (simp add: handle_Get_def)
  qed
  have none: "hl = []" if "\<forall>i < length (hs s). handle_Get i s = None"
  proof -
    have "\<forall>x \<in> set (map opt_mset (hs s)). x = {#}" using that by (auto simp: in_set_conv_nth handle_Get_def)
    then have "held s = {#}" unfolding held_def by (rule sum_list_empty)
    then show ?thesis using hl by simp
  qed
  have "p \<notin> set (released s) \<union> set given" if "i < length (hs s)" "handle_Get i s = Some p" for i p
    using d held_mem [OF that] by auto
  moreover have "set (released s) = set taken - set given" if "\<forall>i < length (hs s). handle_Get i s = None"
    using d set_eq none [OF that] by auto
  ultimately show ?thesis using d by auto
qed

lemma sample_handles:
  "handle_run [10, 20] [] \<lparr>hs = [None, None], released = [20, 10]\<rparr>"
proof -
  have 1: "handle_run [10] [] \<lparr>hs = [Some 10], released = []\<rparr>"
    using handle_run.step [OF handle_run.start, of "H_New (Some 10)"] by (simp add: handle_new_def)
  have 2: "handle_run [10, 20] [] \<lparr>hs = [Some 10, Some 20], released = []\<rparr>"
    using handle_run.step [OF 1, of "H_New (Some 20)"] by (simp add: handle_new_def)
  have 3: "handle_run [10, 20] [] \<lparr>hs = [None, Some 10], released = [20]\<rparr>"
    using handle_run.step [OF 2, of "H_Assign 1 0"] by (simp add: handle_assign_def handle_Reset_def)
  show ?thesis
    using handle_run.step [OF 3, of "H_Delete 1"] by (simp add: handle_delete_def handle_Reset_def)
qed

lemma unique_handle_releases_once_witness: "set [20, 10 :: ptr] = {10, 20} - {}"
  using unique_handle_releases_once [OF sample_handles]
  by (simp add: handle_Get_def nth_Cons' numeral_2_eq_2 less_Suc_eq)

end
