(* ===== verification/CK_Xml.thy ===== *)
theory CK_Xml
  imports CK_Status
begin

text \<open>
  XML documents (\<open>src/xml/tinyxml2_doc_impl.cpp\<close>): the node and document interface over tinyxml2.
  tinyxml2 is not in the repository, so its document is a parameter: a record of the calls the code
  makes. The locale \<open>xml_dom\<close> states what its documentation promises about the child elements of an
  element. The lemmas specify iteration, removal, path queries and the translation of error codes.
\<close>

section \<open>The calls into tinyxml2\<close>

text \<open>
  An element pointer is an \<open>elem\<close>, an attribute pointer an \<open>attr\<close>; a null result is \<open>None\<close>. A tag argument
  of \<open>None\<close> is the call without a name. \<open>live\<close> is the set of elements that have not been deleted.
\<close>

type_synonym elem = nat
type_synonym attr = nat

datatype XMLError =
    XML_SUCCESS
  | XML_ERROR_FILE_NOT_FOUND
  | XML_ERROR_FILE_COULD_NOT_BE_OPENED
  | XML_ERROR_FILE_READ_ERROR
  | XML_OTHER_ERROR nat

record 'd tinyxml2 =
  RootElement :: "'d \<Rightarrow> elem option"
  ElementName :: "'d \<Rightarrow> elem \<Rightarrow> string option"
  GetText :: "'d \<Rightarrow> elem \<Rightarrow> string option"
  Attribute :: "'d \<Rightarrow> elem \<Rightarrow> string \<Rightarrow> string option"
  FirstAttribute :: "'d \<Rightarrow> elem \<Rightarrow> attr option"
  NextAttribute :: "'d \<Rightarrow> attr \<Rightarrow> attr option"
  AttributeName :: "'d \<Rightarrow> attr \<Rightarrow> string option"
  AttributeValue :: "'d \<Rightarrow> attr \<Rightarrow> string option"
  FirstChildElement :: "'d \<Rightarrow> elem \<Rightarrow> string option \<Rightarrow> elem option"
  NextSiblingElement :: "'d \<Rightarrow> elem \<Rightarrow> string option \<Rightarrow> elem option"
  call_SetText :: "elem \<Rightarrow> string \<Rightarrow> 'd \<Rightarrow> 'd"
  SetAttribute :: "elem \<Rightarrow> string \<Rightarrow> string \<Rightarrow> 'd \<Rightarrow> 'd"
  DeleteAttribute :: "elem \<Rightarrow> string \<Rightarrow> 'd \<Rightarrow> 'd"
  NewElement :: "string \<Rightarrow> 'd \<Rightarrow> elem \<times> 'd"
  InsertEndChild :: "elem \<Rightarrow> elem \<Rightarrow> 'd \<Rightarrow> 'd"
  DeleteChild :: "elem \<Rightarrow> elem \<Rightarrow> 'd \<Rightarrow> 'd"
  DeleteChildren :: "elem \<Rightarrow> 'd \<Rightarrow> 'd"
  InsertEndRoot :: "elem \<Rightarrow> 'd \<Rightarrow> 'd"
  DeleteRoot :: "elem \<Rightarrow> 'd \<Rightarrow> 'd"
  LoadFile :: "string \<Rightarrow> 'd \<Rightarrow> XMLError \<times> 'd"
  ParseText :: "string \<Rightarrow> 'd \<Rightarrow> XMLError \<times> 'd"
  SaveFile :: "string \<Rightarrow> 'd \<Rightarrow> XMLError"
  PrintDoc :: "'d \<Rightarrow> string"
  ErrorStr :: "'d \<Rightarrow> string option"
  error_number :: "XMLError \<Rightarrow> nat"
  live :: "'d \<Rightarrow> elem set"

section \<open>Nodes\<close>

definition SafeStr :: "string option \<Rightarrow> string" where
  "SafeStr s = (case s of None \<Rightarrow> [] | Some t \<Rightarrow> t)"

definition node_Name :: "'d tinyxml2 \<Rightarrow> elem \<Rightarrow> 'd \<Rightarrow> string" where
  "node_Name x e d = SafeStr (ElementName x d e)"

definition node_Text :: "'d tinyxml2 \<Rightarrow> elem \<Rightarrow> 'd \<Rightarrow> string" where
  "node_Text x e d = SafeStr (GetText x d e)"

definition node_Attr :: "'d tinyxml2 \<Rightarrow> elem \<Rightarrow> string \<Rightarrow> string \<Rightarrow> 'd \<Rightarrow> string" where
  "node_Attr x e name default_val d =
     (case Attribute x d e name of Some v \<Rightarrow> v | None \<Rightarrow> default_val)"

definition node_HasAttr :: "'d tinyxml2 \<Rightarrow> elem \<Rightarrow> string \<Rightarrow> 'd \<Rightarrow> bool" where
  "node_HasAttr x e name d \<longleftrightarrow> Attribute x d e name \<noteq> None"

text \<open>The loops over attributes and children; \<open>None\<close> would be a list that does not end.\<close>

partial_function (option) attr_loop :: "'d tinyxml2 \<Rightarrow> 'd \<Rightarrow> attr option \<Rightarrow> (string \<times> string) list option" where
  "attr_loop x d a =
     (case a of
        None \<Rightarrow> Some []
      | Some b \<Rightarrow>
          Option.bind (attr_loop x d (NextAttribute x d b))
            (\<lambda>r. Some ((SafeStr (AttributeName x d b), SafeStr (AttributeValue x d b)) # r)))"

definition node_Attrs :: "'d tinyxml2 \<Rightarrow> elem \<Rightarrow> 'd \<Rightarrow> (string \<times> string) list option" where
  "node_Attrs x e d = attr_loop x d (FirstAttribute x d e)"

definition tag_arg :: "string \<Rightarrow> string option" where
  "tag_arg tag = (if tag = [] then None else Some tag)"

definition node_FirstChild :: "'d tinyxml2 \<Rightarrow> elem \<Rightarrow> string \<Rightarrow> 'd \<Rightarrow> elem option" where
  "node_FirstChild x e tag d = FirstChildElement x d e (tag_arg tag)"

definition node_NextSibling :: "'d tinyxml2 \<Rightarrow> elem \<Rightarrow> string \<Rightarrow> 'd \<Rightarrow> elem option" where
  "node_NextSibling x e tag d = NextSiblingElement x d e (tag_arg tag)"

partial_function (option) child_loop ::
  "'d tinyxml2 \<Rightarrow> 'd \<Rightarrow> string option \<Rightarrow> elem option \<Rightarrow> elem list option"
where
  "child_loop x d tag c =
     (case c of
        None \<Rightarrow> Some []
      | Some e \<Rightarrow>
          Option.bind (child_loop x d tag (NextSiblingElement x d e tag)) (\<lambda>r. Some (e # r)))"

definition node_Children :: "'d tinyxml2 \<Rightarrow> elem \<Rightarrow> string \<Rightarrow> 'd \<Rightarrow> elem list option" where
  "node_Children x e tag d = child_loop x d (tag_arg tag) (FirstChildElement x d e (tag_arg tag))"

definition node_SetText :: "'d tinyxml2 \<Rightarrow> elem \<Rightarrow> string \<Rightarrow> 'd \<Rightarrow> 'd" where
  "node_SetText x e t d = call_SetText x e t d"

definition node_SetAttr :: "'d tinyxml2 \<Rightarrow> elem \<Rightarrow> string \<Rightarrow> string \<Rightarrow> 'd \<Rightarrow> 'd" where
  "node_SetAttr x e name v d = SetAttribute x e name v d"

definition node_RemoveAttr :: "'d tinyxml2 \<Rightarrow> elem \<Rightarrow> string \<Rightarrow> 'd \<Rightarrow> 'd" where
  "node_RemoveAttr x e name d = DeleteAttribute x e name d"

definition node_AppendChild :: "'d tinyxml2 \<Rightarrow> elem \<Rightarrow> string \<Rightarrow> 'd \<Rightarrow> elem \<times> 'd" where
  "node_AppendChild x e tag d = (let (c, d1) = NewElement x tag d in (c, InsertEndChild x e c d1))"

definition node_RemoveFirstChild :: "'d tinyxml2 \<Rightarrow> elem \<Rightarrow> string \<Rightarrow> 'd \<Rightarrow> bool \<times> 'd" where
  "node_RemoveFirstChild x e tag d =
     (case FirstChildElement x d e (Some tag) of
        None \<Rightarrow> (False, d)
      | Some c \<Rightarrow> (True, DeleteChild x e c d))"

definition delete_each :: "'d tinyxml2 \<Rightarrow> elem \<Rightarrow> elem list \<Rightarrow> 'd \<Rightarrow> 'd" where
  "delete_each x e cs d = foldl (\<lambda>d c. DeleteChild x e c d) d cs"

definition node_RemoveAllChildren :: "'d tinyxml2 \<Rightarrow> elem \<Rightarrow> string \<Rightarrow> 'd \<Rightarrow> 'd option" where
  "node_RemoveAllChildren x e tag d =
     (if tag = [] then Some (DeleteChildren x e d)
      else map_option (\<lambda>to_delete. delete_each x e to_delete d)
             (child_loop x d (Some tag) (FirstChildElement x d e (Some tag))))"

section \<open>Documents\<close>

definition xml_status :: "StatusCode \<Rightarrow> string \<Rightarrow> Status" where
  "xml_status code msg = Status_FromModule code msg kXml 0"

definition TranslateError :: "'d tinyxml2 \<Rightarrow> XMLError \<Rightarrow> 'd \<Rightarrow> Status" where
  "TranslateError x err d =
     (if err = XML_SUCCESS then Status_Ok
      else let msg = (case ErrorStr x d of Some raw \<Rightarrow> raw | None \<Rightarrow> ''xml error '' @ dec_string (error_number x err)) in
        if err = XML_ERROR_FILE_NOT_FOUND \<or> err = XML_ERROR_FILE_COULD_NOT_BE_OPENED \<or>
           err = XML_ERROR_FILE_READ_ERROR
        then xml_status kNotFound msg
        else xml_status kInvalidArgument msg)"

definition doc_LoadFromFile :: "'d tinyxml2 \<Rightarrow> string \<Rightarrow> 'd \<Rightarrow> Status \<times> 'd" where
  "doc_LoadFromFile x path d = (let (err, d1) = LoadFile x path d in (TranslateError x err d1, d1))"

definition doc_LoadFromString :: "'d tinyxml2 \<Rightarrow> string \<Rightarrow> 'd \<Rightarrow> Status \<times> 'd" where
  "doc_LoadFromString x txt d = (let (err, d1) = ParseText x txt d in (TranslateError x err d1, d1))"

definition doc_SaveToFile :: "'d tinyxml2 \<Rightarrow> string \<Rightarrow> 'd \<Rightarrow> Status" where
  "doc_SaveToFile x path d =
     (let err = SaveFile x path d in
      if err = XML_ERROR_FILE_COULD_NOT_BE_OPENED
      then xml_status kIoError (''xml file could not be opened for write: '' @ path)
      else TranslateError x err d)"

definition doc_ToString :: "'d tinyxml2 \<Rightarrow> 'd \<Rightarrow> string" where
  "doc_ToString x d = PrintDoc x d"

definition doc_Root :: "'d tinyxml2 \<Rightarrow> 'd \<Rightarrow> elem option" where
  "doc_Root x d = RootElement x d"

definition doc_CreateRoot :: "'d tinyxml2 \<Rightarrow> string \<Rightarrow> 'd \<Rightarrow> elem \<times> 'd" where
  "doc_CreateRoot x tag d =
     (let d1 = (case RootElement x d of Some r \<Rightarrow> DeleteRoot x r d | None \<Rightarrow> d);
          (root, d2) = NewElement x tag d1
      in (root, InsertEndRoot x root d2))"

text \<open>The segments that \<open>std::getline\<close> with separator \<open>/\<close> delivers, without the empty ones.\<close>

fun split_path :: "string \<Rightarrow> string \<Rightarrow> string list" where
  "split_path seg [] = (if seg = [] then [] else [seg])"
| "split_path seg (c # cs) =
     (if c = CHR ''/'' then (if seg = [] then split_path [] cs else seg # split_path [] cs)
      else split_path (seg @ [c]) cs)"

fun descend :: "'d tinyxml2 \<Rightarrow> 'd \<Rightarrow> elem \<Rightarrow> string list \<Rightarrow> elem option" where
  "descend x d cur [] = Some cur"
| "descend x d cur (p # ps) =
     (case FirstChildElement x d cur (Some p) of None \<Rightarrow> None | Some c \<Rightarrow> descend x d c ps)"

definition doc_Find :: "'d tinyxml2 \<Rightarrow> string \<Rightarrow> 'd \<Rightarrow> elem option" where
  "doc_Find x path d =
     (if path = [] then None
      else case split_path [] path of
          [] \<Rightarrow> None
        | p # ps \<Rightarrow>
            (case RootElement x d of
               None \<Rightarrow> None
             | Some cur \<Rightarrow> if SafeStr (ElementName x d cur) \<noteq> p then None else descend x d cur ps))"

section \<open>The contract of the library\<close>

definition matches :: "'d tinyxml2 \<Rightarrow> 'd \<Rightarrow> string option \<Rightarrow> elem \<Rightarrow> bool" where
  "matches x d tag c \<longleftrightarrow> (case tag of None \<Rightarrow> True | Some t \<Rightarrow> ElementName x d c = Some t)"

locale xml_dom =
  fixes x :: "'d tinyxml2" and kids :: "'d \<Rightarrow> elem \<Rightarrow> elem list"
  assumes kids_distinct: "distinct (kids d e)"
    and first_child: "FirstChildElement x d e tag = find (matches x d tag) (kids d e)"
    and next_sibling: "kids d e = pre @ c # post \<Longrightarrow> NextSiblingElement x d c tag = find (matches x d tag) post"
    and delete_child: "c \<in> set (kids d e) \<Longrightarrow>
      kids (DeleteChild x e c d) e = remove1 c (kids d e) \<and> live x (DeleteChild x e c d) \<subseteq> live x d - {c} \<and>
      (\<forall>b \<in> set (kids d e). b \<noteq> c \<longrightarrow> ElementName x (DeleteChild x e c d) b = ElementName x d b)"
    and delete_children: "kids (DeleteChildren x e d) e = []"
begin

lemma child_loop_filter:
  "kids d e = pre @ post \<Longrightarrow> child_loop x d tag (find (matches x d tag) post) = Some (filter (matches x d tag) post)"
proof (induction post arbitrary: pre)
  case Nil
  then show ?case by (simp add: child_loop.simps)
next
  case (Cons c post)
  have ih: "child_loop x d tag (find (matches x d tag) post) = Some (filter (matches x d tag) post)"
    using Cons(1) [of "pre @ [c]"] Cons(2) by simp
  have nx: "NextSiblingElement x d c tag = find (matches x d tag) post"
    by (rule next_sibling [OF Cons(2)])
  show ?case
  proof (cases "matches x d tag c")
    case True
    then show ?thesis using ih by (simp add: child_loop.simps [of x d tag "Some c"] nx)
  next
    case False
    then show ?thesis using ih by simp
  qed
qed

text \<open>\<open>Children\<close> returns, and delivers the matching child elements in document order.\<close>

lemma Children_filter: "node_Children x e tag d = Some (filter (matches x d (tag_arg tag)) (kids d e))"
  unfolding node_Children_def first_child by (rule child_loop_filter [of d e "[]"]) simp

lemma delete_each_kids:
  "set cs \<subseteq> set (kids d e) \<Longrightarrow> distinct cs \<Longrightarrow>
     kids (delete_each x e cs d) e = filter (\<lambda>b. b \<notin> set cs) (kids d e) \<and>
     live x (delete_each x e cs d) \<subseteq> live x d - set cs"
proof (induction cs arbitrary: d)
  case (Cons c cs)
  let ?d = "DeleteChild x e c d"
  have c: "c \<in> set (kids d e)" using Cons(2) by simp
  note dc = delete_child [OF c]
  have k: "kids ?d e = filter (\<lambda>b. b \<noteq> c) (kids d e)"
    using dc kids_distinct by (simp add: distinct_remove1_removeAll removeAll_filter_not_eq) (metis (full_types))
  then have "set cs \<subseteq> set (kids ?d e)" using Cons(2,3) by auto
  from Cons.IH [OF this] Cons(3)
  have "kids (delete_each x e cs ?d) e = filter (\<lambda>b. b \<notin> set cs) (kids ?d e)"
    "live x (delete_each x e cs ?d) \<subseteq> live x ?d - set cs" by simp_all
  moreover have "filter (\<lambda>b. b \<notin> set cs) (kids ?d e) = filter (\<lambda>b. b \<notin> set (c # cs)) (kids d e)"
    unfolding k by (simp add: conj_commute)
  ultimately show ?case using conjunct1 [OF conjunct2 [OF dc]] by (auto simp: delete_each_def)
qed (simp add: delete_each_def)

lemma RemoveAllChildren_tag:
  assumes "tag \<noteq> []"
  shows "\<exists>d'. node_RemoveAllChildren x e tag d = Some d' \<and>
    kids d' e = filter (\<lambda>c. \<not> matches x d (Some tag) c) (kids d e) \<and>
    live x d' \<inter> {c \<in> set (kids d e). matches x d (Some tag) c} = {}"
proof -
  let ?cs = "filter (matches x d (Some tag)) (kids d e)"
  have "child_loop x d (Some tag) (FirstChildElement x d e (Some tag)) = Some ?cs"
    unfolding first_child by (rule child_loop_filter [of d e "[]"]) simp
  moreover have "kids (delete_each x e ?cs d) e = filter (\<lambda>c. \<not> matches x d (Some tag) c) (kids d e)"
    "live x (delete_each x e ?cs d) \<inter> {c \<in> set (kids d e). matches x d (Some tag) c} = {}"
    using delete_each_kids [of ?cs d e] kids_distinct [of d e] by (auto intro!: filter_cong)
  ultimately show ?thesis using assms by (simp add: node_RemoveAllChildren_def)
qed

end

text \<open>
  Over a document library that behaves as documented, \<open>Children(tag)\<close> returns the child elements with
  this tag in document order, and \<open>RemoveAllChildren(tag)\<close> afterwards leaves exactly the other
  children, in order. The elements behind the nodes that \<open>Children\<close> returned are then deleted: the
  nodes still exist and point to them, although the interface states that a node stays valid until the
  document is destroyed.
\<close>

theorem xml_children_removed:
  assumes "xml_dom x kids" "tag \<noteq> []"
  shows "\<exists>cs d'. node_Children x e tag d = Some cs \<and>
    cs = filter (\<lambda>c. ElementName x d c = Some tag) (kids d e) \<and>
    node_RemoveAllChildren x e tag d = Some d' \<and>
    kids d' e = filter (\<lambda>c. ElementName x d c \<noteq> Some tag) (kids d e) \<and>
    (\<forall>c \<in> set cs. c \<notin> live x d')"
proof -
  have m: "matches x d (Some tag) = (\<lambda>c. ElementName x d c = Some tag)"
    by (simp add: matches_def fun_eq_iff)
  show ?thesis
    using xml_dom.RemoveAllChildren_tag [OF assms, of e d] xml_dom.Children_filter [OF assms(1), of e tag d] assms(2)
    by (auto simp: m tag_arg_def)
qed

section \<open>Errors\<close>

text \<open>The codes the interface documents for loading and saving.\<close>

lemma TranslateError_codes:
  "st_code (TranslateError x err d) =
     (case err of
        XML_SUCCESS \<Rightarrow> kOk
      | XML_OTHER_ERROR n \<Rightarrow> kInvalidArgument
      | _ \<Rightarrow> kNotFound)"
  by (cases err) (simp_all add: TranslateError_def xml_status_def Status_FromModule_def Status_Ok_def Let_def)

lemma SaveToFile_codes:
  "st_code (doc_SaveToFile x path d) =
     (case SaveFile x path d of
        XML_SUCCESS \<Rightarrow> kOk
      | XML_ERROR_FILE_COULD_NOT_BE_OPENED \<Rightarrow> kIoError
      | XML_OTHER_ERROR n \<Rightarrow> kInvalidArgument
      | _ \<Rightarrow> kNotFound)"
  by (cases "SaveFile x path d")
     (simp_all add: doc_SaveToFile_def TranslateError_codes, simp_all add: xml_status_def Status_FromModule_def)

section \<open>Paths\<close>

lemma split_path_segment:
  "CHR ''/'' \<notin> set p \<Longrightarrow> split_path seg (p @ rest) = split_path (seg @ p) rest"
  by (induction p arbitrary: seg) auto

lemma split_path_cons:
  "CHR ''/'' \<notin> set p \<Longrightarrow> p \<noteq> [] \<Longrightarrow> split_path [] (p @ CHR ''/'' # rest) = p # split_path [] rest"
  by (simp add: split_path_segment)

text \<open>A path written with its segments is split into them.\<close>

lemma split_path_segments:
  "\<forall>p \<in> set ps. CHR ''/'' \<notin> set p \<and> p \<noteq> [] \<Longrightarrow>
     split_path [] (concat (map (\<lambda>p. p @ ''/'') ps)) = ps"
  by (induction ps) (auto simp: split_path_cons)

lemma Find_segments:
  assumes "\<forall>q \<in> set (p # ps). CHR ''/'' \<notin> set q \<and> q \<noteq> []"
  shows "doc_Find x (concat (map (\<lambda>q. q @ ''/'') (p # ps))) d =
    (case RootElement x d of
       Some r \<Rightarrow> if SafeStr (ElementName x d r) = p then descend x d r ps else None
     | None \<Rightarrow> None)"
  using split_path_segments [OF assms] by (simp add: doc_Find_def split: option.split)

section \<open>An instance\<close>

text \<open>Documents with a root element 0 and children that have no children.\<close>

type_synonym flat_doc = "(elem \<times> string) list"

definition flat_kids :: "flat_doc \<Rightarrow> elem \<Rightarrow> elem list" where
  "flat_kids d e = (if e = 0 then remdups (map fst d) else [])"

definition flat_find :: "flat_doc \<Rightarrow> string option \<Rightarrow> elem list \<Rightarrow> elem option" where
  "flat_find d tag = find (\<lambda>c. case tag of None \<Rightarrow> True | Some t \<Rightarrow> map_of d c = Some t)"

definition flat_xml :: "flat_doc tinyxml2" where
  "flat_xml =
     \<lparr>RootElement = (\<lambda>d. Some 0), ElementName = (\<lambda>d e. map_of d e), GetText = (\<lambda>d e. None),
      Attribute = (\<lambda>d e n. None), FirstAttribute = (\<lambda>d e. None), NextAttribute = (\<lambda>d a. None),
      AttributeName = (\<lambda>d a. None), AttributeValue = (\<lambda>d a. None),
      FirstChildElement = (\<lambda>d e tag. flat_find d tag (flat_kids d e)),
      NextSiblingElement = (\<lambda>d c tag. flat_find d tag (tl (dropWhile (\<lambda>b. b \<noteq> c) (flat_kids d 0)))),
      call_SetText = (\<lambda>e t d. d), SetAttribute = (\<lambda>e n v d. d), DeleteAttribute = (\<lambda>e n d. d),
      NewElement = (\<lambda>t d. (Suc (sum_list (map fst d)), d)), InsertEndChild = (\<lambda>e c d. d @ [(c, [])]),
      DeleteChild = (\<lambda>e c d. filter (\<lambda>p. fst p \<noteq> c) d), DeleteChildren = (\<lambda>e d. []),
      InsertEndRoot = (\<lambda>e d. d), DeleteRoot = (\<lambda>e d. []),
      LoadFile = (\<lambda>p d. (XML_ERROR_FILE_NOT_FOUND, d)), ParseText = (\<lambda>t d. (XML_SUCCESS, [])),
      SaveFile = (\<lambda>p d. XML_SUCCESS), PrintDoc = (\<lambda>d. []), ErrorStr = (\<lambda>d. None),
      error_number = (\<lambda>e. 1), live = (\<lambda>d. fst ` set d)\<rparr>"

lemma flat_matches: "find (matches flat_xml d tag) xs = flat_find d tag xs"
proof -
  have "matches flat_xml d tag = (\<lambda>c. case tag of None \<Rightarrow> True | Some t \<Rightarrow> map_of d c = Some t)"
    by (cases tag) (simp_all add: fun_eq_iff matches_def flat_xml_def)
  then show ?thesis by (simp add: flat_find_def)
qed

lemma tl_dropWhile_split: "distinct (pre @ c # post) \<Longrightarrow> tl (dropWhile (\<lambda>b. b \<noteq> c) (pre @ c # post)) = post"
  by (induction pre) auto

lemma map_of_filter_fst: "b \<noteq> c \<Longrightarrow> map_of (filter (\<lambda>p. fst p \<noteq> c) d) b = map_of d b"
  by (induction d) auto

lemma remdups_filter_fst:
  "remdups (map fst (filter (\<lambda>p. fst p \<noteq> c) d)) = remove1 c (remdups (map fst d))"
  by (induction d) (auto simp: remove1_idem)

interpretation flat: xml_dom flat_xml flat_kids
proof unfold_locales
  fix d :: flat_doc and e
  show "distinct (flat_kids d e)" by (simp add: flat_kids_def)
  fix tag show "FirstChildElement flat_xml d e tag = find (matches flat_xml d tag) (flat_kids d e)"
    unfolding flat_matches by (simp add: flat_xml_def)
  show "flat_kids (DeleteChildren flat_xml e d) e = []" by (simp add: flat_xml_def flat_kids_def)
next
  fix d :: flat_doc and e pre c post tag
  assume k: "flat_kids d e = pre @ c # post"
  then have "e = 0" by (simp add: flat_kids_def split: if_splits)
  then have "flat_kids d 0 = pre @ c # post" using k by simp
  moreover from this have "distinct (pre @ c # post)" by (metis distinct_remdups flat_kids_def)
  ultimately show "NextSiblingElement flat_xml d c tag = find (matches flat_xml d tag) post"
    unfolding flat_matches by (simp add: flat_xml_def tl_dropWhile_split)
next
  fix c and d :: flat_doc and e
  assume "c \<in> set (flat_kids d e)"
  then show "flat_kids (DeleteChild flat_xml e c d) e = remove1 c (flat_kids d e) \<and>
      live flat_xml (DeleteChild flat_xml e c d) \<subseteq> live flat_xml d - {c} \<and>
      (\<forall>b\<in>set (flat_kids d e). b \<noteq> c \<longrightarrow> ElementName flat_xml (DeleteChild flat_xml e c d) b = ElementName flat_xml d b)"
    by (auto simp: flat_xml_def flat_kids_def remdups_filter_fst map_of_filter_fst)
qed

lemma xml_children_removed_witness:
  "\<exists>d'. node_RemoveAllChildren flat_xml 0 ''a'' [(1, ''a''), (2, ''b''), (3, ''a'')] = Some d' \<and> flat_kids d' 0 = [2]"
  using xml_children_removed [OF flat.xml_dom_axioms, of "''a''" 0 "[(1, ''a''), (2, ''b''), (3, ''a'')]"]
  by (auto simp: flat_kids_def flat_xml_def)

end
