(* ===== verification/Spec2Isabelle.thy ===== *)
theory Spec2Isabelle
  imports CK_Channel_Limits CK_Queues CK_Maps CK_TaskGraph_Exec CK_ParallelFor CK_ObjectPool CK_SystemPool CK_LogManager
    CK_LockFree CK_File CK_Shm_Win32 CK_CApi CK_Handle CK_Xml
begin

text \<open>
  \<^bold>\<open>Verification of corekit.\<close>

  corekit is a C++ runtime library: error codes, a shared-memory message channel, concurrent containers, a
  thread pool with a task graph, allocators with memory and object pools, a log manager, file I/O, and JSON and
  XML documents. This
  development translates its implementation files into executable HOL definitions and proves what makes
  them correct. Paths below are relative to \<open>src/\<close>.

  \<^bold>\<open>Conventions.\<close> A class is a record; a method is a function that takes the record and returns the updated
  one. Machine integers are words of their width, so additions wrap as in C++. A \<open>Status\<close> or \<open>Result\<close> is the record
  of \<open>CK_Status\<close>. \<open>None\<close> as the result of a call stands for undefined behaviour (an access outside an array, a
  dangling pointer) or, in \<open>partial_function\<close>, for a loop that does not end; the theorems prove that it does
  not occur. Exceptions of user code (copies, constructors, task bodies) are inputs. A section that the code
  runs under one mutex is one step. Code that is not in the repository is a parameter: the shared-memory
  backend as a record of operations, the C allocation libraries (\<open>malloc_ok\<close>), the JSON parser and printer, glog, the
  system calls of POSIX and Windows, the third-party queue and tinyxml2. What the code relies on is the locale of that parameter,
  interpreted on a concrete instance (\<open>posix_kernel\<close>, \<open>win32_kernel\<close>, \<open>directory_tree\<close>, \<open>concurrent_queue\<close>, \<open>xml_dom\<close>). Parts of the C and C++
  libraries are modelled where they are used (\<open>std::stoi\<close>, \<open>std::getline\<close>, the streams of \<open>stdio\<close>).

  \<^bold>\<open>Status\<close> (\<open>include/corekit/api/status.hpp\<close>, \<open>src/api/status.cpp\<close>): \<open>CK_Status\<close>. Packing of error codes is injective on its
  domain; the printed form determines the code; the catalogue lookup is exact.

  \<^bold>\<open>Channel\<close> (\<open>src/ipc/shared_memory_channel.cpp\<close>): \<open>CK_Channel\<close> holds the record of a channel endpoint, the shared region
  (header and ring of bytes) and every operation. \<open>CK_Channel_Ring\<close> relates the ring to the list of frames in it,
  \<open>CK_Channel_Open\<close> treats creation and mapping, \<open>CK_Channel_Api\<close> and \<open>CK_Channel_FIFO\<close> the public operations, \<open>CK_Channel_Props\<close>
  the properties (delivery in order without loss or duplication, progress for capacity at least two), and
  \<open>CK_Channel_Limits\<close> the opening handshake, \<open>NextPow2\<close>, and the configurations for which the channel cannot work. The two
  processes interleave at the granularity of the public operations. \<open>CK_Shm_Backend\<close> states what a shared-memory
  backend promises about the resources of the process as a locale (\<open>leak_free_backend\<close>) and proves that the channel on
  any such backend gives back what it takes; \<open>CK_Shm_Posix\<close> (\<open>src/ipc/shm_backend_posix.cpp\<close>) and \<open>CK_Shm_Win32\<close>
  (\<open>src/ipc/shm_backend_win32.cpp\<close>) show that the two backends keep the promise over their system calls.

  \<^bold>\<open>Containers\<close> (\<open>src/concurrent\<close>): \<open>CK_Fifo\<close> is the interface of a bounded queue as a locale, which \<open>CK_Queues\<close> interprets on
  the mutex queue and on the ring buffer; \<open>CK_Maps\<close> shows that the map and the set refine a partial function and a set.
  \<open>CK_Ordered\<close> holds the association lists that keep the order of insertion. \<open>CK_LockFree\<close>
  (\<open>moodycamel_queue_impl.hpp\<close>) treats the queue over the third-party lock-free one: its atomic steps interleave, and the
  separate size counter is related to the elements.

  \<^bold>\<open>Task graph\<close> (\<open>src/task/simple_task_graph.cpp\<close>): \<open>CK_TaskGraph\<close> is the model. \<open>CK_TaskGraph_Props\<close>: building keeps a graph
  well-formed and \<open>Validate\<close> accepts exactly the acyclic graphs. \<open>CK_TaskGraph_Run\<close>: inline runs respect the dependencies.
  \<open>CK_TaskGraph_Exec\<close> states what a run needs of an executor as locales (\<open>task_executor\<close>, \<open>graph_executor\<close>, \<open>reliable_executor\<close>).

  \<^bold>\<open>Executor\<close> (\<open>src/task/thread_pool_executor.cpp\<close>): \<open>CK_Executor\<close> models every locked section as a function and the workers as an
  inductive step relation. \<open>CK_Executor_Table\<close> and \<open>CK_Executor_Pool\<close> hold the invariant, \<open>CK_Executor_Props\<close> the properties of
  reachable states. \<open>CK_Executor_Client\<close> adds a client thread under an arbitrary schedule of the workers and interprets
  \<open>reliable_executor\<close> on the pool, so that \<open>RunWithExecutor\<close> on the modelled pool is correct for every schedule. \<open>CK_ParallelFor\<close>
  treats the parallel loop. \<open>CK_Executor_Timeout\<close> gives the client a clock and treats \<open>Wait\<close> and \<open>WaitBatch\<close> with timeouts: they
  always return, are not early, and report what is true of the pool. \<open>CK_Executor_Shutdown\<close> is the destructor, which returns with
  every accepted job run once and no cancelled one. \<open>CK_Executor_Helpers\<close> (\<open>include/corekit/task/executor_helpers.hpp\<close>) follows an
  executor from its creation through submissions to its destruction.

  \<^bold>\<open>Memory\<close>: \<open>CK_Allocator\<close> models the three allocators (\<open>src/memory/system_allocator.cpp\<close>, \<open>mimalloc_allocator.cpp\<close>,
  \<open>tbb_allocator.cpp\<close>); \<open>CK_Allocator_Spec\<close> is the contract of an allocator as a locale, interpreted on the three.
  \<open>CK_Global_Allocator\<close> (\<open>global_allocator.cpp\<close>) interprets it again on the process-wide allocator and proves that a block returns
  to the library it came from. \<open>CK_ObjectPool\<close> (\<open>basic_object_pool_impl.hpp\<close>) and the memory pool (\<open>slab_pool_impl.hpp\<close>) are clients of
  that contract: \<open>CK_SlabPool\<close> is the model, \<open>CK_SlabPool_Inv\<close> the invariant, \<open>CK_SlabPool_Ops\<close> and \<open>CK_SlabPool_Blocks\<close> its preservation,
  \<open>CK_SlabPool_Props\<close> the properties, \<open>CK_SystemPool\<close> the process-wide pool (\<open>system_pool.cpp\<close>). \<open>CK_Json\<close> models the codec
  (\<open>src/json/json_codec.cpp\<close>) over a file system.

  \<^bold>\<open>Log manager\<close> (\<open>src/log_manager.cpp\<close>, in the POSIX build): \<open>CK_LogText\<close> holds the path and value helpers, \<open>CK_LogConfig\<close> the
  options and the configuration parser (a written configuration reads back as itself), \<open>CK_LogFormat\<close> the line formats (a JSON
  line reads back as its fields by an independent reader), \<open>CK_LogSink\<close> the sink with its queue and worker thread as a transition
  relation (accepted lines are written in order, dropped ones are counted), \<open>CK_LogManager\<close> the process-wide state and the operations
  (glog is called in a legal order; sink and flags follow the reported options).

  \<^bold>\<open>Files, XML, handles, C functions\<close>: \<open>CK_File\<close> (\<open>src/io\<close>) models \<open>StdFile\<close> and \<open>FileUtils\<close> over buffered streams with faults as inputs;
  \<open>CK_Xml\<close> (\<open>src/xml/tinyxml2_doc_impl.cpp\<close>) the nodes and documents over tinyxml2; \<open>CK_Handle\<close>
  (\<open>include/corekit/api/unique_handle.hpp\<close>) the move-only owner, which releases every component once. \<open>CK_CApi\<close>
  (\<open>src/api/c_api.cpp\<close>, \<open>include/corekit/log/log_macros.hpp\<close>) holds the functions that create and destroy components.

  \<^bold>\<open>Fuel and bounds.\<close> Loops are structural or have termination proofs. \<open>delete_pool\<close> has fuel; the number of pools is
  enough (\<open>delete_pool_total\<close>). \<open>ParallelFor\<close> may not end and is a partial function; \<open>CK_ParallelFor\<close> proves when it does.
  The loops of \<open>CK_LockFree\<close> and \<open>CK_Xml\<close> that follow third-party lists are partial functions too and are proved to return.

  \<^bold>\<open>Not modelled.\<close> The memory of the pools' own containers; races inside the counters of the memory pool; how long a step of
  a worker takes is an input, so there is no upper bound on the time a timed wait overruns; the Windows branches other than the
  Win32 backend; third-party code, and the example and test programs.
\<close>

end
